(* ===== verification/Gcc_Prelude.thy ===== *)
theory Gcc_Prelude
  imports Main "HOL-Library.Word"
begin

text \<open>
  Shared vocabulary of the development: the host integer types of \<open>src/gcc/hwint.h\<close> for the
  usual host (\<open>HOST_WIDE_INT\<close> is a 64-bit \<open>long\<close>, \<open>int\<close> has 32 bits), the outcomes of code that
  may hit an assertion or an undefined operation, and the lemmas on words, lists and
  digit sequences that several components use.

  A signed C integer and the unsigned integer of the same width are one word type; signed
  comparisons are written with \<open>sint\<close> or the word library's signed orders, unsigned ones with
  the plain orders. Signed arithmetic is two's complement, as on every host GCC supports.
\<close>

unbundle bit_operations_syntax

section \<open>Host types and outcomes\<close>

type_synonym hwi = "64 word"
type_synonym uint32 = "32 word"
type_synonym uchar = "8 word"

abbreviation HOST_BITS_PER_WIDE_INT :: nat where
  "HOST_BITS_PER_WIDE_INT \<equiv> 64"

text \<open>
  \<open>gcc_assert\<close> and \<open>gcc_unreachable\<close> abort the compiler (\<open>Ice\<close>); an operation the C standard
  leaves undefined (a shift by the width of its operand, an array access out of bounds) is
  \<open>Undefined\<close>.
\<close>

datatype failure = Ice | Undefined

type_synonym 'a outcome = "failure + 'a"

text \<open>Results of a search that is bounded by fuel: out of fuel, a failure, or a value.\<close>

type_synonym 'a search = "'a outcome option"

definition and_then :: "'a search \<Rightarrow> ('a \<Rightarrow> 'b search) \<Rightarrow> 'b search" where
  "and_then r f = (case r of None \<Rightarrow> None | Some (Inl e) \<Rightarrow> Some (Inl e) | Some (Inr x) \<Rightarrow> f x)"

lemma and_then_simps [simp]:
  "and_then None f = None" "and_then (Some (Inl e)) f = Some (Inl e)" "and_then (Some (Inr x)) f = f x"
  by (simp_all add: and_then_def)

text \<open>C's remainder: the sign of the dividend.\<close>

definition c_rem :: "int \<Rightarrow> int \<Rightarrow> int" where
  "c_rem a b = sgn a * (\<bar>a\<bar> mod \<bar>b\<bar>)"

section \<open>Words of the host\<close>

lemma bit_one_zero [simp]: "bit (Suc 0) 0"
  by (simp add: bit_0)

text \<open>The value of a host word after wrap-around, with the bound written as a numeral.\<close>

lemma uint64_range: "0 \<le> uint (x :: hwi)" "uint (x :: hwi) < 18446744073709551616"
  using uint_lt2p [of x] by simp_all

lemma uint64_add:
  "uint (a + b :: hwi) = (if uint a + uint b < 2 ^ 64 then uint a + uint b else uint a + uint b - 2 ^ 64)"
  by (simp add: uint_plus_if_size word_size)

lemma uint64_sub:
  "uint (a - b :: hwi) = (if uint b \<le> uint a then uint a - uint b else uint a - uint b + 2 ^ 64)"
  by (simp add: uint_sub_if_size word_size)

lemma uint64_neg: "uint (- a :: hwi) = (if a = 0 then 0 else 2 ^ 64 - uint a)"
  using uint64_sub [of 0 a] uint64_range [of a] by (simp add: order_class.antisym_conv1 uint_0_iff)

lemma uint64_not: "uint (NOT a :: hwi) = 2 ^ 64 - 1 - uint a"
proof -
  have "NOT a = - 1 - a" by (simp add: not_eq_complement)
  moreover have "uint (- 1 :: hwi) = 2 ^ 64 - 1"
    by (simp add: unsigned_minus_1_eq_mask mask_eq_exp_minus_1)
  ultimately show ?thesis using uint64_sub [of "- 1" a] uint64_range [of a] by simp
qed

lemma carry_out: "(l1 + l2 < l1) \<longleftrightarrow> 2 ^ 64 \<le> uint l1 + uint (l2 :: hwi)"
  using uint64_range [of l1] uint64_range [of l2]
  by (simp add: word_less_def uint64_add)

lemma sint64_uint: "sint (x :: hwi) = (if uint x < 2 ^ 63 then uint x else uint x - 2 ^ 64)"
proof -
  have "odd (uint x div 2 ^ 63) \<longleftrightarrow> \<not> uint x < 2 ^ 63"
  proof (cases "uint x < 2 ^ 63")
    case True
    then show ?thesis using uint64_range [of x] by simp
  next
    case False
    then have "uint x div 2 ^ 63 = 1"
      using uint64_range [of x] by (intro int_div_pos_eq [where r = "uint x - 2 ^ 63"]) simp_all
    with False show ?thesis by simp
  qed
  then show ?thesis
    using uint64_range [of x]
    by (simp add: sint_uint signed_take_bit_eq_take_bit_minus take_bit_eq_mod bit_iff_odd)
qed

lemma or_eq_0_iff_word: "a OR b = 0 \<longleftrightarrow> a = 0 \<and> b = (0 :: 'a::len word)"
  by (auto simp: bit_eq_iff bit_simps)

lemma xor_eq_0_iff_word: "a XOR b = 0 \<longleftrightarrow> a = (b :: 'a::len word)"
  by (auto simp: bit_eq_iff bit_simps)

section \<open>Division by multiplication\<close>

text \<open>The division identity behind the multiplication (Granlund and Montgomery).\<close>

lemma multiply_shift_divides:
  fixes d x m K e :: int
  assumes d: "0 < d" and low: "K \<le> m * d" and high: "m * d \<le> K + e" and x: "0 \<le> x" "e * x < K"
  shows "(m * x) div K = x div d"
proof (rule int_div_pos_eq [where r = "m * x - K * (x div d)"])
  define q r where "q = x div d" and "r = x mod d"
  have x_eq: "x = q * d + r" and r: "0 \<le> r" "r < d" using d by (simp_all add: q_def r_def)
  have q: "0 \<le> q" using d x by (simp add: q_def pos_imp_zdiv_nonneg_iff)
  have "0 \<le> e" using low high by simp
  then have K: "0 < K" using x by (smt (verit) mult_nonneg_nonneg)
  have dm: "d * (m * x) = (m * d) * x" by simp
  have "K * x \<le> (m * d) * x" using low x by (simp add: mult_right_mono)
  moreover have "d * (K * q) \<le> K * x" using K r by (simp add: x_eq algebra_simps)
  ultimately have "d * (K * q) \<le> d * (m * x)" unfolding dm by (rule order_trans [rotated])
  then have lo: "K * q \<le> m * x" using d by simp
  have "(m * d) * x \<le> (K + e) * x" using high x by (simp add: mult_right_mono)
  also have "\<dots> < K * x + K" using x by (simp add: algebra_simps)
  also have "\<dots> \<le> K * (q * d) + K * d"
  proof -
    have "K * (r + 1) \<le> K * d" using r K by (intro mult_left_mono) simp_all
    then show ?thesis by (simp add: x_eq algebra_simps)
  qed
  finally have "d * (m * x) < d * (K * q + K)" by (simp add: algebra_simps)
  then have hi: "m * x < K * q + K" using d by simp
  show "m * x = K * (x div d) + (m * x - K * (x div d))" by simp
  show "0 \<le> m * x - K * (x div d)" "m * x - K * (x div d) < K" using lo hi by (simp_all add: q_def)
qed

section \<open>Decimal output\<close>

text \<open>\<open>fprintf\<close> with \<open>%u\<close>.\<close>

fun dec_string :: "nat \<Rightarrow> string" where
  "dec_string n = (if n < 10 then [char_of (48 + n)] else dec_string (n div 10) @ [char_of (48 + n mod 10)])"

declare dec_string.simps [simp del]

lemma dec_string_snoc: "q \<noteq> 0 \<Longrightarrow> d < 10 \<Longrightarrow> dec_string (10 * q + d) = dec_string q @ dec_string d"
  by (simp add: dec_string.simps [of "10 * q + d"] dec_string.simps [of d])

end
