(* ===== verification/Double_Word.thy ===== *)
theory Double_Word
  imports Gcc_Prelude
begin

text \<open>
  Two-word integer arithmetic, \<open>src/gcc/fold-const.c\<close>: \<open>encode\<close>, \<open>decode\<close>,
  \<open>add_double_with_sign\<close>, \<open>neg_double\<close>, \<open>mul_double_with_sign\<close>, the shifts and rotates, and
  \<open>div_and_round_double\<close>. A function that stores through \<open>*lv\<close>, \<open>*hv\<close> and returns an
  overflow flag becomes one that returns the triple (flag, low word, high word).
\<close>

section \<open>Definitions\<close>

abbreviation OVERFLOW_SUM_SIGN :: "hwi \<Rightarrow> hwi \<Rightarrow> hwi \<Rightarrow> bool" where
  "OVERFLOW_SUM_SIGN a b s \<equiv> sint (NOT (a XOR b) AND (a XOR s)) < 0"

definition BASE :: hwi where
  "BASE = push_bit (HOST_BITS_PER_WIDE_INT div 2) 1"

definition LOWPART :: "hwi \<Rightarrow> hwi" where
  "LOWPART x = x AND (push_bit (HOST_BITS_PER_WIDE_INT div 2) 1 - 1)"

definition HIGHPART :: "hwi \<Rightarrow> hwi" where
  "HIGHPART x = drop_bit (HOST_BITS_PER_WIDE_INT div 2) x"

definition encode :: "hwi \<Rightarrow> hwi \<Rightarrow> hwi list" where
  "encode lo hi = [LOWPART lo, HIGHPART lo, LOWPART hi, HIGHPART hi]"

text \<open>\<open>decode\<close> reads four words from the position its argument points to.\<close>

definition decode :: "hwi list \<Rightarrow> hwi \<times> hwi" where
  "decode words = (words ! 0 + words ! 1 * BASE, words ! 2 + words ! 3 * BASE)"

definition add_double_with_sign :: "hwi \<Rightarrow> hwi \<Rightarrow> hwi \<Rightarrow> hwi \<Rightarrow> bool \<Rightarrow> bool \<times> hwi \<times> hwi" where
  "add_double_with_sign l1 h1 l2 h2 unsigned_p =
     (let l = l1 + l2;
          h = h1 + h2 + (if l < l1 then 1 else 0)
      in (if unsigned_p then h < h1 else OVERFLOW_SUM_SIGN h1 h2 h, l, h))"

abbreviation add_double :: "hwi \<Rightarrow> hwi \<Rightarrow> hwi \<Rightarrow> hwi \<Rightarrow> bool \<times> hwi \<times> hwi" where
  "add_double l1 h1 l2 h2 \<equiv> add_double_with_sign l1 h1 l2 h2 False"

definition neg_double :: "hwi \<Rightarrow> hwi \<Rightarrow> bool \<times> hwi \<times> hwi" where
  "neg_double l1 h1 =
     (if l1 = 0 then (let hv = - h1 in (sint (hv AND h1) < 0, 0, hv))
      else (False, - l1, NOT h1))"

text \<open>The two nested loops of the schoolbook product; \<open>i\<close>, \<open>j\<close> are the loop counters.\<close>

function mul_inner :: "hwi list \<Rightarrow> hwi list \<Rightarrow> nat \<Rightarrow> nat \<Rightarrow> hwi list \<Rightarrow> hwi \<Rightarrow> hwi list \<times> hwi" where
  "mul_inner arg1 arg2 i j prd carry =
     (if j < 4 then
        (let k = i + j;
             carry = carry + arg1 ! i * arg2 ! j;
             carry = carry + prd ! k
         in mul_inner arg1 arg2 i (Suc j) (prd[k := LOWPART carry]) (HIGHPART carry))
      else (prd, carry))"
  by pat_completeness auto
termination
  by (relation "measure (\<lambda>(_, _, _, j, _, _). 4 - j)") auto

function mul_outer :: "hwi list \<Rightarrow> hwi list \<Rightarrow> nat \<Rightarrow> hwi list \<Rightarrow> hwi list" where
  "mul_outer arg1 arg2 i prd =
     (if i < 4 then
        (let (prd, carry) = mul_inner arg1 arg2 i 0 prd 0
         in mul_outer arg1 arg2 (Suc i) (prd[i + 4 := carry]))
      else prd)"
  by pat_completeness auto
termination
  by (relation "measure (\<lambda>(_, _, i, _). 4 - i)") auto

definition mul_double_with_sign :: "hwi \<Rightarrow> hwi \<Rightarrow> hwi \<Rightarrow> hwi \<Rightarrow> bool \<Rightarrow> bool \<times> hwi \<times> hwi" where
  "mul_double_with_sign l1 h1 l2 h2 unsigned_p =
     (let prd = mul_outer (encode l1 h1) (encode l2 h2) 0 (replicate 8 0);
          (lv, hv) = decode prd;
          (toplow, tophigh) = decode (drop 4 prd)
      in if unsigned_p then ((toplow OR tophigh) \<noteq> 0, lv, hv)
         else
           (let (toplow, tophigh) =
                  (if sint h1 < 0 then
                     (let (_, neglow, neghigh) = neg_double l2 h2
                      in snd (add_double neglow neghigh toplow tophigh))
                   else (toplow, tophigh));
                (toplow, tophigh) =
                  (if sint h2 < 0 then
                     (let (_, neglow, neghigh) = neg_double l1 h1
                      in snd (add_double neglow neghigh toplow tophigh))
                   else (toplow, tophigh))
            in ((if sint hv < 0 then NOT (toplow AND tophigh) else toplow OR tophigh) \<noteq> 0,
                lv, hv)))"

abbreviation mul_double :: "hwi \<Rightarrow> hwi \<Rightarrow> hwi \<Rightarrow> hwi \<Rightarrow> bool \<times> hwi \<times> hwi" where
  "mul_double l1 h1 l2 h2 \<equiv> mul_double_with_sign l1 h1 l2 h2 False"

declare mul_inner.simps [simp del] mul_outer.simps [simp del]

section \<open>The integers a pair of words stands for\<close>

text \<open>\<open>udval\<close> reads the pair as unsigned, \<open>sdval\<close> as two's complement.\<close>

definition udval :: "hwi \<Rightarrow> hwi \<Rightarrow> int" where
  "udval l h = uint h * 2 ^ 64 + uint l"

definition sdval :: "hwi \<Rightarrow> hwi \<Rightarrow> int" where
  "sdval l h = sint h * 2 ^ 64 + uint l"

definition fits_sdval :: "int \<Rightarrow> bool" where
  "fits_sdval x \<longleftrightarrow> - (2 ^ 127) \<le> x \<and> x < 2 ^ 127"

lemma udval_range: "0 \<le> udval l h" "udval l h < 2 ^ 128"
  using uint64_range [of l] uint64_range [of h] by (simp_all add: udval_def)

lemma sdval_udval: "sdval l h = (if udval l h < 2 ^ 127 then udval l h else udval l h - 2 ^ 128)"
proof (cases "uint h < 2 ^ 63")
  case True
  with uint64_range [of l] show ?thesis by (simp add: sdval_def udval_def sint64_uint)
next
  case False
  then have "uint h \<ge> 2 ^ 63" by simp
  then have "udval l h \<ge> 2 ^ 127"
    unfolding udval_def by simp (use uint64_range [of l] in linarith)
  with False show ?thesis by (simp add: sdval_def udval_def sint64_uint)
qed

lemma sdval_fits: "fits_sdval (sdval l h)"
  using udval_range [of l h] by (simp add: fits_sdval_def sdval_udval)

lemma sdval_neg_iff: "sdval l h < 0 \<longleftrightarrow> sint h < 0"
  unfolding sdval_def by simp (use uint64_range [of l] in linarith)

lemma udval_inj: "udval l h = udval l' h' \<longleftrightarrow> l = l' \<and> h = h'"
proof
  assume eq: "udval l h = udval l' h'"
  have "uint h = udval l h div 2 ^ 64" "uint l = udval l h mod 2 ^ 64" for l h
    using uint64_range [of l] by (simp_all add: udval_def)
  then show "l = l' \<and> h = h'" using eq by (metis word_uint_eq_iff)
qed simp

text \<open>Reducing a sum, a difference or a complement into the unsigned range.\<close>

lemma mod_D_if:
  "(x :: int) mod 2 ^ 128 = y" if "0 \<le> y" "y < 2 ^ 128" "x = y \<or> x = y + 2 ^ 128 \<or> x = y - 2 ^ 128"
proof -
  have "x mod 2 ^ 128 = y mod 2 ^ 128"
    using that(3) by (elim disjE) (simp_all only: mod_add_self2 minus_mod_self2)
  with that(1,2) show ?thesis by (simp only: mod_pos_pos_trivial)
qed

lemma add_double_udval:
  assumes "add_double_with_sign l1 h1 l2 h2 u = (ov, lv, hv)"
  shows "udval lv hv = (udval l1 h1 + udval l2 h2) mod 2 ^ 128"
proof (rule mod_D_if [symmetric])
  have lv: "lv = l1 + l2" and hv: "hv = h1 + h2 + (if l1 + l2 < l1 then 1 else 0)"
    using assms by (auto simp: add_double_with_sign_def Let_def)
  let ?c = "if 2 ^ 64 \<le> uint l1 + uint l2 then 1 else 0 :: int"
  have l: "uint lv = uint l1 + uint l2 - ?c * 2 ^ 64"
    by (simp add: lv uint64_add)
  have "uint hv = uint h1 + uint h2 + ?c \<or> uint hv = uint h1 + uint h2 + ?c - 2 ^ 64"
    using uint64_range [of h1] uint64_range [of h2] by (auto simp: hv carry_out uint64_add)
  with l show "udval l1 h1 + udval l2 h2 = udval lv hv \<or>
      udval l1 h1 + udval l2 h2 = udval lv hv + 2 ^ 128 \<or>
      udval l1 h1 + udval l2 h2 = udval lv hv - 2 ^ 128"
    by (auto simp: udval_def)
qed (rule udval_range)+

lemma neg_double_udval:
  assumes "neg_double l1 h1 = (ov, lv, hv)"
  shows "udval lv hv = (- udval l1 h1) mod 2 ^ 128"
proof (rule mod_D_if [symmetric])
  show "- udval l1 h1 = udval lv hv \<or> - udval l1 h1 = udval lv hv + 2 ^ 128 \<or>
      - udval l1 h1 = udval lv hv - 2 ^ 128"
    using assms by (auto simp: neg_double_def udval_def uint64_neg uint64_not Let_def split: if_splits)
qed (rule udval_range)+

text \<open>Both readings are determined by the value modulo \<open>2 ^ 128\<close>.\<close>

lemma signed_take_bit_mod_D:
  "x mod 2 ^ 128 = y mod 2 ^ 128 \<Longrightarrow> signed_take_bit 127 x = signed_take_bit 127 (y :: int)"
  unfolding signed_take_bit_eq_iff_take_bit_eq by (simp add: take_bit_eq_mod)

lemma sdval_signed_take_bit: "sdval l h = signed_take_bit 127 (udval l h)"
proof (cases "udval l h < 2 ^ 127")
  case True
  then show ?thesis
    using udval_range [of l h] by (simp add: sdval_udval signed_take_bit_int_eq_self)
next
  case False
  then have "signed_take_bit 127 (udval l h - 2 ^ 128) = udval l h - 2 ^ 128"
    using udval_range [of l h] by (intro signed_take_bit_int_eq_self) simp_all
  moreover have "signed_take_bit 127 (udval l h - 2 ^ 128) = signed_take_bit 127 (udval l h)"
    by (rule signed_take_bit_mod_D) (simp only: minus_mod_self2)
  ultimately show ?thesis using False by (simp add: sdval_udval)
qed

lemma fits_iff_signed_take_bit: "fits_sdval x \<longleftrightarrow> signed_take_bit 127 x = x"
  unfolding fits_sdval_def using signed_take_bit_int_eq_self_iff [of 127 x] by auto

lemma udval_mod_sdval: "udval l h mod 2 ^ 128 = sdval l h mod 2 ^ 128"
  unfolding sdval_udval by (simp only: minus_mod_self2 split: if_split) simp

lemma sdval_of_mod:
  assumes "udval l h = x mod 2 ^ 128"
  shows "sdval l h = signed_take_bit 127 x"
  unfolding sdval_signed_take_bit assms by (rule signed_take_bit_mod_D) (simp only: mod_mod_trivial)

lemma sint_neg_bit: "sint (x :: hwi) < 0 \<longleftrightarrow> bit x 63"
  using bit_last_iff [of x] by simp

lemma add_double_sdval:
  assumes "add_double_with_sign l1 h1 l2 h2 u = (ov, lv, hv)"
  shows "sdval lv hv = signed_take_bit 127 (sdval l1 h1 + sdval l2 h2)"
proof -
  have "(udval l1 h1 + udval l2 h2) mod 2 ^ 128 = (sdval l1 h1 + sdval l2 h2) mod 2 ^ 128"
    by (metis mod_add_eq udval_mod_sdval)
  with add_double_udval [OF assms] show ?thesis by (intro sdval_of_mod) (simp only:)
qed

lemma signed_take_bit_fits: "fits_sdval (signed_take_bit 127 x)"
  unfolding fits_iff_signed_take_bit by simp

lemma signed_take_bit_127_cases:
  assumes "- (2 ^ 128) \<le> x" "x < (2 :: int) ^ 128"
  shows "signed_take_bit 127 x =
    (if x < - (2 ^ 127) then x + 2 ^ 128 else if x < 2 ^ 127 then x else x - 2 ^ 128)"
    (is "_ = ?y")
proof -
  have "signed_take_bit 127 x = signed_take_bit 127 ?y"
    by (rule signed_take_bit_mod_D) (simp only: minus_mod_self2 mod_add_self2 split: if_splits, simp)
  also have "\<dots> = ?y"
    using assms by (intro signed_take_bit_int_eq_self) auto
  finally show ?thesis .
qed

text \<open>The sign rule of \<open>OVERFLOW_SUM_SIGN\<close> detects exactly the sums that leave the range.\<close>

lemma overflow_sum_sign_iff:
  assumes "s = signed_take_bit 127 (a + b)" "fits_sdval a" "fits_sdval b"
  shows "(a < 0) = (b < 0) \<and> (a < 0) \<noteq> (s < 0) \<longleftrightarrow> \<not> fits_sdval (a + b)"
  using assms signed_take_bit_127_cases [of "a + b"] by (auto simp: fits_sdval_def)

lemma OVERFLOW_SUM_SIGN_iff:
  "OVERFLOW_SUM_SIGN a b s \<longleftrightarrow> (sint a < 0) = (sint b < 0) \<and> (sint a < 0) \<noteq> (sint s < 0)"
  by (auto simp: sint_neg_bit bit_simps)

lemma add_double_overflow:
  assumes "add_double_with_sign l1 h1 l2 h2 False = (ov, lv, hv)"
  shows "ov \<longleftrightarrow> \<not> fits_sdval (sdval l1 h1 + sdval l2 h2)"
proof -
  have "ov \<longleftrightarrow> OVERFLOW_SUM_SIGN h1 h2 hv"
    using assms by (auto simp: add_double_with_sign_def Let_def)
  then show ?thesis
    using overflow_sum_sign_iff [OF add_double_sdval [OF assms] sdval_fits sdval_fits]
    unfolding OVERFLOW_SUM_SIGN_iff by (simp only: sdval_neg_iff)
qed

lemma neg_double_sdval:
  assumes "neg_double l1 h1 = (ov, lv, hv)"
  shows "sdval lv hv = signed_take_bit 127 (- sdval l1 h1)"
proof -
  have "(- udval l1 h1) mod 2 ^ 128 = (- sdval l1 h1) mod 2 ^ 128"
    by (metis mod_minus_eq udval_mod_sdval)
  with neg_double_udval [OF assms] show ?thesis by (intro sdval_of_mod) (simp only:)
qed

lemma neg_double_overflow:
  assumes "neg_double l1 h1 = (ov, lv, hv)"
  shows "ov \<longleftrightarrow> sdval l1 h1 = - (2 ^ 127)"
proof (cases "l1 = 0")
  case False
  then have "0 < uint l1" using uint64_range [of l1] by (simp add: uint_0_iff order_less_le)
  moreover have "ov = False" using assms False by (simp add: neg_double_def)
  ultimately show ?thesis
    using sdval_fits [of 0 h1] uint64_range [of l1] by (auto simp: sdval_def fits_sdval_def)
next
  case True
  then have "ov \<longleftrightarrow> sint (- h1) < 0 \<and> sint h1 < 0"
    using assms by (auto simp: neg_double_def Let_def sint_neg_bit bit_simps)
  with True show ?thesis
    using uint64_range [of h1]
    by (auto simp: sdval_def sint64_uint uint64_neg) (use uint64_range [of h1] in linarith)
qed

text \<open>
  The unsigned flag compares only the high words: it misses the overflow when the high word of
  the second operand is all ones and the low words carry.
\<close>

lemma add_double_unsigned_flag:
  assumes "add_double_with_sign l1 h1 l2 h2 True = (ov, lv, hv)"
  shows "ov \<longleftrightarrow> 2 ^ 128 \<le> udval l1 h1 + udval l2 h2
    \<and> \<not> (h2 = - 1 \<and> 2 ^ 64 \<le> uint l1 + uint l2)"
proof -
  let ?c = "if l1 + l2 < l1 then 1 else 0 :: hwi"
  have ov: "ov \<longleftrightarrow> 2 ^ 64 \<le> uint h1 + uint (h2 + ?c)"
    using assms carry_out [of h1 "h2 + ?c"]
    by (auto simp: add_double_with_sign_def Let_def add.assoc)
  have m1: "h2 = - 1 \<longleftrightarrow> uint h2 = 2 ^ 64 - 1"
    by (simp add: word_uint_eq_iff unsigned_minus_1_eq_mask mask_eq_exp_minus_1)
  show ?thesis
    unfolding ov m1 udval_def using uint64_range [of h1] uint64_range [of h2]
      uint64_range [of l1] uint64_range [of l2]
    by (auto simp: carry_out uint64_add) (use uint64_range [of l1] uint64_range [of l2] in linarith)
qed


section \<open>Digit sequences\<close>

text \<open>
  The four-word form holds one base-\<open>2 ^ 32\<close> digit in each word; \<open>digval\<close> is the number a
  sequence of digits stands for, least significant digit first.
\<close>

primrec digval :: "hwi list \<Rightarrow> int" where
  "digval [] = 0"
| "digval (w # ws) = uint w + 2 ^ 32 * digval ws"

definition digits :: "hwi list \<Rightarrow> bool" where
  "digits ws \<longleftrightarrow> (\<forall>w \<in> set ws. uint w < 2 ^ 32)"

lemma digits_simps [simp]:
  "digits []" "digits (w # ws) \<longleftrightarrow> uint w < 2 ^ 32 \<and> digits ws"
  by (auto simp: digits_def)

lemma digits_nth: "digits ws \<Longrightarrow> k < length ws \<Longrightarrow> uint (ws ! k) < 2 ^ 32"
  by (auto simp: digits_def)

lemma digits_update: "digits ws \<Longrightarrow> uint w < 2 ^ 32 \<Longrightarrow> digits (ws[k := w])"
  using set_update_subset_insert [of ws k w] by (auto simp: digits_def)

lemma digval_nonneg: "0 \<le> digval ws"
  by (induction ws) auto

lemma digval_less: "digits ws \<Longrightarrow> digval ws < (2 ^ 32) ^ length ws"
proof (induction ws)
  case (Cons w ws)
  then have "digval ws + 1 \<le> (2 ^ 32) ^ length ws" and "uint w < 2 ^ 32" by simp_all
  then have "uint w + 2 ^ 32 * digval ws < 2 ^ 32 * (digval ws + 1)" by simp
  also have "\<dots> \<le> 2 ^ 32 * (2 ^ 32) ^ length ws"
    using \<open>digval ws + 1 \<le> _\<close> by (intro mult_left_mono) simp_all
  finally show ?case by (simp only: digval.simps list.size power_Suc add_Suc_right add_0_right)
qed simp

lemma digval_update:
  "k < length ws \<Longrightarrow> digval (ws[k := w]) = digval ws + (uint w - uint (ws ! k)) * (2 ^ 32) ^ k"
proof (induction ws arbitrary: k)
  case (Cons v ws)
  show ?case
  proof (cases k)
    case (Suc m)
    with Cons have "digval (ws[m := w]) = digval ws + (uint w - uint (ws ! m)) * (2 ^ 32) ^ m" by simp
    with Suc show ?thesis by (simp only: list_update_code digval.simps nth_Cons_Suc power_Suc distrib_left mult_ac add_ac)
  qed simp
qed simp

lemma digval_take_Suc:
  "j < length ws \<Longrightarrow> digval (take (Suc j) ws) = digval (take j ws) + uint (ws ! j) * (2 ^ 32) ^ j"
proof (induction ws arbitrary: j)
  case (Cons v ws)
  then show ?case by (cases j) (simp_all add: algebra_simps)
qed simp

lemma digval_replicate_0 [simp]: "digval (replicate n 0) = 0"
  by (induction n) auto

lemma digits_replicate_0 [simp]: "digits (replicate n 0)"
  by (auto simp: digits_def)

lemma digval_append: "digval (xs @ ys) = digval xs + (2 ^ 32) ^ length xs * digval ys"
  by (induction xs) (simp_all add: algebra_simps)

lemma uint_LOWPART: "uint (LOWPART x) = uint x mod 2 ^ 32"
proof -
  have "LOWPART x = take_bit 32 x"
    by (simp add: LOWPART_def take_bit_eq_mask mask_eq_exp_minus_1 push_bit_eq_mult)
  then show ?thesis by (simp only: unsigned_take_bit_eq) (simp add: take_bit_eq_mod)
qed

lemma uint_HIGHPART: "uint (HIGHPART x) = uint x div 2 ^ 32"
  unfolding HIGHPART_def unsigned_drop_bit_eq by (simp add: drop_bit_eq_div take_bit_int_eq_self uint64_range)

lemma uint_HIGHPART_less: "uint (HIGHPART x) < 2 ^ 32"
  using uint64_range [of x] by (simp add: uint_HIGHPART)

lemma low_high: "uint (LOWPART x) + 2 ^ 32 * uint (HIGHPART x) = uint x"
  by (simp add: uint_LOWPART uint_HIGHPART)

lemma encode_digval: "digval (encode l h) = udval l h"
  using low_high [of l] low_high [of h] by (simp add: encode_def udval_def algebra_simps)

lemma encode_digits: "digits (encode l h)" "length (encode l h) = 4"
  by (simp_all add: encode_def uint_LOWPART uint_HIGHPART_less [simplified])


section \<open>The product loops\<close>

text \<open>One multiply-and-add step does not overflow a host word.\<close>

lemma digit_product_le:
  assumes "0 \<le> a" "a < (2 :: int) ^ 32" "0 \<le> b" "b < 2 ^ 32"
  shows "a * b \<le> (2 ^ 32 - 1) * (2 ^ 32 - 1)"
  using assms by (intro mult_mono) auto

lemma uint64_mult_exact: "uint a * uint b < 2 ^ 64 \<Longrightarrow> uint (a * b :: hwi) = uint a * uint b"
  by (simp add: uint_word_ariths)

lemma uint64_add_exact: "uint a + uint b < 2 ^ 64 \<Longrightarrow> uint (a + b :: hwi) = uint a + uint b"
  by (simp add: uint64_add)

lemma mul_add_digit:
  assumes "uint c < 2 ^ 32" "uint a < 2 ^ 32" "uint b < 2 ^ 32" "uint p < 2 ^ 32"
  shows "uint (c + a * b + p :: hwi) = uint c + uint a * uint b + uint p"
proof -
  have le: "uint a * uint b \<le> (2 ^ 32 - 1) * (2 ^ 32 - 1)"
    using assms by (intro digit_product_le) auto
  then have "uint (a * b) = uint a * uint b" by (intro uint64_mult_exact) simp
  then show ?thesis using le assms by (simp add: uint64_add_exact)
qed

lemma mul_inner_correct:
  assumes "mul_inner arg1 arg2 i j prd carry = (prd', carry')"
    and "j \<le> 4" "i < 4" "digits arg1" "length arg1 = 4" "digits arg2" "length arg2 = 4"
    and "digits prd" "length prd = 8" "uint carry < 2 ^ 32"
  shows "digits prd' \<and> length prd' = 8 \<and> uint carry' < 2 ^ 32 \<and>
    (\<forall>k. i + 4 \<le> k \<longrightarrow> prd' ! k = prd ! k) \<and>
    digval prd' + uint carry' * (2 ^ 32) ^ (i + 4) =
      digval prd + uint carry * (2 ^ 32) ^ (i + j)
      + uint (arg1 ! i) * (digval arg2 - digval (take j arg2)) * (2 ^ 32) ^ i"
  using assms
proof (induction arg1 arg2 i j prd carry rule: mul_inner.induct)
  case (1 arg1 arg2 i j prd carry)
  show ?case
  proof (cases "j < 4")
    case False
    with "1.prems" show ?thesis by (simp add: mul_inner.simps [of _ _ _ j])
  next
    case True
    define s where "s = carry + arg1 ! i * arg2 ! j + prd ! (i + j)"
    define prd1 where "prd1 = prd[i + j := LOWPART s]"
    have s: "uint s = uint carry + uint (arg1 ! i) * uint (arg2 ! j) + uint (prd ! (i + j))"
      unfolding s_def using "1.prems" True by (intro mul_add_digit digits_nth) auto
    have step: "mul_inner arg1 arg2 i (Suc j) prd1 (HIGHPART s) = (prd', carry')"
      using "1.prems"(1) True by (simp add: mul_inner.simps [of _ _ _ j] Let_def s_def prd1_def)
    have d: "digits prd1" "length prd1 = 8"
      using "1.prems" by (auto simp: prd1_def uint_LOWPART intro: digits_update)
    have IH: "digits prd' \<and> length prd' = 8 \<and> uint carry' < 2 ^ 32 \<and>
        (\<forall>k. i + 4 \<le> k \<longrightarrow> prd' ! k = prd1 ! k) \<and>
        digval prd' + uint carry' * (2 ^ 32) ^ (i + 4) =
          digval prd1 + uint (HIGHPART s) * (2 ^ 32) ^ (i + Suc j)
          + uint (arg1 ! i) * (digval arg2 - digval (take (Suc j) arg2)) * (2 ^ 32) ^ i"
      using "1.IH" [OF True refl refl refl] step d "1.prems" True uint_HIGHPART_less
      by (auto simp: s_def prd1_def)
    have "digval prd1 = digval prd + (uint (LOWPART s) - uint (prd ! (i + j))) * (2 ^ 32) ^ (i + j)"
      using "1.prems" True by (simp add: prd1_def digval_update)
    moreover have "digval (take (Suc j) arg2) = digval (take j arg2) + uint (arg2 ! j) * (2 ^ 32) ^ j"
      using "1.prems" True by (simp add: digval_take_Suc)
    moreover have "uint (LOWPART s) = uint s - 2 ^ 32 * uint (HIGHPART s)"
      using low_high [of s] by simp
    ultimately have "digval prd1 + uint (HIGHPART s) * (2 ^ 32) ^ (i + Suc j)
          + uint (arg1 ! i) * (digval arg2 - digval (take (Suc j) arg2)) * (2 ^ 32) ^ i
        = digval prd + uint carry * (2 ^ 32) ^ (i + j)
          + uint (arg1 ! i) * (digval arg2 - digval (take j arg2)) * (2 ^ 32) ^ i"
      unfolding s by (simp add: algebra_simps power_add)
    moreover have "prd1 ! k = prd ! k" if "i + 4 \<le> k" for k
      using that True by (simp add: prd1_def)
    ultimately show ?thesis using IH by simp
  qed
qed


lemma mul_outer_correct:
  assumes "digits arg1" "length arg1 = 4" "digits arg2" "length arg2 = 4"
    and "digits prd" "length prd = 8" "i \<le> 4" "\<forall>k. i + 4 \<le> k \<longrightarrow> k < 8 \<longrightarrow> prd ! k = 0"
    and "digval prd = digval (take i arg1) * digval arg2"
  shows "digits (mul_outer arg1 arg2 i prd) \<and> length (mul_outer arg1 arg2 i prd) = 8 \<and>
    digval (mul_outer arg1 arg2 i prd) = digval arg1 * digval arg2"
  using assms
proof (induction arg1 arg2 i prd rule: mul_outer.induct)
  case (1 arg1 arg2 i prd)
  show ?case
  proof (cases "i < 4")
    case False
    then have "mul_outer arg1 arg2 i prd = prd" by (simp add: mul_outer.simps [of arg1 arg2 i])
    with False "1.prems" show ?thesis by simp
  next
    case True
    obtain prd' carry where inner: "mul_inner arg1 arg2 i 0 prd 0 = (prd', carry)" by fastforce
    define prd1 where "prd1 = prd'[i + 4 := carry]"
    have L: "digits prd' \<and> length prd' = 8 \<and> uint carry < 2 ^ 32 \<and>
        (\<forall>k. i + 4 \<le> k \<longrightarrow> prd' ! k = prd ! k) \<and>
        digval prd' + uint carry * (2 ^ 32) ^ (i + 4) =
          digval prd + uint (arg1 ! i) * digval arg2 * (2 ^ 32) ^ i"
      using mul_inner_correct [OF inner] "1.prems" True by simp
    then have zero: "prd' ! (i + 4) = 0" using "1.prems"(8) True by simp
    have "digval prd1 = digval prd' + uint carry * (2 ^ 32) ^ (i + 4)"
      using L zero True by (simp add: prd1_def digval_update)
    also have "\<dots> = digval (take (Suc i) arg1) * digval arg2"
      using L "1.prems" True by (simp add: digval_take_Suc algebra_simps)
    finally have val: "digval prd1 = digval (take (Suc i) arg1) * digval arg2" .
    have "digits (mul_outer arg1 arg2 (Suc i) prd1) \<and> length (mul_outer arg1 arg2 (Suc i) prd1) = 8 \<and>
        digval (mul_outer arg1 arg2 (Suc i) prd1) = digval arg1 * digval arg2"
      using "1.IH" [OF True, of "(prd', carry)" prd' carry] inner L "1.prems" True val
      by (auto simp: prd1_def digits_update)
    moreover have "mul_outer arg1 arg2 i prd = mul_outer arg1 arg2 (Suc i) prd1"
      using True inner by (simp add: mul_outer.simps [of _ _ i] prd1_def)
    ultimately show ?thesis by simp
  qed
qed

text \<open>Packing four digits.\<close>

lemma uint_BASE: "uint BASE = 2 ^ 32"
  by (simp add: BASE_def)

lemma uint_pack:
  assumes "uint a < 2 ^ 32" "uint b < 2 ^ 32"
  shows "uint (a + b * BASE) = uint a + uint b * 2 ^ 32"
proof -
  have "uint (b * BASE) = uint b * 2 ^ 32"
    using assms by (subst uint64_mult_exact) (simp_all add: uint_BASE)
  then show ?thesis using assms by (subst uint64_add_exact) simp_all
qed

lemma decode_udval:
  assumes "decode ws = (l, h)" "digits ws" "4 \<le> length ws"
  shows "udval l h = digval (take 4 ws)"
proof -
  obtain a b c d r where ws: "ws = a # b # c # d # r"
    using assms(3) by (auto simp: numeral_eq_Suc Suc_le_length_iff)
  then show ?thesis
    using assms by (auto simp: decode_def udval_def uint_pack numeral_eq_Suc)
qed

lemma mul_double_product:
  assumes "prd = mul_outer (encode l1 h1) (encode l2 h2) 0 (replicate 8 0)"
    and "decode prd = (lv, hv)" "decode (drop 4 prd) = (tol, toh)"
  shows "udval l1 h1 * udval l2 h2 = udval lv hv + 2 ^ 128 * udval tol toh"
proof -
  have L: "digits prd \<and> length prd = 8 \<and> digval prd = udval l1 h1 * udval l2 h2"
    using mul_outer_correct [of "encode l1 h1" "encode l2 h2" "replicate 8 0" 0]
    by (simp add: assms(1) encode_digval encode_digits)
  then have "udval lv hv = digval (take 4 prd)"
    using assms(2) by (intro decode_udval) auto
  moreover have "udval tol toh = digval (drop 4 prd)"
    using decode_udval [OF assms(3)] L by (auto simp: digits_def dest: in_set_dropD)
  moreover have "digval prd = digval (take 4 prd) + (2 ^ 32) ^ 4 * digval (drop 4 prd)"
    using digval_append [of "take 4 prd" "drop 4 prd"] L by simp
  ultimately show ?thesis using L by simp
qed

lemma mul_double_udval:
  assumes "mul_double_with_sign l1 h1 l2 h2 u = (ov, lv, hv)"
  shows "udval lv hv = (udval l1 h1 * udval l2 h2) mod 2 ^ 128"
proof -
  obtain prd tol toh where "prd = mul_outer (encode l1 h1) (encode l2 h2) 0 (replicate 8 0)"
      "decode prd = (lv, hv)" "decode (drop 4 prd) = (tol, toh)"
    using assms by (auto simp: mul_double_with_sign_def Let_def split: prod.splits if_splits)
  from mul_double_product [OF this] show ?thesis
    using udval_range [of lv hv] by (simp only: mod_mult_self2 mod_pos_pos_trivial)
qed

lemma mul_double_sdval:
  assumes "mul_double_with_sign l1 h1 l2 h2 u = (ov, lv, hv)"
  shows "sdval lv hv = signed_take_bit 127 (sdval l1 h1 * sdval l2 h2)"
proof -
  have "(udval l1 h1 * udval l2 h2) mod 2 ^ 128 = (sdval l1 h1 * sdval l2 h2) mod 2 ^ 128"
    by (metis mod_mult_eq udval_mod_sdval)
  with mul_double_udval [OF assms] show ?thesis by (intro sdval_of_mod) (simp only:)
qed

lemma mul_double_unsigned_overflow:
  assumes "mul_double_with_sign l1 h1 l2 h2 True = (ov, lv, hv)"
  shows "ov \<longleftrightarrow> 2 ^ 128 \<le> udval l1 h1 * udval l2 h2"
proof -
  obtain prd tol toh where p: "prd = mul_outer (encode l1 h1) (encode l2 h2) 0 (replicate 8 0)"
      "decode prd = (lv, hv)" "decode (drop 4 prd) = (tol, toh)" and ov: "ov \<longleftrightarrow> tol OR toh \<noteq> 0"
    using assms by (auto simp: mul_double_with_sign_def Let_def split: prod.splits if_splits)
  have "tol OR toh = 0 \<longleftrightarrow> tol = 0 \<and> toh = 0" by (rule or_eq_0_iff)
  also have "\<dots> \<longleftrightarrow> udval tol toh = 0" using udval_inj [of tol toh 0 0] by (simp add: udval_def)
  finally show ?thesis
    using mul_double_product [OF p] ov udval_range [of lv hv] udval_range [of tol toh] by auto
qed

text \<open>The signed product's upper half, as the code derives it from the unsigned one.\<close>

lemma sub_if_neg:
  assumes "(if sint h < 0 then let (_, nl, nh) = neg_double l' h' in snd (add_double nl nh tol toh)
    else (tol, toh)) = (l2, h2)"
  shows "udval l2 h2 mod 2 ^ 128 = (udval tol toh - (if sint h < 0 then udval l' h' else 0)) mod 2 ^ 128"
proof (cases "sint h < 0")
  case True
  obtain o1 nl nh where n: "neg_double l' h' = (o1, nl, nh)" by (cases "neg_double l' h'")
  obtain o2 where a: "add_double nl nh tol toh = (o2, l2, h2)"
    using assms True n by (cases "add_double nl nh tol toh") simp
  have "udval l2 h2 mod 2 ^ 128 = ((- udval l' h') mod 2 ^ 128 + udval tol toh) mod 2 ^ 128"
    by (simp only: add_double_udval [OF a] neg_double_udval [OF n] mod_mod_trivial)
  also have "\<dots> = (- udval l' h' + udval tol toh) mod 2 ^ 128" by (simp only: mod_add_left_eq)
  finally show ?thesis using True by (simp only: if_True add.commute diff_conv_add_uminus)
qed (use assms in simp)

lemma signed_product_bound:
  assumes "fits_sdval a" "fits_sdval b"
  shows "\<bar>a * b\<bar> \<le> 2 ^ 254"
proof -
  have "\<bar>a\<bar> * \<bar>b\<bar> \<le> 2 ^ 127 * 2 ^ 127"
    using assms by (intro mult_mono) (auto simp: fits_sdval_def)
  then show ?thesis by (simp add: abs_mult)
qed

lemma sdval_udval': "sdval l h = udval l h - (if sint h < 0 then 2 ^ 128 else 0)"
proof -
  have "sint h < 0 \<longleftrightarrow> \<not> udval l h < 2 ^ 127"
    using sdval_neg_iff [of l h] sdval_udval [of l h] udval_range [of l h] by (auto split: if_splits)
  then show ?thesis by (simp add: sdval_udval)
qed

lemma mul_double_signed_top:
  assumes p: "udval l1 h1 * udval l2 h2 = udval lv hv + 2 ^ 128 * udval tol toh"
    and t: "udval t2 h2' mod 2 ^ 128 = (udval tol toh - (if sint h1 < 0 then udval l2 h2 else 0)
      - (if sint h2 < 0 then udval l1 h1 else 0)) mod 2 ^ 128"
  shows "sdval l1 h1 * sdval l2 h2 = udval lv hv + 2 ^ 128 * sdval t2 h2'"
proof -
  define H where "H = udval tol toh - (if sint h1 < 0 then udval l2 h2 else 0)
      - (if sint h2 < 0 then udval l1 h1 else 0) + (if sint h1 < 0 \<and> sint h2 < 0 then 2 ^ 128 else 0)"
  have P: "sdval l1 h1 * sdval l2 h2 = udval lv hv + 2 ^ 128 * H"
    using p unfolding sdval_udval' H_def by (simp add: algebra_simps)
  have "2 ^ 128 * H < 2 ^ 128 * 2 ^ 127" "2 ^ 128 * H \<ge> 2 ^ 128 * (- (2 ^ 127))"
    using signed_product_bound [OF sdval_fits sdval_fits, of l1 h1 l2 h2] P udval_range [of lv hv]
    by (simp_all add: abs_le_iff)
  then have "fits_sdval H" unfolding fits_sdval_def by simp
  have "sdval t2 h2' mod 2 ^ 128 = H mod 2 ^ 128"
    using t unfolding H_def udval_mod_sdval by (simp only: mod_add_self2 add_0_right split: if_split) simp
  then have "signed_take_bit 127 (sdval t2 h2') = signed_take_bit 127 H"
    by (rule signed_take_bit_mod_D)
  with \<open>fits_sdval H\<close> sdval_fits [of t2 h2'] have "sdval t2 h2' = H"
    unfolding fits_iff_signed_take_bit by simp
  with P show ?thesis by simp
qed

lemma sdval_extremes: "sdval l h = 0 \<longleftrightarrow> l OR h = 0" "sdval l h = - 1 \<longleftrightarrow> NOT (l AND h) = 0"
proof -
  have "sdval l h = 0 \<longleftrightarrow> udval l h = udval 0 0"
    using udval_range [of l h] by (auto simp: sdval_udval udval_def [of 0 0])
  then show "sdval l h = 0 \<longleftrightarrow> l OR h = 0" by (simp only: udval_inj or_eq_0_iff)
  have "udval (- 1) (- 1) = 2 ^ 128 - 1"
    by (simp add: udval_def unsigned_minus_1_eq_mask mask_eq_exp_minus_1)
  then have "sdval l h = - 1 \<longleftrightarrow> udval l h = udval (- 1) (- 1)"
    using udval_range [of l h] by (auto simp: sdval_udval)
  also have "\<dots> \<longleftrightarrow> l AND h = - 1" by (simp only: udval_inj and_eq_minus_1_iff)
  also have "\<dots> \<longleftrightarrow> NOT (l AND h) = 0" by (metis bit.double_compl bit.compl_one)
  finally show "sdval l h = - 1 \<longleftrightarrow> NOT (l AND h) = 0" .
qed

lemma mul_double_overflow:
  assumes "mul_double_with_sign l1 h1 l2 h2 False = (ov, lv, hv)"
  shows "ov \<longleftrightarrow> \<not> fits_sdval (sdval l1 h1 * sdval l2 h2)"
proof -
  define prd where "prd = mul_outer (encode l1 h1) (encode l2 h2) 0 (replicate 8 0)"
  obtain tol toh where d: "decode (drop 4 prd) = (tol, toh)" by fastforce
  obtain t1 u1 where s1: "(if sint h1 < 0 then let (_, nl, nh) = neg_double l2 h2 in snd (add_double nl nh tol toh)
    else (tol, toh)) = (t1, u1)" by (metis surj_pair)
  obtain t2 u2 where s2: "(if sint h2 < 0 then let (_, nl, nh) = neg_double l1 h1 in snd (add_double nl nh t1 u1)
    else (t1, u1)) = (t2, u2)" by (metis surj_pair)
  obtain lv' hv' where d': "decode prd = (lv', hv')" by fastforce
  have "mul_double_with_sign l1 h1 l2 h2 False =
      ((if sint hv' < 0 then NOT (t2 AND u2) else t2 OR u2) \<noteq> 0, lv', hv')"
    unfolding mul_double_with_sign_def prd_def [symmetric] Let_def
    by (simp only: d d' s1 [unfolded Let_def] s2 [unfolded Let_def] prod.case if_False)
  with assms have lv: "decode prd = (lv, hv)" and
    ov: "ov \<longleftrightarrow> (if sint hv < 0 then NOT (t2 AND u2) else t2 OR u2) \<noteq> 0"
    using d' by auto
  have "udval t2 u2 mod 2 ^ 128 = (udval t1 u1 - (if sint h2 < 0 then udval l1 h1 else 0)) mod 2 ^ 128"
    by (rule sub_if_neg [OF s2])
  also have "\<dots> = (udval tol toh - (if sint h1 < 0 then udval l2 h2 else 0)
      - (if sint h2 < 0 then udval l1 h1 else 0)) mod 2 ^ 128"
    by (rule mod_diff_cong [OF sub_if_neg [OF s1] refl])
  finally have P: "sdval l1 h1 * sdval l2 h2 = udval lv hv + 2 ^ 128 * sdval t2 u2"
    by (rule mul_double_signed_top [OF mul_double_product [OF prd_def lv d]])
  show ?thesis
    unfolding ov P using sdval_extremes [of t2 u2] sdval_udval' [of lv hv] udval_range [of lv hv]
      sdval_fits [of lv hv]
    by (auto simp: fits_sdval_def)
qed


section \<open>Shifts and rotates\<close>

text \<open>
  \<open>SHIFT_COUNT_TRUNCATED\<close> is a macro of the target and a parameter here. A shift count that is
  negative after reduction, a reduction modulo zero, and a left shift at precision 0 or beyond
  128 bits execute an undefined host shift or remainder.
\<close>

definition rshift_double ::
    "bool \<Rightarrow> hwi \<Rightarrow> hwi \<Rightarrow> hwi \<Rightarrow> nat \<Rightarrow> bool \<Rightarrow> (hwi \<times> hwi) outcome" where
  "rshift_double SHIFT_COUNT_TRUNCATED l1 h1 count prec arith =
     (if SHIFT_COUNT_TRUNCATED \<and> prec = 0 then Inl Undefined else
      let signmask = (if arith then - drop_bit (HOST_BITS_PER_WIDE_INT - 1) h1 else 0);
          count = (if SHIFT_COUNT_TRUNCATED then c_rem (sint count) (int prec) else sint count)
      in if count < 0 then Inl Undefined else
      let count = nat count;
          (lv, hv) =
            (if count \<ge> 2 * HOST_BITS_PER_WIDE_INT then (0, 0)
             else if count \<ge> HOST_BITS_PER_WIDE_INT then
               (drop_bit (count - HOST_BITS_PER_WIDE_INT) h1, 0)
             else
               (drop_bit count l1 OR push_bit 1 (push_bit (HOST_BITS_PER_WIDE_INT - count - 1) h1),
                drop_bit count h1))
      in Inr
        (if count \<ge> prec then (signmask, signmask)
         else if prec - count \<ge> 2 * HOST_BITS_PER_WIDE_INT then (lv, hv)
         else if prec - count \<ge> HOST_BITS_PER_WIDE_INT then
           (lv, hv AND NOT (push_bit (prec - count - HOST_BITS_PER_WIDE_INT) (- 1))
                OR push_bit (prec - count - HOST_BITS_PER_WIDE_INT) signmask)
         else
           (lv AND NOT (push_bit (prec - count) (- 1)) OR push_bit (prec - count) signmask,
            signmask)))"

definition lshift_double ::
    "bool \<Rightarrow> hwi \<Rightarrow> hwi \<Rightarrow> hwi \<Rightarrow> nat \<Rightarrow> bool \<Rightarrow> (hwi \<times> hwi) outcome" where
  "lshift_double SHIFT_COUNT_TRUNCATED l1 h1 count prec arith =
     (if sint count < 0 then rshift_double SHIFT_COUNT_TRUNCATED l1 h1 (- count) prec arith
      else if prec = 0 \<or> prec > 2 * HOST_BITS_PER_WIDE_INT then Inl Undefined else
      let count = nat (if SHIFT_COUNT_TRUNCATED then c_rem (sint count) (int prec) else sint count);
          (lv, hv) =
            (if count \<ge> 2 * HOST_BITS_PER_WIDE_INT then (0, 0)
             else if count \<ge> HOST_BITS_PER_WIDE_INT then
               (0, push_bit (count - HOST_BITS_PER_WIDE_INT) l1)
             else
               (push_bit count l1,
                push_bit count h1 OR drop_bit 1 (drop_bit (HOST_BITS_PER_WIDE_INT - count - 1) l1)));
          signmask =
            - ((if prec > HOST_BITS_PER_WIDE_INT then drop_bit (prec - HOST_BITS_PER_WIDE_INT - 1) hv
                else drop_bit (prec - 1) lv) AND 1)
      in Inr
        (if prec \<ge> 2 * HOST_BITS_PER_WIDE_INT then (lv, hv)
         else if prec \<ge> HOST_BITS_PER_WIDE_INT then
           (lv, hv AND NOT (push_bit (prec - HOST_BITS_PER_WIDE_INT) (- 1))
                OR push_bit (prec - HOST_BITS_PER_WIDE_INT) signmask)
         else (lv AND NOT (push_bit prec (- 1)) OR push_bit prec signmask, signmask)))"

text \<open>The rotates reduce the count first; both shifts are logical.\<close>

definition rotate_count :: "hwi \<Rightarrow> nat \<Rightarrow> int" where
  "rotate_count count prec =
     (let c = c_rem (sint count) (int prec) in if c < 0 then c + int prec else c)"

definition or_outcomes :: "(hwi \<times> hwi) outcome \<Rightarrow> (hwi \<times> hwi) outcome \<Rightarrow> (hwi \<times> hwi) outcome" where
  "or_outcomes x y =
     (case x of Inl e \<Rightarrow> Inl e
      | Inr (s1l, s1h) \<Rightarrow> (case y of Inl e \<Rightarrow> Inl e
          | Inr (s2l, s2h) \<Rightarrow> Inr (s1l OR s2l, s1h OR s2h)))"

definition lrotate_double :: "bool \<Rightarrow> hwi \<Rightarrow> hwi \<Rightarrow> hwi \<Rightarrow> nat \<Rightarrow> (hwi \<times> hwi) outcome" where
  "lrotate_double sct l1 h1 count prec =
     (if prec = 0 then Inl Undefined else
      let count = rotate_count count prec
      in or_outcomes (lshift_double sct l1 h1 (word_of_int count) prec False)
           (rshift_double sct l1 h1 (word_of_int (int prec - count)) prec False))"

definition rrotate_double :: "bool \<Rightarrow> hwi \<Rightarrow> hwi \<Rightarrow> hwi \<Rightarrow> nat \<Rightarrow> (hwi \<times> hwi) outcome" where
  "rrotate_double sct l1 h1 count prec =
     (if prec = 0 then Inl Undefined else
      let count = rotate_count count prec
      in or_outcomes (rshift_double sct l1 h1 (word_of_int count) prec False)
           (lshift_double sct l1 h1 (word_of_int (int prec - count)) prec False))"

subsection \<open>Bits of a double word\<close>

lemma udval_concat: "udval l h = concat_bit 64 (uint l) (uint h)"
  using uint64_range [of l]
  by (simp add: concat_bit_eq udval_def push_bit_eq_mult take_bit_int_eq_self)

lemma sdval_concat: "sdval l h = concat_bit 64 (uint l) (sint h)"
  using uint64_range [of l]
  by (simp add: concat_bit_eq sdval_def push_bit_eq_mult take_bit_int_eq_self)

lemma bit_udval: "bit (udval l h) n \<longleftrightarrow> (if n < 64 then bit l n else bit h (n - 64))"
  unfolding udval_concat by (auto simp: bit_concat_bit_iff bit_uint_iff dest: bit_imp_le_length)

lemma bit_sdval: "bit (sdval l h) n \<longleftrightarrow> (if n < 64 then bit l n else bit h (min (n - 64) 63))"
  unfolding sdval_concat
  by (auto simp: bit_concat_bit_iff bit_uint_iff bit_sint_iff min_def dest: bit_imp_le_length)

lemma bit_sdval_cases: "bit (sdval l h) n \<longleftrightarrow>
    (if n < 64 then bit l n else if n < 127 then bit h (n - 64) else bit h 63)"
  unfolding bit_sdval by (auto simp: min_def dest!: le_antisym)

lemmas word64_bit_simps = bit_and_iff bit_or_iff bit_not_iff bit_push_bit_iff bit_drop_bit_eq bit_minus_1_iff
  bit_mask_iff

text \<open>The mask that replicates one bit: minus that bit.\<close>

lemma bit_minus_one_bit: "bit (- (x AND 1) :: hwi) n \<longleftrightarrow> n < 64 \<and> bit x 0"
proof -
  have "x AND 1 = (if bit x 0 then 1 else 0)" by (simp add: and_one_eq odd_iff_mod_2_eq_one bit_0 odd_iff_mod_2_eq_one)
  then show ?thesis by (simp add: bit_minus_1_iff)
qed

lemma bit_signmask: "bit (- drop_bit 63 h :: hwi) n \<longleftrightarrow> n < 64 \<and> bit h 63"
proof -
  have "drop_bit 63 h = drop_bit 63 h AND 1"
    by (rule bit_eqI) (auto simp: bit_simps bit_1_iff dest: bit_imp_le_length)
  then have "bit (- drop_bit 63 h) n \<longleftrightarrow> n < 64 \<and> bit (drop_bit 63 h) 0"
    using bit_minus_one_bit [of "drop_bit 63 h" n] by simp
  then show ?thesis by (simp add: bit_simps)
qed


subsection \<open>Left shift\<close>

lemma bit_word64_ge: "64 \<le> n \<Longrightarrow> \<not> bit (x :: hwi) n"
  by (auto dest: bit_imp_le_length)

lemma lshift_words_bit:
  assumes "(lv, hv) = (if c \<ge> 128 then (0, 0) else if c \<ge> 64 then (0, push_bit (c - 64) l1)
      else (push_bit c l1, push_bit c h1 OR drop_bit 1 (drop_bit (64 - c - 1) l1)))"
  shows "bit lv n \<longleftrightarrow> n < 64 \<and> c \<le> n \<and> bit (udval l1 h1) (n - c)"
    and "bit hv n \<longleftrightarrow> n < 64 \<and> c \<le> n + 64 \<and> bit (udval l1 h1) (n + 64 - c)"
proof -
  show "bit lv n \<longleftrightarrow> n < 64 \<and> c \<le> n \<and> bit (udval l1 h1) (n - c)"
    using assms by (auto simp: bit_udval bit_simps bit_word64_ge split: if_splits)
  have idx: "\<not> 64 \<le> c \<Longrightarrow> Suc (63 + n - c) = n + 64 - c" by simp
  show "bit hv n \<longleftrightarrow> n < 64 \<and> c \<le> n + 64 \<and> bit (udval l1 h1) (n + 64 - c)"
    using assms
    by (auto simp: bit_udval bit_simps bit_word64_ge idx not_less Suc_diff_le split: if_splits)
qed

lemma lshift_double_correct:
  assumes "0 \<le> sint count" "0 < prec" "prec \<le> 128"
    and c: "c = nat (if sct then c_rem (sint count) (int prec) else sint count)"
  shows "\<exists>lv hv. lshift_double sct l1 h1 count prec arith = Inr (lv, hv) \<and>
    sdval lv hv = signed_take_bit (prec - 1) (udval l1 h1 * 2 ^ c)"
proof -
  obtain lv hv where w: "(lv, hv) = (if c \<ge> 128 then (0, 0) else if c \<ge> 64 then (0, push_bit (c - 64) l1)
      else (push_bit c l1, push_bit c h1 OR drop_bit 1 (drop_bit (64 - c - 1) l1)))"
    by (metis surj_pair)
  define s where "s = - ((if prec > 64 then drop_bit (prec - 64 - 1) hv else drop_bit (prec - 1) lv) AND 1)"
  define r where "r = (if prec \<ge> 128 then (lv, hv)
    else if prec \<ge> 64 then (lv, hv AND NOT (push_bit (prec - 64) (- 1)) OR push_bit (prec - 64) s)
    else (lv AND NOT (push_bit prec (- 1)) OR push_bit prec s, s))"
  have "lshift_double sct l1 h1 count prec arith = Inr r"
    using assms(1-3) unfolding lshift_double_def Let_def c [symmetric] r_def s_def
    by (simp add: w [symmetric] del: One_nat_def)
  moreover have "sdval (fst r) (snd r) = signed_take_bit (prec - 1) (udval l1 h1 * 2 ^ c)"
  proof (rule bit_eqI)
    fix n
    have s_bit: "bit s k \<longleftrightarrow> k < 64 \<and> c \<le> prec - 1 \<and> bit (udval l1 h1) (prec - 1 - c)" for k
      unfolding s_def bit_minus_one_bit
      using assms(2,3) by (auto simp: bit_drop_bit_eq not_less lshift_words_bit [OF w])
    have "bit (sdval (fst r) (snd r)) n \<longleftrightarrow>
        c \<le> min (prec - 1) n \<and> bit (udval l1 h1) (min (prec - 1) n - c)"
    proof -
      have min_prec: "min (prec - 1) n = (if n < prec then n else prec - 1)" using assms(2) by auto
      consider "prec = 128" | "64 \<le> prec" "prec < 128" | "prec < 64" using assms(3) by linarith
      then show ?thesis
      proof cases
        case 1
        moreover have "min 127 n = (if n < 127 then n else 127)" by auto
        ultimately show ?thesis by (auto simp: bit_sdval_cases r_def lshift_words_bit [OF w])
      next
        case 2
        then show ?thesis
          unfolding min_prec by (auto simp: bit_sdval_cases r_def lshift_words_bit [OF w] s_bit word64_bit_simps)
      next
        case 3
        then show ?thesis
          unfolding min_prec by (auto simp: bit_sdval_cases r_def lshift_words_bit [OF w] s_bit word64_bit_simps)
      qed
    qed
    also have "\<dots> \<longleftrightarrow> bit (push_bit c (udval l1 h1)) (min (prec - 1) n)"
      by (simp only: bit_push_bit_iff) simp
    also have "\<dots> \<longleftrightarrow> bit (signed_take_bit (prec - 1) (udval l1 h1 * 2 ^ c)) n"
      by (simp only: bit_signed_take_bit_iff push_bit_eq_mult) simp
    finally show "bit (sdval (fst r) (snd r)) n = bit (signed_take_bit (prec - 1) (udval l1 h1 * 2 ^ c)) n" .
  qed
  ultimately show ?thesis by (metis prod.collapse)
qed


subsection \<open>Right shift\<close>

lemma rshift_words_bit:
  assumes "(lv, hv) = (if c \<ge> 128 then (0, 0) else if c \<ge> 64 then (drop_bit (c - 64) h1, 0)
      else (drop_bit c l1 OR push_bit 1 (push_bit (64 - c - 1) h1), drop_bit c h1))"
  shows "bit lv n \<longleftrightarrow> n < 64 \<and> bit (udval l1 h1) (n + c)"
    and "bit hv n \<longleftrightarrow> bit (udval l1 h1) (n + 64 + c)"
proof -
  have "push_bit 1 (push_bit (64 - c - 1) h1) = push_bit (64 - c) h1" if "\<not> 64 \<le> c"
  proof -
    have "1 + (64 - c - 1) = 64 - c" using that by simp
    then show ?thesis by (simp only: push_bit_push_bit)
  qed
  then have w: "(lv, hv) = (if c \<ge> 128 then (0, 0) else if c \<ge> 64 then (drop_bit (c - 64) h1, 0)
      else (drop_bit c l1 OR push_bit (64 - c) h1, drop_bit c h1))"
    using assms by (simp split: if_splits del: One_nat_def)
  have idx: "\<not> 64 \<le> c \<Longrightarrow> n - (64 - c) = c + n - 64" by simp
  show "bit lv n \<longleftrightarrow> n < 64 \<and> bit (udval l1 h1) (n + c)"
    using w
    by (auto simp: bit_udval bit_word64_ge word64_bit_simps idx not_less ac_simps
        dest: bit_imp_le_length split: if_splits)
  show "bit hv n \<longleftrightarrow> bit (udval l1 h1) (n + 64 + c)"
    using w by (auto simp: bit_udval word64_bit_simps bit_word64_ge ac_simps split: if_splits)
qed

lemma rshift_double_bits:
  assumes c: "c = nat (if sct then c_rem (sint count) (int prec) else sint count)"
    and "0 \<le> sint count" "0 < prec" "prec \<le> 128"
  shows "\<exists>lv hv. rshift_double sct l1 h1 count prec arith = Inr (lv, hv) \<and>
    (\<forall>n < 128. bit (udval lv hv) n \<longleftrightarrow>
       (if n + c < prec then bit (udval l1 h1) (n + c) else arith \<and> bit h1 63))"
proof -
  obtain lv hv where w: "(lv, hv) = (if c \<ge> 128 then (0, 0) else if c \<ge> 64 then (drop_bit (c - 64) h1, 0)
      else (drop_bit c l1 OR push_bit 1 (push_bit (64 - c - 1) h1), drop_bit c h1))"
    by (metis surj_pair)
  define s where "s = (if arith then - drop_bit (64 - 1) h1 else 0)"
  define r where "r = (if c \<ge> prec then (s, s) else if prec - c \<ge> 128 then (lv, hv)
    else if prec - c \<ge> 64 then
      (lv, hv AND NOT (push_bit (prec - c - 64) (- 1)) OR push_bit (prec - c - 64) s)
    else (lv AND NOT (push_bit (prec - c) (- 1)) OR push_bit (prec - c) s, s))"
  have s_bit: "bit s k \<longleftrightarrow> k < 64 \<and> arith \<and> bit h1 63" for k
    by (simp add: s_def bit_signmask)
  have "c_rem (sint count) (int prec) \<ge> 0" using assms by (simp add: c_rem_def sgn_if)
  then have res: "rshift_double sct l1 h1 count prec arith = Inr r"
    using assms(2-4) unfolding rshift_double_def Let_def c [symmetric] r_def s_def
    by (auto simp add: w [symmetric] simp del: One_nat_def)
  define u where "u = udval l1 h1"
  note w_bit = rshift_words_bit [OF w, folded u_def]
  have "bit (udval (fst r) (snd r)) n \<longleftrightarrow>
      (if n + c < prec then bit u (n + c) else arith \<and> bit h1 63)"
    if "n < 128" for n
  proof -
    consider "prec \<le> c" | "c = 0" "prec = 128" | "c < prec" "64 \<le> prec - c" "prec - c < 128"
      | "c < prec" "prec - c < 64" using assms(4) by linarith
    then show ?thesis
    proof cases
      case 1
      with that show ?thesis by (auto simp: r_def bit_udval s_bit)
    next
      case 2
      with that show ?thesis by (simp add: r_def bit_udval w_bit)
    next
      case 3
      with that show ?thesis
        by (auto simp: r_def bit_udval w_bit s_bit word64_bit_simps ac_simps)
    next
      case 4
      with that show ?thesis
        by (auto simp: r_def bit_udval w_bit s_bit word64_bit_simps ac_simps)
    qed
  qed
  with res show ?thesis unfolding u_def by (metis prod.collapse)
qed


lemma bit_udval_sdval: "n < 128 \<Longrightarrow> bit (sdval l h) n = bit (udval l h) n"
  by (cases "n = 127") (auto simp: bit_udval bit_sdval_cases)

lemma bit_udval_ge: "128 \<le> n \<Longrightarrow> \<not> bit (udval l h) n"
  by (auto simp: bit_udval bit_word64_ge)

lemma rshift_double_unsigned:
  assumes "c = nat (if sct then c_rem (sint count) (int prec) else sint count)"
    and "0 \<le> sint count" "0 < prec" "prec \<le> 128" "udval l1 h1 < 2 ^ prec"
  shows "\<exists>lv hv. rshift_double sct l1 h1 count prec False = Inr (lv, hv) \<and>
    udval lv hv = udval l1 h1 div 2 ^ c"
proof -
  obtain lv hv where r: "rshift_double sct l1 h1 count prec False = Inr (lv, hv)"
    "\<forall>n < 128. bit (udval lv hv) n \<longleftrightarrow> (if n + c < prec then bit (udval l1 h1) (n + c) else False)"
    using rshift_double_bits [OF assms(1-4), of l1 h1 False] by auto
  have "take_bit prec (udval l1 h1) = udval l1 h1"
    using assms(5) udval_range [of l1 h1] by (simp add: take_bit_int_eq_self)
  then have hi: "\<not> bit (udval l1 h1) n" if "prec \<le> n" for n
    using that by (metis bit_take_bit_iff not_less)
  have "udval lv hv = drop_bit c (udval l1 h1)"
  proof (rule bit_eqI)
    show "bit (udval lv hv) n = bit (drop_bit c (udval l1 h1)) n" for n
      using r(2) hi bit_udval_ge [of n lv hv] bit_udval_ge [of "n + c" l1 h1]
      by (cases "n < 128") (auto simp: bit_drop_bit_eq ac_simps)
  qed
  with r(1) show ?thesis by (auto simp: drop_bit_eq_div)
qed

lemma rshift_double_signed:
  assumes "c = nat (if sct then c_rem (sint count) (int prec) else sint count)"
    and "0 \<le> sint count" "0 < prec" "prec \<le> 128"
    and "signed_take_bit (prec - 1) (sdval l1 h1) = sdval l1 h1"
  shows "\<exists>lv hv. rshift_double sct l1 h1 count prec True = Inr (lv, hv) \<and>
    sdval lv hv = sdval l1 h1 div 2 ^ c"
proof -
  obtain lv hv where r: "rshift_double sct l1 h1 count prec True = Inr (lv, hv)"
    "\<forall>n < 128. bit (udval lv hv) n \<longleftrightarrow> (if n + c < prec then bit (udval l1 h1) (n + c) else bit h1 63)"
    using rshift_double_bits [OF assms(1-4), of l1 h1 True] by auto
  have top: "bit (sdval l1 h1) n = bit h1 63" if "prec - 1 \<le> n" for n
  proof -
    have "bit (sdval l1 h1) n = bit (sdval l1 h1) (prec - 1)"
      using that assms(5) bit_signed_take_bit_iff [of "prec - 1" "sdval l1 h1" n] by (simp add: min_absorb1)
    moreover have "bit (sdval l1 h1) 127 = bit (sdval l1 h1) (prec - 1)"
      using assms(4,5) bit_signed_take_bit_iff [of "prec - 1" "sdval l1 h1" 127]
      by (simp add: min_absorb1)
    ultimately show ?thesis by (simp add: bit_sdval_cases)
  qed
  have low: "bit (sdval lv hv) n = bit (sdval l1 h1) (n + c)" if "n < 128" for n
    using that r(2) assms(4) top [of "n + c"] by (simp add: bit_udval_sdval)
  have "sdval lv hv = drop_bit c (sdval l1 h1)"
  proof (rule bit_eqI)
    fix n
    show "bit (sdval lv hv) n = bit (drop_bit c (sdval l1 h1)) n"
    proof (cases "n < 128")
      case True
      then show ?thesis by (simp add: low bit_drop_bit_eq ac_simps)
    next
      case False
      then have "bit (sdval lv hv) n = bit (sdval lv hv) 127" by (simp add: bit_sdval_cases)
      with False show ?thesis
        using top [of "127 + c"] top [of "n + c"] assms(4) by (simp add: low bit_drop_bit_eq ac_simps)
    qed
  qed
  with r(1) show ?thesis by (auto simp: drop_bit_eq_div)
qed

subsection \<open>Rotates\<close>

lemma rotate_count_mod: "0 < prec \<Longrightarrow> rotate_count count prec = sint count mod int prec"
proof -
  assume "0 < prec"
  show ?thesis
  proof (cases "0 \<le> sint count")
    case True
    moreover have "0 \<le> sint count mod int prec" using \<open>0 < prec\<close> by simp
    ultimately show ?thesis by (simp add: rotate_count_def c_rem_def Let_def sgn_if not_less)
  next
    case False
    define a where "a = - sint count"
    with False have "0 < a" and sc: "sint count = - a" by simp_all
    moreover have "0 \<le> a mod int prec" "a mod int prec < int prec" using \<open>0 < prec\<close> by simp_all
    ultimately show ?thesis
      unfolding rotate_count_def c_rem_def Let_def sc
      by (auto simp add: zmod_zminus1_eq_if order_le_less)
  qed
qed

lemma sint_small: "k \<le> 128 \<Longrightarrow> sint (word_of_nat k :: hwi) = int k"
  by (simp add: sint_uint unsigned_of_nat signed_take_bit_int_eq_self take_bit_nat_eq_self)

lemma c_rem_nat: "c_rem (int x) (int y) = int (x mod y)"
  by (simp add: c_rem_def sgn_if zmod_int)

lemma shift_count_eq:
  assumes "a \<le> prec" "prec \<le> 128"
  shows "nat (if sct then c_rem (sint (word_of_nat a :: hwi)) (int prec) else sint (word_of_nat a :: hwi))
    = (if sct then a mod prec else a)"
  using assms by (simp add: sint_small c_rem_nat)

lemma lshift_small_bits:
  assumes "0 < prec" "prec \<le> 128" "a \<le> prec" and a': "a' = (if sct then a mod prec else a)"
  shows "\<exists>lv hv. lshift_double sct l1 h1 (word_of_nat a) prec False = Inr (lv, hv) \<and>
    (\<forall>n < prec. bit (udval lv hv) n \<longleftrightarrow> a' \<le> n \<and> bit (udval l1 h1) (n - a'))"
proof -
  obtain lv hv where L: "lshift_double sct l1 h1 (word_of_nat a) prec False = Inr (lv, hv)"
      "sdval lv hv = signed_take_bit (prec - 1) (udval l1 h1 * 2 ^ a')"
    using lshift_double_correct [OF _ assms(1,2), of "word_of_nat a" a' sct l1 h1 False] assms
    by (auto simp: shift_count_eq sint_small)
  have "bit (udval lv hv) n \<longleftrightarrow> a' \<le> n \<and> bit (udval l1 h1) (n - a')" if "n < prec" for n
  proof -
    have "bit (udval lv hv) n \<longleftrightarrow> bit (signed_take_bit (prec - 1) (push_bit a' (udval l1 h1))) n"
      using that assms(2) L(2) bit_udval_sdval [of n lv hv] by (simp add: push_bit_eq_mult)
    also have "\<dots> \<longleftrightarrow> bit (push_bit a' (udval l1 h1)) n"
      using that by (simp only: bit_signed_take_bit_iff) (simp add: min_absorb2)
    finally show ?thesis by (simp only: bit_push_bit_iff) simp
  qed
  with L(1) show ?thesis by blast
qed

lemma rshift_small_bits:
  assumes "0 < prec" "prec \<le> 128" "a \<le> prec" and a': "a' = (if sct then a mod prec else a)"
  shows "\<exists>lv hv. rshift_double sct l1 h1 (word_of_nat a) prec False = Inr (lv, hv) \<and>
    (\<forall>n < prec. bit (udval lv hv) n \<longleftrightarrow> n + a' < prec \<and> bit (udval l1 h1) (n + a'))"
  using rshift_double_bits [OF _ _ assms(1,2), of a' sct "word_of_nat a" l1 h1 False] assms
  by (force simp: shift_count_eq sint_small)

lemma rotate_count_bound:
  assumes "0 < prec" "c = nat (sint count mod int prec)"
  shows "c < prec" "rotate_count count prec = int c" "int prec - int c = int (prec - c)"
proof -
  show "c < prec" using assms pos_mod_bound [of "int prec" "sint count"] by (simp add: nat_less_iff)
  then show "int prec - int c = int (prec - c)" by simp
  show "rotate_count count prec = int c" using assms by (simp add: rotate_count_mod)
qed

text \<open>A shift by the rotate's complement, where a truncating target turns a full turn into none.\<close>

lemma full_turn:
  assumes "c < prec" "b = (if sct then (prec - c) mod prec else prec - (c :: nat))"
  shows "b = prec - c \<or> b = 0 \<and> c = 0"
  using assms by (cases c) auto

lemma bit_udval_or: "bit (udval (a OR c) (b OR d)) n \<longleftrightarrow> bit (udval a b) n \<or> bit (udval c d) n"
  by (simp add: bit_udval bit_or_iff)

lemma lrotate_double_correct:
  assumes "0 < prec" "prec \<le> 128" and c: "c = nat (sint count mod int prec)"
  shows "\<exists>lv hv. lrotate_double sct l1 h1 count prec = Inr (lv, hv) \<and>
    (\<forall>n < prec. bit (udval lv hv) n \<longleftrightarrow> bit (udval l1 h1) ((n + (prec - c)) mod prec))"
proof -
  note rc = rotate_count_bound [OF assms(1) c]
  then have c_turn: "c = (if sct then c mod prec else c)" by simp
  define b where "b = (if sct then (prec - c) mod prec else prec - c)"
  obtain ll lh where L: "lshift_double sct l1 h1 (word_of_nat c) prec False = Inr (ll, lh)"
      "\<forall>n < prec. bit (udval ll lh) n \<longleftrightarrow> c \<le> n \<and> bit (udval l1 h1) (n - c)"
    using lshift_small_bits [OF assms(1,2) _ c_turn, of l1 h1] rc(1) by auto
  obtain rl rh where R: "rshift_double sct l1 h1 (word_of_nat (prec - c)) prec False = Inr (rl, rh)"
      "\<forall>n < prec. bit (udval rl rh) n \<longleftrightarrow> n + b < prec \<and> bit (udval l1 h1) (n + b)"
    using rshift_small_bits [OF assms(1,2) _ b_def, of l1 h1] by auto
  have "lrotate_double sct l1 h1 count prec = Inr (ll OR rl, lh OR rh)"
    using assms(1) L(1) R(1) unfolding lrotate_double_def Let_def rc(2,3) of_int_of_nat_eq by (simp add: or_outcomes_def del: of_nat_diff)
  moreover have "bit (udval (ll OR rl) (lh OR rh)) n \<longleftrightarrow> bit (udval l1 h1) ((n + (prec - c)) mod prec)"
    if "n < prec" for n
  proof -
    have "(n + (prec - c)) mod prec = (if c \<le> n then n - c else n + (prec - c))"
      using that rc(1) by (auto simp: mod_if)
    then show ?thesis
      using that rc(1) L(2) R(2) full_turn [OF rc(1) b_def] by (auto simp: bit_udval_or)
  qed
  ultimately show ?thesis by blast
qed

lemma rrotate_double_correct:
  assumes "0 < prec" "prec \<le> 128" and c: "c = nat (sint count mod int prec)"
  shows "\<exists>lv hv. rrotate_double sct l1 h1 count prec = Inr (lv, hv) \<and>
    (\<forall>n < prec. bit (udval lv hv) n \<longleftrightarrow> bit (udval l1 h1) ((n + c) mod prec))"
proof -
  note rc = rotate_count_bound [OF assms(1) c]
  then have c_turn: "c = (if sct then c mod prec else c)" by simp
  define b where "b = (if sct then (prec - c) mod prec else prec - c)"
  obtain rl rh where R: "rshift_double sct l1 h1 (word_of_nat c) prec False = Inr (rl, rh)"
      "\<forall>n < prec. bit (udval rl rh) n \<longleftrightarrow> n + c < prec \<and> bit (udval l1 h1) (n + c)"
    using rshift_small_bits [OF assms(1,2) _ c_turn, of l1 h1] rc(1) by auto
  obtain ll lh where L: "lshift_double sct l1 h1 (word_of_nat (prec - c)) prec False = Inr (ll, lh)"
      "\<forall>n < prec. bit (udval ll lh) n \<longleftrightarrow> b \<le> n \<and> bit (udval l1 h1) (n - b)"
    using lshift_small_bits [OF assms(1,2) _ b_def, of l1 h1] by auto
  have "rrotate_double sct l1 h1 count prec = Inr (rl OR ll, rh OR lh)"
    using assms(1) L(1) R(1) unfolding rrotate_double_def Let_def rc(2,3) of_int_of_nat_eq by (simp add: or_outcomes_def del: of_nat_diff)
  moreover have "bit (udval (rl OR ll) (rh OR lh)) n \<longleftrightarrow> bit (udval l1 h1) ((n + c) mod prec)"
    if "n < prec" for n
  proof -
    have "(n + c) mod prec = (if n + c < prec then n + c else n - (prec - c))"
      using that rc(1) by (auto simp: mod_if)
    then show ?thesis
      using that rc(1) L(2) R(2) full_turn [OF rc(1) b_def] by (auto simp: bit_udval_or)
  qed
  ultimately show ?thesis by blast
qed


section \<open>Properties\<close>

text \<open>the signed two-word sum wraps into the 128-bit range, and the overflow flag is set
  exactly when the true sum is out of that range.\<close>

theorem add_double_signed:
  "case add_double_with_sign l1 h1 l2 h2 False of (ov, lv, hv) \<Rightarrow>
     sdval lv hv = signed_take_bit 127 (sdval l1 h1 + sdval l2 h2)
     \<and> (ov \<longleftrightarrow> \<not> fits_sdval (sdval l1 h1 + sdval l2 h2))"
  using add_double_sdval [of l1 h1 l2 h2 False] add_double_overflow [of l1 h1 l2 h2]
  by (auto split: prod.splits)

text \<open>the unsigned two-word sum is exact modulo \<open>2 ^ 128\<close>; its overflow flag reports a carry
  out of the high word except when the high word of the second operand is all ones and the low
  words carry, where it is never set.\<close>

theorem add_double_unsigned:
  "case add_double_with_sign l1 h1 l2 h2 True of (ov, lv, hv) \<Rightarrow>
     udval lv hv = (udval l1 h1 + udval l2 h2) mod 2 ^ 128
     \<and> (ov \<longleftrightarrow> 2 ^ 128 \<le> udval l1 h1 + udval l2 h2
                \<and> \<not> (h2 = - 1 \<and> 2 ^ 64 \<le> uint l1 + uint l2))"
  using add_double_udval [of l1 h1 l2 h2 True] add_double_unsigned_flag [of l1 h1 l2 h2]
  by (auto split: prod.splits)

text \<open>negation wraps, and overflows exactly on the most negative value.\<close>

theorem neg_double_signed:
  "case neg_double l1 h1 of (ov, lv, hv) \<Rightarrow>
     sdval lv hv = signed_take_bit 127 (- sdval l1 h1) \<and> (ov \<longleftrightarrow> sdval l1 h1 = - (2 ^ 127))"
  using neg_double_sdval [of l1 h1] neg_double_overflow [of l1 h1] by (auto split: prod.splits)

text \<open>C10: the schoolbook product of two two-word integers wraps into the range of its
  signedness, and the overflow flag is set exactly when the true product does not fit.\<close>

theorem mul_double_exact:
  "case mul_double_with_sign l1 h1 l2 h2 unsigned_p of (ov, lv, hv) \<Rightarrow>
     if unsigned_p
     then udval lv hv = (udval l1 h1 * udval l2 h2) mod 2 ^ 128
       \<and> (ov \<longleftrightarrow> 2 ^ 128 \<le> udval l1 h1 * udval l2 h2)
     else sdval lv hv = signed_take_bit 127 (sdval l1 h1 * sdval l2 h2)
       \<and> (ov \<longleftrightarrow> \<not> fits_sdval (sdval l1 h1 * sdval l2 h2))"
  using mul_double_udval [of l1 h1 l2 h2 True] mul_double_unsigned_overflow [of l1 h1 l2 h2]
    mul_double_sdval [of l1 h1 l2 h2 False] mul_double_overflow [of l1 h1 l2 h2]
  by (cases unsigned_p) (auto split: prod.splits)

text \<open>a left shift by a count that is not negative is multiplication by a power of two,
  sign extended from the precision; with \<open>SHIFT_COUNT_TRUNCATED\<close> the count is taken modulo the
  precision first.\<close>

theorem lshift_double_power:
  assumes "0 \<le> sint count" "0 < prec" "prec \<le> 128"
  shows "\<exists>lv hv. lshift_double sct l1 h1 count prec arith = Inr (lv, hv) \<and>
    sdval lv hv = signed_take_bit (prec - 1)
      (udval l1 h1 * 2 ^ nat (if sct then c_rem (sint count) (int prec) else sint count))"
  by (rule lshift_double_correct [OF assms refl])

theorem lshift_double_power_witness:
  "\<exists>lv hv. lshift_double False 5 0 3 7 True = Inr (lv, hv) \<and> sdval lv hv = 40"
  using lshift_double_power [of 3 7 False 5 0 True] by (simp add: udval_def signed_take_bit_int_eq_self)

text \<open>right shifts divide: the logical shift of a value of the precision is the unsigned
  quotient by a power of two, the arithmetic shift of a sign-extended value is the quotient
  rounded down.\<close>

theorem rshift_double_divides:
  assumes "0 \<le> sint count" "0 < prec" "prec \<le> 128"
    and "c = nat (if sct then c_rem (sint count) (int prec) else sint count)"
  shows "(udval l1 h1 < 2 ^ prec \<longrightarrow>
      (\<exists>lv hv. rshift_double sct l1 h1 count prec False = Inr (lv, hv)
         \<and> udval lv hv = udval l1 h1 div 2 ^ c))
    \<and> (signed_take_bit (prec - 1) (sdval l1 h1) = sdval l1 h1 \<longrightarrow>
      (\<exists>lv hv. rshift_double sct l1 h1 count prec True = Inr (lv, hv)
         \<and> sdval lv hv = sdval l1 h1 div 2 ^ c))"
  using rshift_double_unsigned [OF assms(4,1-3), of l1 h1] rshift_double_signed [OF assms(4,1-3), of l1 h1]
  by blast

theorem rshift_double_divides_witness:
  "(\<exists>lv hv. rshift_double False 200 0 3 8 False = Inr (lv, hv) \<and> udval lv hv = 25)
   \<and> (\<exists>lv hv. rshift_double False (- 7) (- 1) 1 8 True = Inr (lv, hv) \<and> sdval lv hv = - 4)"
proof -
  have c: "(3 :: nat) = nat (if False then c_rem (sint (3 :: hwi)) (int 8) else sint (3 :: hwi))"
    "(1 :: nat) = nat (if False then c_rem (sint (1 :: hwi)) (int 8) else sint (1 :: hwi))" by simp_all
  have "sdval (- 7) (- 1) = - 7" by (simp add: sdval_def)
  then show ?thesis
    using rshift_double_divides [OF _ _ _ c(1), of 200 0] rshift_double_divides [OF _ _ _ c(2), of "- 7" "- 1"]
    by (simp add: udval_def signed_take_bit_int_eq_self)
qed

text \<open>the rotates permute the low \<open>prec\<close> bits cyclically, for every count, negative counts
  and both settings of \<open>SHIFT_COUNT_TRUNCATED\<close> included.\<close>

theorem rotate_double_cyclic:
  assumes "0 < prec" "prec \<le> 128" "c = nat (sint count mod int prec)"
  shows "(\<exists>lv hv. lrotate_double sct l1 h1 count prec = Inr (lv, hv)
      \<and> (\<forall>n < prec. bit (udval lv hv) n = bit (udval l1 h1) ((n + (prec - c)) mod prec)))
    \<and> (\<exists>lv hv. rrotate_double sct l1 h1 count prec = Inr (lv, hv)
      \<and> (\<forall>n < prec. bit (udval lv hv) n = bit (udval l1 h1) ((n + c) mod prec)))"
  using lrotate_double_correct [OF assms] rrotate_double_correct [OF assms] by simp

theorem rotate_double_cyclic_witness:
  "\<exists>lv hv. lrotate_double True 1 0 (- 1) 8 = Inr (lv, hv) \<and> bit (udval lv hv) 7"
proof -
  have c: "(7 :: nat) = nat (sint (- 1 :: hwi) mod int 8)" by simp
  obtain lv hv where "lrotate_double True 1 0 (- 1) 8 = Inr (lv, hv)"
      "\<forall>n < 8. bit (udval lv hv) n = bit (udval 1 0) ((n + (8 - 7)) mod 8)"
    using rotate_double_cyclic [OF _ _ c, of True 1 0] by auto
  then show ?thesis by (auto simp: udval_def bit_simps dest: spec [of _ 7])
qed

end
