(* ===== verification/Tree_Code.thy ===== *)
theory Tree_Code
  imports Gcc_Prelude
begin

text \<open>
  The codes of \<open>enum tree_code\<close> (\<open>src/gcc/tree.def\<close>) that the modelled parts of the constant
  folder distinguish. Every other code reaches the same \<open>default\<close> branches as \<open>ERROR_MARK\<close>.
\<close>

datatype tree_code =
    ERROR_MARK
  | PLUS_EXPR | MINUS_EXPR | MULT_EXPR
  | TRUNC_DIV_EXPR | CEIL_DIV_EXPR | FLOOR_DIV_EXPR | ROUND_DIV_EXPR | EXACT_DIV_EXPR
  | TRUNC_MOD_EXPR | CEIL_MOD_EXPR | FLOOR_MOD_EXPR | ROUND_MOD_EXPR
  | MIN_EXPR | MAX_EXPR
  | LSHIFT_EXPR | RSHIFT_EXPR | LROTATE_EXPR | RROTATE_EXPR
  | BIT_IOR_EXPR | BIT_XOR_EXPR | BIT_AND_EXPR
  | TRUTH_ANDIF_EXPR | TRUTH_ORIF_EXPR | TRUTH_AND_EXPR | TRUTH_OR_EXPR
  | LT_EXPR | LE_EXPR | GT_EXPR | GE_EXPR | EQ_EXPR | NE_EXPR
  | UNORDERED_EXPR | ORDERED_EXPR
  | UNLT_EXPR | UNLE_EXPR | UNGT_EXPR | UNGE_EXPR | UNEQ_EXPR | LTGT_EXPR

end
