(* ===== verification/Double_Div.thy ===== *)
theory Double_Div
  imports Double_Word Tree_Code
begin

text \<open>
  Two-word division, \<open>div_and_round_double\<close> of \<open>src/gcc/fold-const.c\<close>: the single-word cases,
  the short division by one digit, Knuth's long division on base-\<open>2 ^ 32\<close> digits, and the
  rounding of the quotient. \<open>num\<close>, \<open>den\<close>, \<open>quo\<close> are the code's digit arrays; a loop counter
  that runs down to 0 is the number of iterations left.
\<close>

section \<open>Definitions\<close>

fun div_short_loop :: "hwi \<Rightarrow> hwi list \<Rightarrow> nat \<Rightarrow> hwi list \<Rightarrow> hwi \<Rightarrow> hwi list" where
  "div_short_loop lden num 0 quo carry = quo"
| "div_short_loop lden num (Suc i) quo carry =
     (let work = num ! i + carry * BASE
      in div_short_loop lden num i (quo[i := work div lden]) (work mod lden))"

text \<open>The highest nonzero divisor digit; the search would leave the array on an all-zero one.\<close>

fun find_den_hi_sig :: "hwi list \<Rightarrow> nat \<Rightarrow> nat option" where
  "find_den_hi_sig den 0 = None"
| "find_den_hi_sig den (Suc i) = (if den ! i \<noteq> 0 then Some i else find_den_hi_sig den i)"

function scale_num_loop :: "hwi \<Rightarrow> nat \<Rightarrow> hwi list \<Rightarrow> hwi \<Rightarrow> hwi list \<times> hwi" where
  "scale_num_loop scale i num carry =
     (if i \<le> 3 then
        (let work = num ! i * scale + carry
         in scale_num_loop scale (Suc i) (num[i := LOWPART work]) (HIGHPART work))
      else (num, carry))"
  by pat_completeness auto
termination
  by (relation "measure (\<lambda>(_, i, _, _). 4 - i)") auto

function scale_den_loop :: "hwi \<Rightarrow> nat \<Rightarrow> hwi list \<Rightarrow> hwi \<Rightarrow> nat \<Rightarrow> hwi list \<times> nat" where
  "scale_den_loop scale i den carry den_hi_sig =
     (if i \<le> 3 then
        (let work = den ! i * scale + carry;
             den = den[i := LOWPART work];
             carry = HIGHPART work
         in scale_den_loop scale (Suc i) den carry (if den ! i \<noteq> 0 then i else den_hi_sig))
      else (den, den_hi_sig))"
  by pat_completeness auto
termination
  by (relation "measure (\<lambda>(_, i, _, _, _). 4 - i)") auto

function mulsub_loop :: "hwi \<Rightarrow> hwi list \<Rightarrow> nat \<Rightarrow> nat \<Rightarrow> nat \<Rightarrow> hwi list \<Rightarrow> hwi \<Rightarrow> hwi list \<times> hwi" where
  "mulsub_loop quo_est den den_hi_sig i j num carry =
     (if j \<le> den_hi_sig then
        (let work = quo_est * den ! j + carry;
             carry = HIGHPART work;
             work = num ! (i + j) - LOWPART work
         in mulsub_loop quo_est den den_hi_sig i (Suc j) (num[i + j := LOWPART work])
              (carry + (if HIGHPART work \<noteq> 0 then 1 else 0)))
      else (num, carry))"
  by pat_completeness auto
termination
  by (relation "measure (\<lambda>(_, _, h, _, j, _, _). Suc h - j)") auto

function addback_loop :: "hwi list \<Rightarrow> nat \<Rightarrow> nat \<Rightarrow> nat \<Rightarrow> hwi list \<Rightarrow> hwi \<Rightarrow> hwi list \<times> hwi" where
  "addback_loop den den_hi_sig i j num carry =
     (if j \<le> den_hi_sig then
        (let work = num ! (i + j) + den ! j + carry
         in addback_loop den den_hi_sig i (Suc j) (num[i + j := LOWPART work]) (HIGHPART work))
      else (num, carry))"
  by pat_completeness auto
termination
  by (relation "measure (\<lambda>(_, h, _, j, _, _). Suc h - j)") auto

declare scale_num_loop.simps [simp del] scale_den_loop.simps [simp del]
  mulsub_loop.simps [simp del] addback_loop.simps [simp del]

text \<open>The estimate of the next quotient digit from the leading digits.\<close>

definition quo_estimate :: "hwi list \<Rightarrow> nat \<Rightarrow> hwi list \<Rightarrow> nat \<Rightarrow> hwi" where
  "quo_estimate den den_hi_sig num num_hi_sig =
     (let work = num ! num_hi_sig * BASE + num ! (num_hi_sig - 1);
          quo_est = (if num ! num_hi_sig \<noteq> den ! den_hi_sig then work div (den ! den_hi_sig)
                     else BASE - 1);
          tmp = work - quo_est * den ! den_hi_sig
      in if tmp < BASE \<and>
            den ! (den_hi_sig - 1) * quo_est > tmp * BASE + num ! (num_hi_sig - 2)
         then quo_est - 1 else quo_est)"

text \<open>One iteration of the main loop, then the loop itself.\<close>

definition div_step :: "hwi list \<Rightarrow> nat \<Rightarrow> nat \<Rightarrow> hwi list \<Rightarrow> hwi list \<times> hwi" where
  "div_step den den_hi_sig i num =
     (let num_hi_sig = i + den_hi_sig + 1;
          quo_est = quo_estimate den den_hi_sig num num_hi_sig;
          (num, carry) = mulsub_loop quo_est den den_hi_sig i 0 num 0
      in if sint (num ! num_hi_sig) < sint carry then
           (let quo_est = quo_est - 1;
                (num, carry) = addback_loop den den_hi_sig i 0 num 0
            in (num[num_hi_sig := num ! num_hi_sig + carry], quo_est))
         else (num, quo_est))"

fun div_main_loop :: "hwi list \<Rightarrow> nat \<Rightarrow> nat \<Rightarrow> hwi list \<Rightarrow> hwi list \<Rightarrow> hwi list" where
  "div_main_loop den den_hi_sig 0 num quo = quo"
| "div_main_loop den den_hi_sig (Suc i) num quo =
     (let (num, quo_est) = div_step den den_hi_sig i num
      in div_main_loop den den_hi_sig i num (quo[i := quo_est]))"

definition div_long :: "hwi list \<Rightarrow> hwi list \<Rightarrow> (hwi list) outcome" where
  "div_long num den =
     (case find_den_hi_sig den 4 of
        None \<Rightarrow> Inl Undefined
      | Some den_hi_sig \<Rightarrow>
          (let scale = BASE div (den ! den_hi_sig + 1);
               (num, den, den_hi_sig) =
                 (if scale > 1 then
                    (let (num, carry) = scale_num_loop scale 0 num 0;
                         num = num[4 := carry];
                         (den, den_hi_sig) = scale_den_loop scale 0 den 0 den_hi_sig
                     in (num, den, den_hi_sig))
                  else (num, den, den_hi_sig))
           in Inr (div_main_loop den den_hi_sig (4 - den_hi_sig) num (replicate 4 0))))"

text \<open>The quotient of the magnitudes, up to the label \<open>finish_up\<close>.\<close>

definition div_magnitudes :: "hwi \<Rightarrow> hwi \<Rightarrow> hwi \<Rightarrow> hwi \<Rightarrow> (hwi \<times> hwi) outcome" where
  "div_magnitudes lnum hnum lden hden =
     (if hnum = 0 \<and> hden = 0 then Inr (lnum div lden, 0)
      else if hnum = 0 then Inr (0, 0)
      else
        (let num = encode lnum hnum @ [0]; den = encode lden hden
         in if hden = 0 \<and> lden < BASE
            then Inr (decode (div_short_loop lden num 4 (replicate 4 0) 0))
            else map_sum id decode (div_long num den)))"

text \<open>\<open>rem = num - quo * den\<close>, all modulo \<open>2 ^ 128\<close>.\<close>

definition double_rem :: "hwi \<Rightarrow> hwi \<Rightarrow> hwi \<Rightarrow> hwi \<Rightarrow> hwi \<Rightarrow> hwi \<Rightarrow> hwi \<times> hwi" where
  "double_rem lnum hnum lquo hquo lden hden =
     (let (_, lrem, hrem) = mul_double lquo hquo lden hden;
          (_, lrem, hrem) = neg_double lrem hrem
      in snd (add_double lnum hnum lrem hrem))"

text \<open>
  The adjustment of the truncated quotient: \<open>Some\<close> the new quotient, \<open>None\<close> where the switch
  returns with the trial quotient and remainder.
\<close>

definition div_adjust ::
    "tree_code \<Rightarrow> bool \<Rightarrow> hwi \<times> hwi \<Rightarrow> hwi \<times> hwi \<Rightarrow> hwi \<times> hwi \<Rightarrow> ((hwi \<times> hwi) option) outcome" where
  "div_adjust code quo_neg quo rem den =
     (let (lquo, hquo) = quo; (lrem, hrem) = rem; (lden, hden) = den
      in if code \<in> {TRUNC_DIV_EXPR, TRUNC_MOD_EXPR, EXACT_DIV_EXPR} then Inr None
         else if code \<in> {FLOOR_DIV_EXPR, FLOOR_MOD_EXPR} then
           (if quo_neg \<and> (lrem \<noteq> 0 \<or> hrem \<noteq> 0)
            then Inr (Some (snd (add_double lquo hquo (- 1) (- 1)))) else Inr None)
         else if code \<in> {CEIL_DIV_EXPR, CEIL_MOD_EXPR} then
           (if \<not> quo_neg \<and> (lrem \<noteq> 0 \<or> hrem \<noteq> 0)
            then Inr (Some (snd (add_double lquo hquo 1 0))) else Inr None)
         else if code \<in> {ROUND_DIV_EXPR, ROUND_MOD_EXPR} then
           (let (labs_rem, habs_rem) =
                  (if sint hrem < 0 then snd (neg_double lrem hrem) else (lrem, hrem));
                (labs_den, habs_den) =
                  (if sint hden < 0 then snd (neg_double lden hden) else (lden, hden));
                (_, ltwice, htwice) = mul_double 2 0 labs_rem habs_rem
            in if habs_den < htwice \<or> habs_den = htwice \<and> labs_den \<le> ltwice then
                 (if sint hquo < 0 then Inr (Some (snd (add_double lquo hquo (- 1) (- 1))))
                  else Inr (Some (snd (add_double lquo hquo 1 0))))
               else Inr None)
         else Inl Ice)"

definition div_and_round_double ::
    "tree_code \<Rightarrow> bool \<Rightarrow> hwi \<Rightarrow> hwi \<Rightarrow> hwi \<Rightarrow> hwi \<Rightarrow> (bool \<times> (hwi \<times> hwi) \<times> (hwi \<times> hwi)) outcome" where
  "div_and_round_double code uns lnum_orig hnum_orig lden_orig hden_orig =
     (let (overflow, lden, hden) =
            (if hden_orig = 0 \<and> lden_orig = 0 then (True, 1, hden_orig)
             else (False, lden_orig, hden_orig));
          (overflow, quo_neg, lnum, hnum) =
            (if \<not> uns \<and> sint hnum_orig < 0 then
               (let (ov, lnum, hnum) = neg_double lnum_orig hnum_orig
                in (overflow \<or> ov \<and> lden AND hden = - 1, True, lnum, hnum))
             else (overflow, False, lnum_orig, hnum_orig));
          (quo_neg, lden, hden) =
            (if \<not> uns \<and> sint hden < 0 then (\<not> quo_neg, snd (neg_double lden hden))
             else (quo_neg, lden, hden))
      in case div_magnitudes lnum hnum lden hden of
           Inl e \<Rightarrow> Inl e
         | Inr (lquo, hquo) \<Rightarrow>
             (let (lquo, hquo) = (if quo_neg then snd (neg_double lquo hquo) else (lquo, hquo));
                  rem = double_rem lnum_orig hnum_orig lquo hquo lden_orig hden_orig
              in case div_adjust code quo_neg (lquo, hquo) rem (lden, hden) of
                   Inl e \<Rightarrow> Inl e
                 | Inr None \<Rightarrow> Inr (overflow, (lquo, hquo), rem)
                 | Inr (Some (lquo', hquo')) \<Rightarrow>
                     Inr (overflow, (lquo', hquo'),
                          double_rem lnum_orig hnum_orig lquo' hquo' lden_orig hden_orig)))"

section \<open>Short division\<close>

lemma uint64_div: "uint (a div b :: hwi) = uint a div uint b"
  by (simp add: uint_div_distrib)

lemma uint64_mod: "uint (a mod b :: hwi) = uint a mod uint b"
  by (simp add: uint_mod_distrib)

lemma uint64_diff_exact: "uint b \<le> uint a \<Longrightarrow> uint (a - b :: hwi) = uint a - uint b"
  by (simp add: uint64_sub)

lemma digval_take_all: "length ws \<le> n \<Longrightarrow> digval (take n ws) = digval ws"
  by simp

lemma int_div_less:
  fixes a b c :: int
  assumes "0 < b" "a < c * b"
  shows "a div b < c"
proof -
  have "a div b * b \<le> a"
    using assms(1) by (metis div_mod_decomp_int add_increasing2 mult.commute order_refl pos_mod_sign)
  from this assms(2) have "a div b * b < c * b" by (rule order_le_less_trans)
  then show ?thesis using assms(1) by (simp only: mult_less_cancel_right_pos)
qed

text \<open>
  With \<open>n\<close> digits left, the dividend's low \<open>n\<close> digits below the running remainder are what the
  remaining quotient digits account for.
\<close>

lemma div_short_loop_correct:
  assumes "digits num" "n \<le> length num" "length quo = 4" "n \<le> 4"
    and "0 < uint lden" "uint lden < 2 ^ 32" "uint carry < uint lden"
    and "\<forall>k < n. quo ! k = 0" "digits quo"
  shows "digval (div_short_loop lden num n quo carry) =
      digval quo + (digval (take n num) + uint carry * (2 ^ 32) ^ n) div uint lden
    \<and> digits (div_short_loop lden num n quo carry) \<and> length (div_short_loop lden num n quo carry) = 4"
  using assms
proof (induction n arbitrary: quo carry)
  case 0
  then show ?case by simp
next
  case (Suc i)
  define work where "work = num ! i + carry * BASE"
  have ni: "uint (num ! i) < 2 ^ 32" using Suc.prems by (intro digits_nth) auto
  then have w: "uint work = uint (num ! i) + uint carry * 2 ^ 32"
    unfolding work_def using Suc.prems by (intro uint_pack) auto
  have q_less: "uint (work div lden) < 2 ^ 32"
  proof -
    have "uint work < uint lden * 2 ^ 32"
    proof -
      have "uint carry + 1 \<le> uint lden" using Suc.prems by simp
      then have "(uint carry + 1) * 2 ^ 32 \<le> uint lden * 2 ^ 32" by (intro mult_right_mono) auto
      then show ?thesis using w ni by simp
    qed
    then show ?thesis using Suc.prems(5) by (simp only: uint64_div int_div_less mult.commute)
  qed
  let ?quo = "quo[i := work div lden]"
  have IH: "digval (div_short_loop lden num i ?quo (work mod lden)) =
      digval ?quo + (digval (take i num) + uint (work mod lden) * (2 ^ 32) ^ i) div uint lden
    \<and> digits (div_short_loop lden num i ?quo (work mod lden))
    \<and> length (div_short_loop lden num i ?quo (work mod lden)) = 4"
    using Suc.prems q_less by (intro Suc.IH) (auto simp: uint64_mod digits_update)
  have "digval ?quo = digval quo + uint (work div lden) * (2 ^ 32) ^ i"
    using Suc.prems by (simp add: digval_update)
  moreover have "digval (take (Suc i) num) + uint carry * (2 ^ 32) ^ Suc i
      = digval (take i num) + uint work * (2 ^ 32) ^ i"
    using Suc.prems w by (simp add: digval_take_Suc algebra_simps)
  moreover have "uint work = uint lden * uint (work div lden) + uint (work mod lden)"
    by (simp add: uint64_div uint64_mod)
  ultimately have eq: "digval (take (Suc i) num) + uint carry * (2 ^ 32) ^ Suc i
      = (digval (take i num) + uint (work mod lden) * (2 ^ 32) ^ i)
        + uint lden * (uint (work div lden) * (2 ^ 32) ^ i)"
    and "digval ?quo = digval quo + uint (work div lden) * (2 ^ 32) ^ i"
    by (simp_all add: algebra_simps)
  then have "digval quo + (digval (take (Suc i) num) + uint carry * (2 ^ 32) ^ Suc i) div uint lden
      = digval ?quo + (digval (take i num) + uint (work mod lden) * (2 ^ 32) ^ i) div uint lden"
    using Suc.prems(5) unfolding eq by (subst div_mult_self2) simp_all
  with IH show ?case by (simp add: Let_def work_def)
qed

section \<open>Long division\<close>

subsection \<open>The quotient digit estimate\<close>

text \<open>
  \<open>W\<close> is the current dividend with leading digits \<open>u2 u1 u0\<close>, \<open>D\<close> the divisor with leading
  digits \<open>v1 v2\<close>, \<open>P\<close> the weight of the digit below them. The first estimate is never low; with a
  normalised divisor it is at most two high, and the correction with \<open>v2\<close> leaves at most one.
\<close>

definition est_window :: "int \<Rightarrow> int \<Rightarrow> int \<Rightarrow> int \<Rightarrow> int \<Rightarrow> int \<Rightarrow> int \<Rightarrow> int \<Rightarrow> int \<Rightarrow> bool" where
  "est_window W D P B u2 u1 u0 v1 v2 \<longleftrightarrow>
     1 < B \<and> 1 \<le> P \<and> 0 \<le> u2 \<and> 0 \<le> u1 \<and> u1 < B \<and> 0 \<le> u0 \<and> u0 < B
     \<and> B \<le> 2 * v1 \<and> v1 < B \<and> 0 \<le> v2 \<and> v2 < B \<and> W < B * D
     \<and> ((u2 * B + u1) * B + u0) * P \<le> W \<and> W < ((u2 * B + u1) * B + u0 + 1) * P
     \<and> (v1 * B + v2) * P \<le> D \<and> D < (v1 * B + v2 + 1) * P"

definition est_q0 :: "int \<Rightarrow> int \<Rightarrow> int \<Rightarrow> int \<Rightarrow> int" where
  "est_q0 B u2 u1 v1 = (if u2 \<noteq> v1 then (u2 * B + u1) div v1 else B - 1)"

lemma est_windowD:
  assumes "est_window W D P B u2 u1 u0 v1 v2"
  shows "0 < v1" "v1 * B * P \<le> D" "D < (v1 + 1) * B * P"
    "(u2 * B + u1) * B * P \<le> W" "W < (u2 * B + u1 + 1) * B * P" "0 < B * P" "0 < D"
    "W < B * D" "((u2 * B + u1) * B + u0) * P \<le> W" "W < ((u2 * B + u1) * B + u0 + 1) * P"
    "(v1 * B + v2) * P \<le> D" "D < (v1 * B + v2 + 1) * P"
proof -
  note a = assms [unfolded est_window_def]
  show w: "W < B * D" "((u2 * B + u1) * B + u0) * P \<le> W" "W < ((u2 * B + u1) * B + u0 + 1) * P"
    "(v1 * B + v2) * P \<le> D" "D < (v1 * B + v2 + 1) * P" using a by blast+
  show v1: "0 < v1" using a by linarith
  have "v1 * B * P \<le> (v1 * B + v2) * P" "(v1 * B + v2 + 1) * P \<le> (v1 + 1) * B * P"
    "(u2 * B + u1) * B * P \<le> ((u2 * B + u1) * B + u0) * P"
    "((u2 * B + u1) * B + u0 + 1) * P \<le> (u2 * B + u1 + 1) * B * P"
    using a by ((intro mult_right_mono, simp_all add: distrib_right)[])+
  with w show d: "v1 * B * P \<le> D" "D < (v1 + 1) * B * P"
    "(u2 * B + u1) * B * P \<le> W" "W < (u2 * B + u1 + 1) * B * P"
    by (blast intro: order_trans order_less_le_trans)+
  show bp: "0 < B * P" using a by simp
  have "0 < v1 * (B * P)" using v1 bp by (rule mult_pos_pos)
  with d(1) show "0 < D" by (simp add: mult.assoc)
qed

lemma est_u2_le:
  assumes "est_window W D P B u2 u1 u0 v1 v2"
  shows "u2 \<le> v1"
proof (rule ccontr)
  note e = est_windowD [OF assms] and a = assms [unfolded est_window_def]
  assume "\<not> u2 \<le> v1"
  then have "(v1 + 1) * B \<le> u2 * B" using a by (intro mult_right_mono) simp_all
  also have "\<dots> \<le> u2 * B + u1" using a by simp
  finally have "(v1 + 1) * B * (B * P) \<le> (u2 * B + u1) * (B * P)"
    using e(6) by (intro mult_right_mono) simp_all
  moreover have "B * D < B * ((v1 + 1) * B * P)" using e(3) a by (intro mult_strict_left_mono) simp_all
  ultimately show False using e(4,8) by (simp add: mult_ac)
qed

lemma est_q0_bounds:
  assumes "est_window W D P B u2 u1 u0 v1 v2"
  shows "0 \<le> est_q0 B u2 u1 v1" "est_q0 B u2 u1 v1 \<le> B - 1"
    "est_q0 B u2 u1 v1 * v1 \<le> u2 * B + u1"
proof -
  note e = est_windowD [OF assms] and a = assms [unfolded est_window_def]
  show "0 \<le> est_q0 B u2 u1 v1" using a e(1) by (simp add: est_q0_def pos_imp_zdiv_nonneg_iff)
  have "(u2 * B + u1) div v1 < B" if "u2 \<noteq> v1"
  proof -
    have "u2 + 1 \<le> v1" using that est_u2_le [OF assms] by simp
    then have "(u2 + 1) * B \<le> v1 * B" using a by (intro mult_right_mono) simp_all
    then have "u2 * B + u1 < B * v1" using a by (simp add: algebra_simps)
    then show ?thesis using e(1) by (intro int_div_less)
  qed
  then show "est_q0 B u2 u1 v1 \<le> B - 1" by (simp add: est_q0_def)
  have "(u2 * B + u1) div v1 * v1 \<le> u2 * B + u1"
    using pos_mod_sign [OF e(1), of "u2 * B + u1"] div_mult_mod_eq [of "u2 * B + u1" v1] by linarith
  then show "est_q0 B u2 u1 v1 * v1 \<le> u2 * B + u1"
    using a e(1) by (simp add: est_q0_def algebra_simps)
qed

lemma est_q0_not_low:
  assumes "est_window W D P B u2 u1 u0 v1 v2"
  shows "W < (est_q0 B u2 u1 v1 + 1) * D"
proof (cases "u2 = v1")
  case True
  then show ?thesis using assms by (simp add: est_q0_def est_window_def)
next
  case False
  note e = est_windowD [OF assms]
  let ?q = "est_q0 B u2 u1 v1"
  have "u2 * B + u1 < (?q + 1) * v1"
    using False pos_mod_bound [OF e(1), of "u2 * B + u1"] div_mult_mod_eq [of "u2 * B + u1" v1]
    by (simp only: est_q0_def if_True distrib_right mult_1_left not_False_eq_True)
  then have "(u2 * B + u1 + 1) * (B * P) \<le> (?q + 1) * v1 * (B * P)"
    using e(6) by (intro mult_right_mono) simp_all
  also have "\<dots> = (?q + 1) * (v1 * B * P)" by (simp only: mult_ac)
  also have "\<dots> \<le> (?q + 1) * D" using e(2) est_q0_bounds(1) [OF assms] by (intro mult_left_mono) simp_all
  finally show ?thesis using e(5) by (simp add: mult.assoc)
qed

text \<open>The correction test, its two outcomes.\<close>

lemma est_test_high:
  assumes w: "est_window W D P B u2 u1 u0 v1 v2" and q: "q = est_q0 B u2 u1 v1"
    and t: "v2 * q > (u2 * B + u1 - q * v1) * B + u0"
  shows "W < q * D" "(q - 2) * D \<le> W"
proof -
  note e = est_windowD [OF w] and a = w [unfolded est_window_def] and qb = est_q0_bounds [OF w, folded q]
  have "(u2 * B + u1) * B + u0 + 1 \<le> q * (v1 * B + v2)" using t by (simp add: algebra_simps)
  then have "((u2 * B + u1) * B + u0 + 1) * P \<le> q * (v1 * B + v2) * P"
    using a by (intro mult_right_mono) simp_all
  also have "\<dots> \<le> q * D" using a qb(1) by (simp only: mult.assoc) (intro mult_left_mono, simp_all)
  finally show "W < q * D" using e(10) by linarith
  have "q * D \<le> q * ((v1 + 1) * B * P)" using e(3) qb(1) by (intro mult_left_mono) simp_all
  also have "\<dots> = q * v1 * (B * P) + q * (B * P)" by (simp add: algebra_simps)
  also have "\<dots> \<le> (u2 * B + u1) * (B * P) + 2 * v1 * (B * P)"
    using qb a e(6) by (intro add_mono mult_right_mono) simp_all
  also have "\<dots> \<le> W + 2 * D" using e(2,4) by (simp add: mult_ac)
  finally show "(q - 2) * D \<le> W" by (simp add: algebra_simps)
qed

lemma est_test_ok:
  assumes w: "est_window W D P B u2 u1 u0 v1 v2" and q: "q = est_q0 B u2 u1 v1"
    and t: "v2 * q \<le> (u2 * B + u1 - q * v1) * B + u0"
  shows "(q - 1) * D \<le> W"
proof -
  note e = est_windowD [OF w] and a = w [unfolded est_window_def] and qb = est_q0_bounds [OF w, folded q]
  have "q * (v1 * B + v2) \<le> (u2 * B + u1) * B + u0" using t by (simp add: algebra_simps)
  then have low: "q * (v1 * B + v2) * P \<le> ((u2 * B + u1) * B + u0) * P"
    using a by (intro mult_right_mono) simp_all
  have "q * D \<le> q * ((v1 * B + v2 + 1) * P)" using a qb(1) by (intro mult_left_mono) simp_all
  also have "\<dots> = q * (v1 * B + v2) * P + q * P" by (simp add: algebra_simps)
  also have "\<dots> \<le> W + B * P"
    using order_trans [OF low e(9)] a qb(2) by (intro add_mono mult_right_mono) simp_all
  also have "\<dots> \<le> W + D"
  proof -
    have "1 * (B * P) \<le> v1 * (B * P)" using e(1,6) by (intro mult_right_mono) simp_all
    then show ?thesis using e(2) by (simp add: mult_ac)
  qed
  finally show ?thesis by (simp add: algebra_simps)
qed

text \<open>The window of digits the estimate looks at.\<close>

lemma digval_take_split:
  "n < length ws \<Longrightarrow> digval (take (Suc n) ws) = uint (ws ! n) * (2 ^ 32) ^ n + digval (take n ws)"
  by (simp add: digval_take_Suc)

lemma digits_take: "digits ws \<Longrightarrow> digits (take n ws)"
  by (auto simp: digits_def dest: in_set_takeD)

lemma digits_drop: "digits ws \<Longrightarrow> digits (drop n ws)"
  by (auto simp: digits_def dest: in_set_dropD)

lemma digval_take_less:
  assumes "digits ws" "n \<le> length ws"
  shows "digval (take n ws) < (2 ^ 32) ^ n"
  using digval_less [OF digits_take [OF assms(1)], of n] assms(2) by simp

lemma digits_est_window:
  assumes "digits num" "digits den" "1 \<le> h" "h < length den" "i + h + 1 < length num"
    and "2 ^ 32 \<le> 2 * uint (den ! h)"
    and "digval (take (h + 2) (drop i num)) < 2 ^ 32 * digval (take (h + 1) den)"
  shows "est_window (digval (take (h + 2) (drop i num))) (digval (take (h + 1) den)) ((2 ^ 32) ^ (h - 1))
    (2 ^ 32) (uint (num ! (i + h + 1))) (uint (num ! (i + h))) (uint (num ! (i + h - 1)))
    (uint (den ! h)) (uint (den ! (h - 1)))"
proof -
  obtain k where h: "h = Suc k" using assms(3) by (cases h) auto
  have W: "digval (take (h + 2) (drop i num)) =
      ((uint (num ! (i + h + 1)) * 2 ^ 32 + uint (num ! (i + h))) * 2 ^ 32 + uint (num ! (i + k))) * (2 ^ 32) ^ k
      + digval (take k (drop i num))"
    using assms(5) by (simp add: h numeral_2_eq_2 digval_take_split algebra_simps)
  have D: "digval (take (h + 1) den) =
      (uint (den ! h) * 2 ^ 32 + uint (den ! k)) * (2 ^ 32) ^ k + digval (take k den)"
    using assms(4) by (simp add: h digval_take_split algebra_simps)
  have "digval (take k (drop i num)) < (2 ^ 32) ^ k" "digval (take k den) < (2 ^ 32) ^ k"
    using assms h by (simp_all add: digval_take_less digits_drop del: power_numeral flip: power_numeral)
  moreover have "1 \<le> ((2 :: int) ^ 32) ^ k" by simp
  ultimately show ?thesis
    using assms digval_nonneg [of "take k (drop i num)"] digval_nonneg [of "take k den"]
      digits_nth [of num "i + h"] digits_nth [of num "i + k"] digits_nth [of den h] digits_nth [of den k]
    unfolding est_window_def W D by (simp add: h algebra_simps)
qed

lemma quo_estimate_correct:
  assumes w: "est_window W D P (2 ^ 32) (uint u2) (uint u1) (uint u0) (uint v1) (uint v2)"
    and num: "num ! hi = u2" "num ! (hi - 1) = u1" "num ! (hi - 2) = u0"
    and den: "den ! h = v1" "den ! (h - 1) = v2"
    and q: "q = uint (quo_estimate den h num hi)"
  shows "q < 2 ^ 32 \<and> W < (q + 1) * D \<and> (q - 1) * D \<le> W"
proof -
  note e = est_windowD [OF w] and a = w [unfolded est_window_def] and qb = est_q0_bounds [OF w]
  define work where "work = u2 * BASE + u1"
  define q0 where "q0 = (if u2 \<noteq> v1 then work div v1 else BASE - 1)"
  define tmp where "tmp = work - q0 * v1"
  have "uint u2 < 2 ^ 32" using est_u2_le [OF w] a by linarith
  then have work: "uint work = uint u2 * 2 ^ 32 + uint u1"
    using a uint_pack [of u1 u2] by (simp add: work_def add.commute)
  have q0: "uint q0 = est_q0 (2 ^ 32) (uint u2) (uint u1) (uint v1)"
    by (simp add: q0_def est_q0_def uint64_div work uint64_diff_exact uint_BASE word_uint_eq_iff)
  have "uint (q0 * v1) = uint q0 * uint v1"
    using qb(3) uint64_range(2) [of work] by (intro uint64_mult_exact) (simp add: q0 work)
  then have tmp: "uint tmp = uint u2 * 2 ^ 32 + uint u1 - uint q0 * uint v1"
    unfolding tmp_def using qb(3) by (subst uint64_diff_exact) (simp_all add: q0 work)
  have v2q: "uint (v2 * q0) = uint v2 * uint q0"
    using digit_product_le [of "uint v2" "uint q0"] a qb by (intro uint64_mult_exact) (simp add: q0)
  have test: "tmp < BASE \<and> v2 * q0 > tmp * BASE + u0 \<longleftrightarrow>
      uint v2 * uint q0 > uint tmp * 2 ^ 32 + uint u0"
  proof (cases "uint tmp < 2 ^ 32")
    case True
    then have "uint (tmp * BASE + u0) = uint tmp * 2 ^ 32 + uint u0"
      using a uint_pack [of u0 tmp] by (simp add: add.commute)
    with True show ?thesis by (simp add: word_less_def uint_BASE v2q)
  next
    case False
    then have "2 ^ 32 * 2 ^ 32 \<le> uint tmp * 2 ^ 32" by simp
    moreover have "uint v2 * uint q0 \<le> (2 ^ 32 - 1) * (2 ^ 32 - 1)"
      using a qb by (intro digit_product_le) (simp_all add: q0)
    ultimately have "\<not> uint v2 * uint q0 > uint tmp * 2 ^ 32 + uint u0"
      by simp (use uint64_range(1) [of u0] in linarith)
    with False show ?thesis by (simp add: word_less_def uint_BASE)
  qed
  define high where "high \<longleftrightarrow> uint v2 * uint q0 > uint tmp * 2 ^ 32 + uint u0"
  have qe: "quo_estimate den h num hi = (if high then q0 - 1 else q0)"
    unfolding high_def test [symmetric]
    by (simp only: quo_estimate_def Let_def num den tmp_def q0_def work_def)
  show ?thesis
  proof (cases high)
    case True
    then have "0 < uint v2 * uint q0"
      unfolding high_def using uint64_range(1) [of u0] uint64_range(1) [of tmp] by (smt (verit) mult_nonneg_nonneg zero_le_power)
    then have "uint q0 \<noteq> 0" by auto
    then have "q = uint q0 - 1"
      using q qe True uint64_range(1) [of q0] by (simp add: uint64_diff_exact)
    with est_test_high [OF w q0] True qb(2) show ?thesis
      unfolding high_def tmp by (simp add: q0)
  next
    case False
    with est_test_ok [OF w q0] est_q0_not_low [OF w] q qe qb(2) show ?thesis
      unfolding high_def tmp by (simp add: q0)
  qed
qed

subsection \<open>Multiply and subtract, add back\<close>

lemma sub_digit:
  assumes "uint x < 2 ^ 32" "uint (y :: hwi) < 2 ^ 32"
  shows "uint (LOWPART (x - y)) = uint x - uint y + (if uint x < uint y then 2 ^ 32 else 0)"
    and "HIGHPART (x - y) \<noteq> 0 \<longleftrightarrow> uint x < uint y"
proof -
  have "uint (LOWPART (x - y)) = uint x - uint y + (if uint x < uint y then 2 ^ 32 else 0)
      \<and> (HIGHPART (x - y) \<noteq> 0 \<longleftrightarrow> uint x < uint y)"
  proof (cases "uint x < uint y")
    case False
    then have "uint (x - y) = uint x - uint y" by (simp add: uint64_diff_exact)
    moreover have "uint x - uint y < 2 ^ 32" using assms uint64_range(1) [of y] by linarith
    ultimately show ?thesis
      using False by (simp add: uint_LOWPART word_uint_eq_iff [of "HIGHPART _"] uint_HIGHPART)
  next
    case True
    define d where "d = uint x - uint y + 2 ^ 32"
    have d: "0 \<le> d" "d < 2 ^ 32"
      using True assms by (simp_all add: d_def) (use uint64_range(1) [of x] in linarith)
    have "uint (x - y) = (2 ^ 32 - 1) * 2 ^ 32 + d" using True by (simp add: uint64_sub d_def)
    then have "uint (x - y) mod 2 ^ 32 = d" "uint (x - y) div 2 ^ 32 = 2 ^ 32 - 1"
      using d by (simp_all only: mod_mult_self3 mod_pos_pos_trivial div_mult_self3 div_pos_pos_trivial)
    with True show ?thesis
      by (simp add: uint_LOWPART word_uint_eq_iff [of "HIGHPART _"] uint_HIGHPART d_def)
  qed
  then show "uint (LOWPART (x - y)) = uint x - uint y + (if uint x < uint y then 2 ^ 32 else 0)"
    "HIGHPART (x - y) \<noteq> 0 \<longleftrightarrow> uint x < uint y" by blast+
qed

text \<open>One digit of the multiply-and-subtract: the borrow joins the carry.\<close>

lemma mulsub_digit:
  assumes "uint q < 2 ^ 32" "uint v < 2 ^ 32" "uint c < 2 ^ 32" "uint n < 2 ^ 32"
    and w1: "w1 = q * v + c" and w2: "w2 = n - LOWPART w1"
    and c': "c' = HIGHPART w1 + (if HIGHPART w2 \<noteq> 0 then 1 else 0)"
  shows "uint c' < 2 ^ 32" "uint (LOWPART w2) < 2 ^ 32"
    "uint (LOWPART w2) - 2 ^ 32 * uint c' = uint n - uint q * uint v - uint c"
proof -
  have w1v: "uint w1 = uint q * uint v + uint c"
    using mul_add_digit [of c q v 0] assms by (simp add: w1 add.commute)
  have low: "uint (LOWPART w1) < 2 ^ 32" by (simp add: uint_LOWPART)
  note s = sub_digit [OF assms(4) low, folded w2]
  have le: "uint q * uint v \<le> (2 ^ 32 - 1) * (2 ^ 32 - 1)" using assms by (intro digit_product_le) auto
  have hi: "uint (HIGHPART w1) < 2 ^ 32" by (rule uint_HIGHPART_less)
  have "uint (HIGHPART w1) + (if uint n < uint (LOWPART w1) then 1 else 0) < 2 ^ 32"
  proof (cases "uint (HIGHPART w1) = 2 ^ 32 - 1")
    case True
    then have "uint (HIGHPART w1) = 4294967295" by simp
    then have "uint (LOWPART w1) \<le> 0"
      using low_high [of w1, simplified] le [simplified] assms(3) [simplified] w1v by linarith
    then show ?thesis using True by simp
  next
    case False
    then show ?thesis using hi by simp
  qed
  then have c'v: "uint c' = uint (HIGHPART w1) + (if uint n < uint (LOWPART w1) then 1 else 0)
      \<and> uint c' < 2 ^ 32"
    unfolding c' s(2) by (auto simp: uint64_add)
  then show "uint c' < 2 ^ 32" by simp
  show "uint (LOWPART w2) < 2 ^ 32" by (simp add: uint_LOWPART)
  show "uint (LOWPART w2) - 2 ^ 32 * uint c' = uint n - uint q * uint v - uint c"
    using c'v s(1) low_high [of w1] w1v by simp
qed

lemma mulsub_loop_correct:
  assumes "mulsub_loop q den h i j num carry = (num', carry')"
    and "uint q < 2 ^ 32" "digits den" "h < length den" "digits num" "i + h < length num" "j \<le> Suc h"
    and "uint carry < 2 ^ 32"
  shows "digits num' \<and> length num' = length num \<and> uint carry' < 2 ^ 32
    \<and> (\<forall>k. k < i + j \<or> i + h < k \<longrightarrow> num' ! k = num ! k)
    \<and> digval num' - uint carry' * (2 ^ 32) ^ (i + Suc h) =
        digval num - uint carry * (2 ^ 32) ^ (i + j)
        - uint q * (digval (take (Suc h) den) - digval (take j den)) * (2 ^ 32) ^ i"
  using assms
proof (induction q den h i j num carry rule: mulsub_loop.induct)
  case (1 q den h i j num carry)
  show ?case
  proof (cases "j \<le> h")
    case False
    with "1.prems" have "j = Suc h" "num' = num" "carry' = carry"
      by (auto simp: mulsub_loop.simps [of q den h i j num carry])
    with "1.prems" show ?thesis by simp
  next
    case True
    define w1 where "w1 = q * den ! j + carry"
    define w2 where "w2 = num ! (i + j) - LOWPART w1"
    define c1 where "c1 = HIGHPART w1 + (if HIGHPART w2 \<noteq> 0 then 1 else 0)"
    define num1 where "num1 = num[i + j := LOWPART w2]"
    have dj: "uint (den ! j) < 2 ^ 32" "uint (num ! (i + j)) < 2 ^ 32"
      by (rule digits_nth [OF "1.prems"(3)], use "1.prems" True in simp)
        (rule digits_nth [OF "1.prems"(5)], use "1.prems" True in simp)
    note d = mulsub_digit [OF "1.prems"(2) dj(1) "1.prems"(8) dj(2) w1_def w2_def c1_def]
    have step: "mulsub_loop q den h i (Suc j) num1 c1 = (num', carry')"
      using "1.prems"(1) True
      by (simp add: mulsub_loop.simps [of q den h i j num carry] Let_def w1_def w2_def c1_def num1_def)
    have "digits num' \<and> length num' = length num1 \<and> uint carry' < 2 ^ 32
      \<and> (\<forall>k. k < i + Suc j \<or> i + h < k \<longrightarrow> num' ! k = num1 ! k)
      \<and> digval num' - uint carry' * (2 ^ 32) ^ (i + Suc h) =
          digval num1 - uint c1 * (2 ^ 32) ^ (i + Suc j)
          - uint q * (digval (take (Suc h) den) - digval (take (Suc j) den)) * (2 ^ 32) ^ i"
      using "1.IH" [OF True refl refl refl] step d "1.prems" True
      by (simp add: w1_def w2_def c1_def num1_def digits_update)
    moreover have "digval num1 = digval num + (uint (LOWPART w2) - uint (num ! (i + j))) * (2 ^ 32) ^ (i + j)"
      using "1.prems" True by (simp add: num1_def digval_update)
    moreover have "digval (take (Suc j) den) = digval (take j den) + uint (den ! j) * (2 ^ 32) ^ j"
      using "1.prems" True by (simp add: digval_take_Suc)
    moreover have "uint (LOWPART w2) = 2 ^ 32 * uint c1 + uint (num ! (i + j)) - uint q * uint (den ! j) - uint carry"
      using d(3) by simp
    moreover have "num1 ! k = num ! k" if "k < i + j \<or> i + h < k" for k
      using that True by (auto simp: num1_def)
    ultimately show ?thesis
      by (auto simp: num1_def algebra_simps power_add)
  qed
qed

lemma addback_loop_correct:
  assumes "addback_loop den h i j num carry = (num', carry')"
    and "digits den" "h < length den" "digits num" "i + h < length num" "j \<le> Suc h"
    and "uint carry < 2 ^ 32"
  shows "digits num' \<and> length num' = length num \<and> uint carry' < 2 ^ 32
    \<and> (\<forall>k. k < i + j \<or> i + h < k \<longrightarrow> num' ! k = num ! k)
    \<and> digval num' + uint carry' * (2 ^ 32) ^ (i + Suc h) =
        digval num + uint carry * (2 ^ 32) ^ (i + j)
        + (digval (take (Suc h) den) - digval (take j den)) * (2 ^ 32) ^ i"
  using assms
proof (induction den h i j num carry rule: addback_loop.induct)
  case (1 den h i j num carry)
  show ?case
  proof (cases "j \<le> h")
    case False
    with "1.prems" have "j = Suc h" "num' = num" "carry' = carry"
      by (auto simp: addback_loop.simps [of den h i j num carry])
    with "1.prems" show ?thesis by simp
  next
    case True
    define w where "w = num ! (i + j) + den ! j + carry"
    define num1 where "num1 = num[i + j := LOWPART w]"
    have dj: "uint (den ! j) < 2 ^ 32" "uint (num ! (i + j)) < 2 ^ 32"
      by (rule digits_nth [OF "1.prems"(2)], use "1.prems" True in simp)
        (rule digits_nth [OF "1.prems"(4)], use "1.prems" True in simp)
    then have wv: "uint w = uint (num ! (i + j)) + uint (den ! j) + uint carry"
      using "1.prems"(7) by (simp add: w_def uint64_add_exact)
    have step: "addback_loop den h i (Suc j) num1 (HIGHPART w) = (num', carry')"
      using "1.prems"(1) True
      by (simp add: addback_loop.simps [of den h i j num carry] Let_def w_def num1_def)
    have "digits num' \<and> length num' = length num1 \<and> uint carry' < 2 ^ 32
      \<and> (\<forall>k. k < i + Suc j \<or> i + h < k \<longrightarrow> num' ! k = num1 ! k)
      \<and> digval num' + uint carry' * (2 ^ 32) ^ (i + Suc h) =
          digval num1 + uint (HIGHPART w) * (2 ^ 32) ^ (i + Suc j)
          + (digval (take (Suc h) den) - digval (take (Suc j) den)) * (2 ^ 32) ^ i"
      using "1.IH" [OF True refl] step "1.prems" True uint_HIGHPART_less [of w]
      by (simp add: w_def num1_def digits_update uint_LOWPART)
    moreover have "digval num1 = digval num + (uint (LOWPART w) - uint (num ! (i + j))) * (2 ^ 32) ^ (i + j)"
      using "1.prems" True by (simp add: num1_def digval_update)
    moreover have "digval (take (Suc j) den) = digval (take j den) + uint (den ! j) * (2 ^ 32) ^ j"
      using "1.prems" True by (simp add: digval_take_Suc)
    moreover have "uint (LOWPART w) = uint (num ! (i + j)) + uint (den ! j) + uint carry - 2 ^ 32 * uint (HIGHPART w)"
      using wv low_high [of w] by simp
    moreover have "num1 ! k = num ! k" if "k < i + j \<or> i + h < k" for k
      using that True by (auto simp: num1_def)
    ultimately show ?thesis
      by (auto simp: num1_def algebra_simps power_add)
  qed
qed

subsection \<open>One quotient digit\<close>

lemma digval_window:
  assumes "i + m \<le> length ws"
  shows "digval ws = digval (take i ws) + (2 ^ 32) ^ i * digval (take m (drop i ws))
    + (2 ^ 32) ^ (i + m) * digval (drop (i + m) ws)"
proof -
  have "digval ws = digval (take i ws) + (2 ^ 32) ^ i * digval (drop i ws)"
    using digval_append [of "take i ws" "drop i ws"] assms by simp
  also have "digval (drop i ws) = digval (take m (drop i ws)) + (2 ^ 32) ^ m * digval (drop (i + m) ws)"
    using digval_append [of "take m (drop i ws)" "drop m (drop i ws)"] assms
    unfolding append_take_drop_id by (simp add: add.commute)
  finally show ?thesis by (simp add: algebra_simps power_add)
qed

text \<open>Two sequences that agree outside a window differ by the difference of the windows.\<close>

lemma digval_window_change:
  assumes "length ws' = length ws" "i + m \<le> length ws"
    and "\<forall>k. k < i \<or> i + m \<le> k \<longrightarrow> ws' ! k = ws ! k"
    and "digval ws' = digval ws + d * (2 ^ 32) ^ i"
  shows "take i ws' = take i ws"
    and "digval (take m (drop i ws')) = digval (take m (drop i ws)) + d"
proof -
  show t: "take i ws' = take i ws" using assms by (intro nth_equalityI) auto
  have "drop (i + m) ws' = drop (i + m) ws" using assms by (intro nth_equalityI) auto
  then have "(2 ^ 32) ^ i * digval (take m (drop i ws')) = (2 ^ 32) ^ i * (digval (take m (drop i ws)) + d)"
    using assms(4) digval_window [of i m ws] digval_window [of i m ws'] assms(1,2) t
    by (simp add: algebra_simps)
  then show "digval (take m (drop i ws')) = digval (take m (drop i ws)) + d"
    by (simp only: mult_cancel_left) simp
qed

lemma small_multiple_zero:
  fixes r P c :: int
  assumes "0 \<le> r" "r < P" "0 \<le> r + c * P" "r + c * P < P"
  shows "c = 0"
proof -
  have "(r + c * P) div P = c + r div P" using assms by (intro div_mult_self1) simp
  moreover have "(r + c * P) div P = 0" "r div P = 0" using assms by (auto intro: div_pos_pos_trivial)
  ultimately show ?thesis by simp
qed

lemma div_step_correct:
  assumes dig: "digits num" "digits den" and len: "1 \<le> h" "h < length den" "i + h + 1 < length num"
    and norm: "2 ^ 32 \<le> 2 * uint (den ! h)"
    and D: "D = digval (take (Suc h) den)" and W: "W = digval (take (h + 2) (drop i num))"
    and less: "W < 2 ^ 32 * D"
    and step: "div_step den h i num = (num', q)"
  shows "digits num' \<and> length num' = length num \<and> take i num' = take i num \<and> uint q < 2 ^ 32
    \<and> W = uint q * D + digval (take (Suc h) (drop i num')) \<and> digval (take (Suc h) (drop i num')) < D"
proof -
  define hi where "hi = i + h + 1"
  define qe where "qe = quo_estimate den h num hi"
  define P where "P = ((2 :: int) ^ 32) ^ Suc h"
  have est: "est_window W D ((2 ^ 32) ^ (h - 1)) (2 ^ 32) (uint (num ! hi)) (uint (num ! (i + h)))
      (uint (num ! (i + h - 1))) (uint (den ! h)) (uint (den ! (h - 1)))"
    using digits_est_window [OF dig len norm] less by (simp add: W D hi_def)
  have q: "uint qe < 2 ^ 32 \<and> W < (uint qe + 1) * D \<and> (uint qe - 1) * D \<le> W"
    by (rule quo_estimate_correct [OF est refl _ _ refl refl]) (simp_all add: hi_def qe_def)
  obtain n1 c1 where ms: "mulsub_loop qe den h i 0 num 0 = (n1, c1)" by fastforce
  have M: "digits n1 \<and> length n1 = length num \<and> uint c1 < 2 ^ 32
      \<and> (\<forall>k. k < i \<or> i + h < k \<longrightarrow> n1 ! k = num ! k)
      \<and> digval n1 = digval num + (uint c1 * P - uint qe * D) * (2 ^ 32) ^ i"
    using mulsub_loop_correct [OF ms] q dig len by (simp add: P_def D algebra_simps power_add)
  define R where "R = digval (take (Suc h) (drop i n1))"
  have w1: "take i n1 = take i num" "R = digval (take (Suc h) (drop i num)) + (uint c1 * P - uint qe * D)"
    using digval_window_change [of n1 num i "Suc h" "uint c1 * P - uint qe * D"] M len
    by (simp_all add: R_def Suc_le_eq)
  have "W = digval (take (Suc h) (drop i num)) + uint (num ! hi) * P"
    using len by (simp add: W hi_def P_def digval_take_split)
  then have Weq: "W - uint qe * D = R + (uint (n1 ! hi) - uint c1) * P"
    using w1(2) M by (simp add: hi_def algebra_simps)
  have R: "0 \<le> R" "R < P" and DP: "D < P"
    unfolding R_def P_def D using M len dig
    by (auto intro: digval_nonneg digval_take_less digits_drop simp del: power_numeral power_Suc)
  have cmp: "sint (n1 ! hi) < sint c1 \<longleftrightarrow> uint (n1 ! hi) < uint c1"
  proof -
    have "uint (n1 ! hi) < 2 ^ 32" using M len by (intro digits_nth) (auto simp: hi_def)
    then show ?thesis using M by (simp add: sint64_uint)
  qed
  show ?thesis
  proof (cases "uint (n1 ! hi) < uint c1")
    case False
    then have "num' = n1" "q = qe"
      using step ms cmp by (auto simp: div_step_def Let_def hi_def qe_def)
    moreover have "0 \<le> (uint (n1 ! hi) - uint c1) * P" using False R by (intro mult_nonneg_nonneg) auto
    then have "0 \<le> R + (uint (n1 ! hi) - uint c1) * P" using R by linarith
    moreover have "R + (uint (n1 ! hi) - uint c1) * P < P"
      using q DP unfolding Weq [symmetric] by (simp add: distrib_right)
    ultimately have "uint (n1 ! hi) - uint c1 = 0" "num' = n1" "q = qe"
      using R small_multiple_zero [of R P] by blast+
    moreover from this have "W = uint qe * D + R" using Weq by simp
    ultimately show ?thesis using M w1 q by (auto simp: R_def algebra_simps)
  next
    case True
    obtain n2 c2 where ab: "addback_loop den h i 0 n1 0 = (n2, c2)" by fastforce
    have A: "digits n2 \<and> length n2 = length n1 \<and> uint c2 < 2 ^ 32
        \<and> (\<forall>k. k < i \<or> i + h < k \<longrightarrow> n2 ! k = n1 ! k)
        \<and> digval n2 = digval n1 + (D - uint c2 * P) * (2 ^ 32) ^ i"
      using addback_loop_correct [OF ab] M dig len by (simp add: P_def D algebra_simps power_add)
    define R2 where "R2 = digval (take (Suc h) (drop i n2))"
    have w2: "take i n2 = take i n1" "R2 = R + (D - uint c2 * P)"
      using digval_window_change [of n2 n1 i "Suc h" "D - uint c2 * P"] A M len
      by (simp_all add: R_def R2_def Suc_le_eq)
    have R2: "0 \<le> R2" "R2 < P"
      unfolding R2_def P_def using A M len by (auto intro: digval_nonneg digval_take_less digits_drop simp del: power_numeral power_Suc)
    define c where "c = uint (n1 ! hi) - uint c1 + uint c2"
    have Weq2: "W - (uint qe - 1) * D = R2 + c * P"
      using Weq w2 by (simp add: c_def algebra_simps)
    have "(uint (n1 ! hi) - uint c1) * P \<le> - 1 * P" using True R by (intro mult_right_mono) auto
    then have neg: "W < uint qe * D" using Weq R by linarith
    then have "c = 0"
      using R2 Weq2 q DP by (intro small_multiple_zero [of R2 P]) (auto simp: algebra_simps)
    have "0 \<le> W" by (simp add: W digval_nonneg)
    then have "uint qe \<noteq> 0" using neg by auto
    then have "1 \<le> uint qe" using uint64_range(1) [of qe] by linarith
    then have q1: "uint (qe - 1) = uint qe - 1" by (simp add: uint64_diff_exact)
    have top: "uint (n2 ! hi + c2) < 2 ^ 32"
      using \<open>c = 0\<close> A M by (simp add: c_def hi_def uint64_add)
    have res: "num' = n2[hi := n2 ! hi + c2]" "q = qe - 1"
      using step ms ab cmp True by (auto simp: div_step_def Let_def hi_def qe_def)
    have "take i num' = take i num" "drop i num' = (drop i n2)[Suc h := n2 ! hi + c2]"
      using w1 w2 by (simp_all add: res hi_def drop_update_swap)
    moreover have "W = uint (qe - 1) * D + R2" using Weq2 \<open>c = 0\<close> by (simp add: q1)
    moreover from this have "R2 < D" using neg by (simp add: q1 left_diff_distrib)
    moreover have "uint (qe - 1) < 2 ^ 32" using q q1 by linarith
    ultimately show ?thesis using A M top by (simp add: res digits_update R2_def)
  qed
qed

lemma div_main_loop_correct:
  assumes "digits num" "digits den" "1 \<le> h" "h < length den" "length num = 5" "n + h \<le> 4"
    and "2 ^ 32 \<le> 2 * uint (den ! h)" and D: "D = digval (take (Suc h) den)"
    and "digval (take (Suc h) (drop n num)) < D"
    and "digits quo" "length quo = 4" "\<forall>k < n. quo ! k = 0"
  shows "digits (div_main_loop den h n num quo) \<and> length (div_main_loop den h n num quo) = 4
    \<and> digval (div_main_loop den h n num quo) = digval quo + digval (take (n + Suc h) num) div D"
  using assms(1,5,6,9-12)
proof (induction n arbitrary: num quo)
  case 0
  then show ?case by (simp add: digval_nonneg)
next
  case (Suc i)
  obtain num1 q where st: "div_step den h i num = (num1, q)" by fastforce
  define W where "W = digval (take (h + 2) (drop i num))"
  define R where "R = digval (take (Suc h) (drop i num1))"
  have W: "W = uint (num ! i) + 2 ^ 32 * digval (take (Suc h) (drop (Suc i) num))"
    using Suc.prems by (simp add: W_def numeral_2_eq_2 flip: Cons_nth_drop_Suc)
  have "uint (num ! i) < 2 ^ 32" using Suc.prems by (intro digits_nth) auto
  moreover have "2 ^ 32 * (digval (take (Suc h) (drop (Suc i) num)) + 1) \<le> 2 ^ 32 * D"
    using Suc.prems by (intro mult_left_mono) auto
  ultimately have less: "W < 2 ^ 32 * D" using W by simp
  have S: "digits num1 \<and> length num1 = length num \<and> take i num1 = take i num \<and> uint q < 2 ^ 32
      \<and> W = uint q * D + R \<and> R < D"
    unfolding R_def using Suc.prems assms less st
    by (intro div_step_correct [OF _ _ _ _ _ _ D W_def]) auto
  let ?r = "div_main_loop den h i num1 (quo[i := q])"
  have IH: "digits ?r \<and> length ?r = 4 \<and> digval ?r = digval (quo[i := q]) + digval (take (i + Suc h) num1) div D"
    using Suc.prems S by (intro Suc.IH) (auto simp: R_def digits_update)
  have "digval (take (i + Suc h) num1) = digval (take i num) + (2 ^ 32) ^ i * R"
    using digval_append [of "take i num1" "take (Suc h) (drop i num1)"] S Suc.prems
    by (simp only: take_add R_def) simp
  moreover have "digval (take (Suc i + Suc h) num) = digval (take i num) + (2 ^ 32) ^ i * W"
    using digval_append [of "take i num" "take (h + 2) (drop i num)"] Suc.prems
    unfolding take_add [symmetric] W_def by simp
  ultimately have "digval (take (Suc i + Suc h) num) = digval (take (i + Suc h) num1) + ((2 ^ 32) ^ i * uint q) * D"
    using S by (simp add: algebra_simps)
  moreover have "D \<noteq> 0" using S digval_nonneg [of "take (Suc h) (drop i num1)"] by (auto simp: R_def)
  moreover have "digval (quo[i := q]) = digval quo + uint q * (2 ^ 32) ^ i"
    using Suc.prems by (simp add: digval_update)
  ultimately show ?case using IH st by (simp add: mult.commute)
qed

subsection \<open>Normalisation\<close>

lemma scale_num_loop_correct:
  assumes "scale_num_loop s i num carry = (num', carry')"
    and "uint s < 2 ^ 32" "digits num" "4 \<le> length num" "i \<le> 4" "uint carry < 2 ^ 32"
  shows "digits num' \<and> length num' = length num \<and> uint carry' < 2 ^ 32
    \<and> (\<forall>k. k < i \<or> 4 \<le> k \<longrightarrow> num' ! k = num ! k)
    \<and> digval num' + uint carry' * (2 ^ 32) ^ 4 = digval num + uint carry * (2 ^ 32) ^ i
        + (uint s - 1) * digval (drop i (take 4 num)) * (2 ^ 32) ^ i"
  using assms
proof (induction s i num carry rule: scale_num_loop.induct)
  case (1 s i num carry)
  show ?case
  proof (cases "i \<le> 3")
    case False
    with "1.prems" have "i = 4" "num' = num" "carry' = carry"
      by (auto simp: scale_num_loop.simps [of s i num carry])
    with "1.prems" show ?thesis by simp
  next
    case True
    define w where "w = num ! i * s + carry"
    define num1 where "num1 = num[i := LOWPART w]"
    have di: "uint (num ! i) < 2 ^ 32"
      by (rule digits_nth [OF "1.prems"(3)]) (use "1.prems" True in simp)
    then have wv: "uint w = uint (num ! i) * uint s + uint carry"
      using mul_add_digit [of carry "num ! i" s 0] "1.prems" by (simp add: w_def add.commute)
    have step: "scale_num_loop s (Suc i) num1 (HIGHPART w) = (num', carry')"
      using "1.prems"(1) True
      by (simp add: scale_num_loop.simps [of s i num carry] Let_def w_def num1_def)
    have dr: "drop (Suc i) (take 4 num1) = drop (Suc i) (take 4 num)"
      by (simp add: num1_def take_update_swap)
    have dr': "drop i (take 4 num) = num ! i # drop (Suc i) (take 4 num)"
      using "1.prems" True by (simp add: Cons_nth_drop_Suc [symmetric])
    have "digits num' \<and> length num' = length num1 \<and> uint carry' < 2 ^ 32
      \<and> (\<forall>k. k < Suc i \<or> 4 \<le> k \<longrightarrow> num' ! k = num1 ! k)
      \<and> digval num' + uint carry' * (2 ^ 32) ^ 4 = digval num1 + uint (HIGHPART w) * (2 ^ 32) ^ Suc i
        + (uint s - 1) * digval (drop (Suc i) (take 4 num1)) * (2 ^ 32) ^ Suc i"
      using "1.IH" [OF True refl] step "1.prems" True uint_HIGHPART_less [of w]
      by (simp add: w_def num1_def digits_update uint_LOWPART)
    moreover have "digval num1 = digval num + (uint (LOWPART w) - uint (num ! i)) * (2 ^ 32) ^ i"
      using "1.prems" True by (simp add: num1_def digval_update)
    moreover have "uint (LOWPART w) = uint (num ! i) * uint s + uint carry - 2 ^ 32 * uint (HIGHPART w)"
      using wv low_high [of w] by simp
    moreover have "num1 ! k = num ! k" if "k < i \<or> 4 \<le> k" for k
      using that True by (auto simp: num1_def)
    ultimately show ?thesis
      unfolding dr dr' by (auto simp: num1_def algebra_simps)
  qed
qed

lemma scale_den_loop_fst:
  "fst (scale_den_loop s i den carry h) = fst (scale_num_loop s i den carry)"
  by (induction s i den carry h rule: scale_den_loop.induct)
    (simp add: scale_den_loop.simps [of _ i for i] scale_num_loop.simps [of _ i for i] Let_def)

lemma scale_num_loop_below: "k < i \<Longrightarrow> fst (scale_num_loop s i num carry) ! k = num ! k"
proof (induction s i num carry rule: scale_num_loop.induct)
  case (1 s i num carry)
  then show ?case
    by (cases "i \<le> 3") (simp_all add: scale_num_loop.simps [of s i num carry] Let_def)
qed

text \<open>The divisor's highest nonzero digit, as the scaling loop updates it.\<close>

lemma scale_den_loop_snd:
  assumes "scale_den_loop s i den carry h = (den', h')"
  shows "h' = h \<and> (\<forall>j. i \<le> j \<and> j \<le> 3 \<longrightarrow> den' ! j = 0)
    \<or> i \<le> h' \<and> h' \<le> 3 \<and> den' ! h' \<noteq> 0 \<and> (\<forall>j. h' < j \<and> j \<le> 3 \<longrightarrow> den' ! j = 0)"
  using assms
proof (induction s i den carry h rule: scale_den_loop.induct)
  case (1 s i den carry h)
  show ?case
  proof (cases "i \<le> 3")
    case False
    with "1.prems" show ?thesis by (auto simp: scale_den_loop.simps [of s i])
  next
    case True
    define w where "w = den ! i * s + carry"
    define den1 where "den1 = den[i := LOWPART w]"
    define h1 where "h1 = (if den1 ! i \<noteq> 0 then i else h)"
    have step: "scale_den_loop s (Suc i) den1 (HIGHPART w) h1 = (den', h')"
      using "1.prems" True by (simp add: scale_den_loop.simps [of s i] Let_def w_def den1_def h1_def)
    have IH: "h' = h1 \<and> (\<forall>j. Suc i \<le> j \<and> j \<le> 3 \<longrightarrow> den' ! j = 0)
        \<or> Suc i \<le> h' \<and> h' \<le> 3 \<and> den' ! h' \<noteq> 0 \<and> (\<forall>j. h' < j \<and> j \<le> 3 \<longrightarrow> den' ! j = 0)"
      using "1.IH" [OF True refl refl refl] step by (simp add: w_def den1_def h1_def)
    have "den' ! i = den1 ! i"
      using step scale_den_loop_fst [of s "Suc i" den1 "HIGHPART w" h1]
        scale_num_loop_below [of i "Suc i" s den1 "HIGHPART w"] by simp
    moreover have "i \<le> j \<longleftrightarrow> j = i \<or> Suc i \<le> j" for j by auto
    ultimately show ?thesis
      using IH True by (cases "den1 ! i = 0") (auto simp: h1_def Suc_le_eq)
  qed
qed

lemma digval_take_zeros:
  "\<forall>k. m \<le> k \<and> k < length ws \<longrightarrow> ws ! k = 0 \<Longrightarrow> digval (take m ws) = digval ws"
proof (induction ws arbitrary: m)
  case (Cons w ws)
  show ?case
  proof (cases m)
    case 0
    then have "w = 0" using Cons.prems by force
    moreover have "digval (take 0 ws) = digval ws"
      using Cons.prems 0 by (intro Cons.IH) force
    ultimately show ?thesis using 0 by simp
  next
    case (Suc m')
    then have "digval (take m' ws) = digval ws" using Cons.prems by (intro Cons.IH) force
    with Suc show ?thesis by simp
  qed
qed simp

lemma find_den_hi_sig_Some:
  assumes "digval (take n den) \<noteq> 0" "n \<le> length den"
  shows "\<exists>h < n. find_den_hi_sig den n = Some h \<and> den ! h \<noteq> 0 \<and> (\<forall>k. h < k \<and> k < n \<longrightarrow> den ! k = 0)"
  using assms
proof (induction n)
  case (Suc n)
  show ?case
  proof (cases "den ! n = 0")
    case True
    with Suc.prems have "digval (take n den) \<noteq> 0" by (simp add: digval_take_Suc)
    with Suc obtain h where "h < n" "find_den_hi_sig den n = Some h" "den ! h \<noteq> 0"
      "\<forall>k. h < k \<and> k < n \<longrightarrow> den ! k = 0" by auto
    with True show ?thesis by (intro exI [of _ h]) (auto simp: less_Suc_eq)
  qed auto
qed simp

text \<open>Knuth's exercise 4.3.1-23: the scale factor normalises the leading digit.\<close>

lemma scale_normalises:
  fixes v :: int
  assumes "0 < v" "v < 2 ^ 32"
  shows "2 ^ 32 \<le> 2 * (v * (2 ^ 32 div (v + 1)))"
proof (cases "2 ^ 31 \<le> v")
  case True
  have "(v + 1) div (v + 1) \<le> (2 ^ 32 :: int) div (v + 1)" using assms by (intro zdiv_mono1) auto
  then have "1 \<le> (2 ^ 32 :: int) div (v + 1)" using assms by simp
  then have "v * 1 \<le> v * (2 ^ 32 div (v + 1))" using assms by (intro mult_left_mono) auto
  moreover have "2 ^ 32 \<le> 2 * v" using True by simp
  ultimately show ?thesis by linarith
next
  case False
  define d where "d = (2 ^ 32 :: int) div (v + 1)"
  have "(2 ^ 32 :: int) = d * (v + 1) + 2 ^ 32 mod (v + 1)"
    unfolding d_def by (simp only: div_mult_mod_eq)
  moreover have "(2 ^ 32 :: int) mod (v + 1) < v + 1" using assms by (intro pos_mod_bound) simp
  ultimately have "2 ^ 32 - v \<le> d * (v + 1)" by linarith
  then have "2 * v * (2 ^ 32 - v) \<le> 2 * v * (d * (v + 1))" using assms by (intro mult_left_mono) auto
  moreover have "0 \<le> (v - 1) * (2 ^ 32 - 2 * v)" using assms False by (intro mult_nonneg_nonneg) auto
  ultimately have "(2 ^ 32 - 2) * (v + 1) < (2 * (v * d)) * (v + 1)" by (simp add: algebra_simps)
  then have "2 ^ 32 - 2 < 2 * (v * d)" using assms by (simp only: mult_less_cancel_right_pos)
  then show ?thesis unfolding d_def [symmetric] by simp
qed

subsection \<open>The long division\<close>

lemma div_main_correct:
  assumes "digits num" "length num = 5" "digits den" "length den = 4" "1 \<le> h" "h \<le> 3"
    and "2 ^ 32 \<le> 2 * uint (den ! h)" "\<forall>k. h < k \<and> k < 4 \<longrightarrow> den ! k = 0"
    and "digval num < digval den * (2 ^ 32) ^ (4 - h)"
  shows "digits (div_main_loop den h (4 - h) num (replicate 4 0))
    \<and> length (div_main_loop den h (4 - h) num (replicate 4 0)) = 4
    \<and> digval (div_main_loop den h (4 - h) num (replicate 4 0)) = digval num div digval den"
proof -
  have D: "digval den = digval (take (Suc h) den)" using assms by (intro digval_take_zeros [symmetric]) auto
  have all: "take (4 - h + Suc h) num = num" using assms by simp
  have "(2 ^ 32) ^ (4 - h) * digval (drop (4 - h) num) \<le> digval num"
    using digval_append [of "take (4 - h) num" "drop (4 - h) num"] digval_nonneg [of "take (4 - h) num"] assms
    by simp
  also have "\<dots> < (2 ^ 32) ^ (4 - h) * digval den" using assms by (simp add: mult.commute)
  finally have less: "(2 ^ 32) ^ (4 - h) * digval (drop (4 - h) num) < (2 ^ 32) ^ (4 - h) * digval den" .
  have "(0 :: int) < (2 ^ 32) ^ (4 - h)" by simp
  with less have "digval (drop (4 - h) num) < digval den" by (simp only: mult_less_cancel_left_pos)
  then have "digval (take (Suc h) (drop (4 - h) num)) < digval den" using assms by simp
  then show ?thesis
    using div_main_loop_correct [OF assms(1,3,5) _ assms(2) _ assms(7) D, of "4 - h" "replicate 4 0"] assms all
    by simp
qed

lemma scale_facts:
  assumes "uint v \<noteq> 0" "uint v < 2 ^ 32" "s = BASE div (v + 1)"
  shows "uint s = 2 ^ 32 div (uint v + 1)" "uint s < 2 ^ 32" "uint s * (uint v + 1) \<le> 2 ^ 32"
proof -
  have "0 < uint v" using assms uint64_range(1) [of v] by linarith
  show s: "uint s = 2 ^ 32 div (uint v + 1)"
    using assms by (simp add: uint64_div uint_BASE uint64_add)
  have "(2 ^ 32 :: int) < 2 ^ 32 * (uint v + 1)" using \<open>0 < uint v\<close> by simp
  then show "uint s < 2 ^ 32" unfolding s using \<open>0 < uint v\<close> by (intro int_div_less) auto
  have "0 \<le> (2 ^ 32 :: int) mod (uint v + 1)" using \<open>0 < uint v\<close> by (intro pos_mod_sign) simp
  then show "uint s * (uint v + 1) \<le> 2 ^ 32"
    unfolding s using div_mult_mod_eq [of "2 ^ 32 :: int" "uint v + 1"] by linarith
qed

lemma digval_nth_le: "k < length ws \<Longrightarrow> uint (ws ! k) * (2 ^ 32) ^ k \<le> digval ws"
proof (induction ws arbitrary: k)
  case (Cons w ws)
  show ?case
  proof (cases k)
    case 0
    then show ?thesis by (simp add: digval_nonneg)
  next
    case (Suc m)
    with Cons have "uint (ws ! m) * (2 ^ 32) ^ m \<le> digval ws" by simp
    then have "2 ^ 32 * (uint (ws ! m) * (2 ^ 32) ^ m) \<le> 2 ^ 32 * digval ws"
      by (intro mult_left_mono) simp_all
    moreover have "0 \<le> uint w" by simp
    ultimately have "uint (ws ! m) * (2 ^ 32 * (2 ^ 32) ^ m) \<le> uint w + 2 ^ 32 * digval ws"
      by (simp only: mult_ac)
    with Suc show ?thesis by (simp only: nth_Cons_Suc power_Suc digval.simps)
  qed
qed simp

lemma digit_zero_of_less:
  assumes "digval ws < (2 ^ 32) ^ m" "m \<le> k" "k < length ws"
  shows "ws ! k = 0"
proof (rule ccontr)
  assume "ws ! k \<noteq> 0"
  then have "1 \<le> uint (ws ! k)" using uint64_range(1) [of "ws ! k"] by (simp add: uint_0_iff order_less_le int_one_le_iff_zero_less)
  then have "1 * (2 ^ 32) ^ k \<le> uint (ws ! k) * (2 ^ 32) ^ k" by (intro mult_right_mono) simp_all
  also have "\<dots> \<le> digval ws" using assms by (intro digval_nth_le)
  also have "\<dots> < (2 ^ 32) ^ m" by (rule assms)
  also have "\<dots> \<le> (2 ^ 32) ^ k" using assms(2) by (intro power_increasing) simp_all
  finally show False by simp
qed

text \<open>Scaling the divisor keeps its length and normalises its leading digit.\<close>

lemma scale_den_correct:
  assumes den: "digits den" "length den = 4" and h: "h < 4" "den ! h \<noteq> 0" "\<forall>k. h < k \<and> k < 4 \<longrightarrow> den ! k = 0"
    and s: "s = BASE div (den ! h + 1)"
    and loop: "scale_den_loop s 0 den 0 h = (d1, h')"
  shows "h' = h \<and> digits d1 \<and> length d1 = 4 \<and> digval d1 = uint s * digval den
    \<and> 2 ^ 32 \<le> 2 * uint (d1 ! h) \<and> (\<forall>k. h < k \<and> k < 4 \<longrightarrow> d1 ! k = 0)"
proof -
  define v where "v = uint (den ! h)"
  have v: "0 < v" "v < 2 ^ 32" "uint (den ! h) \<noteq> 0"
    using h den digits_nth [of den h] uint64_range(1) [of "den ! h"]
    by (auto simp: v_def uint_0_iff order_less_le)
  note sf = scale_facts [OF v(3) v(2) [unfolded v_def] s, folded v_def]
  obtain c where loop': "scale_num_loop s 0 den 0 = (d1, c)"
    using scale_den_loop_fst [of s 0 den 0 h] loop by (metis fst_conv prod.collapse)
  have L: "digits d1 \<and> length d1 = 4 \<and> uint c < 2 ^ 32
      \<and> digval d1 + uint c * (2 ^ 32) ^ 4 = uint s * digval den"
    using scale_num_loop_correct [OF loop' sf(2)] den by (simp add: algebra_simps)
  have D: "digval den = v * (2 ^ 32) ^ h + digval (take h den)"
    using digval_take_zeros [of "Suc h" den] digval_take_split [of h den] h den by (auto simp: v_def)
  have low: "digval (take h den) < (2 ^ 32) ^ h" using den h by (intro digval_take_less) auto
  have "uint s * digval den < uint s * ((v + 1) * (2 ^ 32) ^ h)"
  proof (intro mult_strict_left_mono)
    show "digval den < (v + 1) * (2 ^ 32) ^ h" using D low by (simp add: distrib_right)
    have "2 ^ 32 \<le> 2 * (v * uint s)" using scale_normalises [OF v(1,2)] sf(1) by simp
    then have "uint s \<noteq> 0" by auto
    then show "0 < uint s" using uint64_range(1) [of s] by linarith
  qed
  also have "\<dots> = uint s * (v + 1) * (2 ^ 32) ^ h" by simp
  also have "\<dots> \<le> 2 ^ 32 * (2 ^ 32) ^ h" using sf(3) by (intro mult_right_mono) simp_all
  finally have less: "uint s * digval den < (2 ^ 32) ^ Suc h" by simp
  have "uint c = 0"
  proof (rule ccontr)
    assume "uint c \<noteq> 0"
    then have "1 \<le> uint c" using uint64_range(1) [of c] by linarith
    then have "1 * (2 ^ 32) ^ 4 \<le> uint c * (2 ^ 32) ^ 4" by (intro mult_right_mono) simp_all
    moreover have "((2 :: int) ^ 32) ^ Suc h \<le> (2 ^ 32) ^ 4" using h by (intro power_increasing) simp_all
    ultimately show False using L less digval_nonneg [of d1] by linarith
  qed
  with L have val: "digval d1 = uint s * digval den" by simp
  have zero: "\<forall>k. h < k \<and> k < 4 \<longrightarrow> d1 ! k = 0"
    using digit_zero_of_less [of d1 "Suc h"] less L val by (auto simp: Suc_le_eq)
  have "uint s * v * (2 ^ 32) ^ h \<le> digval d1"
    unfolding val D using digval_nonneg [of "take h den"] by (simp add: distrib_left mult.assoc)
  also have "digval d1 = uint (d1 ! h) * (2 ^ 32) ^ h + digval (take h d1)"
    using digval_take_zeros [of "Suc h" d1] digval_take_split [of h d1] h L zero by auto
  also have "\<dots> < (uint (d1 ! h) + 1) * (2 ^ 32) ^ h"
    using digval_take_less [of d1 h] L h by (simp add: distrib_right)
  finally have lead: "uint s * v * (2 ^ 32) ^ h < (uint (d1 ! h) + 1) * (2 ^ 32) ^ h" .
  have "(0 :: int) < (2 ^ 32) ^ h" by simp
  with lead have "uint s * v < uint (d1 ! h) + 1" by (simp only: mult_less_cancel_right_pos)
  then have norm: "2 ^ 32 \<le> 2 * uint (d1 ! h)"
    using scale_normalises [OF v(1,2)] sf(1) by (simp add: mult.commute)
  then have nz: "d1 ! h \<noteq> 0" by auto
  have "h' = h"
    using scale_den_loop_snd [OF loop]
  proof (elim disjE)
    assume a: "0 \<le> h' \<and> h' \<le> 3 \<and> d1 ! h' \<noteq> 0 \<and> (\<forall>j. h' < j \<and> j \<le> 3 \<longrightarrow> d1 ! j = 0)"
    then have "\<not> h < h'" using zero by auto
    moreover have "\<not> h' < h" using a nz h by auto
    ultimately show ?thesis by simp
  qed blast
  with L val norm zero show ?thesis by simp
qed

lemma div_long_correct:
  assumes num: "digits num" "length num = 5" "num ! 4 = 0"
    and den: "digits den" "length den = 4" "2 ^ 32 \<le> digval den"
  shows "\<exists>quo. div_long num den = Inr quo \<and> digits quo \<and> length quo = 4
    \<and> digval quo = digval num div digval den"
proof -
  have "digval (take 4 den) \<noteq> 0" using den digval_nonneg [of den] by auto
  then obtain h where h: "h < 4" "find_den_hi_sig den 4 = Some h" "den ! h \<noteq> 0"
      "\<forall>k. h < k \<and> k < 4 \<longrightarrow> den ! k = 0"
    using find_den_hi_sig_Some [of 4 den] den by auto
  have D: "digval den = uint (den ! h) * (2 ^ 32) ^ h + digval (take h den)"
    using digval_take_zeros [of "Suc h" den] digval_take_split [of h den] h den by auto
  have low: "digval (take h den) < (2 ^ 32) ^ h" "0 \<le> digval (take h den)"
    using den h by (auto intro: digval_take_less digval_nonneg simp del: power_numeral)
  define v where "v = uint (den ! h)"
  have v: "0 < v" "v < 2 ^ 32" "uint (den ! h) \<noteq> 0"
    using h den digits_nth [of den h] uint64_range(1) [of "den ! h"]
    by (auto simp: v_def uint_0_iff order_less_le)
  have h1: "1 \<le> h"
  proof (rule ccontr)
    assume "\<not> 1 \<le> h"
    then have "h = 0" by simp
    with D v den(3) show False by (simp add: v_def)
  qed
  have top: "\<forall>k. 4 \<le> k \<and> k < length num \<longrightarrow> num ! k = 0"
  proof (intro allI impI)
    fix k assume "4 \<le> k \<and> k < length num"
    then have "k = 4" using num(2) by linarith
    then show "num ! k = 0" using num(3) by simp
  qed
  have take4: "digval (take 4 num) = digval num" by (rule digval_take_zeros [OF top])
  have N: "digval num < (2 ^ 32) ^ 4"
    using digval_take_less [OF num(1), of 4] num(2) unfolding take4 by simp
  have D_ge: "(2 ^ 32) ^ h \<le> digval den"
  proof -
    have "1 * (2 ^ 32) ^ h \<le> v * (2 ^ 32) ^ h" using v by (intro mult_right_mono) simp_all
    with D low(2) show ?thesis unfolding v_def by linarith
  qed
  have pow: "((2 :: int) ^ 32) ^ 4 = (2 ^ 32) ^ h * (2 ^ 32) ^ (4 - h)"
    using h(1) by (simp only: power_add [symmetric]) simp
  define s where "s = BASE div (den ! h + 1)"
  note sf = scale_facts [OF v(3) v(2) [unfolded v_def] s_def, folded v_def]
  have s_pos: "0 < uint s"
  proof -
    have "2 ^ 32 \<le> 2 * (v * uint s)" using scale_normalises [OF v(1,2)] sf(1) by simp
    then have "uint s \<noteq> 0" by auto
    then show ?thesis using uint64_range(1) [of s] by linarith
  qed
  have bound: "uint s * digval num < uint s * digval den * (2 ^ 32) ^ (4 - h)"
  proof -
    have "digval num < digval den * (2 ^ 32) ^ (4 - h)"
      using N D_ge unfolding pow by (smt (verit) mult_right_mono zero_le_power)
    then show ?thesis using s_pos by (simp add: mult.assoc)
  qed
  show ?thesis
  proof (cases "s > 1")
    case False
    then have "uint s = 1" using s_pos by (simp add: word_less_def not_less)
    moreover from this have "2 ^ 32 \<le> 2 * uint (den ! h)"
      using scale_normalises [OF v(1,2)] sf(1) by (simp add: v_def)
    moreover have "div_long num den = Inr (div_main_loop den h (4 - h) num (replicate 4 0))"
      using False by (simp add: div_long_def h Let_def s_def)
    ultimately show ?thesis
      using div_main_correct [of num den h] num den h h1 bound by (simp add: less_Suc_eq_le numeral_eq_Suc)
  next
    case True
    obtain n1 c1 where sn: "scale_num_loop s 0 num 0 = (n1, c1)" by fastforce
    obtain d1 h' where sd: "scale_den_loop s 0 den 0 h = (d1, h')" by fastforce
    from take4 have L: "digits n1 \<and> length n1 = 5 \<and> uint c1 < 2 ^ 32 \<and> n1 ! 4 = 0
        \<and> digval n1 + uint c1 * (2 ^ 32) ^ 4 = uint s * digval num"
      using scale_num_loop_correct [OF sn sf(2)] num by (simp add: algebra_simps)
    define n2 where "n2 = n1[4 := c1]"
    have n2: "digits n2" "length n2 = 5" "digval n2 = uint s * digval num"
      using L by (auto simp: n2_def digits_update digval_update)
    have d1: "h' = h \<and> digits d1 \<and> length d1 = 4 \<and> digval d1 = uint s * digval den
        \<and> 2 ^ 32 \<le> 2 * uint (d1 ! h) \<and> (\<forall>k. h < k \<and> k < 4 \<longrightarrow> d1 ! k = 0)"
      by (rule scale_den_correct [OF den(1,2) h(1,3,4) s_def sd])
    have "div_long num den = Inr (div_main_loop d1 h (4 - h) n2 (replicate 4 0))"
      using True sn sd d1 by (simp add: div_long_def h Let_def s_def n2_def)
    moreover have "digval n2 div digval d1 = digval num div digval den"
      using n2 d1 s_pos by simp
    ultimately show ?thesis
      using div_main_correct [OF n2(1,2), of d1 h] d1 h h1 bound n2(3) by (simp add: less_Suc_eq_le numeral_eq_Suc)
  qed
qed


section \<open>The quotient of the magnitudes\<close>

lemma digval_div_less:
  assumes "uint lnum < 2 ^ 64" "0 < uint hden"
  shows "udval lnum 0 < udval lden hden"
proof -
  have "1 * 2 ^ 64 \<le> uint hden * 2 ^ 64" using assms(2) by (intro mult_right_mono) simp_all
  then show ?thesis
    unfolding udval_def using assms(1) uint64_range(1) [of lden] by (simp only: unsigned_0)
qed

lemma word_pos_iff: "0 < uint (x :: hwi) \<longleftrightarrow> x \<noteq> 0"
proof -
  have "uint x \<noteq> 0 \<longleftrightarrow> x \<noteq> 0" by (simp only: uint_0_iff)
  then show ?thesis using uint64_range(1) [of x] by linarith
qed

lemma div_magnitudes_correct:
  assumes "lden \<noteq> 0 \<or> hden \<noteq> 0"
  shows "\<exists>lquo hquo. div_magnitudes lnum hnum lden hden = Inr (lquo, hquo)
    \<and> udval lquo hquo = udval lnum hnum div udval lden hden"
proof -
  let ?num = "encode lnum hnum @ [0]" and ?den = "encode lden hden"
  have num: "digits ?num" "length ?num = 5" "?num ! 4 = 0" "digval ?num = udval lnum hnum"
    using encode_digits [of lnum hnum] by (auto simp: digits_def nth_append digval_append encode_digval)
  consider (single) "hnum = 0" "hden = 0" | (trivial) "hnum = 0" "hden \<noteq> 0"
    | (short) "hnum \<noteq> 0" "hden = 0" "lden < BASE" | (long) "hnum \<noteq> 0" "\<not> (hden = 0 \<and> lden < BASE)"
    by blast
  then show ?thesis
  proof cases
    case single
    then show ?thesis by (simp add: div_magnitudes_def udval_def uint64_div)
  next
    case trivial
    then have "udval lnum hnum < udval lden hden"
      using digval_div_less [of lnum hden lden] uint64_range [of lnum] by (simp add: word_pos_iff)
    then have "udval lnum hnum div udval lden hden = 0" using udval_range by (intro div_pos_pos_trivial)
    with trivial show ?thesis by (simp add: div_magnitudes_def udval_def)
  next
    case short
    define quo where "quo = div_short_loop lden ?num 4 (replicate 4 0) 0"
    have "0 < uint lden" "uint lden < 2 ^ 32"
      using short assms by (simp_all add: word_pos_iff word_less_def uint_BASE)
    then have q: "digval quo = digval (take 4 ?num) div uint lden \<and> digits quo \<and> length quo = 4"
      using div_short_loop_correct [of ?num 4 "replicate 4 0" lden 0] num unfolding quo_def by simp
    have "digval (take 4 ?num) = udval lnum hnum" by (simp add: encode_digits encode_digval)
    moreover obtain lq hq where d: "decode quo = (lq, hq)" by fastforce
    ultimately have "udval lq hq = udval lnum hnum div udval lden hden"
      using decode_udval [OF d] q short by (simp add: udval_def)
    with short d show ?thesis by (simp add: div_magnitudes_def quo_def)
  next
    case long
    have "2 ^ 32 \<le> digval ?den"
    proof (cases "hden = 0")
      case True
      with long show ?thesis by (simp add: encode_digval udval_def word_less_def uint_BASE)
    next
      case False
      then have "(2 ^ 32 :: int) \<le> 2 ^ 64" "1 * 2 ^ 64 \<le> uint hden * 2 ^ 64"
        by (simp, intro mult_right_mono) (simp_all add: word_pos_iff int_one_le_iff_zero_less)
      then show ?thesis
        unfolding encode_digval udval_def using uint64_range(1) [of lden] by linarith
    qed
    then obtain quo where q: "div_long ?num ?den = Inr quo" "digits quo" "length quo = 4"
        "digval quo = digval ?num div digval ?den"
      using div_long_correct [OF num(1-3) encode_digits] by blast
    obtain lq hq where d: "decode quo = (lq, hq)" by fastforce
    have "udval lq hq = udval lnum hnum div udval lden hden"
      using decode_udval [OF d] q num(4) by (simp add: encode_digval)
    with long q d show ?thesis by (auto simp: div_magnitudes_def)
  qed
qed

section \<open>The rounded quotient and its remainder\<close>

text \<open>The value of a pair of words under either signedness, and the wrap-around into its range.\<close>

definition dval :: "bool \<Rightarrow> hwi \<Rightarrow> hwi \<Rightarrow> int" where
  "dval uns l h = (if uns then udval l h else sdval l h)"

definition dwrap :: "bool \<Rightarrow> int \<Rightarrow> int" where
  "dwrap uns x = (if uns then x mod 2 ^ 128 else signed_take_bit 127 x)"

definition dfits :: "bool \<Rightarrow> int \<Rightarrow> bool" where
  "dfits uns x \<longleftrightarrow> (if uns then 0 \<le> x \<and> x < 2 ^ 128 else fits_sdval x)"

lemma dval_dwrap: "udval l h = x mod 2 ^ 128 \<Longrightarrow> dval uns l h = dwrap uns x"
  by (simp add: dval_def dwrap_def sdval_of_mod)

lemma dwrap_fits: "dfits uns x \<Longrightarrow> dwrap uns x = x"
  by (simp add: dwrap_def dfits_def fits_iff_signed_take_bit split: if_splits)

lemma dval_fits: "dfits uns (dval uns l h)"
  by (simp add: dval_def dfits_def udval_range [simplified] sdval_fits)

lemma dval_mod: "dval uns l h mod 2 ^ 128 = udval l h"
  using udval_mod_sdval [of l h] udval_range [of l h] by (simp add: dval_def)

lemma dval_zero_iff: "dval uns l h = 0 \<longleftrightarrow> l = 0 \<and> h = 0"
proof -
  have "udval l h = 0 \<longleftrightarrow> l = 0 \<and> h = 0" using udval_inj [of l h 0 0] by (simp add: udval_def)
  moreover have "sdval l h = 0 \<longleftrightarrow> udval l h = 0"
    using udval_range [of l h] by (simp add: sdval_udval)
  ultimately show ?thesis by (simp add: dval_def)
qed

lemma double_rem_udval:
  assumes "double_rem ln hn lq hq ld hd' = (lr, hr)" "udval lq hq = q mod 2 ^ 128"
  shows "udval lr hr = (dval uns ln hn - q * dval uns ld hd') mod 2 ^ 128"
proof -
  obtain o1 l1 h1 o2 l2 h2 o3 where m: "mul_double lq hq ld hd' = (o1, l1, h1)"
      "neg_double l1 h1 = (o2, l2, h2)" "add_double ln hn l2 h2 = (o3, lr, hr)"
    using assms(1) by (cases "mul_double lq hq ld hd'") (auto simp: double_rem_def Let_def prod_eq_iff split: prod.splits)
  have "udval lr hr = (udval ln hn + (- ((udval lq hq * udval ld hd') mod 2 ^ 128)) mod 2 ^ 128) mod 2 ^ 128"
    using mul_double_udval [OF m(1)] neg_double_udval [OF m(2)] add_double_udval [OF m(3)] by simp
  also have "\<dots> = (udval ln hn - udval lq hq * udval ld hd') mod 2 ^ 128"
    by (metis diff_conv_add_uminus mod_add_right_eq mod_minus_eq)
  also have "\<dots> = (dval uns ln hn - q * dval uns ld hd') mod 2 ^ 128"
  proof (intro mod_diff_cong mod_mult_cong)
    show "udval lq hq mod 2 ^ 128 = q mod 2 ^ 128" by (simp only: assms(2) mod_mod_trivial)
  qed (simp_all only: dval_mod [of uns, symmetric] mod_mod_trivial)
  finally show ?thesis .
qed


text \<open>C's quotient, which truncates, and the quotients the division codes ask for.\<close>

definition c_div :: "int \<Rightarrow> int \<Rightarrow> int" where
  "c_div a b = sgn a * sgn b * (\<bar>a\<bar> div \<bar>b\<bar>)"

definition rounded_quotient :: "tree_code \<Rightarrow> int \<Rightarrow> int \<Rightarrow> int" where
  "rounded_quotient code a b =
     (if code \<in> {FLOOR_DIV_EXPR, FLOOR_MOD_EXPR} then a div b
      else if code \<in> {CEIL_DIV_EXPR, CEIL_MOD_EXPR} then - ((- a) div b)
      else if code \<in> {ROUND_DIV_EXPR, ROUND_MOD_EXPR} then
        c_div a b + (if \<bar>b\<bar> \<le> 2 * \<bar>c_rem a b\<bar> then sgn a * sgn b else 0)
      else c_div a b)"

lemma c_div_rem: "c_div a b * b + c_rem a b = a"
proof -
  have "c_div a b * b = sgn a * (\<bar>a\<bar> div \<bar>b\<bar> * (sgn b * b))" by (simp add: c_div_def mult_ac)
  also have "sgn b * b = \<bar>b\<bar>" by (simp add: abs_sgn mult.commute)
  finally have "c_div a b * b + c_rem a b = sgn a * (\<bar>a\<bar> div \<bar>b\<bar> * \<bar>b\<bar> + \<bar>a\<bar> mod \<bar>b\<bar>)"
    by (simp only: c_rem_def distrib_left)
  also have "\<dots> = a" by (simp only: div_mult_mod_eq sgn_mult_abs)
  finally show ?thesis .
qed

lemma c_rem_eq: "a - c_div a b * b = c_rem a b"
  using c_div_rem [of a b] by linarith

lemma c_rem_less: "b \<noteq> 0 \<Longrightarrow> \<bar>c_rem a b\<bar> < \<bar>b\<bar>"
  by (simp add: c_rem_def abs_mult sgn_if)

lemma c_rem_sign: "0 \<le> a \<Longrightarrow> 0 \<le> c_rem a b" "a \<le> 0 \<Longrightarrow> c_rem a b \<le> 0"
  by (cases "b = 0"; simp add: c_rem_def sgn_if)+

lemma div_unique_sign:
  fixes a b q r :: int
  assumes "a = q * b + r" "\<bar>r\<bar> < \<bar>b\<bar>" "r \<noteq> 0 \<Longrightarrow> (r < 0) = (b < 0)"
  shows "a div b = q"
proof (cases "0 < b")
  case True
  then have "0 \<le> r" using assms(3) by linarith
  then show ?thesis using True assms by (intro int_div_pos_eq [of a b q r]) (simp_all add: mult.commute)
next
  case False
  then have "b < 0" "r \<le> 0" "b < r" using assms(2,3) by linarith+
  then show ?thesis using assms(1) by (intro int_div_neg_eq [of a b q r]) (simp_all add: mult.commute)
qed

lemma floor_from_trunc:
  assumes "b \<noteq> 0"
  shows "a div b = c_div a b - (if (a < 0) \<noteq> (b < 0) \<and> c_rem a b \<noteq> 0 then 1 else 0)"
proof (cases "(a < 0) \<noteq> (b < 0) \<and> c_rem a b \<noteq> 0")
  case True
  then have "a = (c_div a b - 1) * b + (c_rem a b + b)"
    using c_div_rem [of a b] by (simp add: algebra_simps)
  then have "a div b = c_div a b - 1"
    by (rule div_unique_sign) (use True c_rem_less [OF assms, of a] c_rem_sign [of a b] in auto)
  with True show ?thesis by simp
next
  case False
  have "a div b = c_div a b"
    by (rule div_unique_sign [OF c_div_rem [symmetric]])
      (use False c_rem_less [OF assms, of a] c_rem_sign [of a b] in auto)
  with False show ?thesis by simp
qed

lemma ceil_from_trunc:
  assumes "b \<noteq> 0"
  shows "- ((- a) div b) = c_div a b + (if (a < 0) = (b < 0) \<and> c_rem a b \<noteq> 0 then 1 else 0)"
proof (cases "c_rem a b = 0")
  case False
  then have "a \<noteq> 0" by (auto simp: c_rem_def)
  moreover have "c_div (- a) b = - c_div a b" "c_rem (- a) b = - c_rem a b"
    by (simp_all add: c_div_def c_rem_def sgn_if)
  ultimately show ?thesis using floor_from_trunc [OF assms, of "- a"] by auto
next
  case True
  moreover have "c_div (- a) b = - c_div a b" "c_rem (- a) b = - c_rem a b"
    by (simp_all add: c_div_def c_rem_def sgn_if)
  ultimately show ?thesis using floor_from_trunc [OF assms, of "- a"] by auto
qed

lemma magnitude_words:
  assumes "(if \<not> uns \<and> sint h < 0 then snd (neg_double l h) else (l, h)) = (l', h')"
  shows "udval l' h' = \<bar>dval uns l h\<bar>"
proof (cases "\<not> uns \<and> sint h < 0")
  case True
  then obtain ov where n: "neg_double l h = (ov, l', h')" using assms by (cases "neg_double l h") auto
  have neg: "sdval l h < 0" using True by (simp add: sdval_neg_iff)
  then have u: "udval l h = sdval l h + 2 ^ 128" using sdval_udval [of l h] udval_range [of l h] by (auto split: if_splits)
  have "(- udval l h) mod 2 ^ 128 = - sdval l h"
    by (rule mod_D_if) (use u neg sdval_fits [of l h] in \<open>auto simp: fits_sdval_def\<close>)
  then show ?thesis using neg_double_udval [OF n] True neg by (simp add: dval_def)
next
  case False
  have "0 \<le> dval uns l h" "dval uns l h = udval l h"
    using False sdval_udval' [of l h] udval_range [of l h] by (auto simp: dval_def)
  then show ?thesis using False assms by auto
qed


text \<open>The trial quotient and remainder, before the switch on the code.\<close>

definition div_finish ::
    "bool \<Rightarrow> hwi \<Rightarrow> hwi \<Rightarrow> hwi \<Rightarrow> hwi \<Rightarrow> hwi \<times> hwi \<Rightarrow> hwi \<times> hwi \<Rightarrow> ((hwi \<times> hwi) option) outcome
      \<Rightarrow> (bool \<times> (hwi \<times> hwi) \<times> (hwi \<times> hwi)) outcome" where
  "div_finish ov ln hn ld hd' quo rem adj =
     (case adj of Inl e \<Rightarrow> Inl e
      | Inr None \<Rightarrow> Inr (ov, quo, rem)
      | Inr (Some q) \<Rightarrow> Inr (ov, q, double_rem ln hn (fst q) (snd q) ld hd'))"

lemma div_and_round_eval:
  assumes "ld \<noteq> 0 \<or> hd' \<noteq> 0"
    and "(if \<not> uns \<and> sint hn < 0 then snd (neg_double ln hn) else (ln, hn)) = (ln', hn')"
    and "(if \<not> uns \<and> sint hd' < 0 then snd (neg_double ld hd') else (ld, hd')) = (la, ha)"
    and "div_magnitudes ln' hn' la ha = Inr (lm, hm)"
    and "(if (\<not> uns \<and> sint hn < 0) \<noteq> (\<not> uns \<and> sint hd' < 0) then snd (neg_double lm hm) else (lm, hm)) = (lq, hq)"
  shows "div_and_round_double code uns ln hn ld hd' =
      div_finish ((\<not> uns \<and> sint hn < 0) \<and> fst (neg_double ln hn) \<and> ld AND hd' = - 1) ln hn ld hd' (lq, hq)
        (double_rem ln hn lq hq ld hd')
        (div_adjust code ((\<not> uns \<and> sint hn < 0) \<noteq> (\<not> uns \<and> sint hd' < 0)) (lq, hq)
          (double_rem ln hn lq hq ld hd') (la, ha))"
proof -
  have nz: "(hd' = 0 \<and> ld = 0) = False" using assms(1) by blast
  obtain o1 l1 h1 o2 l2 h2 o3 l3 h3 where neg: "neg_double ln hn = (o1, l1, h1)"
      "neg_double ld hd' = (o2, l2, h2)" "neg_double lm hm = (o3, l3, h3)"
    by (metis prod_cases3)
  show ?thesis
    using assms(2,3,5) [symmetric, unfolded neg snd_conv] assms(4)
    by (cases "\<not> uns \<and> sint hn < 0"; cases "\<not> uns \<and> sint hd' < 0")
      (simp_all only: div_and_round_double_def Let_def div_finish_def nz neg case_prod_unfold if_True if_False
        simp_thms fst_conv snd_conv sum.case prod.collapse prod.inject)
qed

lemma div_trial:
  assumes "ld \<noteq> 0 \<or> hd' \<noteq> 0" "N = dval uns ln hn" "D = dval uns ld hd'"
  shows "\<exists>lq hq la ha.
    udval lq hq = c_div N D mod 2 ^ 128 \<and> udval la ha = \<bar>D\<bar> \<and>
    div_and_round_double code uns ln hn ld hd' =
      div_finish (\<not> uns \<and> N = - (2 ^ 127) \<and> D = - 1) ln hn ld hd' (lq, hq)
        (double_rem ln hn lq hq ld hd')
        (div_adjust code ((N < 0) \<noteq> (D < 0)) (lq, hq) (double_rem ln hn lq hq ld hd') (la, ha))"
proof -
  obtain ln' hn' where n: "(if \<not> uns \<and> sint hn < 0 then snd (neg_double ln hn) else (ln, hn)) = (ln', hn')"
    by fastforce
  obtain la ha where d: "(if \<not> uns \<and> sint hd' < 0 then snd (neg_double ld hd') else (ld, hd')) = (la, ha)"
    by fastforce
  note mag = magnitude_words [OF n, folded assms(2)] magnitude_words [OF d, folded assms(3)]
  have D0: "D \<noteq> 0" using assms dval_zero_iff [of uns ld hd'] by simp
  then have "la \<noteq> 0 \<or> ha \<noteq> 0" using mag(2) by (auto simp: udval_def)
  then obtain lm hm where m: "div_magnitudes ln' hn' la ha = Inr (lm, hm)" "udval lm hm = \<bar>N\<bar> div \<bar>D\<bar>"
    using div_magnitudes_correct [of la ha ln' hn'] mag by auto
  have neg: "\<not> uns \<and> sint hn < 0 \<longleftrightarrow> N < 0" "\<not> uns \<and> sint hd' < 0 \<longleftrightarrow> D < 0"
    using assms(2,3) udval_range(1) [of ln hn] udval_range(1) [of ld hd']
    by (auto simp: dval_def sdval_neg_iff)
  obtain lq hq where q: "(if (N < 0) \<noteq> (D < 0) then snd (neg_double lm hm) else (lm, hm)) = (lq, hq)"
    by fastforce
  have quo: "udval lq hq = c_div N D mod 2 ^ 128"
  proof (cases "(N < 0) \<noteq> (D < 0)")
    case True
    then obtain ov where "neg_double lm hm = (ov, lq, hq)" using q by (cases "neg_double lm hm") auto
    then have "udval lq hq = (- (\<bar>N\<bar> div \<bar>D\<bar>)) mod 2 ^ 128" using neg_double_udval m(2) by simp
    moreover have "c_div N D = - (\<bar>N\<bar> div \<bar>D\<bar>)" using True D0 by (auto simp: c_div_def sgn_if)
    ultimately show ?thesis by simp
  next
    case False
    then have "c_div N D = \<bar>N\<bar> div \<bar>D\<bar>" using D0 by (auto simp: c_div_def sgn_if)
    then show ?thesis using False q m(2) udval_range [of lm hm] by auto
  qed
  have ovf: "fst (neg_double ln hn) \<and> ld AND hd' = - 1 \<longleftrightarrow> N = - (2 ^ 127) \<and> D = - 1" if "\<not> uns"
  proof -
    have "fst (neg_double ln hn) \<longleftrightarrow> N = - (2 ^ 127)"
      using neg_double_overflow [of ln hn] that assms(2) by (cases "neg_double ln hn") (auto simp: dval_def)
    moreover have "NOT (ld AND hd') = 0 \<longleftrightarrow> ld AND hd' = - 1" by (metis bit.double_compl bit.compl_zero)
    then have "ld AND hd' = - 1 \<longleftrightarrow> D = - 1"
      using sdval_extremes(2) [of ld hd'] that assms(3) unfolding dval_def by presburger
    ultimately show ?thesis by simp
  qed
  have "div_and_round_double code uns ln hn ld hd' =
      div_finish ((\<not> uns \<and> sint hn < 0) \<and> fst (neg_double ln hn) \<and> ld AND hd' = - 1) ln hn ld hd' (lq, hq)
        (double_rem ln hn lq hq ld hd')
        (div_adjust code ((N < 0) \<noteq> (D < 0)) (lq, hq) (double_rem ln hn lq hq ld hd') (la, ha))"
    using div_and_round_eval [OF assms(1) n d m(1), of lq hq code] q unfolding neg by simp
  moreover have "((\<not> uns \<and> sint hn < 0) \<and> fst (neg_double ln hn) \<and> ld AND hd' = - 1) \<longleftrightarrow>
      (\<not> uns \<and> N = - (2 ^ 127) \<and> D = - 1)"
    using ovf neg(1) by fastforce
  ultimately show ?thesis using mag(2) quo by (intro exI [of _ lq] exI [of _ hq] exI [of _ la] exI [of _ ha]) simp
qed


text \<open>What the switch adds to the trial quotient.\<close>

lemma add_one_udval:
  assumes "udval lq hq = q mod 2 ^ 128" "snd (add_double lq hq 1 0) = (l, h)"
  shows "udval l h = (q + 1) mod 2 ^ 128"
proof -
  obtain ov where "add_double lq hq 1 0 = (ov, l, h)" using assms(2) by (cases "add_double lq hq 1 0") auto
  from add_double_udval [OF this] have "udval l h = (udval lq hq + 1) mod 2 ^ 128" by (simp add: udval_def)
  then show ?thesis unfolding assms(1) by (simp only: mod_add_left_eq)
qed

lemma sub_one_udval:
  assumes "udval lq hq = q mod 2 ^ 128" "snd (add_double lq hq (- 1) (- 1)) = (l, h)"
  shows "udval l h = (q - 1) mod 2 ^ 128"
proof -
  obtain ov where "add_double lq hq (- 1) (- 1) = (ov, l, h)"
    using assms(2) by (cases "add_double lq hq (- 1) (- 1)") auto
  from add_double_udval [OF this] have "udval l h = (udval lq hq + (2 ^ 128 - 1)) mod 2 ^ 128"
    by (simp add: udval_def unsigned_minus_1_eq_mask mask_eq_exp_minus_1)
  also have "\<dots> = (q + (2 ^ 128 - 1)) mod 2 ^ 128" unfolding assms(1) by (simp only: mod_add_left_eq)
  also have "q + (2 ^ 128 - 1) = (q - 1) + 2 ^ 128" by simp
  finally show ?thesis by (simp only: mod_add_self2)
qed

text \<open>The adjusted quotient, and the trial remainder's value.\<close>

definition adjusts_to :: "int \<Rightarrow> int \<Rightarrow> ((hwi \<times> hwi) option) outcome \<Rightarrow> bool" where
  "adjusts_to q q' adj \<longleftrightarrow>
     adj = Inr None \<and> q' = q \<or> (\<exists>l h. adj = Inr (Some (l, h)) \<and> udval l h = q' mod 2 ^ 128)"

lemma trial_rem:
  assumes "ld \<noteq> 0 \<or> hd' \<noteq> 0" "N = dval uns ln hn" "D = dval uns ld hd'"
    and "udval lq hq = c_div N D mod 2 ^ 128" "double_rem ln hn lq hq ld hd' = (lr, hr)"
  shows "dval uns lr hr = c_rem N D"
proof -
  have D0: "D \<noteq> 0" using assms dval_zero_iff [of uns ld hd'] by simp
  have "dfits uns (c_rem N D)"
  proof (cases uns)
    case True
    then have "0 \<le> N" "0 < D" "D < 2 ^ 128"
      using D0 assms(2,3) udval_range [of ln hn] udval_range [of ld hd'] by (auto simp: dval_def)
    then show ?thesis
      using True c_rem_less [OF D0, of N] c_rem_sign(1) [of N D] by (simp add: dfits_def)
  next
    case False
    then have "\<bar>D\<bar> \<le> 2 ^ 127" using assms(3) sdval_fits [of ld hd'] by (auto simp: dval_def fits_sdval_def)
    then have "\<bar>c_rem N D\<bar> < 2 ^ 127" using c_rem_less [OF D0, of N] by linarith
    then show ?thesis using False by (simp add: dfits_def fits_sdval_def abs_less_iff)
  qed
  moreover have "udval lr hr = c_rem N D mod 2 ^ 128"
    using double_rem_udval [OF assms(5,4), of uns] assms(2,3) by (simp only: c_rem_eq)
  then have "dval uns lr hr = dwrap uns (c_rem N D)" by (rule dval_dwrap)
  ultimately show ?thesis by (simp add: dwrap_fits)
qed

lemma div_adjust_directed:
  assumes "udval lq hq = c_div N D mod 2 ^ 128" "dval uns lr hr = c_rem N D" "D \<noteq> 0"
    and "code \<in> {TRUNC_DIV_EXPR, TRUNC_MOD_EXPR, EXACT_DIV_EXPR, FLOOR_DIV_EXPR, FLOOR_MOD_EXPR,
      CEIL_DIV_EXPR, CEIL_MOD_EXPR}"
  shows "adjusts_to (c_div N D) (rounded_quotient code N D)
    (div_adjust code ((N < 0) \<noteq> (D < 0)) (lq, hq) (lr, hr) (la, ha))"
proof -
  obtain l1 h1 l2 h2 where up: "snd (add_double lq hq 1 0) = (l1, h1)"
    and down: "snd (add_double lq hq (- 1) (- 1)) = (l2, h2)" by fastforce
  have rem: "lr \<noteq> 0 \<or> hr \<noteq> 0 \<longleftrightarrow> c_rem N D \<noteq> 0" using dval_zero_iff [of uns lr hr] assms(2) by auto
  note simps = adjusts_to_def div_adjust_def up down
    add_one_udval [OF assms(1) up] sub_one_udval [OF assms(1) down]
  consider (trunc) "code \<in> {TRUNC_DIV_EXPR, TRUNC_MOD_EXPR, EXACT_DIV_EXPR}"
    | (floor) "code \<in> {FLOOR_DIV_EXPR, FLOOR_MOD_EXPR}" | (ceil) "code \<in> {CEIL_DIV_EXPR, CEIL_MOD_EXPR}"
    using assms(4) by blast
  then show ?thesis
  proof cases
    case trunc
    then show ?thesis by (auto simp: simps rounded_quotient_def)
  next
    case floor
    then have "rounded_quotient code N D = N div D" by (simp add: rounded_quotient_def)
    moreover have "\<not> code \<in> {TRUNC_DIV_EXPR, TRUNC_MOD_EXPR, EXACT_DIV_EXPR}" using floor by auto
    ultimately show ?thesis
      using floor rem by (simp add: simps floor_from_trunc [OF assms(3)])
  next
    case ceil
    then have "rounded_quotient code N D = - ((- N) div D)" by (auto simp: rounded_quotient_def)
    then have rq: "rounded_quotient code N D =
        c_div N D + (if (N < 0) = (D < 0) \<and> c_rem N D \<noteq> 0 then 1 else 0)"
      by (simp only: ceil_from_trunc [OF assms(3)])
    have "\<not> code \<in> {TRUNC_DIV_EXPR, TRUNC_MOD_EXPR, EXACT_DIV_EXPR}"
      "\<not> code \<in> {FLOOR_DIV_EXPR, FLOOR_MOD_EXPR}" using ceil by auto
    then show ?thesis using ceil rem by (simp add: simps rq)
  qed
qed

text \<open>From the adjustment to the result of the whole function.\<close>

lemma div_finish_correct:
  assumes "adjusts_to (c_div N D) q' adj" "udval lq hq = c_div N D mod 2 ^ 128"
    and "N = dval uns ln hn" "D = dval uns ld hd'"
  shows "\<exists>lq' hq' lr hr. div_finish ov ln hn ld hd' (lq, hq) (double_rem ln hn lq hq ld hd') adj
      = Inr (ov, (lq', hq'), (lr, hr))
    \<and> dval uns lq' hq' = dwrap uns q' \<and> dval uns lr hr = dwrap uns (N - q' * D)"
proof -
  obtain l h where lh: "div_finish ov ln hn ld hd' (lq, hq) (double_rem ln hn lq hq ld hd') adj
      = Inr (ov, (l, h), double_rem ln hn l h ld hd')" "udval l h = q' mod 2 ^ 128"
    using assms(1,2) by (auto simp: adjusts_to_def div_finish_def)
  obtain lr hr where r: "double_rem ln hn l h ld hd' = (lr, hr)" by fastforce
  have "udval lr hr = (N - q' * D) mod 2 ^ 128"
    using double_rem_udval [OF r lh(2), of uns] assms(3,4) by simp
  then show ?thesis using lh r dval_dwrap [OF lh(2)] dval_dwrap [of lr hr] by auto
qed

lemma div_and_round_directed:
  assumes "ld \<noteq> 0 \<or> hd' \<noteq> 0" "N = dval uns ln hn" "D = dval uns ld hd'"
    and "code \<in> {TRUNC_DIV_EXPR, TRUNC_MOD_EXPR, EXACT_DIV_EXPR, FLOOR_DIV_EXPR, FLOOR_MOD_EXPR,
      CEIL_DIV_EXPR, CEIL_MOD_EXPR}"
  shows "\<exists>lq hq lr hr. div_and_round_double code uns ln hn ld hd' =
      Inr (\<not> uns \<and> N = - (2 ^ 127) \<and> D = - 1, (lq, hq), (lr, hr))
    \<and> dval uns lq hq = dwrap uns (rounded_quotient code N D)
    \<and> dval uns lr hr = dwrap uns (N - rounded_quotient code N D * D)"
proof -
  have D0: "D \<noteq> 0" using assms dval_zero_iff [of uns ld hd'] by simp
  obtain lq hq la ha where t: "udval lq hq = c_div N D mod 2 ^ 128"
      "div_and_round_double code uns ln hn ld hd' =
        div_finish (\<not> uns \<and> N = - (2 ^ 127) \<and> D = - 1) ln hn ld hd' (lq, hq) (double_rem ln hn lq hq ld hd')
          (div_adjust code ((N < 0) \<noteq> (D < 0)) (lq, hq) (double_rem ln hn lq hq ld hd') (la, ha))"
    using div_trial [OF assms(1-3), of code] by blast
  obtain lr hr where r: "double_rem ln hn lq hq ld hd' = (lr, hr)" by fastforce
  from div_adjust_directed [OF t(1) trial_rem [OF assms(1-3) t(1) r] D0 assms(4), of la ha, folded r]
  show ?thesis unfolding t(2) by (rule div_finish_correct [OF _ t(1) assms(2,3)])
qed


section \<open>Rounding to nearest\<close>

lemma udval_le_lex: "h1 < h2 \<or> h1 = h2 \<and> l1 \<le> l2 \<longleftrightarrow> udval l1 h1 \<le> udval l2 h2"
proof (cases "h1 = h2")
  case True
  then show ?thesis by (simp add: udval_def word_le_def)
next
  case False
  have mono: "udval l h < udval l' h'" if "uint h < uint h'" for l h l' h' :: hwi
  proof -
    from that have "(uint h + 1) * 2 ^ 64 \<le> uint h' * 2 ^ 64" by (intro mult_right_mono) simp_all
    then show ?thesis
      unfolding udval_def using uint_lt2p [of l]
      by (simp add: distrib_right) (use uint64_range(1) [of l'] in linarith)
  qed
  from False have "uint h1 \<noteq> uint h2" by (simp add: word_uint_eq_iff)
  then consider "uint h1 < uint h2" | "uint h2 < uint h1" by linarith
  then show ?thesis
    using False mono [of h1 h2 l1 l2] mono [of h2 h1 l2 l1] by cases (auto simp: word_less_def)
qed

text \<open>The absolute value of a divisor that is one already, \<open>2 ^ 127\<close> included.\<close>

lemma abs_den_udval:
  assumes "(if sint h < 0 then snd (neg_double l h) else (l, h)) = (l', h')" "udval l h \<le> 2 ^ 127"
  shows "udval l' h' = udval l h"
proof (cases "sint h < 0")
  case True
  then have "sdval l h < 0" by (simp add: sdval_neg_iff)
  then have "udval l h = 2 ^ 127" "sdval l h = - (2 ^ 127)"
    using assms(2) sdval_udval [of l h] udval_range [of l h] by (auto split: if_splits)
  then show ?thesis using magnitude_words [of False h l l' h'] assms(1) True by (simp add: dval_def)
qed (use assms in auto)

lemma twice_udval:
  assumes "mul_double 2 0 l h = (ov, l', h')" "udval l h < 2 ^ 127"
  shows "udval l' h' = 2 * udval l h"
proof -
  have "udval 2 0 = 2" by (simp add: udval_def)
  then show ?thesis using mul_double_udval [OF assms(1)] assms(2) udval_range [of l h] by simp
qed

lemma c_div_sign:
  assumes "c_div a b \<noteq> 0"
  shows "c_div a b < 0 \<longleftrightarrow> sgn a * sgn b = - 1" "sgn a * sgn b \<noteq> 0"
proof -
  have "0 \<le> \<bar>a\<bar> div \<bar>b\<bar>" by (cases "b = 0") (simp_all add: pos_imp_zdiv_nonneg_iff)
  with assms show "c_div a b < 0 \<longleftrightarrow> sgn a * sgn b = - 1" "sgn a * sgn b \<noteq> 0"
    by (auto simp: c_div_def sgn_if split: if_splits)
qed

lemma c_div_fits:
  assumes "fits_sdval a" "b \<noteq> 0" "c_rem a b \<noteq> 0"
  shows "fits_sdval (c_div a b)"
proof -
  have "2 \<le> \<bar>b\<bar>" using assms(2,3) by (cases "\<bar>b\<bar> = 1") (auto simp: c_rem_def)
  moreover have "\<bar>a\<bar> \<le> 2 ^ 127" using assms(1) by (auto simp: fits_sdval_def)
  ultimately have "\<bar>a\<bar> < 2 ^ 127 * \<bar>b\<bar>" by simp
  then have "\<bar>a\<bar> div \<bar>b\<bar> < 2 ^ 127" using assms(2) by (intro int_div_less) auto
  moreover have "0 \<le> \<bar>a\<bar> div \<bar>b\<bar>" using assms(2) by (simp add: pos_imp_zdiv_nonneg_iff)
  ultimately show ?thesis by (auto simp: c_div_def fits_sdval_def sgn_if)
qed

text \<open>What the nearest-rounding branch computes: away from zero, except that a zero trial
  quotient of a negative ratio goes up.\<close>

definition round_result :: "int \<Rightarrow> int \<Rightarrow> int" where
  "round_result a b =
     c_div a b + (if \<bar>b\<bar> \<le> 2 * \<bar>c_rem a b\<bar> then if c_div a b < 0 then - 1 else 1 else 0)"

lemma round_result_nearest:
  assumes "c_div a b \<noteq> 0 \<or> (a < 0) = (b < 0) \<or> 2 * \<bar>a\<bar> < \<bar>b\<bar>" "b \<noteq> 0"
  shows "round_result a b = rounded_quotient ROUND_DIV_EXPR a b"
proof (cases "c_div a b = 0")
  case True
  then have "c_rem a b = a" using c_div_rem [of a b] by simp
  with True assms show ?thesis by (auto simp: round_result_def rounded_quotient_def sgn_if)
next
  case False
  have "sgn a * sgn b = - 1 \<or> sgn a * sgn b = 1" using c_div_sign(2) [OF False] by (auto simp: sgn_if split: if_splits)
  with False show ?thesis using c_div_sign(1) [OF False] by (auto simp: round_result_def rounded_quotient_def)
qed

lemma div_adjust_round:
  assumes q: "udval lq hq = c_div N D mod 2 ^ 128" and r: "dval False lr hr = c_rem N D" and D: "D \<noteq> 0"
    and a: "udval la ha = \<bar>D\<bar>" "\<bar>D\<bar> \<le> 2 ^ 127" "fits_sdval N" and code: "code \<in> {ROUND_DIV_EXPR, ROUND_MOD_EXPR}"
  shows "adjusts_to (c_div N D) (round_result N D) (div_adjust code qn (lq, hq) (lr, hr) (la, ha))"
proof -
  obtain l1 h1 l2 h2 where up: "snd (add_double lq hq 1 0) = (l1, h1)"
    and down: "snd (add_double lq hq (- 1) (- 1)) = (l2, h2)" by fastforce
  obtain lr' hr' where r': "(if sint hr < 0 then snd (neg_double lr hr) else (lr, hr)) = (lr', hr')" by fastforce
  obtain la' ha' where a': "(if sint ha < 0 then snd (neg_double la ha) else (la, ha)) = (la', ha')" by fastforce
  obtain ov lt ht where t: "mul_double 2 0 lr' hr' = (ov, lt, ht)" by (metis prod_cases3)
  have R: "udval lr' hr' = \<bar>c_rem N D\<bar>" using magnitude_words [of False hr lr lr' hr'] r' r by simp
  then have T: "udval lt ht = 2 * \<bar>c_rem N D\<bar>"
    using twice_udval [OF t] c_rem_less [OF D, of N] a(2) by simp
  have cond: "ha' < ht \<or> ha' = ht \<and> la' \<le> lt \<longleftrightarrow> \<bar>D\<bar> \<le> 2 * \<bar>c_rem N D\<bar>"
    unfolding udval_le_lex T using abs_den_udval [OF a'] a by simp
  have sign: "sint hq < 0 \<longleftrightarrow> c_div N D < 0" if "\<bar>D\<bar> \<le> 2 * \<bar>c_rem N D\<bar>"
  proof -
    have "c_rem N D \<noteq> 0" using that D by auto
    then have "fits_sdval (c_div N D)" by (rule c_div_fits [OF a(3) D])
    then have "sdval lq hq = c_div N D" using sdval_of_mod [OF q] by (simp add: fits_iff_signed_take_bit)
    then show ?thesis using sdval_neg_iff [of lq hq] by simp
  qed
  have codes: "\<not> code \<in> {TRUNC_DIV_EXPR, TRUNC_MOD_EXPR, EXACT_DIV_EXPR}"
    "\<not> code \<in> {FLOOR_DIV_EXPR, FLOOR_MOD_EXPR}" "\<not> code \<in> {CEIL_DIV_EXPR, CEIL_MOD_EXPR}"
    using code by auto
  have "div_adjust code qn (lq, hq) (lr, hr) (la, ha) =
      (if \<bar>D\<bar> \<le> 2 * \<bar>c_rem N D\<bar> then Inr (Some (if c_div N D < 0 then (l2, h2) else (l1, h1))) else Inr None)"
    using code codes r' a' t cond sign up down by (simp add: div_adjust_def)
  then show ?thesis
    using add_one_udval [OF q up] sub_one_udval [OF q down]
    by (simp add: adjusts_to_def round_result_def)
qed

lemma div_and_round_nearest:
  assumes "ld \<noteq> 0 \<or> hd' \<noteq> 0" "N = sdval ln hn" "D = sdval ld hd'"
    and "code \<in> {ROUND_DIV_EXPR, ROUND_MOD_EXPR}"
  shows "\<exists>lq hq lr hr. div_and_round_double code False ln hn ld hd' =
      Inr (N = - (2 ^ 127) \<and> D = - 1, (lq, hq), (lr, hr))
    \<and> sdval lq hq = signed_take_bit 127 (round_result N D)
    \<and> sdval lr hr = signed_take_bit 127 (N - round_result N D * D)"
proof -
  have ND: "N = dval False ln hn" "D = dval False ld hd'" using assms by (simp_all add: dval_def)
  have D0: "D \<noteq> 0" using assms(1) ND dval_zero_iff [of False ld hd'] by simp
  have "\<bar>D\<bar> \<le> 2 ^ 127" "fits_sdval N" 
    using assms(2,3) sdval_fits [of ld hd'] sdval_fits [of ln hn] by (auto simp: fits_sdval_def abs_le_iff)
  moreover obtain lq hq la ha where t: "udval lq hq = c_div N D mod 2 ^ 128" "udval la ha = \<bar>D\<bar>"
      "div_and_round_double code False ln hn ld hd' =
        div_finish (\<not> False \<and> N = - (2 ^ 127) \<and> D = - 1) ln hn ld hd' (lq, hq) (double_rem ln hn lq hq ld hd')
          (div_adjust code ((N < 0) \<noteq> (D < 0)) (lq, hq) (double_rem ln hn lq hq ld hd') (la, ha))"
    using div_trial [OF assms(1) ND, of code] by blast
  moreover obtain lr hr where r: "double_rem ln hn lq hq ld hd' = (lr, hr)" by fastforce
  ultimately have "adjusts_to (c_div N D) (round_result N D)
      (div_adjust code ((N < 0) \<noteq> (D < 0)) (lq, hq) (double_rem ln hn lq hq ld hd') (la, ha))"
    using div_adjust_round [OF t(1) trial_rem [OF assms(1) ND t(1) r] D0 t(2) _ _ assms(4)] by simp
  from div_finish_correct [OF this t(1) ND, of "\<not> False \<and> N = - (2 ^ 127) \<and> D = - 1"]
  show ?thesis unfolding t(3) by (simp add: dval_def dwrap_def)
qed


section \<open>Division by zero and other codes\<close>

lemma div_and_round_zero:
  assumes "code \<in> {TRUNC_DIV_EXPR, TRUNC_MOD_EXPR, EXACT_DIV_EXPR}"
  shows "div_and_round_double code uns ln hn 0 0 = Inr (True, (ln, hn), (ln, hn))"
proof -
  obtain o1 l1 h1 where n: "neg_double ln hn = (o1, l1, h1)" by (metis prod_cases3)
  define ln' where "ln' = (if \<not> uns \<and> sint hn < 0 then l1 else ln)"
  define hn' where "hn' = (if \<not> uns \<and> sint hn < 0 then h1 else hn)"
  obtain lm hm where m: "div_magnitudes ln' hn' 1 0 = Inr (lm, hm)" "udval lm hm = udval ln' hn'"
    using div_magnitudes_correct [of 1 0 ln' hn'] by (auto simp: udval_def [of 1 0])
  then have m': "div_magnitudes ln' hn' 1 0 = Inr (ln', hn')" by (simp add: udval_inj)
  have inv: "snd (neg_double l1 h1) = (ln, hn)"
  proof -
    obtain o2 l2 h2 where n2: "neg_double l1 h1 = (o2, l2, h2)" by (metis prod_cases3)
    have "udval l2 h2 = (- ((- udval ln hn) mod 2 ^ 128)) mod 2 ^ 128"
      using neg_double_udval [OF n] neg_double_udval [OF n2] by simp
    also have "\<dots> = udval ln hn" using udval_range [of ln hn] by (simp only: mod_minus_eq minus_minus mod_pos_pos_trivial)
    finally show ?thesis using n2 by (simp add: udval_inj)
  qed
  have rem: "double_rem ln hn l h 0 0 = (ln, hn)" for l h
  proof -
    obtain lr hr where r: "double_rem ln hn l h 0 0 = (lr, hr)" by fastforce
    have "udval l h = udval l h mod 2 ^ 128" using udval_range [of l h] by simp
    from double_rem_udval [OF r this, of True] have "udval lr hr = udval ln hn"
      using udval_range [of ln hn] by (simp add: dval_def udval_def [of 0 0])
    then show ?thesis using r by (simp add: udval_inj)
  qed
  show ?thesis
    using assms m' n inv rem
    by (cases "\<not> uns \<and> sint hn < 0")
      (auto simp: div_and_round_double_def Let_def div_adjust_def ln'_def hn'_def)
qed

lemma div_and_round_ice:
  assumes "code \<notin> {TRUNC_DIV_EXPR, TRUNC_MOD_EXPR, EXACT_DIV_EXPR, FLOOR_DIV_EXPR, FLOOR_MOD_EXPR,
      CEIL_DIV_EXPR, CEIL_MOD_EXPR, ROUND_DIV_EXPR, ROUND_MOD_EXPR}" "ld \<noteq> 0 \<or> hd' \<noteq> 0"
  shows "div_and_round_double code uns ln hn ld hd' = Inl Ice"
proof -
  have "div_adjust code qn q r d = Inl Ice" for qn q r d
    using assms(1) by (auto simp: div_adjust_def Let_def split: prod.splits)
  then show ?thesis using div_trial [OF assms(2) refl refl, of uns ln hn code] by (auto simp: div_finish_def)
qed


section \<open>Properties\<close>

text \<open>C2: for the truncating, flooring, ceiling and exact codes and a nonzero divisor,
  \<open>div_and_round_double\<close> returns the quotient in the rounding of its code and the remainder
  that belongs to it, wrapped into the operands' range; it reports an overflow exactly for the most
  negative value divided by \<open>- 1\<close>. This covers the single-word case, the short division and
  the long division with its estimate and add-back steps.\<close>

theorem div_and_round_double_correct:
  assumes "lden \<noteq> 0 \<or> hden \<noteq> 0" "N = dval uns lnum hnum" "D = dval uns lden hden"
    and "code \<in> {TRUNC_DIV_EXPR, TRUNC_MOD_EXPR, EXACT_DIV_EXPR, FLOOR_DIV_EXPR, FLOOR_MOD_EXPR,
      CEIL_DIV_EXPR, CEIL_MOD_EXPR}"
  shows "\<exists>lquo hquo lrem hrem. div_and_round_double code uns lnum hnum lden hden =
      Inr (\<not> uns \<and> N = - (2 ^ 127) \<and> D = - 1, (lquo, hquo), (lrem, hrem))
    \<and> dval uns lquo hquo = dwrap uns (rounded_quotient code N D)
    \<and> dval uns lrem hrem = dwrap uns (N - rounded_quotient code N D * D)"
  by (rule div_and_round_directed [OF assms])

theorem div_and_round_double_correct_witness:
  "\<exists>lquo hquo lrem hrem. div_and_round_double FLOOR_DIV_EXPR False (- 7) (- 1) 0 1 =
      Inr (False, (lquo, hquo), (lrem, hrem))
    \<and> sdval lquo hquo = - 1 \<and> sdval lrem hrem = 2 ^ 64 - 7"
proof -
  have v: "dval False (- 7) (- 1) = - 7" "dval False 0 1 = 2 ^ 64" by (simp_all add: dval_def sdval_def)
  have q: "rounded_quotient FLOOR_DIV_EXPR (- 7) (2 ^ 64) = - 1" by (simp add: rounded_quotient_def)
  from div_and_round_double_correct [of 0 1 "- 7" False "- 7" "- 1" "2 ^ 64" FLOOR_DIV_EXPR] v q
  show ?thesis by (simp add: dval_def dwrap_def signed_take_bit_int_eq_self)
qed

text \<open>
  Unsigned rounding takes the absolute value of the divisor too: a divisor of at least \<open>2^127\<close> has a
  negative high word and is negated, so \<open>4 / (2^128 - 1)\<close> is rounded to 1.
\<close>

lemma div_round_unsigned_large_divisor:
  "div_and_round_double ROUND_DIV_EXPR True 4 0 (- 1) (- 1) = Inr (False, (1, 0), 5, 0)"
  "rounded_quotient ROUND_DIV_EXPR (udval 4 0) (udval (- 1) (- 1)) = 0"
proof -
  show "div_and_round_double ROUND_DIV_EXPR True 4 0 (- 1) (- 1) = Inr (False, (1, 0), 5, 0)" by code_simp
  have "udval 4 0 = 4" "udval (- 1) (- 1) = 2 ^ 128 - 1" by (simp_all add: udval_def unsigned_minus_1_eq_mask mask_eq_exp_minus_1)
  then show "rounded_quotient ROUND_DIV_EXPR (udval 4 0) (udval (- 1) (- 1)) = 0"
    by (simp add: rounded_quotient_def c_div_def c_rem_def)
qed

text \<open>C3: signed rounding to nearest. Signed \<open>ROUND_DIV_EXPR\<close> gives the nearest quotient, halves away
  from zero, whenever the truncated quotient is nonzero, or the operands' signs agree, or the
  quotient's magnitude is below one half; otherwise (a negative ratio whose truncated quotient
  is 0) it returns 1, the wrong sign. Unsigned rounding is not part of it, see
  \<open>div_round_unsigned_large_divisor\<close>.\<close>

theorem div_round_nearest:
  assumes "lden \<noteq> 0 \<or> hden \<noteq> 0" "N = sdval lnum hnum" "D = sdval lden hden"
    and "good \<longleftrightarrow> c_div N D \<noteq> 0 \<or> (N < 0) = (D < 0) \<or> 2 * \<bar>N\<bar> < \<bar>D\<bar>"
  shows "\<exists>lquo hquo rem. div_and_round_double ROUND_DIV_EXPR False lnum hnum lden hden =
      Inr (N = - (2 ^ 127) \<and> D = - 1, (lquo, hquo), rem)
    \<and> sdval lquo hquo =
        (if good then signed_take_bit 127 (rounded_quotient ROUND_DIV_EXPR N D) else 1)"
proof -
  have D0: "D \<noteq> 0" using assms(1,3) dval_zero_iff [of False lden hden] by (simp add: dval_def)
  have "round_result N D = 1" if "\<not> good"
  proof -
    have "c_div N D = 0" "\<bar>D\<bar> \<le> 2 * \<bar>N\<bar>" using that assms(4) by auto
    moreover from this have "c_rem N D = N" using c_div_rem [of N D] by simp
    ultimately show ?thesis by (simp add: round_result_def)
  qed
  moreover have "good \<Longrightarrow> round_result N D = rounded_quotient ROUND_DIV_EXPR N D"
    using round_result_nearest [OF _ D0] assms(4) by blast
  ultimately show ?thesis
    using div_and_round_nearest [OF assms(1-3), of ROUND_DIV_EXPR]
    by (cases good) (auto simp: signed_take_bit_int_eq_self)
qed

theorem div_round_nearest_witness:
  "(\<exists>lquo hquo rem. div_and_round_double ROUND_DIV_EXPR False (- 2) (- 1) 3 0 =
      Inr (False, (lquo, hquo), rem) \<and> sdval lquo hquo = 1)
   \<and> (\<exists>lquo hquo rem. div_and_round_double ROUND_DIV_EXPR False (- 5) (- 1) 3 0 =
      Inr (False, (lquo, hquo), rem) \<and> sdval lquo hquo = - 2)"
proof -
  have v: "sdval (- 2) (- 1) = - 2" "sdval (- 5) (- 1) = - 5" "sdval 3 0 = 3" by (simp_all add: sdval_def)
  have q: "c_div (- 2) 3 = 0" "c_div (- 5) 3 = - 1" "c_rem (- 5) 3 = - 2" by (simp_all add: c_div_def c_rem_def)
  have r: "rounded_quotient ROUND_DIV_EXPR (- 5) 3 = - 2" using q by (simp add: rounded_quotient_def)
  have g: "False \<longleftrightarrow> c_div (- 2) 3 \<noteq> 0 \<or> (- 2 < (0 :: int)) = (3 < (0 :: int)) \<or> 2 * \<bar>- 2 :: int\<bar> < \<bar>3\<bar>"
    "True \<longleftrightarrow> c_div (- 5) 3 \<noteq> 0 \<or> (- 5 < (0 :: int)) = (3 < (0 :: int)) \<or> 2 * \<bar>- 5 :: int\<bar> < \<bar>3\<bar>"
    using q by simp_all
  have d: "(3 :: hwi) \<noteq> 0 \<or> (0 :: hwi) \<noteq> 0" by simp
  note w = div_round_nearest [OF d v(1) [symmetric] v(3) [symmetric] g(1)]
    div_round_nearest [OF d v(2) [symmetric] v(3) [symmetric] g(2)]
  have s: "signed_take_bit 127 (- 2 :: int) = - 2" by (rule signed_take_bit_int_eq_self) simp_all
  show ?thesis
    using w by (simp add: r s)
qed

text \<open>dividing by zero is reported as an overflow, with the dividend itself as quotient
  and as remainder; a code that is no division aborts the compiler.\<close>

theorem div_by_zero_or_bad_code:
  "div_and_round_double TRUNC_DIV_EXPR uns lnum hnum 0 0 = Inr (True, (lnum, hnum), (lnum, hnum))
   \<and> div_and_round_double PLUS_EXPR uns lnum hnum 1 hden = Inl Ice"
  using div_and_round_zero [of TRUNC_DIV_EXPR] div_and_round_ice [of PLUS_EXPR 1] by simp

end
