(* ===== verification/Double_Int.thy ===== *)
theory Double_Int
  imports Double_Div
begin

text \<open>
  The \<open>double_int\<close> structure of \<open>src/gcc/double-int.h\<close> and its operations in
  \<open>src/gcc/double-int.c\<close>: extension to a precision, host-integer conversions, arithmetic modulo
  \<open>2 ^ 128\<close>, division, comparison, decimal output and the conversions to and from GMP integers.
  A precision of 0 or above 128 makes \<open>double_int_mask\<close> shift by a count outside its operand's
  width, which is \<open>Undefined\<close>.
\<close>

section \<open>Data and constructors\<close>

record double_int =
  di_low :: hwi
  di_high :: hwi

definition mk_double_int :: "hwi \<times> hwi \<Rightarrow> double_int" where
  "mk_double_int w = \<lparr>di_low = fst w, di_high = snd w\<rparr>"

definition shwi_to_double_int :: "hwi \<Rightarrow> double_int" where
  "shwi_to_double_int cst = \<lparr>di_low = cst, di_high = (if sint cst < 0 then - 1 else 0)\<rparr>"

definition uhwi_to_double_int :: "hwi \<Rightarrow> double_int" where
  "uhwi_to_double_int cst = \<lparr>di_low = cst, di_high = 0\<rparr>"

definition double_int_zero_p :: "double_int \<Rightarrow> bool" where
  "double_int_zero_p cst \<longleftrightarrow> di_low cst = 0 \<and> di_high cst = 0"

definition double_int_one_p :: "double_int \<Rightarrow> bool" where
  "double_int_one_p cst \<longleftrightarrow> di_low cst = 1 \<and> di_high cst = 0"

definition double_int_minus_one_p :: "double_int \<Rightarrow> bool" where
  "double_int_minus_one_p cst \<longleftrightarrow> di_low cst = NOT 0 \<and> di_high cst = - 1"

definition double_int_equal_p :: "double_int \<Rightarrow> double_int \<Rightarrow> bool" where
  "double_int_equal_p cst1 cst2 \<longleftrightarrow> di_low cst1 = di_low cst2 \<and> di_high cst1 = di_high cst2"

section \<open>Precision\<close>

definition double_int_mask :: "nat \<Rightarrow> double_int outcome" where
  "double_int_mask prec =
     (if prec = 0 \<or> prec > 2 * HOST_BITS_PER_WIDE_INT then Inl Undefined
      else if prec > HOST_BITS_PER_WIDE_INT then
        (let prec = prec - HOST_BITS_PER_WIDE_INT
         in Inr \<lparr>di_low = NOT 0, di_high = push_bit (prec - 1) 2 - 1\<rparr>)
      else Inr \<lparr>di_low = push_bit (prec - 1) 2 - 1, di_high = 0\<rparr>)"

definition double_int_zext :: "double_int \<Rightarrow> nat \<Rightarrow> double_int outcome" where
  "double_int_zext cst prec =
     (case double_int_mask prec of
        Inl e \<Rightarrow> Inl e
      | Inr msk \<Rightarrow> Inr \<lparr>di_low = di_low cst AND di_low msk, di_high = di_high cst AND di_high msk\<rparr>)"

definition double_int_sext :: "double_int \<Rightarrow> nat \<Rightarrow> double_int outcome" where
  "double_int_sext cst prec =
     (case double_int_mask prec of
        Inl e \<Rightarrow> Inl e
      | Inr msk \<Rightarrow>
          (let (prec, snum) =
                 (if prec \<le> HOST_BITS_PER_WIDE_INT then (prec, di_low cst)
                  else (prec - HOST_BITS_PER_WIDE_INT, di_high cst))
           in Inr
             (if drop_bit (prec - 1) snum AND 1 = 1
              then \<lparr>di_low = di_low cst OR NOT (di_low msk), di_high = di_high cst OR NOT (di_high msk)\<rparr>
              else \<lparr>di_low = di_low cst AND di_low msk, di_high = di_high cst AND di_high msk\<rparr>)))"

definition double_int_ext :: "double_int \<Rightarrow> nat \<Rightarrow> bool \<Rightarrow> double_int outcome" where
  "double_int_ext cst prec uns = (if uns then double_int_zext cst prec else double_int_sext cst prec)"

section \<open>Host integers\<close>

definition double_int_fits_in_uhwi_p :: "double_int \<Rightarrow> bool" where
  "double_int_fits_in_uhwi_p cst \<longleftrightarrow> di_high cst = 0"

definition double_int_fits_in_shwi_p :: "double_int \<Rightarrow> bool" where
  "double_int_fits_in_shwi_p cst =
     (if di_high cst = 0 then sint (di_low cst) \<ge> 0
      else if di_high cst = - 1 then sint (di_low cst) < 0
      else False)"

definition double_int_fits_in_hwi_p :: "double_int \<Rightarrow> bool \<Rightarrow> bool" where
  "double_int_fits_in_hwi_p cst uns =
     (if uns then double_int_fits_in_uhwi_p cst else double_int_fits_in_shwi_p cst)"

definition double_int_to_shwi :: "double_int \<Rightarrow> hwi" where
  "double_int_to_shwi cst = di_low cst"

definition double_int_to_uhwi :: "double_int \<Rightarrow> hwi" where
  "double_int_to_uhwi cst = di_low cst"

section \<open>Arithmetic\<close>

definition double_int_mul :: "double_int \<Rightarrow> double_int \<Rightarrow> double_int" where
  "double_int_mul a b = mk_double_int (snd (mul_double (di_low a) (di_high a) (di_low b) (di_high b)))"

definition double_int_add :: "double_int \<Rightarrow> double_int \<Rightarrow> double_int" where
  "double_int_add a b = mk_double_int (snd (add_double (di_low a) (di_high a) (di_low b) (di_high b)))"

definition double_int_neg :: "double_int \<Rightarrow> double_int" where
  "double_int_neg a = mk_double_int (snd (neg_double (di_low a) (di_high a)))"

text \<open>The quotient and the remainder stored through the pointer \<open>mod\<close>.\<close>

definition double_int_divmod ::
    "double_int \<Rightarrow> double_int \<Rightarrow> bool \<Rightarrow> tree_code \<Rightarrow> (double_int \<times> double_int) outcome" where
  "double_int_divmod a b uns code =
     (case div_and_round_double code uns (di_low a) (di_high a) (di_low b) (di_high b) of
        Inl e \<Rightarrow> Inl e
      | Inr (_, quo, rem) \<Rightarrow> Inr (mk_double_int quo, mk_double_int rem))"

definition double_int_sdivmod :: "double_int \<Rightarrow> double_int \<Rightarrow> tree_code \<Rightarrow> (double_int \<times> double_int) outcome" where
  "double_int_sdivmod a b code = double_int_divmod a b False code"

definition double_int_udivmod :: "double_int \<Rightarrow> double_int \<Rightarrow> tree_code \<Rightarrow> (double_int \<times> double_int) outcome" where
  "double_int_udivmod a b code = double_int_divmod a b True code"

definition double_int_div :: "double_int \<Rightarrow> double_int \<Rightarrow> bool \<Rightarrow> tree_code \<Rightarrow> double_int outcome" where
  "double_int_div a b uns code = map_sum id fst (double_int_divmod a b uns code)"

definition double_int_sdiv :: "double_int \<Rightarrow> double_int \<Rightarrow> tree_code \<Rightarrow> double_int outcome" where
  "double_int_sdiv a b code = double_int_div a b False code"

definition double_int_udiv :: "double_int \<Rightarrow> double_int \<Rightarrow> tree_code \<Rightarrow> double_int outcome" where
  "double_int_udiv a b code = double_int_div a b True code"

definition double_int_mod :: "double_int \<Rightarrow> double_int \<Rightarrow> bool \<Rightarrow> tree_code \<Rightarrow> double_int outcome" where
  "double_int_mod a b uns code = map_sum id snd (double_int_divmod a b uns code)"

definition double_int_smod :: "double_int \<Rightarrow> double_int \<Rightarrow> tree_code \<Rightarrow> double_int outcome" where
  "double_int_smod a b code = double_int_mod a b False code"

definition double_int_umod :: "double_int \<Rightarrow> double_int \<Rightarrow> tree_code \<Rightarrow> double_int outcome" where
  "double_int_umod a b code = double_int_mod a b True code"

section \<open>Comparison\<close>

definition double_int_negative_p :: "double_int \<Rightarrow> bool" where
  "double_int_negative_p cst \<longleftrightarrow> sint (di_high cst) < 0"

definition double_int_ucmp :: "double_int \<Rightarrow> double_int \<Rightarrow> int" where
  "double_int_ucmp a b =
     (if di_high a < di_high b then - 1
      else if di_high a > di_high b then 1
      else if di_low a < di_low b then - 1
      else if di_low a > di_low b then 1
      else 0)"

definition double_int_scmp :: "double_int \<Rightarrow> double_int \<Rightarrow> int" where
  "double_int_scmp a b =
     (if sint (di_high a) < sint (di_high b) then - 1
      else if sint (di_high a) > sint (di_high b) then 1
      else if di_low a < di_low b then - 1
      else if di_low a > di_low b then 1
      else 0)"

definition double_int_cmp :: "double_int \<Rightarrow> double_int \<Rightarrow> bool \<Rightarrow> int" where
  "double_int_cmp a b uns = (if uns then double_int_ucmp a b else double_int_scmp a b)"

section \<open>Decimal output\<close>

text \<open>The digit and the rest of the number; the digit is narrowed to \<open>unsigned\<close>.\<close>

definition double_int_split_digit :: "double_int \<Rightarrow> uint32 \<Rightarrow> (double_int \<times> uint32) outcome" where
  "double_int_split_digit cst base =
     (case div_and_round_double FLOOR_DIV_EXPR True (di_low cst) (di_high cst) (ucast base) 0 of
        Inl e \<Rightarrow> Inl e
      | Inr (_, res, reml, remh) \<Rightarrow> Inr (mk_double_int res, ucast reml))"

text \<open>The loop that fills the buffer of 100 digits.\<close>

function dump_digits :: "double_int \<Rightarrow> uint32 list \<Rightarrow> (uint32 list) outcome" where
  "dump_digits cst buf =
     (if double_int_zero_p cst then Inr buf
      else if length buf \<ge> 100 then Inl Undefined
      else (case double_int_split_digit cst 10 of
              Inl e \<Rightarrow> Inl e
            | Inr (cst', d) \<Rightarrow> dump_digits cst' (buf @ [d])))"
  by pat_completeness auto
termination
  by (relation "measure (\<lambda>(_, buf). 100 - length buf)") auto

declare dump_digits.simps [simp del]

definition dump_double_int :: "double_int \<Rightarrow> bool \<Rightarrow> string outcome" where
  "dump_double_int cst uns =
     (if double_int_zero_p cst then Inr ''0''
      else
        (let (sgn, cst) =
               (if \<not> uns \<and> double_int_negative_p cst then (''-'', double_int_neg cst) else ('''', cst))
         in case dump_digits cst [] of
              Inl e \<Rightarrow> Inl e
            | Inr buf \<Rightarrow> Inr (sgn @ concat (map (\<lambda>d. dec_string (unat d)) (rev buf)))))"


section \<open>Values\<close>

text \<open>The number a \<open>double_int\<close> stands for, under either signedness.\<close>

definition dival :: "bool \<Rightarrow> double_int \<Rightarrow> int" where
  "dival uns a = dval uns (di_low a) (di_high a)"

lemma dival_mk [simp]: "dival uns (mk_double_int (l, h)) = dval uns l h"
  by (simp add: dival_def mk_double_int_def)

lemma dival_True: "dival True a = udval (di_low a) (di_high a)"
  and dival_False: "dival False a = sdval (di_low a) (di_high a)"
  by (simp_all add: dival_def dval_def)

lemma dival_inj: "dival uns a = dival uns b \<longleftrightarrow> a = b"
proof
  assume "dival uns a = dival uns b"
  then have "dival uns a mod 2 ^ 128 = dival uns b mod 2 ^ 128" by (rule arg_cong)
  then show "a = b" by (simp only: dival_def dval_mod udval_inj) simp
qed simp

lemma dival_range: "dfits uns (dival uns a)"
  by (simp add: dival_def dval_fits)

lemma dival_zero: "dival uns a = 0 \<longleftrightarrow> double_int_zero_p a"
  by (simp add: dival_def dval_zero_iff double_int_zero_p_def)

subsection \<open>Precision\<close>

lemma mask_word: "0 < p \<Longrightarrow> push_bit (p - 1) (2 :: hwi) - 1 = mask p"
  by (cases p) (simp_all add: mask_eq_exp_minus_1 push_bit_eq_mult mult.commute)

lemma double_int_mask_bits:
  assumes "0 < prec" "prec \<le> 128"
  shows "\<exists>m. double_int_mask prec = Inr m \<and> (\<forall>n < 64. bit (di_low m) n \<longleftrightarrow> n < prec)
    \<and> (\<forall>n < 64. bit (di_high m) n \<longleftrightarrow> n + 64 < prec)"
proof (cases "64 < prec")
  case True
  then have w: "push_bit (prec - 65) (2 :: hwi) - 1 = mask (prec - 64)"
    using mask_word [of "prec - 64"] by simp
  have "bit (mask (prec - 64) :: hwi) n \<longleftrightarrow> n + 64 < prec" if "n < 64" for n
    using that True by (auto simp: bit_mask_iff)
  then show ?thesis using True assms by (simp add: double_int_mask_def w bit_simps)
next
  case False
  have "bit (mask prec :: hwi) n \<longleftrightarrow> n < prec" if "n < 64" for n
    using that by (auto simp: bit_mask_iff)
  then show ?thesis using False assms mask_word [of prec] by (simp add: double_int_mask_def)
qed

text \<open>Words that keep the bits below \<open>prec\<close> and repeat one bit above.\<close>

lemma zext_words:
  assumes "\<forall>k < 64. bit l' k = (k < prec \<and> bit l k)" "\<forall>k < 64. bit h' k = (k + 64 < prec \<and> bit h k)"
  shows "udval l' h' = take_bit prec (udval l h)"
proof (rule bit_eqI)
  show "bit (udval l' h') n = bit (take_bit prec (udval l h)) n" for n
    using assms bit_word64_ge [of "n - 64" h] bit_word64_ge [of "n - 64" h']
    by (cases "n - 64 < 64") (auto simp: bit_udval bit_take_bit_iff)
qed

lemma sext_words:
  assumes prec: "0 < prec" "prec \<le> 128"
    and s: "s \<longleftrightarrow> (if prec \<le> 64 then bit l (prec - 1) else bit h (prec - 65))"
    and lo: "\<forall>k < 64. bit l' k = (if k < prec then bit l k else s)"
    and hi: "\<forall>k < 64. bit h' k = (if k + 64 < prec then bit h k else s)"
  shows "sdval l' h' = signed_take_bit (prec - 1) (sdval l h)"
proof (rule bit_eqI)
  fix n
  have sbit: "bit (sdval l h) (prec - 1) = s"
  proof (cases "prec = 128")
    case False
    with prec show ?thesis by (auto simp: bit_sdval_cases s)
  qed (simp add: bit_sdval s)
  have "bit (sdval l' h') n = (if n < prec then bit (sdval l h) n else s)"
  proof (cases "prec = 128")
    case True
    with lo hi show ?thesis by (auto simp: bit_sdval min_def sbit [symmetric])
  next
    case False
    with prec(2) have "\<not> 127 < prec" by simp
    with lo hi prec(1) show ?thesis by (auto simp: bit_sdval min_def sbit [symmetric])
  qed
  moreover have "bit (signed_take_bit (prec - 1) (sdval l h)) n = (if n < prec then bit (sdval l h) n else s)"
  proof (cases "n < prec - 1")
    case False
    then have "n < prec \<Longrightarrow> n = prec - 1" using prec(1) by simp
    with False show ?thesis using sbit by (auto simp: bit_signed_take_bit_iff min_def)
  qed (auto simp: bit_signed_take_bit_iff min_def)
  ultimately show "bit (sdval l' h') n = bit (signed_take_bit (prec - 1) (sdval l h)) n" by simp
qed

lemma odd_drop_bit: "drop_bit k (x :: hwi) AND 1 = 1 \<longleftrightarrow> bit x k"
  by (simp add: and_one_eq odd_iff_mod_2_eq_one [symmetric] bit_iff_odd_drop_bit)

lemma double_int_zext_val:
  assumes "0 < prec" "prec \<le> 128"
  shows "\<exists>r. double_int_zext cst prec = Inr r \<and> dival True r = take_bit prec (dival True cst)"
proof -
  obtain m where m: "double_int_mask prec = Inr m" "\<forall>n < 64. bit (di_low m) n \<longleftrightarrow> n < prec"
      "\<forall>n < 64. bit (di_high m) n \<longleftrightarrow> n + 64 < prec"
    using double_int_mask_bits [OF assms] by blast
  have "udval (di_low cst AND di_low m) (di_high cst AND di_high m) = take_bit prec (udval (di_low cst) (di_high cst))"
    using m(2,3) by (intro zext_words) (auto simp: bit_and_iff)
  with m(1) show ?thesis by (simp add: double_int_zext_def dival_def dval_def)
qed

lemma double_int_sext_val:
  assumes "0 < prec" "prec \<le> 128"
  shows "\<exists>r. double_int_sext cst prec = Inr r \<and> dival False r = signed_take_bit (prec - 1) (dival False cst)"
proof -
  obtain m where m: "double_int_mask prec = Inr m" "\<forall>n < 64. bit (di_low m) n \<longleftrightarrow> n < prec"
      "\<forall>n < 64. bit (di_high m) n \<longleftrightarrow> n + 64 < prec"
    using double_int_mask_bits [OF assms] by blast
  define s where "s \<longleftrightarrow> (if prec \<le> 64 then bit (di_low cst) (prec - 1) else bit (di_high cst) (prec - 65))"
  define r where "r = (if s then \<lparr>di_low = di_low cst OR NOT (di_low m), di_high = di_high cst OR NOT (di_high m)\<rparr>
      else \<lparr>di_low = di_low cst AND di_low m, di_high = di_high cst AND di_high m\<rparr>)"
  have "double_int_sext cst prec = Inr r"
    by (simp add: double_int_sext_def m(1) r_def s_def odd_drop_bit)
  moreover have "sdval (di_low r) (di_high r) = signed_take_bit (prec - 1) (sdval (di_low cst) (di_high cst))"
    using m(2,3) by (intro sext_words [OF assms s_def]) (auto simp: r_def bit_or_iff bit_and_iff bit_not_iff)
  ultimately show ?thesis by (simp add: dival_False)
qed

subsection \<open>Arithmetic\<close>

lemma double_int_add_mod: "dival uns (double_int_add a b) = dwrap uns (dival uns a + dival uns b)"
proof -
  obtain ov l h where r: "add_double (di_low a) (di_high a) (di_low b) (di_high b) = (ov, l, h)" by (metis prod_cases3)
  have "udval l h = (dival uns a + dival uns b) mod 2 ^ 128"
    by (subst add_double_udval [OF r]) (simp only: dival_def dval_mod [of uns, symmetric] mod_add_eq)
  then show ?thesis by (simp add: double_int_add_def r dval_dwrap)
qed

lemma double_int_mul_mod: "dival uns (double_int_mul a b) = dwrap uns (dival uns a * dival uns b)"
proof -
  obtain ov l h where r: "mul_double (di_low a) (di_high a) (di_low b) (di_high b) = (ov, l, h)" by (metis prod_cases3)
  have "udval l h = (dival uns a * dival uns b) mod 2 ^ 128"
    by (subst mul_double_udval [OF r]) (simp only: dival_def dval_mod [of uns, symmetric] mod_mult_eq)
  then show ?thesis by (simp add: double_int_mul_def r dval_dwrap)
qed

lemma double_int_neg_mod: "dival uns (double_int_neg a) = dwrap uns (- dival uns a)"
proof -
  obtain ov l h where r: "neg_double (di_low a) (di_high a) = (ov, l, h)" by (metis prod_cases3)
  have "udval l h = (- dival uns a) mod 2 ^ 128"
    by (subst neg_double_udval [OF r]) (simp only: dival_def dval_mod [of uns, symmetric] mod_minus_eq)
  then show ?thesis by (simp add: double_int_neg_def r dval_dwrap)
qed

text \<open>Extension commutes with the arithmetic modulo \<open>2 ^ prec\<close>.\<close>

definition ext_val :: "bool \<Rightarrow> nat \<Rightarrow> int \<Rightarrow> int" where
  "ext_val uns prec x = (if uns then take_bit prec x else signed_take_bit (prec - 1) x)"

lemma double_int_ext_val:
  assumes "0 < prec" "prec \<le> 128"
  shows "\<exists>r. double_int_ext cst prec uns = Inr r \<and> dival uns r = ext_val uns prec (dival uns cst)"
  using double_int_zext_val [OF assms, of cst] double_int_sext_val [OF assms, of cst]
  by (cases uns) (simp_all add: double_int_ext_def ext_val_def)

lemma ext_val_cong:
  assumes "0 < prec"
  shows "x mod 2 ^ prec = y mod 2 ^ prec \<longleftrightarrow> ext_val uns prec x = ext_val uns prec y"
  unfolding take_bit_eq_mod [symmetric] ext_val_def
  using assms by (cases prec) (auto simp: signed_take_bit_eq_iff_take_bit_eq)

lemma ext_val_mod: "0 < prec \<Longrightarrow> ext_val uns prec x mod 2 ^ prec = x mod 2 ^ prec"
  unfolding take_bit_eq_mod [symmetric] ext_val_def
  by (cases prec) (simp_all add: take_bit_signed_take_bit)

lemma dwrap_mod: "prec \<le> 128 \<Longrightarrow> dwrap uns x mod 2 ^ prec = x mod 2 ^ prec"
  unfolding take_bit_eq_mod [symmetric] dwrap_def
  by (simp only: take_bit_signed_take_bit take_bit_take_bit min_def split: if_split) simp

lemma ext_val_dwrap: "0 < prec \<Longrightarrow> prec \<le> 128 \<Longrightarrow> ext_val uns prec (dwrap uns x) = ext_val uns prec x"
  using ext_val_cong [of prec "dwrap uns x" x uns] dwrap_mod by simp

lemma ext_val_add: "0 < prec \<Longrightarrow> ext_val uns prec (ext_val uns prec x + ext_val uns prec y) = ext_val uns prec (x + y)"
  using ext_val_cong [of prec "ext_val uns prec x + ext_val uns prec y" "x + y" uns]
    mod_add_cong [of "ext_val uns prec x" "2 ^ prec" x "ext_val uns prec y" y] by (simp add: ext_val_mod)

lemma ext_val_mult: "0 < prec \<Longrightarrow> ext_val uns prec (ext_val uns prec x * ext_val uns prec y) = ext_val uns prec (x * y)"
  using ext_val_cong [of prec "ext_val uns prec x * ext_val uns prec y" "x * y" uns]
    mod_mult_cong [of "ext_val uns prec x" "2 ^ prec" x "ext_val uns prec y" y] by (simp add: ext_val_mod)

subsection \<open>Comparison and host integers\<close>

lemma double_int_cmp_val:
  "double_int_cmp a b uns = (if dival uns a < dival uns b then - 1 else if dival uns a > dival uns b then 1 else 0)"
proof -
  have lex: "l1 + h1 * 2 ^ 64 < l2 + h2 * 2 ^ 64 \<longleftrightarrow> h1 < h2 \<or> h1 = h2 \<and> l1 < l2"
    if "0 \<le> l1" "l1 < 2 ^ 64" "0 \<le> l2" "l2 < 2 ^ 64" for l1 l2 h1 h2 :: int
  proof -
    have "h1 < h2 \<Longrightarrow> (h1 + 1) * 2 ^ 64 \<le> h2 * 2 ^ 64" "h2 < h1 \<Longrightarrow> (h2 + 1) * 2 ^ 64 \<le> h1 * 2 ^ 64"
      by (intro mult_right_mono; simp)+
    then show ?thesis using that by (cases h1 h2 rule: linorder_cases) (simp_all add: distrib_right)
  qed
  note r = uint64_range [of "di_low a"] uint64_range [of "di_low b"]
  have u: "dival True x < dival True y \<longleftrightarrow> di_high x < di_high y \<or> di_high x = di_high y \<and> di_low x < di_low y" for x y
    using lex [of "uint (di_low x)" "uint (di_low y)" "uint (di_high x)" "uint (di_high y)"]
      uint64_range [of "di_low x"] uint64_range [of "di_low y"]
    by (simp add: dival_True udval_def word_less_def word_uint_eq_iff add.commute)
  have s: "dival False x < dival False y \<longleftrightarrow>
      sint (di_high x) < sint (di_high y) \<or> sint (di_high x) = sint (di_high y) \<and> di_low x < di_low y" for x y
    using lex [of "uint (di_low x)" "uint (di_low y)" "sint (di_high x)" "sint (di_high y)"]
      uint64_range [of "di_low x"] uint64_range [of "di_low y"]
    by (simp add: dival_False sdval_def word_less_def add.commute)
  show ?thesis
    by (cases uns) (auto simp: double_int_cmp_def double_int_ucmp_def double_int_scmp_def u s)
qed

lemma two_words_in_one:
  fixes H L :: int
  assumes "0 \<le> L" "L < 2 ^ 64"
  shows "- (2 ^ 63) \<le> H * 2 ^ 64 + L \<and> H * 2 ^ 64 + L < 2 ^ 63 \<longleftrightarrow> (H = 0 \<and> L < 2 ^ 63) \<or> (H = - 1 \<and> 2 ^ 63 \<le> L)"
proof -
  consider "H = 0" | "H = - 1" | "1 \<le> H" | "H \<le> - 2" by linarith
  then show ?thesis
  proof cases
    case 3
    then have "\<not> H * 18446744073709551616 + L < 9223372036854775808" using assms by linarith
    with 3 show ?thesis by simp
  next
    case 4
    then have "\<not> - 9223372036854775808 \<le> H * 18446744073709551616 + L" using assms by simp
    with 4 show ?thesis by simp
  qed (use assms in auto)
qed

lemma double_int_fits_shwi_val:
  "double_int_fits_in_shwi_p a \<longleftrightarrow> - (2 ^ 63) \<le> dival False a \<and> dival False a < 2 ^ 63"
proof -
  have h: "di_high a = 0 \<longleftrightarrow> sint (di_high a) = 0" "di_high a = - 1 \<longleftrightarrow> sint (di_high a) = - 1"
    using signed_word_eqI [of "di_high a" 0] signed_word_eqI [of "di_high a" "- 1"] by auto
  have l: "sint (di_low a) < 0 \<longleftrightarrow> 2 ^ 63 \<le> uint (di_low a)"
    using uint_lt2p [of "di_low a"] by (auto simp: sint64_uint)
  show ?thesis
    unfolding dival_False sdval_def
    by (subst two_words_in_one) (use uint_lt2p [of "di_low a"] in \<open>auto simp: double_int_fits_in_shwi_p_def h not_less [symmetric] l\<close>)
qed

lemma shwi_round_trip:
  "double_int_fits_in_shwi_p (shwi_to_double_int x)" "dival False (shwi_to_double_int x) = sint x"
  "double_int_to_shwi (shwi_to_double_int x) = x"
  "double_int_fits_in_shwi_p a \<Longrightarrow> shwi_to_double_int (double_int_to_shwi a) = a"
  using sint64_uint [of x] uint_lt2p [of x]
  by (auto simp: double_int_fits_in_shwi_p_def shwi_to_double_int_def dival_False sdval_def
      double_int_to_shwi_def split: if_splits)


subsection \<open>Division and decimal output\<close>

lemma double_int_divmod_val:
  assumes "\<not> double_int_zero_p b"
    and "code \<in> {TRUNC_DIV_EXPR, TRUNC_MOD_EXPR, EXACT_DIV_EXPR, FLOOR_DIV_EXPR, FLOOR_MOD_EXPR,
      CEIL_DIV_EXPR, CEIL_MOD_EXPR}"
  shows "\<exists>q r. double_int_divmod a b uns code = Inr (q, r)
    \<and> dival uns q = dwrap uns (rounded_quotient code (dival uns a) (dival uns b))
    \<and> dival uns r = dwrap uns (dival uns a - rounded_quotient code (dival uns a) (dival uns b) * dival uns b)"
proof -
  have "di_low b \<noteq> 0 \<or> di_high b \<noteq> 0" using assms(1) by (simp add: double_int_zero_p_def)
  from div_and_round_directed [OF this refl refl assms(2), of uns "di_low a" "di_high a"]
  show ?thesis by (force simp: double_int_divmod_def dival_def [of uns a] dival_def [of uns b])
qed

lemma double_int_split_digit_val:
  assumes "base \<noteq> 0"
  shows "\<exists>cst' d. double_int_split_digit cst base = Inr (cst', d)
    \<and> dival True cst' = dival True cst div uint base \<and> uint d = dival True cst mod uint base"
proof -
  define N where "N = dval True (di_low cst) (di_high cst)"
  have b: "0 < uint base" "uint base < 2 ^ 32"
    using assms uint_lt2p [of base] by (simp_all add: word_neq_0_conv word_less_def)
  have D: "dval True (ucast base) 0 = uint base"
    using b by (simp add: dval_def udval_def unsigned_ucast_eq take_bit_int_eq_self)
  have nz: "(ucast base :: hwi) \<noteq> 0 \<or> (0 :: hwi) \<noteq> 0"
    using D b dval_zero_iff [of True "ucast base" 0] by auto
  have N: "0 \<le> N" "N < 2 ^ 128" using udval_range [of "di_low cst" "di_high cst"] by (simp_all add: N_def dval_def)
  have q: "rounded_quotient FLOOR_DIV_EXPR N (uint base) = N div uint base" by (simp add: rounded_quotient_def)
  obtain lq hq lr hr where r: "div_and_round_double FLOOR_DIV_EXPR True (di_low cst) (di_high cst) (ucast base) 0 =
        Inr (False, (lq, hq), (lr, hr))"
      "dval True lq hq = dwrap True (N div uint base)" "dval True lr hr = dwrap True (N - N div uint base * uint base)"
    using div_and_round_directed [OF nz N_def D [symmetric], of FLOOR_DIV_EXPR] unfolding q by auto
  have "N - N div uint base * uint base = N mod uint base" by (rule minus_div_mult_eq_mod)
  moreover have m: "0 \<le> N mod uint base" "N mod uint base < uint base" using b by simp_all
  ultimately have rem: "udval lr hr = N mod uint base"
    using r(3) b(2) by (simp add: dwrap_def dval_def)
  have "hr = 0"
  proof (rule ccontr)
    assume "hr \<noteq> 0"
    then have "udval 0 0 < udval lr hr" "udval lr 0 < udval lr hr" "2 ^ 64 \<le> udval lr hr"
      using digval_div_less [of 0 hr lr] digval_div_less [of "- 1" hr lr] uint_lt2p [of "0 :: hwi"] 
      by (simp_all add: word_pos_iff udval_def unsigned_minus_1_eq_mask mask_eq_exp_minus_1)
    then show False using rem m b(2) by simp
  qed
  then have lr: "uint lr = N mod uint base" using rem by (simp add: udval_def)
  then have "uint (ucast lr :: uint32) = N mod uint base"
    using m b(2) by (simp add: unsigned_ucast_eq take_bit_int_eq_self)
  moreover have "N div uint base < 2 ^ 128" using N b by (intro int_div_less) simp_all
  then have "dval True lq hq = N div uint base"
    using r(2) N b by (simp add: dwrap_def pos_imp_zdiv_nonneg_iff)
  ultimately show ?thesis
    using r(1) by (simp add: double_int_split_digit_def dival_def [of True cst] N_def)
qed

text \<open>The digits come out in reverse order; the buffer bounds the loop.\<close>

lemma dump_digits_correct:
  assumes "dival True cst < 10 ^ k" "k + length buf \<le> 100"
  shows "\<exists>ds. dump_digits cst buf = Inr (buf @ ds) \<and>
    concat (map (\<lambda>d. dec_string (unat d)) (rev ds)) =
      (if dival True cst = 0 then [] else dec_string (nat (dival True cst)))"
  using assms
proof (induction k arbitrary: cst buf)
  case 0
  then have "dival True cst = 0" using udval_range(1) [of "di_low cst" "di_high cst"] by (simp add: dival_True)
  then show ?case by (simp add: dump_digits.simps [of cst] dival_zero)
next
  case (Suc k)
  show ?case
  proof (cases "double_int_zero_p cst")
    case True
    then show ?thesis by (simp add: dump_digits.simps [of cst] dival_zero)
  next
    case False
    define N where "N = dival True cst"
    have N: "0 < N" using False udval_range(1) [of "di_low cst" "di_high cst"] dival_zero [of True cst]
      by (simp add: N_def dival_True order_less_le)
    obtain cst' d where s: "double_int_split_digit cst 10 = Inr (cst', d)" "dival True cst' = N div 10" "uint d = N mod 10"
      using double_int_split_digit_val [of 10 cst] by (auto simp: N_def)
    have "dival True cst' < 10 ^ k" unfolding s(2) using Suc.prems(1) by (intro int_div_less) (simp_all add: N_def mult.commute)
    with Suc.prems(2) obtain ds where ds: "dump_digits cst' (buf @ [d]) = Inr ((buf @ [d]) @ ds)"
        "concat (map (\<lambda>d. dec_string (unat d)) (rev ds)) =
          (if N div 10 = 0 then [] else dec_string (nat (N div 10)))"
      using Suc.IH [of cst' "buf @ [d]"] unfolding s(2) by auto
    have d: "unat d = nat (N mod 10)" using s(3) by (simp add: unat_eq_nat_uint)
    have "dec_string (nat N) = (if N div 10 = 0 then [] else dec_string (nat (N div 10))) @ dec_string (unat d)"
    proof (cases "N div 10 = 0")
      case True
      then have "N mod 10 = N" using div_mult_mod_eq [of N 10] by simp
      with True d show ?thesis by simp
    next
      case nz: False
      then have "nat (N div 10) \<noteq> 0" using N pos_imp_zdiv_nonneg_iff [of 10 N] by linarith
      moreover have "nat N = 10 * nat (N div 10) + nat (N mod 10)"
        using N by (simp add: nat_div_distrib nat_mod_distrib)
      moreover have "nat (N mod 10) < 10" by (simp add: nat_less_iff)
      ultimately show ?thesis using dec_string_snoc [of "nat (N div 10)" "nat (N mod 10)"] nz d by simp
    qed
    with False Suc.prems(2) s ds N show ?thesis
      by (auto simp: dump_digits.simps [of cst] N_def [symmetric])
  qed
qed

lemma dump_double_int_correct:
  "dump_double_int cst uns = Inr ((if dival uns cst < 0 then ''-'' else []) @ dec_string (nat \<bar>dival uns cst\<bar>))"
proof (cases "double_int_zero_p cst")
  case True
  then have "dival uns cst = 0" by (simp add: dival_zero)
  moreover have "dec_string 0 = ''0''" by (simp add: dec_string.simps char_of_def bit_simps)
  ultimately show ?thesis using True by (simp add: dump_double_int_def)
next
  case False
  define neg where "neg \<longleftrightarrow> \<not> uns \<and> double_int_negative_p cst"
  define c where "c = (if neg then double_int_neg cst else cst)"
  have neg: "neg \<longleftrightarrow> dival uns cst < 0"
    using sdval_neg_iff [of "di_low cst" "di_high cst"] udval_range(1) [of "di_low cst" "di_high cst"]
    by (auto simp: neg_def double_int_negative_p_def dival_def dval_def)
  have c: "dival True c = \<bar>dival uns cst\<bar>"
    using magnitude_words [of uns "di_high cst" "di_low cst" "di_low c" "di_high c"]
    by (simp add: c_def neg_def double_int_neg_def mk_double_int_def double_int_negative_p_def dival_def dval_def)
  have "dival True c < 2 ^ 128" using udval_range [of "di_low c" "di_high c"] by (simp add: dival_True)
  also have "(2 :: int) ^ 128 \<le> 10 ^ 100" by simp
  finally obtain ds where ds: "dump_digits c [] = Inr ds"
      "concat (map (\<lambda>d. dec_string (unat d)) (rev ds)) =
        (if dival True c = 0 then [] else dec_string (nat (dival True c)))"
    using dump_digits_correct [of c 100 "[]"] by fastforce
  have "dival True c \<noteq> 0" using False c dival_zero [of uns cst] by simp
  with ds show ?thesis
    using False neg unfolding c by (cases neg) (simp_all add: dump_double_int_def c_def neg_def [symmetric])
qed


section \<open>GMP integers\<close>

text \<open>
  GMP is not part of the program: its type is a type variable and the functions the two
  conversions call are fields of \<open>mpz_ops\<close>, \<open>mpz_import\<close> and \<open>mpz_export\<close> for least
  significant word first (order \<open>- 1\<close>), native 64-bit words without nails.
\<close>

record 'z mpz_ops =
  mpz_import :: "hwi list \<Rightarrow> 'z"
  mpz_export :: "'z \<Rightarrow> hwi list"
  mpz_neg :: "'z \<Rightarrow> 'z"
  mpz_cmp :: "'z \<Rightarrow> 'z \<Rightarrow> int"
  mpz_sgn :: "'z \<Rightarrow> int"
  mpz_sizeinbase2 :: "'z \<Rightarrow> nat"

definition mpz_set_double_int :: "'z mpz_ops \<Rightarrow> double_int \<Rightarrow> bool \<Rightarrow> 'z" where
  "mpz_set_double_int gmp val uns =
     (let (negate, val) =
            (if \<not> uns \<and> double_int_negative_p val then (True, double_int_neg val) else (False, val));
          result = mpz_import gmp [di_low val, di_high val]
      in if negate then mpz_neg gmp result else result)"

text \<open>\<open>bounds\<close> are the type's extreme values, what \<open>get_type_static_bounds\<close> sets.\<close>

definition mpz_get_double_int ::
    "'z mpz_ops \<Rightarrow> 'z \<times> 'z \<Rightarrow> nat \<times> bool \<Rightarrow> 'z \<Rightarrow> bool \<Rightarrow> double_int outcome" where
  "mpz_get_double_int gmp bounds type val wrap =
     (let val =
            (if wrap then val
             else if mpz_cmp gmp val (fst bounds) < 0 then fst bounds
             else if mpz_cmp gmp val (snd bounds) > 0 then snd bounds
             else val);
          numb = HOST_BITS_PER_WIDE_INT;
          count = max 2 ((mpz_sizeinbase2 gmp val + numb - 1) div numb);
          exported = mpz_export gmp val
      in if length exported > count then Inl Undefined
         else if \<not> (wrap \<or> length exported \<le> 2) then Inl Ice
         else
           (let vp = exported @ [0, 0]
            in case double_int_ext \<lparr>di_low = vp ! 0, di_high = vp ! 1\<rparr> (fst type) (snd type) of
                 Inl e \<Rightarrow> Inl e
               | Inr res \<Rightarrow> Inr (if mpz_sgn gmp val < 0 then double_int_neg res else res)))"

text \<open>The documented behaviour of those functions, \<open>zval\<close> the value of a GMP integer.\<close>

fun words_val :: "hwi list \<Rightarrow> int" where
  "words_val [] = 0"
| "words_val (w # ws) = uint w + 2 ^ 64 * words_val ws"

definition gmp_spec :: "'z mpz_ops \<Rightarrow> ('z \<Rightarrow> int) \<Rightarrow> bool" where
  "gmp_spec gmp zval \<longleftrightarrow>
     (\<forall>ws. zval (mpz_import gmp ws) = words_val ws)
     \<and> (\<forall>z. words_val (mpz_export gmp z) = \<bar>zval z\<bar>
          \<and> (mpz_export gmp z \<noteq> [] \<longrightarrow> last (mpz_export gmp z) \<noteq> 0))
     \<and> (\<forall>z. zval (mpz_neg gmp z) = - zval z)
     \<and> (\<forall>a b. (mpz_cmp gmp a b < 0 \<longleftrightarrow> zval a < zval b) \<and> (mpz_cmp gmp a b > 0 \<longleftrightarrow> zval a > zval b))
     \<and> (\<forall>z. (mpz_sgn gmp z < 0 \<longleftrightarrow> zval z < 0))
     \<and> (\<forall>z. \<bar>zval z\<bar> < 2 ^ mpz_sizeinbase2 gmp z)"

lemma words_val_nonneg: "0 \<le> words_val ws"
  by (induction ws) simp_all

lemma words_val_length:
  assumes "ws \<noteq> []" "last ws \<noteq> 0"
  shows "2 ^ (64 * (length ws - 1)) \<le> words_val ws"
  using assms
proof (induction ws)
  case (Cons w ws)
  show ?case
  proof (cases "ws = []")
    case True
    with Cons.prems show ?thesis using word_pos_iff [of w] by (simp add: int_one_le_iff_zero_less)
  next
    case False
    with Cons have "2 ^ (64 * (length ws - 1)) \<le> words_val ws" by simp
    then have "2 ^ 64 * 2 ^ (64 * (length ws - 1)) \<le> 2 ^ 64 * words_val ws" by (intro mult_left_mono) simp_all
    moreover have "(2 :: int) ^ 64 * 2 ^ (64 * (length ws - 1)) = 2 ^ (64 * (length (w # ws) - 1))"
      using False by (simp only: power_add [symmetric]) (cases ws; simp)
    ultimately show ?thesis using uint64_range(1) [of w] by (simp only: words_val.simps)
  qed
qed simp

text \<open>An export that is used has at most two words, and they are the magnitude.\<close>

lemma gmp_export_words:
  assumes "gmp_spec gmp zval" "\<bar>zval z\<bar> < 2 ^ 128"
  shows "length (mpz_export gmp z) \<le> 2"
    "udval ((mpz_export gmp z @ [0, 0]) ! 0) ((mpz_export gmp z @ [0, 0]) ! 1) = \<bar>zval z\<bar>"
proof -
  let ?ws = "mpz_export gmp z"
  have v: "words_val ?ws = \<bar>zval z\<bar>" "?ws \<noteq> [] \<Longrightarrow> last ?ws \<noteq> 0"
    using assms(1) by (auto simp: gmp_spec_def)
  show len: "length ?ws \<le> 2"
  proof (rule ccontr)
    assume *: "\<not> length ?ws \<le> 2"
    then have "(2 :: int) ^ 128 \<le> 2 ^ (64 * (length ?ws - 1))" by (intro power_increasing) simp_all
    moreover have "?ws \<noteq> []" using * by auto
    ultimately show False using words_val_length [OF _ v(2)] v(1) assms(2) by linarith
  qed
  then consider "?ws = []" | a where "?ws = [a]" | a b where "?ws = [a, b]"
    by (cases ?ws rule: remdups_adj.cases) (auto simp: le_Suc_eq)
  then show "udval ((?ws @ [0, 0]) ! 0) ((?ws @ [0, 0]) ! 1) = \<bar>zval z\<bar>"
    using v(1) by cases (simp_all add: udval_def)
qed

lemma mpz_set_double_int_val:
  assumes "gmp_spec gmp zval"
  shows "zval (mpz_set_double_int gmp a uns) = dival uns a"
proof -
  define neg where "neg \<longleftrightarrow> \<not> uns \<and> double_int_negative_p a"
  define c where "c = (if neg then double_int_neg a else a)"
  have neg: "neg \<longleftrightarrow> dival uns a < 0"
    using sdval_neg_iff [of "di_low a" "di_high a"] udval_range(1) [of "di_low a" "di_high a"]
    by (auto simp: neg_def double_int_negative_p_def dival_def dval_def)
  have "dival True c = \<bar>dival uns a\<bar>"
    using magnitude_words [of uns "di_high a" "di_low a" "di_low c" "di_high c"]
    by (simp add: c_def neg_def double_int_neg_def mk_double_int_def double_int_negative_p_def dival_def dval_def)
  moreover have "zval (mpz_set_double_int gmp a uns) = (if neg then - words_val [di_low c, di_high c] else words_val [di_low c, di_high c])"
    using assms by (simp add: mpz_set_double_int_def gmp_spec_def c_def neg_def)
  moreover have "words_val [di_low c, di_high c] = dival True c" by (simp add: dival_True udval_def)
  ultimately show ?thesis using neg by simp
qed

text \<open>
  The extension happens before the negation, so the most negative value of a signed type comes
  out with the wrong sign unless the type has the full 128 bits.
\<close>

definition get_result :: "nat \<Rightarrow> bool \<Rightarrow> int \<Rightarrow> int" where
  "get_result prec uns v = (if v < 0 then dwrap uns (- ext_val uns prec \<bar>v\<bar>) else ext_val uns prec v)"

lemma dval_of_udval: "udval l h = x \<Longrightarrow> dval uns l h = dwrap uns x"
  using udval_range [of l h] by (intro dval_dwrap) simp

lemma mpz_get_double_int_val:
  assumes gmp: "gmp_spec gmp zval" and prec: "0 < prec" "prec \<le> 128"
    and v: "v = (if wrap then zval z else max (zval lo) (min (zval z) (zval hi)))" "zval lo \<le> zval hi"
    and fits: "\<bar>v\<bar> < 2 ^ 128"
  shows "\<exists>r. mpz_get_double_int gmp (lo, hi) (prec, uns) z wrap = Inr r \<and> dival uns r = get_result prec uns v"
proof -
  define z' where "z' = (if wrap then z else if mpz_cmp gmp z lo < 0 then lo else if mpz_cmp gmp z hi > 0 then hi else z)"
  have z': "zval z' = v" using gmp v by (auto simp: z'_def gmp_spec_def max_def min_def)
  note e = gmp_export_words [OF gmp, of z', unfolded z', OF fits]
  define d where "d = \<lparr>di_low = (mpz_export gmp z' @ [0, 0]) ! 0, di_high = (mpz_export gmp z' @ [0, 0]) ! 1\<rparr>"
  have d: "dival uns d = dwrap uns \<bar>v\<bar>" using dval_of_udval [OF e(2)] by (simp add: d_def dival_def)
  obtain r where r: "double_int_ext d prec uns = Inr r" "dival uns r = ext_val uns prec \<bar>v\<bar>"
    using double_int_ext_val [OF prec, of d uns] d ext_val_dwrap [OF prec] by auto
  have sgn: "mpz_sgn gmp z' < 0 \<longleftrightarrow> v < 0" using gmp z' by (auto simp: gmp_spec_def)
  have "mpz_get_double_int gmp (lo, hi) (prec, uns) z wrap = Inr (if v < 0 then double_int_neg r else r)"
    unfolding mpz_get_double_int_def Let_def fst_conv snd_conv z'_def [symmetric] d_def [symmetric]
    using e(1) r(1) sgn by simp
  then show ?thesis using r(2) by (simp add: get_result_def double_int_neg_mod)
qed

lemma get_result_exact:
  assumes "0 < prec" "prec \<le> 128" "if uns then 0 \<le> v \<and> v < 2 ^ prec else - (2 ^ (prec - 1)) < v \<and> v < 2 ^ (prec - 1)"
  shows "get_result prec uns v = v"
proof (cases uns)
  case True
  then show ?thesis using assms by (simp add: get_result_def ext_val_def take_bit_int_eq_self)
next
  case False
  have "(2 :: int) ^ (prec - 1) \<le> 2 ^ 127" using assms(2) by (intro power_increasing) simp_all
  then have "fits_sdval v" using False assms(3) by (simp add: fits_sdval_def)
  then show ?thesis
    using False assms by (auto simp: get_result_def ext_val_def signed_take_bit_int_eq_self dwrap_def fits_iff_signed_take_bit)
qed

lemma get_result_min:
  assumes "0 < prec" "prec < 128"
  shows "get_result prec False (- (2 ^ (prec - 1))) = 2 ^ (prec - 1)"
proof -
  have s: "signed_take_bit (prec - 1) ((2 :: int) ^ (prec - 1)) = - (2 ^ (prec - 1))"
    by (simp add: signed_take_bit_eq_take_bit_minus bit_exp_iff take_bit_int_eq_self)
  have small: "fits_sdval x" if "0 \<le> x" "x \<le> 2 ^ 126" for x using that by (simp add: fits_sdval_def)
  have "fits_sdval (2 ^ (prec - 1))" using assms(2) by (intro small power_increasing) simp_all
  with s show ?thesis by (simp add: get_result_def ext_val_def dwrap_def fits_iff_signed_take_bit)
qed


text \<open>An implementation of the GMP functions on \<open>int\<close>.\<close>

fun nat_words :: "nat \<Rightarrow> hwi list" where
  "nat_words n = (if n = 0 then [] else word_of_nat n # nat_words (n div 2 ^ 64))"

fun nat_size2 :: "nat \<Rightarrow> nat" where
  "nat_size2 n = (if n < 2 then 1 else Suc (nat_size2 (n div 2)))"

declare nat_words.simps [simp del] nat_size2.simps [simp del]

definition int_gmp :: "int mpz_ops" where
  "int_gmp = \<lparr>mpz_import = words_val, mpz_export = \<lambda>z. nat_words (nat \<bar>z\<bar>), mpz_neg = uminus,
     mpz_cmp = \<lambda>a b. sgn (a - b), mpz_sgn = sgn, mpz_sizeinbase2 = \<lambda>z. nat_size2 (nat \<bar>z\<bar>)\<rparr>"

lemma nat_words_val: "words_val (nat_words n) = int n"
proof (induction n rule: nat_words.induct)
  case (1 n)
  show ?case
  proof (cases "n = 0")
    case False
    then have "words_val (nat_words n) = int (n mod 2 ^ 64) + 2 ^ 64 * int (n div 2 ^ 64)"
      using 1 by (simp add: nat_words.simps [of n] unsigned_of_nat take_bit_eq_mod zmod_int)
    also have "\<dots> = int (n mod 2 ^ 64 + 2 ^ 64 * (n div 2 ^ 64))"
      by (simp only: of_nat_add of_nat_mult of_nat_power of_nat_numeral)
    also have "\<dots> = int n" by (simp only: mod_mult_div_eq)
    finally show ?thesis .
  qed (simp add: nat_words.simps)
qed

lemma nat_words_last: "nat_words n \<noteq> [] \<Longrightarrow> last (nat_words n) \<noteq> 0"
proof (induction n rule: nat_words.induct)
  case (1 n)
  have n: "n \<noteq> 0" using "1.prems" by (cases "n = 0") (simp_all add: nat_words.simps)
  show ?case
  proof (cases "nat_words (n div 2 ^ 64) = []")
    case True
    then have "n div 2 ^ 64 = 0" using nat_words_val [of "n div 2 ^ 64"] by simp
    then have "n < 2 ^ 64" by (simp add: div_eq_0_iff)
    then have "unat (word_of_nat n :: hwi) = n" by (simp add: unsigned_of_nat take_bit_nat_eq_self)
    then have "(word_of_nat n :: hwi) \<noteq> 0" using n by auto
    with True n show ?thesis by (simp add: nat_words.simps [of n])
  next
    case False
    with 1 n show ?thesis by (simp add: nat_words.simps [of n])
  qed
qed

lemma nat_size2_bound: "n < 2 ^ nat_size2 n"
proof (induction n rule: nat_size2.induct)
  case (1 n)
  show ?case
  proof (cases "n < 2")
    case False
    then have "n div 2 < 2 ^ nat_size2 (n div 2)" by (rule 1)
    then have "n < 2 * 2 ^ nat_size2 (n div 2)" by linarith
    with False show ?thesis by (simp add: nat_size2.simps [of n])
  qed (simp add: nat_size2.simps)
qed

lemma int_gmp_spec: "gmp_spec int_gmp (\<lambda>z. z)"
proof -
  have "\<bar>z\<bar> < 2 ^ nat_size2 (nat \<bar>z\<bar>)" for z :: int
    using nat_size2_bound [of "nat \<bar>z\<bar>"] by (simp add: nat_less_iff)
  moreover have "words_val (nat_words (nat \<bar>z\<bar>)) = \<bar>z\<bar>" for z :: int by (simp add: nat_words_val)
  ultimately show ?thesis using nat_words_last by (auto simp: gmp_spec_def int_gmp_def sgn_if)
qed

section \<open>Properties\<close>

text \<open>C20: extension to a precision keeps the value modulo \<open>2 ^ prec\<close> in the range of its
  signedness, and the arithmetic is modulo \<open>2 ^ prec\<close>, as the header promises: extending the
  operands before an addition or a multiplication does not change the extended result.\<close>

theorem double_int_modular:
  assumes "0 < prec" "prec \<le> 128"
  shows "\<exists>ea eb. double_int_ext a prec uns = Inr ea \<and> double_int_ext b prec uns = Inr eb
    \<and> dival uns ea = ext_val uns prec (dival uns a)
    \<and> double_int_ext (double_int_add ea eb) prec uns = double_int_ext (double_int_add a b) prec uns
    \<and> double_int_ext (double_int_mul ea eb) prec uns = double_int_ext (double_int_mul a b) prec uns"
proof -
  note ext = double_int_ext_val [OF assms, of _ uns]
  have same: "double_int_ext x prec uns = double_int_ext y prec uns"
    if e: "ext_val uns prec (dival uns x) = ext_val uns prec (dival uns y)" for x y
  proof -
    obtain u v where "double_int_ext x prec uns = Inr u" "double_int_ext y prec uns = Inr v" "dival uns u = dival uns v"
      using ext [of x] ext [of y] e by auto
    then show ?thesis by (simp add: dival_inj)
  qed
  obtain ea eb where e: "double_int_ext a prec uns = Inr ea" "dival uns ea = ext_val uns prec (dival uns a)"
    "double_int_ext b prec uns = Inr eb" "dival uns eb = ext_val uns prec (dival uns b)"
    using ext [of a] ext [of b] by blast
  have "double_int_ext (double_int_add ea eb) prec uns = double_int_ext (double_int_add a b) prec uns"
    "double_int_ext (double_int_mul ea eb) prec uns = double_int_ext (double_int_mul a b) prec uns"
    using assms by (intro same; simp add: double_int_add_mod double_int_mul_mod ext_val_dwrap e ext_val_add ext_val_mult)+
  with e show ?thesis by blast
qed

theorem double_int_modular_witness:
  "\<exists>ea eb. double_int_ext \<lparr>di_low = 200, di_high = 0\<rparr> 8 False = Inr ea
    \<and> double_int_ext \<lparr>di_low = 3, di_high = 0\<rparr> 8 False = Inr eb \<and> dival False ea = - 56"
proof -
  have "dival False \<lparr>di_low = 200, di_high = 0\<rparr> = 200" by (simp add: dival_def dval_def sdval_def)
  moreover have "ext_val False 8 200 = - 56" by (simp add: ext_val_def signed_take_bit_eq_take_bit_minus take_bit_eq_mod bit_iff_odd)
  ultimately show ?thesis
    using double_int_modular [of 8 "\<lparr>di_low = 200, di_high = 0\<rparr>" False "\<lparr>di_low = 3, di_high = 0\<rparr>"] by auto
qed

text \<open>the three-way comparisons order the values of either signedness, a \<open>double_int\<close> fits
  a host integer exactly when its value does, and then the conversions are inverse to each other.\<close>

theorem double_int_order:
  "double_int_cmp a b uns = sgn (dival uns a - dival uns b)
   \<and> (double_int_fits_in_shwi_p a \<longleftrightarrow> - (2 ^ 63) \<le> dival False a \<and> dival False a < 2 ^ 63)
   \<and> (if double_int_fits_in_shwi_p a then shwi_to_double_int (double_int_to_shwi a) = a else True)
   \<and> double_int_to_shwi (shwi_to_double_int x) = x \<and> dival False (shwi_to_double_int x) = sint x"
  using double_int_cmp_val [of a b uns] double_int_fits_shwi_val [of a] shwi_round_trip(2,3) [of x] shwi_round_trip(4) [of a]
  by (auto simp: sgn_if)

text \<open>C21: \<open>dump_double_int\<close> prints the decimal numeral of the value, with a minus sign when it is
  negative, and never leaves its digit buffer.\<close>

theorem dump_double_int_decimal:
  "dump_double_int cst uns =
     Inr ((if dival uns cst < 0 then ''-'' else []) @ dec_string (nat \<bar>dival uns cst\<bar>))"
  by (rule dump_double_int_correct)

text \<open>C39: conversion to a GMP integer keeps the value; conversion back, clamped to the type's
  bounds, gives the value again whenever it lies strictly inside a signed type's range or in an
  unsigned type's range. The most negative value of a signed type below 128 bits comes back as its
  negation, because the extension precedes the negation.\<close>

theorem mpz_double_int_conversions:
  assumes "gmp_spec gmp zval" "0 < prec" "prec < 128" "zval lo \<le> zval z" "zval z \<le> zval hi"
    and "if uns then 0 \<le> zval z \<and> zval z < 2 ^ prec
         else - (2 ^ (prec - 1)) \<le> zval z \<and> zval z < 2 ^ (prec - 1)"
  shows "zval (mpz_set_double_int gmp a uns) = dival uns a
    \<and> (\<exists>r. mpz_get_double_int gmp (lo, hi) (prec, uns) z False = Inr r
        \<and> dival uns r = (if \<not> uns \<and> zval z = - (2 ^ (prec - 1)) then 2 ^ (prec - 1) else zval z))"
proof -
  have p: "(2 :: int) ^ prec \<le> 2 ^ 127" "(2 :: int) ^ (prec - 1) \<le> 2 ^ 127"
    using assms(3) by (intro power_increasing; simp)+
  then have "\<bar>zval z\<bar> < 2 ^ 128" using assms(6) by (cases uns) auto
  then obtain r where r: "mpz_get_double_int gmp (lo, hi) (prec, uns) z False = Inr r"
      "dival uns r = get_result prec uns (zval z)"
    using mpz_get_double_int_val [OF assms(1,2), of "zval z" False z lo hi uns] assms(3-5) by auto
  moreover have "get_result prec uns (zval z) = (if \<not> uns \<and> zval z = - (2 ^ (prec - 1)) then 2 ^ (prec - 1) else zval z)"
    using get_result_exact [of prec uns "zval z"] get_result_min [of prec] assms(2,3,6) by (cases uns) auto
  ultimately show ?thesis using mpz_set_double_int_val [OF assms(1)] by simp
qed

theorem mpz_double_int_conversions_witness:
  "\<exists>r. mpz_get_double_int int_gmp (- 128, 127) (8, False) (- 128) False = Inr r \<and> dival False r = 128"
  using mpz_double_int_conversions [OF int_gmp_spec, of 8 "- 128" "- 128" 127 False] by simp

end
