(* ===== verification/Comparison_Codes.thy ===== *)
theory Comparison_Codes
  imports Tree_Code
begin

text \<open>
  The algebra of comparison codes in \<open>src/gcc/fold-const.c\<close>: inversion, operand swap, the
  four-bit encoding and \<open>combine_comparisons\<close>, which merges two comparisons of the same
  operands under a logical connective. \<open>flag_trapping_math\<close> and whether the mode honours NaNs are
  arguments. A comparison's meaning is given on the four possible relations of two operands.
\<close>

section \<open>Definitions\<close>

datatype comparison_code =
    COMPCODE_FALSE
  | COMPCODE_LT
  | COMPCODE_EQ
  | COMPCODE_LE
  | COMPCODE_GT
  | COMPCODE_LTGT
  | COMPCODE_GE
  | COMPCODE_ORD
  | COMPCODE_UNORD
  | COMPCODE_UNLT
  | COMPCODE_UNEQ
  | COMPCODE_UNLE
  | COMPCODE_UNGT
  | COMPCODE_NE
  | COMPCODE_UNGE
  | COMPCODE_TRUE

text \<open>The values of the C enumeration, and back.\<close>

fun compcode_nat :: "comparison_code \<Rightarrow> nat" where
  "compcode_nat COMPCODE_FALSE = 0"
| "compcode_nat COMPCODE_LT = 1"
| "compcode_nat COMPCODE_EQ = 2"
| "compcode_nat COMPCODE_LE = 3"
| "compcode_nat COMPCODE_GT = 4"
| "compcode_nat COMPCODE_LTGT = 5"
| "compcode_nat COMPCODE_GE = 6"
| "compcode_nat COMPCODE_ORD = 7"
| "compcode_nat COMPCODE_UNORD = 8"
| "compcode_nat COMPCODE_UNLT = 9"
| "compcode_nat COMPCODE_UNEQ = 10"
| "compcode_nat COMPCODE_UNLE = 11"
| "compcode_nat COMPCODE_UNGT = 12"
| "compcode_nat COMPCODE_NE = 13"
| "compcode_nat COMPCODE_UNGE = 14"
| "compcode_nat COMPCODE_TRUE = 15"

definition compcode_of_nat :: "nat \<Rightarrow> comparison_code" where
  "compcode_of_nat n =
     [COMPCODE_FALSE, COMPCODE_LT, COMPCODE_EQ, COMPCODE_LE, COMPCODE_GT, COMPCODE_LTGT,
      COMPCODE_GE, COMPCODE_ORD, COMPCODE_UNORD, COMPCODE_UNLT, COMPCODE_UNEQ, COMPCODE_UNLE,
      COMPCODE_UNGT, COMPCODE_NE, COMPCODE_UNGE, COMPCODE_TRUE] ! n"

text \<open>The operators \<open>&\<close> and \<open>|\<close> on the enumeration, and \<open>& ~COMPCODE_UNORD\<close>.\<close>

definition compcode_and :: "comparison_code \<Rightarrow> comparison_code \<Rightarrow> comparison_code" where
  "compcode_and a b = compcode_of_nat (compcode_nat a AND compcode_nat b)"

definition compcode_or :: "comparison_code \<Rightarrow> comparison_code \<Rightarrow> comparison_code" where
  "compcode_or a b = compcode_of_nat (compcode_nat a OR compcode_nat b)"

definition compcode_clear_unord :: "comparison_code \<Rightarrow> comparison_code" where
  "compcode_clear_unord a = compcode_of_nat (compcode_nat a mod 8)"

fun invert_tree_comparison :: "bool \<Rightarrow> tree_code \<Rightarrow> bool \<Rightarrow> tree_code outcome" where
  "invert_tree_comparison flag_trapping_math code honor_nans =
     (if honor_nans \<and> flag_trapping_math then Inr ERROR_MARK
      else case code of
        EQ_EXPR \<Rightarrow> Inr NE_EXPR
      | NE_EXPR \<Rightarrow> Inr EQ_EXPR
      | GT_EXPR \<Rightarrow> Inr (if honor_nans then UNLE_EXPR else LE_EXPR)
      | GE_EXPR \<Rightarrow> Inr (if honor_nans then UNLT_EXPR else LT_EXPR)
      | LT_EXPR \<Rightarrow> Inr (if honor_nans then UNGE_EXPR else GE_EXPR)
      | LE_EXPR \<Rightarrow> Inr (if honor_nans then UNGT_EXPR else GT_EXPR)
      | LTGT_EXPR \<Rightarrow> Inr UNEQ_EXPR
      | UNEQ_EXPR \<Rightarrow> Inr LTGT_EXPR
      | UNGT_EXPR \<Rightarrow> Inr LE_EXPR
      | UNGE_EXPR \<Rightarrow> Inr LT_EXPR
      | UNLT_EXPR \<Rightarrow> Inr GE_EXPR
      | UNLE_EXPR \<Rightarrow> Inr GT_EXPR
      | ORDERED_EXPR \<Rightarrow> Inr UNORDERED_EXPR
      | UNORDERED_EXPR \<Rightarrow> Inr ORDERED_EXPR
      | _ \<Rightarrow> Inl Ice)"

fun swap_tree_comparison :: "tree_code \<Rightarrow> tree_code outcome" where
  "swap_tree_comparison code =
     (case code of
        EQ_EXPR \<Rightarrow> Inr code | NE_EXPR \<Rightarrow> Inr code | ORDERED_EXPR \<Rightarrow> Inr code
      | UNORDERED_EXPR \<Rightarrow> Inr code | LTGT_EXPR \<Rightarrow> Inr code | UNEQ_EXPR \<Rightarrow> Inr code
      | GT_EXPR \<Rightarrow> Inr LT_EXPR
      | GE_EXPR \<Rightarrow> Inr LE_EXPR
      | LT_EXPR \<Rightarrow> Inr GT_EXPR
      | LE_EXPR \<Rightarrow> Inr GE_EXPR
      | UNGT_EXPR \<Rightarrow> Inr UNLT_EXPR
      | UNGE_EXPR \<Rightarrow> Inr UNLE_EXPR
      | UNLT_EXPR \<Rightarrow> Inr UNGT_EXPR
      | UNLE_EXPR \<Rightarrow> Inr UNGE_EXPR
      | _ \<Rightarrow> Inl Ice)"

fun comparison_to_compcode :: "tree_code \<Rightarrow> comparison_code outcome" where
  "comparison_to_compcode code =
     (case code of
        LT_EXPR \<Rightarrow> Inr COMPCODE_LT
      | EQ_EXPR \<Rightarrow> Inr COMPCODE_EQ
      | LE_EXPR \<Rightarrow> Inr COMPCODE_LE
      | GT_EXPR \<Rightarrow> Inr COMPCODE_GT
      | NE_EXPR \<Rightarrow> Inr COMPCODE_NE
      | GE_EXPR \<Rightarrow> Inr COMPCODE_GE
      | ORDERED_EXPR \<Rightarrow> Inr COMPCODE_ORD
      | UNORDERED_EXPR \<Rightarrow> Inr COMPCODE_UNORD
      | UNLT_EXPR \<Rightarrow> Inr COMPCODE_UNLT
      | UNEQ_EXPR \<Rightarrow> Inr COMPCODE_UNEQ
      | UNLE_EXPR \<Rightarrow> Inr COMPCODE_UNLE
      | UNGT_EXPR \<Rightarrow> Inr COMPCODE_UNGT
      | LTGT_EXPR \<Rightarrow> Inr COMPCODE_LTGT
      | UNGE_EXPR \<Rightarrow> Inr COMPCODE_UNGE
      | _ \<Rightarrow> Inl Ice)"

fun compcode_to_comparison :: "comparison_code \<Rightarrow> tree_code outcome" where
  "compcode_to_comparison code =
     (case code of
        COMPCODE_LT \<Rightarrow> Inr LT_EXPR
      | COMPCODE_EQ \<Rightarrow> Inr EQ_EXPR
      | COMPCODE_LE \<Rightarrow> Inr LE_EXPR
      | COMPCODE_GT \<Rightarrow> Inr GT_EXPR
      | COMPCODE_NE \<Rightarrow> Inr NE_EXPR
      | COMPCODE_GE \<Rightarrow> Inr GE_EXPR
      | COMPCODE_ORD \<Rightarrow> Inr ORDERED_EXPR
      | COMPCODE_UNORD \<Rightarrow> Inr UNORDERED_EXPR
      | COMPCODE_UNLT \<Rightarrow> Inr UNLT_EXPR
      | COMPCODE_UNEQ \<Rightarrow> Inr UNEQ_EXPR
      | COMPCODE_UNLE \<Rightarrow> Inr UNLE_EXPR
      | COMPCODE_UNGT \<Rightarrow> Inr UNGT_EXPR
      | COMPCODE_LTGT \<Rightarrow> Inr LTGT_EXPR
      | COMPCODE_UNGE \<Rightarrow> Inr UNGE_EXPR
      | _ \<Rightarrow> Inl Ice)"

text \<open>
  The tree \<open>combine_comparisons\<close> returns: a constant, or the comparison it hands to
  \<open>fold_build2\<close> on the two operands it was given.
\<close>

datatype comparison_tree = Boolean_node bool | Comparison tree_code

definition may_trap :: "comparison_code \<Rightarrow> bool" where
  "may_trap c \<longleftrightarrow> compcode_and c COMPCODE_UNORD = COMPCODE_FALSE \<and> c \<noteq> COMPCODE_EQ \<and> c \<noteq> COMPCODE_ORD"

definition combine_compcode :: "tree_code \<Rightarrow> comparison_code \<Rightarrow> comparison_code \<Rightarrow> comparison_code option" where
  "combine_compcode code l r =
     (if code \<in> {TRUTH_AND_EXPR, TRUTH_ANDIF_EXPR} then Some (compcode_and l r)
      else if code \<in> {TRUTH_OR_EXPR, TRUTH_ORIF_EXPR} then Some (compcode_or l r)
      else None)"

text \<open>The checks on NaNs and traps: \<open>None\<close> when the transformation is refused.\<close>

definition adjust_compcode ::
    "bool \<Rightarrow> bool \<Rightarrow> tree_code \<Rightarrow> comparison_code \<Rightarrow> comparison_code \<Rightarrow> comparison_code \<Rightarrow> comparison_code option" where
  "adjust_compcode flag_trapping_math honor_nans code lcompcode rcompcode compcode =
     (if \<not> honor_nans then
        (let compcode = compcode_clear_unord compcode
         in Some (if compcode = COMPCODE_LTGT then COMPCODE_NE
                  else if compcode = COMPCODE_ORD then COMPCODE_TRUE
                  else compcode))
      else if flag_trapping_math then
        (let ltrap = may_trap lcompcode;
             trap = may_trap compcode;
             l_unord = compcode_and lcompcode COMPCODE_UNORD \<noteq> COMPCODE_FALSE;
             rtrap = (if code = TRUTH_ORIF_EXPR \<and> l_unord \<or> code = TRUTH_ANDIF_EXPR \<and> \<not> l_unord
                      then False else may_trap rcompcode)
         in if rtrap \<and> \<not> ltrap \<and> (code = TRUTH_ANDIF_EXPR \<or> code = TRUTH_ORIF_EXPR) then None
            else if (ltrap \<or> rtrap) \<noteq> trap then None
            else Some compcode)
      else Some compcode)"

definition combine_comparisons ::
    "bool \<Rightarrow> bool \<Rightarrow> tree_code \<Rightarrow> tree_code \<Rightarrow> tree_code \<Rightarrow> (comparison_tree option) outcome" where
  "combine_comparisons flag_trapping_math honor_nans code lcode rcode =
     (case comparison_to_compcode lcode of Inl e \<Rightarrow> Inl e | Inr lcompcode \<Rightarrow>
      (case comparison_to_compcode rcode of Inl e \<Rightarrow> Inl e | Inr rcompcode \<Rightarrow>
      (case combine_compcode code lcompcode rcompcode of None \<Rightarrow> Inr None | Some compcode \<Rightarrow>
      (case adjust_compcode flag_trapping_math honor_nans code lcompcode rcompcode compcode of
         None \<Rightarrow> Inr None
       | Some compcode \<Rightarrow>
           (if compcode = COMPCODE_TRUE then Inr (Some (Boolean_node True))
            else if compcode = COMPCODE_FALSE then Inr (Some (Boolean_node False))
            else (case compcode_to_comparison compcode of
                    Inl e \<Rightarrow> Inl e
                  | Inr c \<Rightarrow> Inr (Some (Comparison c))))))))"


section \<open>Meaning\<close>

text \<open>How two operands may compare; the position of the relation in the four-bit encoding.\<close>

datatype relation4 = Less | Equal | Greater | Unordered

fun relation_bit :: "relation4 \<Rightarrow> nat" where
  "relation_bit Less = 0"
| "relation_bit Equal = 1"
| "relation_bit Greater = 2"
| "relation_bit Unordered = 3"

fun flip_relation :: "relation4 \<Rightarrow> relation4" where
  "flip_relation Less = Greater"
| "flip_relation Greater = Less"
| "flip_relation r = r"

fun holds :: "tree_code \<Rightarrow> relation4 \<Rightarrow> bool" where
  "holds LT_EXPR r \<longleftrightarrow> r = Less"
| "holds LE_EXPR r \<longleftrightarrow> r = Less \<or> r = Equal"
| "holds GT_EXPR r \<longleftrightarrow> r = Greater"
| "holds GE_EXPR r \<longleftrightarrow> r = Greater \<or> r = Equal"
| "holds EQ_EXPR r \<longleftrightarrow> r = Equal"
| "holds NE_EXPR r \<longleftrightarrow> r \<noteq> Equal"
| "holds LTGT_EXPR r \<longleftrightarrow> r = Less \<or> r = Greater"
| "holds ORDERED_EXPR r \<longleftrightarrow> r \<noteq> Unordered"
| "holds UNORDERED_EXPR r \<longleftrightarrow> r = Unordered"
| "holds UNLT_EXPR r \<longleftrightarrow> r = Less \<or> r = Unordered"
| "holds UNLE_EXPR r \<longleftrightarrow> r \<noteq> Greater"
| "holds UNGT_EXPR r \<longleftrightarrow> r = Greater \<or> r = Unordered"
| "holds UNGE_EXPR r \<longleftrightarrow> r \<noteq> Less"
| "holds UNEQ_EXPR r \<longleftrightarrow> r = Equal \<or> r = Unordered"
| "holds _ r \<longleftrightarrow> False"

definition is_comparison :: "tree_code \<Rightarrow> bool" where
  "is_comparison code \<longleftrightarrow> comparison_to_compcode code \<noteq> Inl Ice"

text \<open>The comparisons that signal an exception on a quiet NaN.\<close>

definition traps :: "tree_code \<Rightarrow> relation4 \<Rightarrow> bool" where
  "traps code r \<longleftrightarrow> r = Unordered \<and> code \<in> {LT_EXPR, LE_EXPR, GT_EXPR, GE_EXPR, LTGT_EXPR}"

fun tree_holds :: "comparison_tree \<Rightarrow> relation4 \<Rightarrow> bool" where
  "tree_holds (Boolean_node b) r = b"
| "tree_holds (Comparison c) r = holds c r"

fun tree_traps :: "comparison_tree \<Rightarrow> relation4 \<Rightarrow> bool" where
  "tree_traps (Boolean_node b) r = False"
| "tree_traps (Comparison c) r = traps c r"

text \<open>Value and traps of the logical expression over the two comparisons, which may short-circuit.\<close>

definition logical :: "tree_code \<Rightarrow> bool \<Rightarrow> bool \<Rightarrow> bool" where
  "logical code a b = (if code \<in> {TRUTH_AND_EXPR, TRUTH_ANDIF_EXPR} then a \<and> b else a \<or> b)"

definition rhs_evaluated :: "tree_code \<Rightarrow> tree_code \<Rightarrow> relation4 \<Rightarrow> bool" where
  "rhs_evaluated code lcode r \<longleftrightarrow>
     (if code = TRUTH_ANDIF_EXPR then holds lcode r
      else if code = TRUTH_ORIF_EXPR then \<not> holds lcode r
      else True)"

section \<open>Lemmas\<close>

definition compcode_holds :: "comparison_code \<Rightarrow> relation4 \<Rightarrow> bool" where
  "compcode_holds c r \<longleftrightarrow> bit (compcode_nat c) (relation_bit r)"

lemma compcode_nat_less: "compcode_nat c < 16"
  by (cases c) simp_all

lemma compcode_nat_of_nat:
  assumes "n < 16"
  shows "compcode_nat (compcode_of_nat n) = n"
proof -
  have "\<forall>n \<in> {..<16}. compcode_nat (compcode_of_nat n) = n"
    by (simp add: compcode_of_nat_def lessThan_nat_numeral lessThan_Suc)
  with assms show ?thesis by simp
qed

lemma relation_bit_less: "relation_bit r < 4"
  by (cases r) simp_all

lemma small_bitop: "m AND n < (16 :: nat)" "m OR n < (16 :: nat)" if "m < 16" "n < 16"
proof -
  have 16: "x < 16 \<longleftrightarrow> take_bit 4 x = x" for x :: nat by (simp add: take_bit_nat_eq_self_iff)
  show "m AND n < 16" "m OR n < 16" using that by (simp_all add: 16 take_bit_and take_bit_or)
qed

lemma compcode_ops_hold:
  "compcode_holds (compcode_and a b) r \<longleftrightarrow> compcode_holds a r \<and> compcode_holds b r"
  "compcode_holds (compcode_or a b) r \<longleftrightarrow> compcode_holds a r \<or> compcode_holds b r"
  "compcode_holds (compcode_clear_unord a) r \<longleftrightarrow> compcode_holds a r \<and> r \<noteq> Unordered"
proof -
  show "compcode_holds (compcode_and a b) r \<longleftrightarrow> compcode_holds a r \<and> compcode_holds b r"
    "compcode_holds (compcode_or a b) r \<longleftrightarrow> compcode_holds a r \<or> compcode_holds b r"
    by (simp_all add: compcode_holds_def compcode_and_def compcode_or_def compcode_nat_of_nat
        small_bitop compcode_nat_less bit_and_iff bit_or_iff)
  have "compcode_nat a mod 8 = take_bit 3 (compcode_nat a)" by (simp add: take_bit_eq_mod)
  moreover have "relation_bit r < 3 \<longleftrightarrow> r \<noteq> Unordered" by (cases r) simp_all
  ultimately show "compcode_holds (compcode_clear_unord a) r \<longleftrightarrow> compcode_holds a r \<and> r \<noteq> Unordered"
    using compcode_nat_of_nat [of "compcode_nat a mod 8"]
    by (auto simp: compcode_holds_def compcode_clear_unord_def bit_take_bit_iff)
qed

lemma compcode_eqI:
  assumes "\<And>r. compcode_holds a r = compcode_holds b r"
  shows "a = b"
  using assms [of Less] assms [of Equal] assms [of Greater] assms [of Unordered]
  by (cases a; cases b) (simp_all add: compcode_holds_def)

lemma comparison_to_compcode_holds:
  assumes "comparison_to_compcode code = Inr c"
  shows "compcode_holds c r = holds code r"
  using assms by (cases code; cases r) (auto simp: compcode_holds_def)

lemma compcode_to_comparison_holds:
  assumes "compcode_to_comparison c = Inr code"
  shows "holds code r = compcode_holds c r"
  using assms by (cases c; cases r) (auto simp: compcode_holds_def)

lemma may_trap_iff:
  assumes "comparison_to_compcode code = Inr c"
  shows "may_trap c \<longleftrightarrow> traps code Unordered"
  using assms
  by (cases code) (auto simp: may_trap_def traps_def compcode_and_def compcode_of_nat_def)

lemma compcode_round_trip:
  "comparison_to_compcode code = Inr c \<Longrightarrow> compcode_to_comparison c = Inr code"
  by (cases code) auto

lemma compcode_to_comparison_Inr:
  "c \<noteq> COMPCODE_TRUE \<Longrightarrow> c \<noteq> COMPCODE_FALSE \<Longrightarrow>
   \<exists>code. compcode_to_comparison c = Inr code \<and> comparison_to_compcode code = Inr c"
  by (cases c) simp_all

lemma combine_compcode_holds:
  assumes "combine_compcode code l r = Some c"
  shows "compcode_holds c rel = logical code (compcode_holds l rel) (compcode_holds r rel)"
  using assms by (auto simp: combine_compcode_def logical_def compcode_ops_hold split: if_splits)

text \<open>With NaNs ignored the result keeps its value on the ordered relations.\<close>

lemma adjust_compcode_holds:
  assumes "adjust_compcode tr hn code l r c = Some c'" "hn \<or> rel \<noteq> Unordered"
  shows "compcode_holds c' rel = compcode_holds c rel"
proof (cases hn)
  case True
  then show ?thesis using assms by (auto simp: adjust_compcode_def Let_def split: if_splits)
next
  case False
  then have rel: "rel \<noteq> Unordered" using assms(2) by simp
  then have "compcode_holds COMPCODE_NE rel = compcode_holds COMPCODE_LTGT rel"
    "compcode_holds COMPCODE_TRUE rel = compcode_holds COMPCODE_ORD rel"
    by (cases rel; simp add: compcode_holds_def)+
  then have "compcode_holds c' rel = compcode_holds (compcode_clear_unord c) rel"
    using False assms(1) by (auto simp: adjust_compcode_def Let_def split: if_splits)
  then show ?thesis using rel by (simp add: compcode_ops_hold)
qed

lemma compcode_tree:
  assumes "c = COMPCODE_TRUE \<and> t = Boolean_node True \<or> c = COMPCODE_FALSE \<and> t = Boolean_node False
    \<or> (\<exists>code. compcode_to_comparison c = Inr code \<and> t = Comparison code)"
  shows "tree_holds t rel = compcode_holds c rel"
  using assms
proof (elim disjE exE conjE)
  show "tree_holds t rel = compcode_holds c rel" if "c = COMPCODE_TRUE" "t = Boolean_node True"
    using that by (cases rel) (simp_all add: compcode_holds_def)
  show "tree_holds t rel = compcode_holds c rel" if "c = COMPCODE_FALSE" "t = Boolean_node False"
    using that by (simp add: compcode_holds_def)
  show "tree_holds t rel = compcode_holds c rel" if "compcode_to_comparison c = Inr code" "t = Comparison code" for code
    using that compcode_to_comparison_holds by simp
qed

text \<open>A successful combination, taken apart.\<close>

lemma combine_comparisonsE:
  assumes "combine_comparisons tr hn code lcode rcode = Inr (Some t)"
  obtains l r c c' where "comparison_to_compcode lcode = Inr l" "comparison_to_compcode rcode = Inr r"
    "combine_compcode code l r = Some c" "adjust_compcode tr hn code l r c = Some c'"
    "c' = COMPCODE_TRUE \<and> t = Boolean_node True \<or> c' = COMPCODE_FALSE \<and> t = Boolean_node False
      \<or> (\<exists>code. compcode_to_comparison c' = Inr code \<and> t = Comparison code)"
  using assms unfolding combine_comparisons_def
  by (auto split: sum.splits option.splits if_splits simp del: compcode_to_comparison.simps comparison_to_compcode.simps)

lemma combine_comparisons_total:
  assumes "is_comparison lcode" "is_comparison rcode"
  shows "\<exists>t. combine_comparisons tr hn code lcode rcode = Inr t"
proof -
  have "\<exists>l. comparison_to_compcode x = Inr l" if "is_comparison x" for x
    using that by (cases x) (simp_all add: is_comparison_def)
  with assms obtain l r where "comparison_to_compcode lcode = Inr l" "comparison_to_compcode rcode = Inr r" by blast
  moreover have "\<exists>c. compcode_to_comparison x = Inr c" if "x \<noteq> COMPCODE_TRUE" "x \<noteq> COMPCODE_FALSE" for x
    using compcode_to_comparison_Inr [OF that] by blast
  ultimately show ?thesis
    by (auto simp: combine_comparisons_def simp del: compcode_to_comparison.simps comparison_to_compcode.simps
        split: option.splits sum.splits) (metis Inl_Inr_False)
qed

text \<open>Traps: the combined comparison traps on unordered operands exactly when the expression did.\<close>

lemma unord_bit: "compcode_and c COMPCODE_UNORD \<noteq> COMPCODE_FALSE \<longleftrightarrow> compcode_holds c Unordered"
  by (cases c) (simp_all add: compcode_and_def compcode_of_nat_def compcode_holds_def)

lemma combine_traps:
  assumes "combine_comparisons True True code lcode rcode = Inr (Some t)" "t \<noteq> Boolean_node False"
  shows "tree_traps t rel = (traps lcode rel \<or> rhs_evaluated code lcode rel \<and> traps rcode rel)"
proof (cases "rel = Unordered")
  case False
  moreover have "\<not> tree_traps t rel" using False by (cases t) (simp_all add: traps_def)
  ultimately show ?thesis by (simp add: traps_def)
next
  case True
  from assms(1) obtain l r c c' where c: "comparison_to_compcode lcode = Inr l" "comparison_to_compcode rcode = Inr r"
      "combine_compcode code l r = Some c" "adjust_compcode True True code l r c = Some c'"
      "c' = COMPCODE_TRUE \<and> t = Boolean_node True \<or> c' = COMPCODE_FALSE \<and> t = Boolean_node False
        \<or> (\<exists>code. compcode_to_comparison c' = Inr code \<and> t = Comparison code)"
    by (rule combine_comparisonsE)
  have "c' = c" using c(4) by (auto simp: adjust_compcode_def Let_def split: if_splits)
  have t: "tree_traps t Unordered = may_trap c"
    using c(5) assms(2)
  proof (elim disjE exE conjE)
    show "tree_traps t Unordered = may_trap c" if "c' = COMPCODE_TRUE" "t = Boolean_node True"
      using that \<open>c' = c\<close> by (simp add: may_trap_def compcode_and_def compcode_of_nat_def)
    show "tree_traps t Unordered = may_trap c" if "compcode_to_comparison c' = Inr code'" "t = Comparison code'" for code'
    proof -
      have "comparison_to_compcode code' = Inr c" using that(1) \<open>c' = c\<close> by (cases c) auto
      then show ?thesis using may_trap_iff that(2) by simp
    qed
  qed simp
  have codes: "code \<in> {TRUTH_AND_EXPR, TRUTH_ANDIF_EXPR, TRUTH_OR_EXPR, TRUTH_ORIF_EXPR}"
    using c(3) by (auto simp: combine_compcode_def split: if_splits)
  have "may_trap c = (may_trap l \<or> rhs_evaluated code lcode Unordered \<and> may_trap r)"
    using c(4) codes comparison_to_compcode_holds [OF c(1), of Unordered]
    by (auto simp: adjust_compcode_def Let_def rhs_evaluated_def unord_bit split: if_splits)
  then show ?thesis
    using t True may_trap_iff [OF c(1)] may_trap_iff [OF c(2)] by simp
qed


section \<open>Properties\<close>



text \<open>C37: when \<open>combine_comparisons\<close> folds two comparisons of the same operands, the result has
  the value of their conjunction or disjunction on every relation of the operands (the ordered
  ones when NaNs are not honoured).\<close>

theorem combine_comparisons_value:
  assumes "combine_comparisons trapping honor_nans code lcode rcode = Inr (Some t)"
    and "honor_nans \<or> r \<noteq> Unordered"
  shows "tree_holds t r = logical code (holds lcode r) (holds rcode r)"
proof -
  from assms(1) obtain l q c c' where c: "comparison_to_compcode lcode = Inr l" "comparison_to_compcode rcode = Inr q"
      "combine_compcode code l q = Some c" "adjust_compcode trapping honor_nans code l q c = Some c'"
      "c' = COMPCODE_TRUE \<and> t = Boolean_node True \<or> c' = COMPCODE_FALSE \<and> t = Boolean_node False
        \<or> (\<exists>code. compcode_to_comparison c' = Inr code \<and> t = Comparison code)"
    by (rule combine_comparisonsE)
  show ?thesis
    by (simp only: compcode_tree [OF c(5)] adjust_compcode_holds [OF c(4) assms(2)]
        combine_compcode_holds [OF c(3)] comparison_to_compcode_holds [OF c(1)] comparison_to_compcode_holds [OF c(2)])
qed

theorem combine_comparisons_value_witness:
  "combine_comparisons False True TRUTH_OR_EXPR LT_EXPR UNORDERED_EXPR = Inr (Some (Comparison UNLT_EXPR))
   \<and> holds UNLT_EXPR Unordered = logical TRUTH_OR_EXPR (holds LT_EXPR Unordered) (holds UNORDERED_EXPR Unordered)"
proof -
  have "combine_comparisons False True TRUTH_OR_EXPR LT_EXPR UNORDERED_EXPR = Inr (Some (Comparison UNLT_EXPR))"
    by (simp add: combine_comparisons_def combine_compcode_def adjust_compcode_def compcode_or_def compcode_of_nat_def)
  with combine_comparisons_value [OF this, of Unordered] show ?thesis by simp
qed

text \<open>C38: with NaNs honoured and trapping, folding keeps the exceptions: the folded comparison
  traps on the operands exactly when evaluating the original expression, short-circuited or not,
  traps. The only exception is a fold to constant false.\<close>

theorem combine_comparisons_traps:
  assumes "combine_comparisons True True code lcode rcode = Inr (Some t)" "t \<noteq> Boolean_node False"
  shows "tree_traps t r = (traps lcode r \<or> rhs_evaluated code lcode r \<and> traps rcode r)"
  by (rule combine_traps [OF assms])

theorem combine_comparisons_traps_witness:
  "combine_comparisons True True TRUTH_AND_EXPR LE_EXPR GE_EXPR = Inr None
   \<and> tree_traps (Comparison LT_EXPR) Unordered
     = (traps LE_EXPR Unordered \<or> rhs_evaluated TRUTH_AND_EXPR LE_EXPR Unordered \<and> traps NE_EXPR Unordered)
   \<and> combine_comparisons True True TRUTH_AND_EXPR LT_EXPR GT_EXPR = Inr (Some (Boolean_node False))"
proof -
  note defs = combine_comparisons_def combine_compcode_def adjust_compcode_def compcode_and_def
    compcode_of_nat_def may_trap_def Let_def
  have "combine_comparisons True True TRUTH_AND_EXPR LE_EXPR NE_EXPR = Inr (Some (Comparison LT_EXPR))"
    by (simp add: defs)
  from combine_comparisons_traps [OF this, of Unordered] show ?thesis by (simp add: defs)
qed

end
