(* ===== verification/Int_Const.thy ===== *)
theory Int_Const
  imports Double_Int Comparison_Codes
begin

text \<open>
  Folding of integer constants in \<open>src/gcc/fold-const.c\<close>: fitting a two-word value to a type,
  the binary operations of \<open>int_const_binop\<close>, negation, absolute value, complement, relational
  folding and conversion of \<open>INTEGER_CST\<close> nodes. A type is the record of the attributes these
  functions read; a constant is its type, its two words and its overflow flag. The target macros
  \<open>SHIFT_COUNT_TRUNCATED\<close> and \<open>POINTER_SIZE\<close> are the record \<open>target\<close>. \<open>NULL_TREE\<close> is \<open>None\<close>.
\<close>

section \<open>Types and constants\<close>

datatype type_code = INTEGER_TYPE | POINTER_TYPE | REFERENCE_TYPE | OFFSET_TYPE | OTHER_TYPE

record tree_type =
  TREE_CODE :: type_code
  TYPE_PRECISION :: nat
  TYPE_UNSIGNED :: bool
  TYPE_IS_SIZETYPE :: bool
  TYPE_MODE :: nat

record int_cst =
  TREE_TYPE :: tree_type
  TREE_INT_CST_LOW :: hwi
  TREE_INT_CST_HIGH :: hwi
  TREE_OVERFLOW :: bool

record target =
  SHIFT_COUNT_TRUNCATED :: bool
  POINTER_SIZE :: nat

abbreviation POINTER_TYPE_P :: "tree_type \<Rightarrow> bool" where
  "POINTER_TYPE_P type \<equiv> TREE_CODE type \<in> {POINTER_TYPE, REFERENCE_TYPE}"

abbreviation is_sizetype :: "tree_type \<Rightarrow> bool" where
  "is_sizetype type \<equiv> TREE_CODE type = INTEGER_TYPE \<and> TYPE_IS_SIZETYPE type"

definition INT_CST_LT :: "int_cst \<Rightarrow> int_cst \<Rightarrow> bool" where
  "INT_CST_LT A B \<longleftrightarrow>
     sint (TREE_INT_CST_HIGH A) < sint (TREE_INT_CST_HIGH B)
     \<or> TREE_INT_CST_HIGH A = TREE_INT_CST_HIGH B \<and> TREE_INT_CST_LOW A < TREE_INT_CST_LOW B"

definition INT_CST_LT_UNSIGNED :: "int_cst \<Rightarrow> int_cst \<Rightarrow> bool" where
  "INT_CST_LT_UNSIGNED A B \<longleftrightarrow>
     TREE_INT_CST_HIGH A < TREE_INT_CST_HIGH B
     \<or> TREE_INT_CST_HIGH A = TREE_INT_CST_HIGH B \<and> TREE_INT_CST_LOW A < TREE_INT_CST_LOW B"

section \<open>Fitting a value to a type\<close>

definition fit_prec :: "target \<Rightarrow> tree_type \<Rightarrow> nat" where
  "fit_prec tgt type =
     (if POINTER_TYPE_P type \<or> TREE_CODE type = OFFSET_TYPE then POINTER_SIZE tgt else TYPE_PRECISION type)"

definition sign_extended_type :: "tree_type \<Rightarrow> bool" where
  "sign_extended_type type \<longleftrightarrow> \<not> TYPE_UNSIGNED type \<or> is_sizetype type"

text \<open>The result words and whether they differ from the argument.\<close>

definition fit_double_type :: "target \<Rightarrow> hwi \<Rightarrow> hwi \<Rightarrow> tree_type \<Rightarrow> (bool \<times> hwi \<times> hwi) outcome" where
  "fit_double_type tgt low0 high0 type =
     (let prec = fit_prec tgt type
      in if prec = 0 \<and> sign_extended_type type then Inl Undefined
      else
        (let (l1, h1) =
               (if prec \<ge> 2 * HOST_BITS_PER_WIDE_INT then (low0, high0)
                else if prec > HOST_BITS_PER_WIDE_INT then
                  (low0, high0 AND NOT (push_bit (prec - HOST_BITS_PER_WIDE_INT) (- 1)))
                else (if prec < HOST_BITS_PER_WIDE_INT then low0 AND NOT (push_bit prec (- 1)) else low0, 0));
             (l1, h1) =
               (if \<not> sign_extended_type type then (l1, h1)
                else if prec \<ge> 2 * HOST_BITS_PER_WIDE_INT then (l1, h1)
                else if prec > HOST_BITS_PER_WIDE_INT then
                  (if h1 AND push_bit (prec - HOST_BITS_PER_WIDE_INT - 1) 1 \<noteq> 0
                   then (l1, h1 OR push_bit (prec - HOST_BITS_PER_WIDE_INT) (- 1)) else (l1, h1))
                else if prec = HOST_BITS_PER_WIDE_INT then (if sint l1 < 0 then (l1, - 1) else (l1, h1))
                else (if l1 AND push_bit (prec - 1) 1 \<noteq> 0 then (l1 OR push_bit prec (- 1), - 1) else (l1, h1)))
         in Inr (l1 \<noteq> low0 \<or> h1 \<noteq> high0, l1, h1)))"

definition build_int_cst_wide :: "tree_type \<Rightarrow> hwi \<Rightarrow> hwi \<Rightarrow> int_cst" where
  "build_int_cst_wide type low hi =
     \<lparr>TREE_TYPE = type, TREE_INT_CST_LOW = low, TREE_INT_CST_HIGH = hi, TREE_OVERFLOW = False\<rparr>"

definition force_fit_type_double :: "target \<Rightarrow> tree_type \<Rightarrow> hwi \<Rightarrow> hwi \<Rightarrow> int \<Rightarrow> bool \<Rightarrow> int_cst outcome" where
  "force_fit_type_double tgt type low high overflowable overflowed =
     (case fit_double_type tgt low high type of
        Inl e \<Rightarrow> Inl e
      | Inr (ov, low, high) \<Rightarrow>
          Inr (if (overflowed \<or> ov)
                  \<and> (overflowed \<or> overflowable < 0 \<or> overflowable > 0 \<and> sign_extended_type type)
               then \<lparr>TREE_TYPE = type, TREE_INT_CST_LOW = low, TREE_INT_CST_HIGH = high, TREE_OVERFLOW = True\<rparr>
               else build_int_cst_wide type low high))"

section \<open>Binary operations\<close>

definition int_binop_types_match_p :: "tree_code \<Rightarrow> tree_type \<Rightarrow> tree_type \<Rightarrow> bool" where
  "int_binop_types_match_p code type1 type2 =
     (if TREE_CODE type1 \<noteq> INTEGER_TYPE \<and> \<not> POINTER_TYPE_P type1 then False
      else if TREE_CODE type2 \<noteq> INTEGER_TYPE \<and> \<not> POINTER_TYPE_P type2 then False
      else if code \<in> {LSHIFT_EXPR, RSHIFT_EXPR, LROTATE_EXPR, RROTATE_EXPR} then True
      else TYPE_UNSIGNED type1 = TYPE_UNSIGNED type2 \<and> TYPE_PRECISION type1 = TYPE_PRECISION type2
        \<and> TYPE_MODE type1 = TYPE_MODE type2)"

text \<open>A shift or rotate of the switch: no overflow.\<close>

abbreviation no_overflow :: "(hwi \<times> hwi) outcome \<Rightarrow> ((bool \<times> hwi \<times> hwi) option) outcome" where
  "no_overflow x \<equiv> map_sum id (\<lambda>w. Some (False, w)) x"

text \<open>The condition of the shortcut for small non-negative operands.\<close>

definition div_shortcut :: "int_cst \<Rightarrow> int_cst \<Rightarrow> bool" where
  "div_shortcut arg1 arg2 \<longleftrightarrow>
     TREE_INT_CST_HIGH arg2 = 0 \<and> sint (TREE_INT_CST_LOW arg2) > 0 \<and> \<not> TREE_OVERFLOW arg1
     \<and> \<not> TREE_OVERFLOW arg2 \<and> TREE_INT_CST_HIGH arg1 = 0 \<and> sint (TREE_INT_CST_LOW arg1) \<ge> 0"

text \<open>The switch: \<open>overflow\<close>, \<open>low\<close> and \<open>hi\<close>, or \<open>None\<close> for \<open>NULL_TREE\<close>.\<close>

definition int_const_switch ::
    "target \<Rightarrow> tree_code \<Rightarrow> int_cst \<Rightarrow> int_cst \<Rightarrow> ((bool \<times> hwi \<times> hwi) option) outcome" where
  "int_const_switch tgt code arg1 arg2 =
     (let uns = TYPE_UNSIGNED (TREE_TYPE arg1); prec = TYPE_PRECISION (TREE_TYPE arg1);
          sct = SHIFT_COUNT_TRUNCATED tgt;
          int1l = TREE_INT_CST_LOW arg1; int1h = TREE_INT_CST_HIGH arg1;
          int2l = TREE_INT_CST_LOW arg2; int2h = TREE_INT_CST_HIGH arg2;
          quo = (\<lambda>(ov, q, r). Some (ov, q)); rem = (\<lambda>(ov, q, r). Some (ov, r));
          long_div =
            (if int2h = 0 \<and> int2l = 0 then Inr None
             else if int2h = 0 \<and> int2l = 1 then Inr (Some (False, int1l, int1h))
             else if int1l = int2l \<and> int1h = int2h \<and> \<not> (int1l = 0 \<and> int1h = 0) then Inr (Some (False, 1, 0))
             else map_sum id quo (div_and_round_double code uns int1l int1h int2l int2h));
          long_mod =
            (if int2h = 0 \<and> int2l = 0 then Inr None
             else map_sum id rem (div_and_round_double code uns int1l int1h int2l int2h))
      in case code of
           BIT_IOR_EXPR \<Rightarrow> Inr (Some (False, int1l OR int2l, int1h OR int2h))
         | BIT_XOR_EXPR \<Rightarrow> Inr (Some (False, int1l XOR int2l, int1h XOR int2h))
         | BIT_AND_EXPR \<Rightarrow> Inr (Some (False, int1l AND int2l, int1h AND int2h))
         | RSHIFT_EXPR \<Rightarrow> no_overflow (lshift_double sct int1l int1h (- int2l) prec (\<not> uns))
         | LSHIFT_EXPR \<Rightarrow> no_overflow (lshift_double sct int1l int1h int2l prec (\<not> uns))
         | RROTATE_EXPR \<Rightarrow> no_overflow (lrotate_double sct int1l int1h (- int2l) prec)
         | LROTATE_EXPR \<Rightarrow> no_overflow (lrotate_double sct int1l int1h int2l prec)
         | PLUS_EXPR \<Rightarrow> Inr (Some (add_double int1l int1h int2l int2h))
         | MINUS_EXPR \<Rightarrow>
             (let (_, low, hi) = neg_double int2l int2h;
                  (_, low, hi) = add_double int1l int1h low hi
              in Inr (Some (OVERFLOW_SUM_SIGN hi int2h int1h, low, hi)))
         | MULT_EXPR \<Rightarrow> Inr (Some (mul_double int1l int1h int2l int2h))
         | TRUNC_DIV_EXPR \<Rightarrow>
             (if div_shortcut arg1 arg2 then Inr (Some (False, int1l div int2l, 0)) else long_div)
         | FLOOR_DIV_EXPR \<Rightarrow>
             (if div_shortcut arg1 arg2 then Inr (Some (False, int1l div int2l, 0)) else long_div)
         | CEIL_DIV_EXPR \<Rightarrow>
             (if div_shortcut arg1 arg2 then Inr (Some (False, (int1l + (int2l - 1)) div int2l, 0)) else long_div)
         | EXACT_DIV_EXPR \<Rightarrow>
             (if div_shortcut arg1 arg2 then Inr (Some (False, int1l div int2l, 0)) else long_div)
         | ROUND_DIV_EXPR \<Rightarrow> long_div
         | TRUNC_MOD_EXPR \<Rightarrow>
             (if div_shortcut arg1 arg2 then Inr (Some (False, int1l mod int2l, 0)) else long_mod)
         | FLOOR_MOD_EXPR \<Rightarrow>
             (if div_shortcut arg1 arg2 then Inr (Some (False, int1l mod int2l, 0)) else long_mod)
         | CEIL_MOD_EXPR \<Rightarrow>
             (if div_shortcut arg1 arg2 then Inr (Some (False, (int1l + (int2l - 1)) mod int2l, 0)) else long_mod)
         | ROUND_MOD_EXPR \<Rightarrow> long_mod
         | MIN_EXPR \<Rightarrow>
             (if (if uns then int1h < int2h \<or> int1h = int2h \<and> int1l < int2l
                  else sint int1h < sint int2h \<or> int1h = int2h \<and> int1l < int2l)
              then Inr (Some (False, int1l, int1h)) else Inr (Some (False, int2l, int2h)))
         | MAX_EXPR \<Rightarrow>
             (if \<not> (if uns then int1h < int2h \<or> int1h = int2h \<and> int1l < int2l
                     else sint int1h < sint int2h \<or> int1h = int2h \<and> int1l < int2l)
              then Inr (Some (False, int1l, int1h)) else Inr (Some (False, int2l, int2h)))
         | _ \<Rightarrow> Inr None)"

definition int_const_binop ::
    "target \<Rightarrow> tree_code \<Rightarrow> int_cst \<Rightarrow> int_cst \<Rightarrow> bool \<Rightarrow> (int_cst option) outcome" where
  "int_const_binop tgt code arg1 arg2 notrunc =
     (let type = TREE_TYPE arg1; uns = TYPE_UNSIGNED type
      in case int_const_switch tgt code arg1 arg2 of
           Inl e \<Rightarrow> Inl e
         | Inr None \<Rightarrow> Inr None
         | Inr (Some (overflow, low, hi)) \<Rightarrow>
             (let ov = (\<not> uns \<or> is_sizetype type) \<and> overflow \<or> TREE_OVERFLOW arg1 \<or> TREE_OVERFLOW arg2
              in if notrunc then Inr (Some ((build_int_cst_wide type low hi)\<lparr>TREE_OVERFLOW := ov\<rparr>))
                 else map_sum id Some (force_fit_type_double tgt type low hi 1 ov)))"

text \<open>\<open>signed_type\<close> is \<open>signed_type_for\<close>.\<close>

definition div_if_zero_remainder ::
    "target \<Rightarrow> (tree_type \<Rightarrow> tree_type) \<Rightarrow> tree_code \<Rightarrow> int_cst \<Rightarrow> int_cst \<Rightarrow> (int_cst option) outcome" where
  "div_if_zero_remainder tgt signed_type code arg1 arg2 =
     (let type = TREE_TYPE arg1;
          (uns, type) = (if POINTER_TYPE_P type then (False, signed_type type) else (TYPE_UNSIGNED type, type))
      in case fit_double_type tgt (TREE_INT_CST_LOW arg1) (TREE_INT_CST_HIGH arg1) type of
           Inl e \<Rightarrow> Inl e
         | Inr (_, int1l, int1h) \<Rightarrow>
             (case div_and_round_double code uns int1l int1h (TREE_INT_CST_LOW arg2) (TREE_INT_CST_HIGH arg2) of
                Inl e \<Rightarrow> Inl e
              | Inr (_, (quol, quoh), (reml, remh)) \<Rightarrow>
                  if remh \<noteq> 0 \<or> reml \<noteq> 0 then Inr None
                  else Inr (Some (build_int_cst_wide type quol quoh))))"

section \<open>Unary operations, relations and conversions\<close>

definition may_negate_without_overflow_p :: "int_cst \<Rightarrow> bool outcome" where
  "may_negate_without_overflow_p t =
     (let type = TREE_TYPE t; prec = TYPE_PRECISION type
      in if TYPE_UNSIGNED type then Inr False
         else if prec = 0 \<or> prec > 2 * HOST_BITS_PER_WIDE_INT then Inl Undefined
         else if prec > HOST_BITS_PER_WIDE_INT \<and> TREE_INT_CST_LOW t \<noteq> 0 then Inr True
         else
           (let (prec, val) =
                  (if prec > HOST_BITS_PER_WIDE_INT then (prec - HOST_BITS_PER_WIDE_INT, TREE_INT_CST_HIGH t)
                   else (prec, TREE_INT_CST_LOW t));
                val = (if prec < HOST_BITS_PER_WIDE_INT then val AND (push_bit prec 1 - 1) else val)
            in Inr (val \<noteq> push_bit (prec - 1) 1)))"

text \<open>The \<open>INTEGER_CST\<close> cases of the unary folders.\<close>

definition fold_negate_const :: "target \<Rightarrow> int_cst \<Rightarrow> tree_type \<Rightarrow> int_cst outcome" where
  "fold_negate_const tgt arg0 type =
     (let (ov, low, high) = neg_double (TREE_INT_CST_LOW arg0) (TREE_INT_CST_HIGH arg0)
      in force_fit_type_double tgt type low high 1 ((ov \<or> TREE_OVERFLOW arg0) \<and> \<not> TYPE_UNSIGNED type))"

text \<open>\<open>integer_minus_one_node\<close> is \<open>- 1\<close> of type \<open>int\<close>.\<close>

definition fold_abs_const :: "target \<Rightarrow> int_cst \<Rightarrow> tree_type \<Rightarrow> int_cst outcome" where
  "fold_abs_const tgt arg0 type =
     (if TYPE_UNSIGNED type then Inr arg0
      else if INT_CST_LT (arg0\<lparr>TREE_INT_CST_LOW := - 1, TREE_INT_CST_HIGH := - 1\<rparr>) arg0 then Inr arg0
      else
        (let (ov, low, high) = neg_double (TREE_INT_CST_LOW arg0) (TREE_INT_CST_HIGH arg0)
         in force_fit_type_double tgt type low high (- 1) (ov \<or> TREE_OVERFLOW arg0)))"

definition fold_not_const :: "target \<Rightarrow> int_cst \<Rightarrow> tree_type \<Rightarrow> int_cst outcome" where
  "fold_not_const tgt arg0 type =
     force_fit_type_double tgt type (NOT (TREE_INT_CST_LOW arg0)) (NOT (TREE_INT_CST_HIGH arg0)) 0 (TREE_OVERFLOW arg0)"

definition fold_relational_const :: "bool \<Rightarrow> tree_code \<Rightarrow> int_cst \<Rightarrow> int_cst \<Rightarrow> bool outcome" where
  "fold_relational_const flag_trapping_math code op0 op1 =
     (case (if code = LE_EXPR \<or> code = GT_EXPR
            then map_sum id (\<lambda>c. (c, op1, op0)) (swap_tree_comparison code) else Inr (code, op0, op1)) of
        Inl e \<Rightarrow> Inl e
      | Inr (code, op0, op1) \<Rightarrow>
          (case (if code = NE_EXPR \<or> code = GE_EXPR
                 then map_sum id (\<lambda>c. (c, True)) (invert_tree_comparison flag_trapping_math code False)
                 else Inr (code, False)) of
             Inl e \<Rightarrow> Inl e
           | Inr (code, inverted) \<Rightarrow>
               (let result =
                      (if code = EQ_EXPR then
                         TREE_INT_CST_LOW op0 = TREE_INT_CST_LOW op1 \<and> TREE_INT_CST_HIGH op0 = TREE_INT_CST_HIGH op1
                       else if TYPE_UNSIGNED (TREE_TYPE op0) then INT_CST_LT_UNSIGNED op0 op1
                       else INT_CST_LT op0 op1)
                in Inr (if inverted then \<not> result else result))))"

definition fold_convert_const_int_from_int :: "target \<Rightarrow> tree_type \<Rightarrow> int_cst \<Rightarrow> int_cst outcome" where
  "fold_convert_const_int_from_int tgt type arg1 =
     (let type1 = TREE_TYPE arg1;
          overflowable =
            (\<not> POINTER_TYPE_P type1
             \<and> \<not> (TYPE_PRECISION type1 = TYPE_PRECISION type \<and> TYPE_UNSIGNED type1 = TYPE_UNSIGNED type
                  \<and> (is_sizetype type1 \<or> is_sizetype type)))
      in force_fit_type_double tgt type (TREE_INT_CST_LOW arg1) (TREE_INT_CST_HIGH arg1) (of_bool overflowable)
           (sint (TREE_INT_CST_HIGH arg1) < 0 \<and> \<not> TYPE_UNSIGNED type \<and> TYPE_UNSIGNED type1 \<or> TREE_OVERFLOW arg1))"

text \<open>The conversions of \<open>double-int.c\<close> to and from constants.\<close>

definition tree_to_double_int :: "int_cst \<Rightarrow> double_int" where
  "tree_to_double_int cst = \<lparr>di_low = TREE_INT_CST_LOW cst, di_high = TREE_INT_CST_HIGH cst\<rparr>"

definition double_int_to_tree :: "tree_type \<Rightarrow> double_int \<Rightarrow> int_cst outcome" where
  "double_int_to_tree type cst =
     map_sum id (\<lambda>cst. build_int_cst_wide type (di_low cst) (di_high cst))
       (double_int_ext cst (TYPE_PRECISION type) (TYPE_UNSIGNED type))"

definition double_int_fits_to_tree_p :: "tree_type \<Rightarrow> double_int \<Rightarrow> bool outcome" where
  "double_int_fits_to_tree_p type cst =
     map_sum id (double_int_equal_p cst) (double_int_ext cst (TYPE_PRECISION type) (TYPE_UNSIGNED type))"


section \<open>Values\<close>

text \<open>The integer a constant stands for, and the range of its type.\<close>

definition cst_val :: "int_cst \<Rightarrow> int" where
  "cst_val c = dval (TYPE_UNSIGNED (TREE_TYPE c)) (TREE_INT_CST_LOW c) (TREE_INT_CST_HIGH c)"

definition in_type :: "tree_type \<Rightarrow> int \<Rightarrow> bool" where
  "in_type type x \<longleftrightarrow>
     (if TYPE_UNSIGNED type then 0 \<le> x \<and> x < 2 ^ TYPE_PRECISION type
      else - (2 ^ (TYPE_PRECISION type - 1)) \<le> x \<and> x < 2 ^ (TYPE_PRECISION type - 1))"

text \<open>The value of \<open>x\<close> modulo the type.\<close>

definition wrap_type :: "tree_type \<Rightarrow> int \<Rightarrow> int" where
  "wrap_type type x = ext_val (TYPE_UNSIGNED type) (TYPE_PRECISION type) x"

text \<open>The integer types these lemmas are about: not a size type, and of a supported precision.\<close>

definition plain_type :: "tree_type \<Rightarrow> bool" where
  "plain_type type \<longleftrightarrow> TREE_CODE type = INTEGER_TYPE \<and> \<not> TYPE_IS_SIZETYPE type
     \<and> 0 < TYPE_PRECISION type \<and> TYPE_PRECISION type \<le> 128"

lemma plain_typeD:
  assumes "plain_type type"
  shows "fit_prec tgt type = TYPE_PRECISION type" "sign_extended_type type \<longleftrightarrow> \<not> TYPE_UNSIGNED type"
    "0 < TYPE_PRECISION type" "TYPE_PRECISION type \<le> 128"
  using assms by (auto simp: plain_type_def fit_prec_def sign_extended_type_def)

lemma wrap_type_eq_iff:
  assumes "0 < TYPE_PRECISION type"
  shows "wrap_type type x = x \<longleftrightarrow> in_type type x"
proof (cases "TYPE_UNSIGNED type")
  case True
  then show ?thesis by (auto simp: wrap_type_def in_type_def ext_val_def take_bit_int_eq_self_iff)
next
  case False
  then show ?thesis by (auto simp: wrap_type_def in_type_def ext_val_def signed_take_bit_int_eq_self_iff)
qed

lemma wrap_type_dwrap:
  "0 < TYPE_PRECISION type \<Longrightarrow> TYPE_PRECISION type \<le> 128 \<Longrightarrow> wrap_type type (dwrap (TYPE_UNSIGNED type) x) = wrap_type type x"
  by (simp add: wrap_type_def ext_val_dwrap)

lemma fit_double_words:
  assumes "0 < prec" "prec < 128" "prec = fit_prec tgt type"
    and s: "s \<longleftrightarrow> sign_extended_type type \<and> (if prec \<le> 64 then bit l (prec - 1) else bit h (prec - 65))"
  shows "\<exists>l' h'. fit_double_type tgt l h type = Inr (l' \<noteq> l \<or> h' \<noteq> h, l', h')
    \<and> (\<forall>k < 64. bit l' k = (if k < prec then bit l k else s))
    \<and> (\<forall>k < 64. bit h' k = (if k + 64 < prec then bit h k else s))"
proof -
  have test: "x AND push_bit k 1 \<noteq> 0 \<longleftrightarrow> bit x k" if "k < 64" for x :: hwi and k
    using that by (simp add: push_bit_eq_mult and_exp_eq_0_iff_not_bit)
  consider (high) "64 < prec" | (mid) "prec = 64" | (low) "prec < 64" by linarith
  then show ?thesis
  proof cases
    case high
    define h1 where "h1 = h AND NOT (push_bit (prec - 64) (- 1))"
    have "bit h1 (prec - 65) = bit h (prec - 65)" using high assms(2) by (auto simp: h1_def bit_simps)
    then have "fit_double_type tgt l h type =
        Inr (l \<noteq> l \<or> (if s then h1 OR push_bit (prec - 64) (- 1) else h1) \<noteq> h, l, if s then h1 OR push_bit (prec - 64) (- 1) else h1)"
      using high assms(1,2) test [of "prec - 65" h1] s
      unfolding fit_double_type_def Let_def assms(3) [symmetric] h1_def [symmetric]
      by (cases "sign_extended_type type"; cases "bit h (prec - 65)") simp_all
    moreover have "\<forall>k < 64. bit (if s then h1 OR push_bit (prec - 64) (- 1) else h1) k = (if k + 64 < prec then bit h k else s)"
      using high by (auto simp: h1_def bit_simps)
    ultimately show ?thesis
      using high by (intro exI [of _ l] exI [of _ "if s then h1 OR push_bit (prec - 64) (- 1) else h1"]) auto
  next
    case mid
    then have "fit_double_type tgt l h type = Inr (l \<noteq> l \<or> (if s then - 1 else 0) \<noteq> h, l, if s then - 1 else 0)"
      using s sint_neg_bit [of l] unfolding fit_double_type_def Let_def assms(3) [symmetric]
      by (cases "sign_extended_type type"; cases "bit l 63") simp_all
    then show ?thesis
      using mid by (intro exI [of _ l] exI [of _ "if s then - 1 else 0"]) (auto simp: bit_simps)
  next
    case low
    define l1 where "l1 = l AND NOT (push_bit prec (- 1))"
    have "bit l1 (prec - 1) = bit l (prec - 1)" using low assms(1) by (auto simp: l1_def bit_simps)
    then have "fit_double_type tgt l h type =
        Inr ((if s then l1 OR push_bit prec (- 1) else l1) \<noteq> l \<or> (if s then - 1 else 0) \<noteq> h,
          if s then l1 OR push_bit prec (- 1) else l1, if s then - 1 else 0)"
      using low assms(1,2) test [of "prec - 1" l1] s
      unfolding fit_double_type_def Let_def assms(3) [symmetric] l1_def [symmetric]
      by (cases "sign_extended_type type"; cases "bit l (prec - 1)") simp_all
    moreover have "\<forall>k < 64. bit (if s then l1 OR push_bit prec (- 1) else l1) k = (if k < prec then bit l k else s)"
      using low by (auto simp: l1_def bit_simps)
    ultimately show ?thesis
      using low by (intro exI [of _ "if s then l1 OR push_bit prec (- 1) else l1"] exI [of _ "if s then - 1 else 0"])
        (auto simp: bit_simps)
  qed
qed


text \<open>\<open>fit_double_type\<close> computes the value modulo the type and reports whether it changed.\<close>

lemma fit_double_type_val:
  assumes "plain_type type"
  shows "\<exists>l' h'. fit_double_type tgt l h type = Inr (\<not> in_type type (dval (TYPE_UNSIGNED type) l h), l', h')
    \<and> dval (TYPE_UNSIGNED type) l' h' = wrap_type type (dval (TYPE_UNSIGNED type) l h)"
proof -
  define prec where "prec = TYPE_PRECISION type"
  define uns where "uns = TYPE_UNSIGNED type"
  note t = plain_typeD [OF assms, folded prec_def uns_def]
  have "\<exists>l' h'. fit_double_type tgt l h type = Inr (l' \<noteq> l \<or> h' \<noteq> h, l', h')
    \<and> dval uns l' h' = wrap_type type (dval uns l h)"
  proof (cases "prec = 128")
    case True
    then have "fit_double_type tgt l h type = Inr (l \<noteq> l \<or> h \<noteq> h, l, h)"
      by (simp add: fit_double_type_def Let_def t(1))
    moreover have "wrap_type type (dval uns l h) = dval uns l h"
      using dwrap_fits [OF dval_fits [of uns l h]] True
      unfolding wrap_type_def uns_def [symmetric] prec_def [symmetric]
      by (cases uns) (simp_all add: ext_val_def dwrap_def take_bit_eq_mod)
    ultimately show ?thesis by auto
  next
    case False
    define s where "s \<longleftrightarrow> sign_extended_type type \<and> (if prec \<le> 64 then bit l (prec - 1) else bit h (prec - 65))"
    from False t(4) have "prec < 128" by simp
    then obtain l' h' where f: "fit_double_type tgt l h type = Inr (l' \<noteq> l \<or> h' \<noteq> h, l', h')"
        "\<forall>k < 64. bit l' k = (if k < prec then bit l k else s)" "\<forall>k < 64. bit h' k = (if k + 64 < prec then bit h k else s)"
      using fit_double_words [OF t(3) _ t(1) [symmetric] s_def] by blast
    have "dval uns l' h' = wrap_type type (dval uns l h)"
    proof (cases uns)
      case True
      then have "\<not> s" using t(2) by (simp add: s_def)
      then have "udval l' h' = take_bit prec (udval l h)" using f(2,3) by (intro zext_words) auto
      then show ?thesis using True by (simp add: dval_def wrap_type_def ext_val_def uns_def prec_def)
    next
      case False
      then have "s \<longleftrightarrow> (if prec \<le> 64 then bit l (prec - 1) else bit h (prec - 65))" using t(2) by (simp add: s_def)
      then have "sdval l' h' = signed_take_bit (prec - 1) (sdval l h)" using f(2,3) by (intro sext_words [OF t(3,4)])
      then show ?thesis using False by (simp add: dval_def wrap_type_def ext_val_def uns_def prec_def)
    qed
    with f(1) show ?thesis by blast
  qed
  then obtain l' h' where r: "fit_double_type tgt l h type = Inr (l' \<noteq> l \<or> h' \<noteq> h, l', h')"
    "dval uns l' h' = wrap_type type (dval uns l h)" by blast
  have "(l' \<noteq> l \<or> h' \<noteq> h) \<longleftrightarrow> dval uns l' h' \<noteq> dval uns l h"
    using udval_inj [of l' h' l h] by (metis dval_mod)
  also have "\<dots> \<longleftrightarrow> \<not> in_type type (dval uns l h)"
    using r(2) wrap_type_eq_iff [of type "dval uns l h"] t(3) by (simp add: prec_def)
  finally show ?thesis using r by (auto simp: uns_def)
qed

lemma force_fit_type_double_val:
  assumes "plain_type type"
  shows "\<exists>t. force_fit_type_double tgt type l h n ov = Inr t \<and> TREE_TYPE t = type
    \<and> cst_val t = wrap_type type (dval (TYPE_UNSIGNED type) l h)
    \<and> (TREE_OVERFLOW t \<longleftrightarrow> ov \<or> \<not> in_type type (dval (TYPE_UNSIGNED type) l h) \<and> (n < 0 \<or> n > 0 \<and> \<not> TYPE_UNSIGNED type))"
  using fit_double_type_val [OF assms, of tgt l h] plain_typeD(2) [OF assms]
  by (auto simp: force_fit_type_double_def cst_val_def build_int_cst_wide_def)

section \<open>The binary operations\<close>

text \<open>The exact result of an operation on integers.\<close>

fun exact_binop :: "tree_code \<Rightarrow> int \<Rightarrow> int \<Rightarrow> int" where
  "exact_binop PLUS_EXPR a b = a + b"
| "exact_binop MINUS_EXPR a b = a - b"
| "exact_binop MULT_EXPR a b = a * b"
| "exact_binop BIT_AND_EXPR a b = a AND b"
| "exact_binop BIT_IOR_EXPR a b = a OR b"
| "exact_binop BIT_XOR_EXPR a b = a XOR b"
| "exact_binop MIN_EXPR a b = min a b"
| "exact_binop MAX_EXPR a b = max a b"
| "exact_binop TRUNC_MOD_EXPR a b = c_rem a b"
| "exact_binop FLOOR_MOD_EXPR a b = a mod b"
| "exact_binop code a b = rounded_quotient code a b"

text \<open>A result of the switch that stands for \<open>x\<close>, its overflow flag exact in the signed case.\<close>

definition switch_ok :: "bool \<Rightarrow> int \<Rightarrow> ((bool \<times> hwi \<times> hwi) option) outcome \<Rightarrow> bool" where
  "switch_ok uns x r \<longleftrightarrow>
     (\<exists>ov l h. r = Inr (Some (ov, l, h)) \<and> dval uns l h = dwrap uns x \<and> (\<not> uns \<longrightarrow> (ov \<longleftrightarrow> \<not> fits_sdval x)))"

lemma switch_okI:
  "udval l h = x mod 2 ^ 128 \<Longrightarrow> (\<not> uns \<Longrightarrow> ov \<longleftrightarrow> \<not> fits_sdval x) \<Longrightarrow> switch_ok uns x (Inr (Some (ov, l, h)))"
  by (auto simp: switch_ok_def dval_dwrap)

lemma switch_ok_exact:
  "dval uns l h = x \<Longrightarrow> switch_ok uns x (Inr (Some (False, l, h)))"
  using dval_fits [of uns l h] by (auto simp: switch_ok_def dwrap_fits dfits_def)

text \<open>An operand read with the signedness of the operation.\<close>

definition arg_val :: "bool \<Rightarrow> int_cst \<Rightarrow> int" where
  "arg_val uns c = dval uns (TREE_INT_CST_LOW c) (TREE_INT_CST_HIGH c)"

lemma binop_plus:
  "switch_ok (TYPE_UNSIGNED (TREE_TYPE a)) (arg_val (TYPE_UNSIGNED (TREE_TYPE a)) a + arg_val (TYPE_UNSIGNED (TREE_TYPE a)) b)
     (int_const_switch tgt PLUS_EXPR a b)"
proof -
  obtain ov l h where r: "add_double (TREE_INT_CST_LOW a) (TREE_INT_CST_HIGH a) (TREE_INT_CST_LOW b) (TREE_INT_CST_HIGH b) = (ov, l, h)"
    by (metis prod_cases3)
  let ?u = "TYPE_UNSIGNED (TREE_TYPE a)"
  have "udval l h = (arg_val ?u a + arg_val ?u b) mod 2 ^ 128"
    by (subst add_double_udval [OF r]) (simp only: arg_val_def dval_mod [of ?u, symmetric] mod_add_eq)
  then show ?thesis
    using add_double_overflow [OF r] r by (auto simp: int_const_switch_def arg_val_def dval_def intro!: switch_okI)
qed

lemma binop_mult:
  "switch_ok (TYPE_UNSIGNED (TREE_TYPE a)) (arg_val (TYPE_UNSIGNED (TREE_TYPE a)) a * arg_val (TYPE_UNSIGNED (TREE_TYPE a)) b)
     (int_const_switch tgt MULT_EXPR a b)"
proof -
  obtain ov l h where r: "mul_double (TREE_INT_CST_LOW a) (TREE_INT_CST_HIGH a) (TREE_INT_CST_LOW b) (TREE_INT_CST_HIGH b) = (ov, l, h)"
    by (metis prod_cases3)
  let ?u = "TYPE_UNSIGNED (TREE_TYPE a)"
  have "udval l h = (arg_val ?u a * arg_val ?u b) mod 2 ^ 128"
    by (subst mul_double_udval [OF r]) (simp only: arg_val_def dval_mod [of ?u, symmetric] mod_mult_eq)
  then show ?thesis
    using mul_double_overflow [OF r] r by (auto simp: int_const_switch_def arg_val_def dval_def intro!: switch_okI)
qed

lemma minus_overflow:
  fixes a b d :: int
  assumes "fits_sdval a" "fits_sdval b" "d = signed_take_bit 127 (a - b)"
  shows "(d < 0) = (b < 0) \<and> (d < 0) \<noteq> (a < 0) \<longleftrightarrow> \<not> fits_sdval (a - b)"
  using assms signed_take_bit_127_cases [of "a - b"] by (auto simp: fits_sdval_def)

lemma OVERFLOW_SUM_SIGN_sdval:
  "OVERFLOW_SUM_SIGN h1 h2 h3 \<longleftrightarrow> (sdval l1 h1 < 0) = (sdval l2 h2 < 0) \<and> (sdval l1 h1 < 0) \<noteq> (sdval l3 h3 < 0)"
  by (simp add: OVERFLOW_SUM_SIGN_iff sdval_neg_iff)

lemma binop_minus:
  "switch_ok (TYPE_UNSIGNED (TREE_TYPE a)) (arg_val (TYPE_UNSIGNED (TREE_TYPE a)) a - arg_val (TYPE_UNSIGNED (TREE_TYPE a)) b)
     (int_const_switch tgt MINUS_EXPR a b)"
proof -
  obtain o1 l1 h1 where n: "neg_double (TREE_INT_CST_LOW b) (TREE_INT_CST_HIGH b) = (o1, l1, h1)" by (metis prod_cases3)
  obtain o2 l h where r: "add_double (TREE_INT_CST_LOW a) (TREE_INT_CST_HIGH a) l1 h1 = (o2, l, h)" by (metis prod_cases3)
  let ?u = "TYPE_UNSIGNED (TREE_TYPE a)"
  have u: "udval l h = (arg_val uns a - arg_val uns b) mod 2 ^ 128" for uns
    unfolding add_double_udval [OF r] neg_double_udval [OF n] arg_val_def
    by (simp only: dval_mod [of uns, symmetric] mod_minus_eq mod_add_eq diff_conv_add_uminus)
  have "OVERFLOW_SUM_SIGN h (TREE_INT_CST_HIGH b) (TREE_INT_CST_HIGH a) \<longleftrightarrow> \<not> fits_sdval (arg_val False a - arg_val False b)"
    using minus_overflow [OF sdval_fits sdval_fits sdval_of_mod [OF u [of False, unfolded arg_val_def dval_def if_False]]]
      OVERFLOW_SUM_SIGN_sdval [of h "TREE_INT_CST_HIGH b" "TREE_INT_CST_HIGH a" l "TREE_INT_CST_LOW b" "TREE_INT_CST_LOW a"]
    by (simp add: arg_val_def dval_def)
  then have "\<not> ?u \<Longrightarrow> OVERFLOW_SUM_SIGN h (TREE_INT_CST_HIGH b) (TREE_INT_CST_HIGH a) \<longleftrightarrow> \<not> fits_sdval (arg_val ?u a - arg_val ?u b)"
    by simp
  from switch_okI [OF u [of ?u] this] show ?thesis
    by (simp add: int_const_switch_def n r)
qed


lemma dval_bitops:
  "dval uns (a AND c) (b AND d) = dval uns a b AND dval uns c d"
  "dval uns (a OR c) (b OR d) = dval uns a b OR dval uns c d"
  "dval uns (a XOR c) (b XOR d) = dval uns a b XOR dval uns c d"
  by (rule bit_eqI; cases uns; simp add: dval_def bit_udval bit_sdval bit_and_iff bit_or_iff bit_xor_iff)+

lemma binop_bits:
  "switch_ok (TYPE_UNSIGNED (TREE_TYPE a))
     (exact_binop code (arg_val (TYPE_UNSIGNED (TREE_TYPE a)) a) (arg_val (TYPE_UNSIGNED (TREE_TYPE a)) b))
     (int_const_switch tgt code a b)"
  if "code \<in> {BIT_AND_EXPR, BIT_IOR_EXPR, BIT_XOR_EXPR}"
  using that by (auto simp: int_const_switch_def arg_val_def dval_bitops intro!: switch_ok_exact)

lemma dval_less_lex:
  "dval uns l1 h1 < dval uns l2 h2 \<longleftrightarrow>
     (if uns then h1 < h2 \<or> h1 = h2 \<and> l1 < l2 else sint h1 < sint h2 \<or> h1 = h2 \<and> l1 < l2)"
proof -
  have "sint h1 = sint h2 \<longleftrightarrow> h1 = h2" using signed_word_eqI [of h1 h2] by auto
  then show ?thesis
    using double_int_cmp_val [of "\<lparr>di_low = l1, di_high = h1\<rparr>" "\<lparr>di_low = l2, di_high = h2\<rparr>" uns]
    by (cases uns) (auto simp: double_int_cmp_def double_int_ucmp_def double_int_scmp_def dival_def split: if_splits)
qed

lemma binop_min_max:
  "switch_ok (TYPE_UNSIGNED (TREE_TYPE a))
     (exact_binop code (arg_val (TYPE_UNSIGNED (TREE_TYPE a)) a) (arg_val (TYPE_UNSIGNED (TREE_TYPE a)) b))
     (int_const_switch tgt code a b)"
  if "code \<in> {MIN_EXPR, MAX_EXPR}"
proof -
  let ?u = "TYPE_UNSIGNED (TREE_TYPE a)"
  note lt = dval_less_lex [of ?u "TREE_INT_CST_LOW a" "TREE_INT_CST_HIGH a" "TREE_INT_CST_LOW b" "TREE_INT_CST_HIGH b", symmetric]
  from that show ?thesis
    by (elim insertE emptyE)
      (auto simp: int_const_switch_def Let_def lt arg_val_def min_def max_def intro!: switch_ok_exact)
qed

text \<open>Quotients: the shortcut, the trivial divisors, and when the quotient overflows.\<close>

abbreviation div_codes :: "tree_code set" where
  "div_codes \<equiv> {TRUNC_DIV_EXPR, FLOOR_DIV_EXPR, CEIL_DIV_EXPR, EXACT_DIV_EXPR}"

lemma c_div_nonneg: "0 \<le> a \<Longrightarrow> 0 < b \<Longrightarrow> c_div a b = a div b" "0 \<le> a \<Longrightarrow> 0 < b \<Longrightarrow> c_rem a b = a mod b"
  by (auto simp: c_div_def c_rem_def sgn_if)

lemma ceil_div: "0 < b \<Longrightarrow> - ((- a) div b) = (a + (b - 1)) div (b :: int)"
proof -
  assume b: "0 < b"
  define q r where "q = a div b" and "r = a mod b"
  have a: "a = b * q + r" "0 \<le> r" "r < b" using b by (simp_all add: q_def r_def)
  show ?thesis
  proof (cases "r = 0")
    case True
    then have "(- a) div b = - q" using a b by (intro int_div_pos_eq [where r = 0]) simp_all
    moreover have "(a + (b - 1)) div b = q" using a True b by (intro int_div_pos_eq [where r = "b - 1"]) simp_all
    ultimately show ?thesis by simp
  next
    case False
    have "(- a) div b = - q - 1" using a False b by (intro int_div_pos_eq [where r = "b - r"]) (simp_all add: algebra_simps)
    moreover have "(a + (b - 1)) div b = q + 1" using a False b by (intro int_div_pos_eq [where r = "r - 1"]) (simp_all add: algebra_simps)
    ultimately show ?thesis by simp
  qed
qed

lemma rounded_quotient_nonneg:
  assumes "0 \<le> a" "0 < b" "code \<in> div_codes"
  shows "rounded_quotient code a b = (if code = CEIL_DIV_EXPR then (a + (b - 1)) div b else a div b)"
  using assms ceil_div [of b a] by (auto simp: rounded_quotient_def c_div_nonneg)

lemma rounded_quotient_trivial:
  assumes "code \<in> div_codes"
  shows "rounded_quotient code a 1 = a" "a \<noteq> 0 \<Longrightarrow> rounded_quotient code a a = 1"
proof -
  have "a \<noteq> 0 \<Longrightarrow> - a div a = - 1" using nonzero_mult_div_cancel_right [of a "- 1"] by simp
  then show "rounded_quotient code a 1 = a" "a \<noteq> 0 \<Longrightarrow> rounded_quotient code a a = 1"
    using assms by (auto simp: rounded_quotient_def c_div_def sgn_if)
qed

lemma rounded_quotient_near:
  assumes "b \<noteq> 0" "code \<in> div_codes"
  shows "\<bar>rounded_quotient code a b - c_div a b\<bar> \<le> 1"
  using assms(2) floor_from_trunc [OF assms(1), of a] ceil_from_trunc [OF assms(1), of a]
  by (auto simp: rounded_quotient_def)

lemma rounded_quotient_unit:
  assumes "\<bar>b\<bar> = 1" "code \<in> div_codes"
  shows "rounded_quotient code a b = a * b"
proof -
  consider "b = 1" | "b = - 1" using assms(1) by linarith
  then show ?thesis
    using assms(2) rounded_quotient_trivial(1) [OF assms(2)]
    by cases (auto simp: rounded_quotient_def c_div_def sgn_if)
qed

lemma rounded_quotient_fits:
  assumes "fits_sdval a" "b \<noteq> 0" "code \<in> div_codes"
  shows "fits_sdval (rounded_quotient code a b) \<longleftrightarrow> \<not> (a = - (2 ^ 127) \<and> b = - 1)"
proof (cases "\<bar>b\<bar> = 1")
  case True
  then have "b = 1 \<or> b = - 1" by linarith
  then show ?thesis using rounded_quotient_unit [OF True assms(3), of a] assms(1) by (auto simp: fits_sdval_def)
next
  case False
  then have b: "2 \<le> \<bar>b\<bar>" using assms(2) by linarith
  have "\<bar>a\<bar> \<le> 2 ^ 127" using assms(1) by (auto simp: fits_sdval_def)
  also have "(2 :: int) ^ 127 < (2 ^ 126 + 1) * 2" by simp
  also have "\<dots> \<le> (2 ^ 126 + 1) * \<bar>b\<bar>" using b by (intro mult_left_mono) simp_all
  finally have "\<bar>a\<bar> div \<bar>b\<bar> < 2 ^ 126 + 1" using b by (intro int_div_less) simp_all
  moreover have "0 \<le> \<bar>a\<bar> div \<bar>b\<bar>" using b by (simp add: pos_imp_zdiv_nonneg_iff)
  moreover have "\<bar>c_div a b\<bar> \<le> \<bar>a\<bar> div \<bar>b\<bar>" using calculation by (auto simp: c_div_def sgn_if)
  ultimately have "\<bar>rounded_quotient code a b\<bar> \<le> 2 ^ 126 + 1"
    using rounded_quotient_near [OF assms(2,3), of a] by linarith
  then have "fits_sdval (rounded_quotient code a b)" by (auto simp: fits_sdval_def abs_le_iff)
  with b show ?thesis by auto
qed

text \<open>The values in the shortcut's range.\<close>

lemma div_shortcut_vals:
  assumes "div_shortcut a b"
  shows "arg_val uns a = uint (TREE_INT_CST_LOW a)" "arg_val uns b = uint (TREE_INT_CST_LOW b)"
    "0 < uint (TREE_INT_CST_LOW b)" "uint (TREE_INT_CST_LOW a) < 2 ^ 63" "uint (TREE_INT_CST_LOW b) < 2 ^ 63"
proof -
  note d = assms [unfolded div_shortcut_def]
  show "arg_val uns a = uint (TREE_INT_CST_LOW a)" "arg_val uns b = uint (TREE_INT_CST_LOW b)"
    using d by (simp_all add: arg_val_def dval_def udval_def sdval_def)
  show "uint (TREE_INT_CST_LOW a) < 2 ^ 63" "uint (TREE_INT_CST_LOW b) < 2 ^ 63"
    using d sint64_uint [of "TREE_INT_CST_LOW a"] sint64_uint [of "TREE_INT_CST_LOW b"]
      uint_lt2p [of "TREE_INT_CST_LOW a"] uint_lt2p [of "TREE_INT_CST_LOW b"] by (auto split: if_splits)
  have "TREE_INT_CST_LOW b \<noteq> 0" using d by auto
  then show "0 < uint (TREE_INT_CST_LOW b)" by (simp add: word_pos_iff)
qed

lemma ceil_words:
  assumes "0 < uint d" "uint n < 2 ^ 63" "uint d < 2 ^ 63"
  shows "uint (n + (d - 1) :: hwi) = uint n + (uint d - 1)"
proof -
  have "uint (d - 1) = uint d - 1" using assms(1) uint64_diff_exact [of 1 d] by simp
  then show ?thesis using assms by (subst uint64_add_exact) simp_all
qed

text \<open>The quotient and remainder branches of the switch, shared by their codes.\<close>

lemma int_const_switch_div:
  assumes "code \<in> div_codes"
  shows "int_const_switch tgt code a b =
    (let al = TREE_INT_CST_LOW a; ah = TREE_INT_CST_HIGH a; bl = TREE_INT_CST_LOW b; bh = TREE_INT_CST_HIGH b
     in if div_shortcut a b then Inr (Some (False, if code = CEIL_DIV_EXPR then (al + (bl - 1)) div bl else al div bl, 0))
        else if bh = 0 \<and> bl = 0 then Inr None
        else if bh = 0 \<and> bl = 1 then Inr (Some (False, al, ah))
        else if al = bl \<and> ah = bh \<and> \<not> (al = 0 \<and> ah = 0) then Inr (Some (False, 1, 0))
        else map_sum id (\<lambda>(ov, q, r). Some (ov, q)) (div_and_round_double code (TYPE_UNSIGNED (TREE_TYPE a)) al ah bl bh))"
  using assms by (elim insertE emptyE) (simp_all only: int_const_switch_def Let_def tree_code.case simp_thms if_True if_False tree_code.distinct)

lemma int_const_switch_mod:
  assumes "code \<in> {TRUNC_MOD_EXPR, FLOOR_MOD_EXPR}"
  shows "int_const_switch tgt code a b =
    (let al = TREE_INT_CST_LOW a; ah = TREE_INT_CST_HIGH a; bl = TREE_INT_CST_LOW b; bh = TREE_INT_CST_HIGH b
     in if div_shortcut a b then Inr (Some (False, al mod bl, 0))
        else if bh = 0 \<and> bl = 0 then Inr None
        else map_sum id (\<lambda>(ov, q, r). Some (ov, r)) (div_and_round_double code (TYPE_UNSIGNED (TREE_TYPE a)) al ah bl bh))"
  using assms by (elim insertE emptyE) (simp_all only: int_const_switch_def Let_def tree_code.case simp_thms if_True if_False)

lemma binop_div:
  assumes code: "code \<in> div_codes" and nz: "TREE_INT_CST_LOW b \<noteq> 0 \<or> TREE_INT_CST_HIGH b \<noteq> 0"
  shows "switch_ok (TYPE_UNSIGNED (TREE_TYPE a))
     (rounded_quotient code (arg_val (TYPE_UNSIGNED (TREE_TYPE a)) a) (arg_val (TYPE_UNSIGNED (TREE_TYPE a)) b))
     (int_const_switch tgt code a b)"
proof -
  define uns where "uns = TYPE_UNSIGNED (TREE_TYPE a)"
  define x y where "x = arg_val uns a" and "y = arg_val uns b"
  have y0: "y \<noteq> 0" using nz dval_zero_iff [of uns] by (simp add: y_def arg_val_def)
  consider (short) "div_shortcut a b" | (one) "\<not> div_shortcut a b" "TREE_INT_CST_HIGH b = 0 \<and> TREE_INT_CST_LOW b = 1"
    | (same) "\<not> div_shortcut a b" "\<not> (TREE_INT_CST_HIGH b = 0 \<and> TREE_INT_CST_LOW b = 1)"
        "TREE_INT_CST_LOW a = TREE_INT_CST_LOW b \<and> TREE_INT_CST_HIGH a = TREE_INT_CST_HIGH b"
    | (long) "\<not> div_shortcut a b" "\<not> (TREE_INT_CST_HIGH b = 0 \<and> TREE_INT_CST_LOW b = 1)"
        "\<not> (TREE_INT_CST_LOW a = TREE_INT_CST_LOW b \<and> TREE_INT_CST_HIGH a = TREE_INT_CST_HIGH b)" by blast
  then have "switch_ok uns (rounded_quotient code x y) (int_const_switch tgt code a b)"
  proof cases
    case short
    note v = div_shortcut_vals(1,2) [OF short, of uns, folded x_def y_def] div_shortcut_vals(3-5) [OF short]
    define low where "low = (if code = CEIL_DIV_EXPR then (TREE_INT_CST_LOW a + (TREE_INT_CST_LOW b - 1)) div TREE_INT_CST_LOW b
        else TREE_INT_CST_LOW a div TREE_INT_CST_LOW b)"
    have "uint low = rounded_quotient code x y"
      using rounded_quotient_nonneg [of x y code] v(3) code ceil_words [OF v(3-5)]
      by (simp add: low_def uint64_div v(1,2))
    then have "dval uns low 0 = rounded_quotient code x y" by (simp add: dval_def udval_def sdval_def)
    moreover have "int_const_switch tgt code a b = Inr (Some (False, low, 0))"
      using short by (simp add: int_const_switch_div [OF code] low_def Let_def)
    ultimately show ?thesis by (simp add: switch_ok_exact)
  next
    case one
    then have "y = 1" by (simp add: y_def arg_val_def dval_def udval_def sdval_def)
    moreover have "int_const_switch tgt code a b = Inr (Some (False, TREE_INT_CST_LOW a, TREE_INT_CST_HIGH a))"
      using one by (simp add: int_const_switch_div [OF code] Let_def)
    ultimately show ?thesis
      using switch_ok_exact [of uns "TREE_INT_CST_LOW a" "TREE_INT_CST_HIGH a" x] rounded_quotient_trivial(1) [OF code]
      by (simp add: x_def arg_val_def)
  next
    case same
    then have "x = y" by (simp add: x_def y_def arg_val_def)
    moreover have "int_const_switch tgt code a b = Inr (Some (False, 1, 0))"
      using same nz by (auto simp: int_const_switch_div [OF code] Let_def)
    moreover have "dval uns 1 0 = 1" by (simp add: dval_def udval_def sdval_def)
    ultimately show ?thesis using switch_ok_exact [of uns 1 0 1] rounded_quotient_trivial(2) [OF code y0] by simp
  next
    case long
    have "code \<in> {TRUNC_DIV_EXPR, TRUNC_MOD_EXPR, EXACT_DIV_EXPR, FLOOR_DIV_EXPR, FLOOR_MOD_EXPR,
      CEIL_DIV_EXPR, CEIL_MOD_EXPR}" using code by auto
    from div_and_round_directed [OF nz, of x uns "TREE_INT_CST_LOW a" "TREE_INT_CST_HIGH a" y code, OF _ _ this]
    obtain lq hq lr hr where d: "div_and_round_double code uns (TREE_INT_CST_LOW a) (TREE_INT_CST_HIGH a)
          (TREE_INT_CST_LOW b) (TREE_INT_CST_HIGH b) = Inr (\<not> uns \<and> x = - (2 ^ 127) \<and> y = - 1, (lq, hq), (lr, hr))"
        "dval uns lq hq = dwrap uns (rounded_quotient code x y)"
      by (auto simp: x_def y_def arg_val_def)
    have "int_const_switch tgt code a b = Inr (Some (\<not> uns \<and> x = - (2 ^ 127) \<and> y = - 1, lq, hq))"
      using long nz d(1) by (auto simp: int_const_switch_div [OF code] Let_def uns_def [symmetric])
    moreover have "\<not> uns \<Longrightarrow> fits_sdval x" using sdval_fits by (simp add: x_def arg_val_def dval_def)
    ultimately show ?thesis
      using d(2) rounded_quotient_fits [OF _ y0 code, of x] by (auto simp: switch_ok_def)
  qed
  then show ?thesis by (simp add: x_def y_def uns_def)
qed

text \<open>Remainders: the flag of the division is set when the quotient overflows.\<close>

lemma binop_mod:
  assumes code: "code \<in> {TRUNC_MOD_EXPR, FLOOR_MOD_EXPR}" and nz: "TREE_INT_CST_LOW b \<noteq> 0 \<or> TREE_INT_CST_HIGH b \<noteq> 0"
    and uns: "uns = TYPE_UNSIGNED (TREE_TYPE a)"
  shows "\<exists>l h. int_const_switch tgt code a b
      = Inr (Some (\<not> uns \<and> arg_val uns a = - (2 ^ 127) \<and> arg_val uns b = - 1, l, h))
    \<and> dval uns l h = exact_binop code (arg_val uns a) (arg_val uns b)"
proof -
  define x y where "x = arg_val uns a" and "y = arg_val uns b"
  have y0: "y \<noteq> 0" using nz dval_zero_iff [of uns] by (simp add: y_def arg_val_def)
  have ex: "exact_binop code x y = x - rounded_quotient code x y * y"
    using code c_rem_eq [of x y] by (auto simp: rounded_quotient_def minus_div_mult_eq_mod)
  show ?thesis
  proof (cases "div_shortcut a b")
    case True
    note v = div_shortcut_vals(1,2) [OF True, of uns, folded x_def y_def] div_shortcut_vals(3-5) [OF True]
    have "exact_binop code x y = x mod y" using code v c_div_nonneg(2) [of x y] by auto
    moreover have "uint (TREE_INT_CST_LOW a mod TREE_INT_CST_LOW b) = x mod y" by (simp add: v uint64_mod)
    ultimately have "dval uns (TREE_INT_CST_LOW a mod TREE_INT_CST_LOW b) 0 = exact_binop code x y"
      by (simp add: dval_def udval_def sdval_def)
    then show ?thesis using True v by (auto simp: int_const_switch_mod [OF code] Let_def x_def [symmetric] y_def [symmetric])
  next
    case False
    have c: "code \<in> {TRUNC_DIV_EXPR, TRUNC_MOD_EXPR, EXACT_DIV_EXPR, FLOOR_DIV_EXPR, FLOOR_MOD_EXPR,
      CEIL_DIV_EXPR, CEIL_MOD_EXPR}" using code by auto
    from div_and_round_directed [OF nz, of x uns "TREE_INT_CST_LOW a" "TREE_INT_CST_HIGH a" y code, OF _ _ c]
    obtain lq hq lr hr where d: "div_and_round_double code uns (TREE_INT_CST_LOW a) (TREE_INT_CST_HIGH a)
          (TREE_INT_CST_LOW b) (TREE_INT_CST_HIGH b) = Inr (\<not> uns \<and> x = - (2 ^ 127) \<and> y = - 1, (lq, hq), (lr, hr))"
        "dval uns lr hr = dwrap uns (exact_binop code x y)"
      unfolding ex by (auto simp: x_def y_def arg_val_def)
    have small: "\<bar>exact_binop code x y\<bar> < \<bar>y\<bar>" "uns \<Longrightarrow> 0 \<le> exact_binop code x y"
    proof -
      show "\<bar>exact_binop code x y\<bar> < \<bar>y\<bar>"
        using code c_rem_less [OF y0, of x] y0 pos_mod_bound [of y x] pos_mod_sign [of y x] neg_mod_bound [of y x] neg_mod_sign [of y x]
        by (cases "0 < y") auto
      assume uns
      then have "0 \<le> x" "0 \<le> y" using udval_range(1) by (simp_all add: x_def y_def arg_val_def dval_def)
      then show "0 \<le> exact_binop code x y" using code c_rem_sign(1) [of x y] y0 by auto
    qed
    have y: "dfits uns y" using dval_fits by (simp add: y_def arg_val_def)
    then have "dfits uns (exact_binop code x y)"
      using small by (cases uns) (auto simp: dfits_def fits_sdval_def)
    then have "dval uns lr hr = exact_binop code x y" using d(2) by (simp add: dwrap_fits)
    then show ?thesis
      using False nz d(1) by (auto simp: int_const_switch_mod [OF code] Let_def uns [symmetric] x_def [symmetric] y_def [symmetric])
  qed
qed


section \<open>Folded constants\<close>

lemma in_type_fits:
  assumes "plain_type type" "in_type type x"
  shows "dfits (TYPE_UNSIGNED type) x"
proof -
  have p: "(2 :: int) ^ TYPE_PRECISION type \<le> 2 ^ 128" "(2 :: int) ^ (TYPE_PRECISION type - 1) \<le> 2 ^ 127"
    using plain_typeD(4) [OF assms(1)] by (intro power_increasing; simp)+
  show ?thesis
  proof (cases "TYPE_UNSIGNED type")
    case True
    then have "0 \<le> x" "x < 2 ^ 128" using assms(2) p(1) by (auto simp: in_type_def intro: order_less_le_trans)
    with True show ?thesis by (simp add: dfits_def)
  next
    case False
    then have "- (2 ^ 127) \<le> x" "x < 2 ^ 127" using assms(2) p(2) by (auto simp: in_type_def)
    with False show ?thesis by (simp add: dfits_def fits_sdval_def)
  qed
qed

lemma int_const_binop_tail:
  assumes t: "plain_type (TREE_TYPE a)" and u: "uns = TYPE_UNSIGNED (TREE_TYPE a)"
    and s: "int_const_switch tgt code a b = Inr (Some (ov, l, h))" "dval uns l h = dwrap uns x"
  shows "\<exists>t. int_const_binop tgt code a b False = Inr (Some t) \<and> TREE_TYPE t = TREE_TYPE a
    \<and> cst_val t = wrap_type (TREE_TYPE a) x
    \<and> (TREE_OVERFLOW t \<longleftrightarrow> \<not> uns \<and> ov \<or> TREE_OVERFLOW a \<or> TREE_OVERFLOW b
        \<or> \<not> uns \<and> \<not> in_type (TREE_TYPE a) (dwrap uns x))"
proof -
  have "\<not> is_sizetype (TREE_TYPE a)" using t by (simp add: plain_type_def)
  moreover obtain t' where f: "force_fit_type_double tgt (TREE_TYPE a) l h 1 (\<not> uns \<and> ov \<or> TREE_OVERFLOW a \<or> TREE_OVERFLOW b) = Inr t'"
      "TREE_TYPE t' = TREE_TYPE a" "cst_val t' = wrap_type (TREE_TYPE a) (dwrap uns x)"
      "TREE_OVERFLOW t' \<longleftrightarrow> (\<not> uns \<and> ov \<or> TREE_OVERFLOW a \<or> TREE_OVERFLOW b) \<or> \<not> in_type (TREE_TYPE a) (dwrap uns x) \<and> \<not> uns"
    using force_fit_type_double_val [OF t, of tgt l h 1 "\<not> uns \<and> ov \<or> TREE_OVERFLOW a \<or> TREE_OVERFLOW b"] s(2) u by auto
  ultimately show ?thesis
    using s(1) wrap_type_dwrap [OF plain_typeD(3,4) [OF t], of x] u
    by (auto simp: int_const_binop_def Let_def)
qed

lemma int_const_binop_ok:
  assumes t: "plain_type (TREE_TYPE a)" and u: "uns = TYPE_UNSIGNED (TREE_TYPE a)"
    and s: "switch_ok uns x (int_const_switch tgt code a b)"
  shows "\<exists>t. int_const_binop tgt code a b False = Inr (Some t) \<and> TREE_TYPE t = TREE_TYPE a
    \<and> cst_val t = wrap_type (TREE_TYPE a) x
    \<and> (TREE_OVERFLOW t \<longleftrightarrow> TREE_OVERFLOW a \<or> TREE_OVERFLOW b \<or> \<not> uns \<and> \<not> in_type (TREE_TYPE a) x)"
proof -
  obtain ov l h where o: "int_const_switch tgt code a b = Inr (Some (ov, l, h))" "dval uns l h = dwrap uns x"
    "\<not> uns \<longrightarrow> (ov \<longleftrightarrow> \<not> fits_sdval x)" using s by (auto simp: switch_ok_def)
  have "\<not> uns \<Longrightarrow> ov \<or> \<not> in_type (TREE_TYPE a) (dwrap uns x) \<longleftrightarrow> \<not> in_type (TREE_TYPE a) x"
    using o(3) in_type_fits [OF t, of x] dwrap_fits [of uns x] u by (auto simp: dfits_def)
  then show ?thesis using int_const_binop_tail [OF t u o(1,2)] by blast
qed

abbreviation ring_codes :: "tree_code set" where
  "ring_codes \<equiv> {PLUS_EXPR, MINUS_EXPR, MULT_EXPR, BIT_AND_EXPR, BIT_IOR_EXPR, BIT_XOR_EXPR, MIN_EXPR, MAX_EXPR}"

lemma switch_ok_binop:
  assumes "code \<in> ring_codes \<union> div_codes" "code \<in> div_codes \<Longrightarrow> arg_val uns b \<noteq> 0" "uns = TYPE_UNSIGNED (TREE_TYPE a)"
  shows "switch_ok uns (exact_binop code (arg_val uns a) (arg_val uns b)) (int_const_switch tgt code a b)"
proof (cases "code \<in> div_codes")
  case True
  then have "TREE_INT_CST_LOW b \<noteq> 0 \<or> TREE_INT_CST_HIGH b \<noteq> 0"
    using assms(2) dval_zero_iff [of uns] by (auto simp: arg_val_def)
  moreover have "exact_binop code = rounded_quotient code" using True by (intro ext) auto
  ultimately show ?thesis using binop_div [OF True, of b a tgt] assms(3) by simp
next
  case False
  then show ?thesis
    using assms(1,3) binop_plus [of a b tgt] binop_minus [of a b tgt] binop_mult [of a b tgt]
      binop_bits [of code a b tgt] binop_min_max [of code a b tgt] by (elim UnE insertE emptyE) auto
qed

lemma fold_negate_val:
  assumes "plain_type (TREE_TYPE a)"
  shows "\<exists>t. fold_negate_const tgt a (TREE_TYPE a) = Inr t \<and> cst_val t = wrap_type (TREE_TYPE a) (- cst_val a)
    \<and> (TREE_OVERFLOW t \<longleftrightarrow> \<not> TYPE_UNSIGNED (TREE_TYPE a) \<and> (TREE_OVERFLOW a \<or> \<not> in_type (TREE_TYPE a) (- cst_val a)))"
proof -
  let ?u = "TYPE_UNSIGNED (TREE_TYPE a)"
  obtain ov l h where n: "neg_double (TREE_INT_CST_LOW a) (TREE_INT_CST_HIGH a) = (ov, l, h)" by (metis prod_cases3)
  have "udval l h = (- cst_val a) mod 2 ^ 128"
    by (subst neg_double_udval [OF n]) (simp only: cst_val_def dval_mod [of ?u, symmetric] mod_minus_eq)
  then have v: "dval ?u l h = dwrap ?u (- cst_val a)" by (rule dval_dwrap)
  obtain t where t: "force_fit_type_double tgt (TREE_TYPE a) l h 1 ((ov \<or> TREE_OVERFLOW a) \<and> \<not> ?u) = Inr t"
      "cst_val t = wrap_type (TREE_TYPE a) (dwrap ?u (- cst_val a))"
      "TREE_OVERFLOW t \<longleftrightarrow> (ov \<or> TREE_OVERFLOW a) \<and> \<not> ?u \<or> \<not> in_type (TREE_TYPE a) (dwrap ?u (- cst_val a)) \<and> \<not> ?u"
    using force_fit_type_double_val [OF assms, of tgt l h 1 "(ov \<or> TREE_OVERFLOW a) \<and> \<not> ?u"] v by auto
  have "\<not> ?u \<Longrightarrow> ov \<or> \<not> in_type (TREE_TYPE a) (dwrap ?u (- cst_val a)) \<longleftrightarrow> \<not> in_type (TREE_TYPE a) (- cst_val a)"
  proof -
    assume u: "\<not> ?u"
    then have a: "fits_sdval (cst_val a)" "ov \<longleftrightarrow> cst_val a = - (2 ^ 127)"
      using neg_double_overflow [OF n] by (simp_all add: cst_val_def dval_def sdval_fits)
    have "ov \<longleftrightarrow> \<not> dfits ?u (- cst_val a)" using u a by (auto simp: dfits_def fits_sdval_def)
    then show ?thesis using in_type_fits [OF assms, of "- cst_val a"] dwrap_fits [of ?u "- cst_val a"] by auto
  qed
  then show ?thesis
    using t n wrap_type_dwrap [OF plain_typeD(3,4) [OF assms], of "- cst_val a"] by (auto simp: fold_negate_const_def)
qed

lemma dval_not: "dval uns (NOT l) (NOT h) = dwrap uns (NOT (dval uns l h))"
proof (cases uns)
  case False
  have "sdval (NOT l) (NOT h) = NOT (sdval l h)" by (rule bit_eqI) (auto simp: bit_sdval bit_not_iff min_def)
  moreover from this have "fits_sdval (NOT (sdval l h))" by (metis sdval_fits)
  ultimately show ?thesis using False by (simp add: dval_def dwrap_def fits_iff_signed_take_bit)
next
  case True
  have "udval (NOT l) (NOT h) = take_bit 128 (NOT (udval l h))"
    by (rule bit_eqI) (auto simp: bit_udval bit_not_iff bit_take_bit_iff)
  then show ?thesis using True by (simp add: dval_def dwrap_def take_bit_eq_mod)
qed

section \<open>Properties\<close>

text \<open>C1: folding a binary operation of two constants of a type gives the exact integer result
  modulo the type, for sums, differences, products, bit operations, minimum, maximum and the directed
  quotients; the overflow flag is set exactly when an operand's was or, in a signed type, when the
  exact result is out of range.\<close>

theorem int_const_binop_exact:
  assumes "plain_type (TREE_TYPE a)" "TREE_TYPE b = TREE_TYPE a" "code \<in> ring_codes \<union> div_codes"
    and "code \<in> div_codes \<longrightarrow> cst_val b \<noteq> 0" "x = exact_binop code (cst_val a) (cst_val b)"
  shows "\<exists>t. int_const_binop tgt code a b False = Inr (Some t) \<and> TREE_TYPE t = TREE_TYPE a
    \<and> cst_val t = wrap_type (TREE_TYPE a) x
    \<and> (TREE_OVERFLOW t \<longleftrightarrow>
        TREE_OVERFLOW a \<or> TREE_OVERFLOW b \<or> \<not> TYPE_UNSIGNED (TREE_TYPE a) \<and> \<not> in_type (TREE_TYPE a) x)"
proof -
  let ?u = "TYPE_UNSIGNED (TREE_TYPE a)"
  have v: "arg_val ?u a = cst_val a" "arg_val ?u b = cst_val b" using assms(2) by (simp_all add: arg_val_def cst_val_def)
  have "switch_ok ?u x (int_const_switch tgt code a b)"
    using switch_ok_binop [OF assms(3) _ refl, of a b tgt] assms(4,5) v by simp
  then show ?thesis by (rule int_const_binop_ok [OF assms(1) refl])
qed

definition int_type32 :: tree_type where
  "int_type32 = \<lparr>TREE_CODE = INTEGER_TYPE, TYPE_PRECISION = 32, TYPE_UNSIGNED = False, TYPE_IS_SIZETYPE = False, TYPE_MODE = 0\<rparr>"

definition target64 :: target where
  "target64 = \<lparr>SHIFT_COUNT_TRUNCATED = False, POINTER_SIZE = 64\<rparr>"

theorem int_const_binop_exact_witness:
  "\<exists>t. int_const_binop target64 PLUS_EXPR (build_int_cst_wide int_type32 2147483647 0)
        (build_int_cst_wide int_type32 1 0) False = Inr (Some t)
    \<and> cst_val t = - 2147483648 \<and> TREE_OVERFLOW t"
proof -
  have "plain_type int_type32" by (simp add: plain_type_def int_type32_def)
  moreover have "cst_val (build_int_cst_wide int_type32 2147483647 0) = 2147483647" "cst_val (build_int_cst_wide int_type32 1 0) = 1"
    by (simp_all add: cst_val_def build_int_cst_wide_def int_type32_def dval_def sdval_def)
  moreover have "wrap_type int_type32 2147483648 = - 2147483648" "\<not> in_type int_type32 2147483648"
    by (simp_all add: wrap_type_def int_type32_def ext_val_def in_type_def signed_take_bit_eq_take_bit_minus take_bit_eq_mod bit_iff_odd)
  ultimately show ?thesis
    using int_const_binop_exact [of "build_int_cst_wide int_type32 2147483647 0" "build_int_cst_wide int_type32 1 0" PLUS_EXPR 2147483648 target64]
    by (auto simp: build_int_cst_wide_def int_type32_def)
qed

text \<open>the truncating and flooring remainders of constants in range are exact. Their overflow
  flag is an operand's, or that of the most negative 128-bit value divided by \<open>- 1\<close>. Dividing by the
  constant zero is not folded.\<close>

theorem int_const_mod_exact:
  assumes "plain_type (TREE_TYPE a)" "TREE_TYPE b = TREE_TYPE a" "code \<in> {TRUNC_MOD_EXPR, FLOOR_MOD_EXPR}"
    and "in_type (TREE_TYPE a) (cst_val b)"
  shows "if cst_val b = 0 then int_const_binop tgt code a b False = Inr None
    else \<exists>t. int_const_binop tgt code a b False = Inr (Some t)
      \<and> cst_val t = exact_binop code (cst_val a) (cst_val b)
      \<and> (TREE_OVERFLOW t \<longleftrightarrow> TREE_OVERFLOW a \<or> TREE_OVERFLOW b
          \<or> \<not> TYPE_UNSIGNED (TREE_TYPE a) \<and> cst_val a = - (2 ^ 127) \<and> cst_val b = - 1)"
proof (cases "cst_val b = 0")
  case True
  then have z: "TREE_INT_CST_LOW b = 0" "TREE_INT_CST_HIGH b = 0" by (simp_all add: cst_val_def dval_zero_iff)
  then have "\<not> div_shortcut a b" by (simp add: div_shortcut_def)
  with True z show ?thesis by (simp add: int_const_binop_def int_const_switch_mod [OF assms(3)])
next
  case False
  define uns where "uns = TYPE_UNSIGNED (TREE_TYPE a)"
  define x where "x = exact_binop code (cst_val a) (cst_val b)"
  have v: "arg_val uns a = cst_val a" "arg_val uns b = cst_val b" using assms(2) by (simp_all add: arg_val_def cst_val_def uns_def)
  have "TREE_INT_CST_LOW b \<noteq> 0 \<or> TREE_INT_CST_HIGH b \<noteq> 0" using False by (simp add: cst_val_def dval_zero_iff)
  then obtain l h where s: "int_const_switch tgt code a b = Inr (Some (\<not> uns \<and> cst_val a = - (2 ^ 127) \<and> cst_val b = - 1, l, h))"
      "dval uns l h = x"
    using binop_mod [OF assms(3) _ uns_def, of b tgt] unfolding v x_def by blast
  then have fit: "dwrap uns x = x" using dval_fits [of uns l h] by (simp add: dwrap_fits)
  have "\<bar>x\<bar> < \<bar>cst_val b\<bar>"
    using assms(3) c_rem_less [OF False, of "cst_val a"] False pos_mod_bound [of "cst_val b" "cst_val a"] pos_mod_sign [of "cst_val b" "cst_val a"]
      neg_mod_bound [of "cst_val b" "cst_val a"] neg_mod_sign [of "cst_val b" "cst_val a"]
    by (cases "0 < cst_val b") (auto simp: x_def)
  moreover have "0 \<le> x" if uns using s(2) that udval_range(1) [of l h] by (simp add: dval_def)
  ultimately have "in_type (TREE_TYPE a) x" using assms(4) by (auto simp: in_type_def uns_def [symmetric])
  then have "wrap_type (TREE_TYPE a) x = x" "in_type (TREE_TYPE a) (dwrap uns x)"
    using wrap_type_eq_iff plain_typeD(3) [OF assms(1)] fit by auto
  then show ?thesis
    using int_const_binop_tail [OF assms(1) uns_def s(1), of x] s(2) fit False by (auto simp: x_def uns_def)
qed

theorem int_const_mod_exact_witness:
  "\<exists>t. int_const_binop target64 FLOOR_MOD_EXPR (build_int_cst_wide int_type32 (- 7) (- 1))
        (build_int_cst_wide int_type32 3 0) False = Inr (Some t)
    \<and> cst_val t = 2 \<and> \<not> TREE_OVERFLOW t"
proof -
  have "plain_type int_type32" by (simp add: plain_type_def int_type32_def)
  moreover have "cst_val (build_int_cst_wide int_type32 (- 7) (- 1)) = - 7" "cst_val (build_int_cst_wide int_type32 3 0) = 3"
    by (simp_all add: cst_val_def build_int_cst_wide_def int_type32_def dval_def sdval_def)
  moreover have "in_type int_type32 3" by (simp add: int_type32_def in_type_def)
  ultimately show ?thesis
    using int_const_mod_exact [of "build_int_cst_wide int_type32 (- 7) (- 1)" "build_int_cst_wide int_type32 3 0" FLOOR_MOD_EXPR target64]
    by (auto simp: build_int_cst_wide_def)
qed

text \<open>\<open>CEIL_MOD_EXPR\<close> of small non-negative constants takes the remainder of the dividend
  rounded up: it returns \<open>(a + b - 1) mod b\<close>, which is \<open>a - \<lceil>a / b\<rceil> * b\<close> only when \<open>b\<close> is 1, while
  the general path computes the latter.\<close>

theorem ceil_mod_shortcut:
  assumes "div_shortcut a b"
  shows "\<exists>l. int_const_switch tgt CEIL_MOD_EXPR a b = Inr (Some (False, l, 0))
    \<and> uint l = (uint (TREE_INT_CST_LOW a) + uint (TREE_INT_CST_LOW b) - 1) mod uint (TREE_INT_CST_LOW b)"
  using ceil_words [OF div_shortcut_vals(3-5) [OF assms]] assms
  by (simp add: int_const_switch_def Let_def uint64_mod add_diff_eq)

theorem ceil_mod_shortcut_witness:
  "\<exists>l. int_const_switch target64 CEIL_MOD_EXPR (build_int_cst_wide int_type32 7 0) (build_int_cst_wide int_type32 3 0)
      = Inr (Some (False, l, 0)) \<and> uint l = 0 \<and> 7 - rounded_quotient CEIL_MOD_EXPR 7 3 * 3 = - 2"
  using ceil_mod_shortcut [of "build_int_cst_wide int_type32 7 0" "build_int_cst_wide int_type32 3 0" target64]
  by (simp add: div_shortcut_def build_int_cst_wide_def rounded_quotient_def)

text \<open>negating, complementing and converting a constant give the value modulo the target type;
  a negation overflows exactly when the result of a signed type is out of range, a complement never
  does, and a conversion keeps a value the new type can represent.\<close>

theorem fold_unary_const:
  assumes "plain_type (TREE_TYPE a)" "plain_type type" "in_type (TREE_TYPE a) (cst_val a)" "\<not> TREE_OVERFLOW a"
  shows "(\<exists>t. fold_negate_const tgt a (TREE_TYPE a) = Inr t \<and> cst_val t = wrap_type (TREE_TYPE a) (- cst_val a)
      \<and> (TREE_OVERFLOW t \<longleftrightarrow> \<not> TYPE_UNSIGNED (TREE_TYPE a) \<and> \<not> in_type (TREE_TYPE a) (- cst_val a)))
    \<and> (\<exists>t. fold_not_const tgt a (TREE_TYPE a) = Inr t \<and> cst_val t = wrap_type (TREE_TYPE a) (NOT (cst_val a))
      \<and> \<not> TREE_OVERFLOW t)
    \<and> (in_type type (cst_val a) \<longrightarrow> (\<exists>t. fold_convert_const_int_from_int tgt type a = Inr t \<and> cst_val t = cst_val a))"
proof -
  let ?u = "TYPE_UNSIGNED (TREE_TYPE a)"
  have "\<exists>t. fold_not_const tgt a (TREE_TYPE a) = Inr t \<and> cst_val t = wrap_type (TREE_TYPE a) (NOT (cst_val a)) \<and> \<not> TREE_OVERFLOW t"
    using force_fit_type_double_val [OF assms(1), of tgt "NOT (TREE_INT_CST_LOW a)" "NOT (TREE_INT_CST_HIGH a)" 0 False]
      wrap_type_dwrap [OF plain_typeD(3,4) [OF assms(1)], of "NOT (cst_val a)"] assms(4)
    by (auto simp: fold_not_const_def dval_not cst_val_def)
  moreover have "\<exists>t. fold_convert_const_int_from_int tgt type a = Inr t \<and> cst_val t = cst_val a" if "in_type type (cst_val a)"
  proof -
    have "udval (TREE_INT_CST_LOW a) (TREE_INT_CST_HIGH a) = cst_val a mod 2 ^ 128" by (simp only: cst_val_def dval_mod)
    then have "wrap_type type (dval (TYPE_UNSIGNED type) (TREE_INT_CST_LOW a) (TREE_INT_CST_HIGH a)) = cst_val a"
      using dval_dwrap wrap_type_dwrap [OF plain_typeD(3,4) [OF assms(2)]] wrap_type_eq_iff [OF plain_typeD(3) [OF assms(2)]] that by simp
    then show ?thesis
      unfolding fold_convert_const_int_from_int_def Let_def using force_fit_type_double_val [OF assms(2)] by metis
  qed
  ultimately show ?thesis using fold_negate_val [OF assms(1), of tgt] assms(4) by blast
qed

theorem fold_unary_const_witness:
  "\<exists>t. fold_negate_const target64 (build_int_cst_wide int_type32 (- 2147483648) (- 1)) int_type32 = Inr t
    \<and> cst_val t = - 2147483648 \<and> TREE_OVERFLOW t"
proof -
  let ?a = "build_int_cst_wide int_type32 (- 2147483648) (- 1)"
  have "plain_type int_type32" by (simp add: plain_type_def int_type32_def)
  moreover have "cst_val ?a = - 2147483648"
    by (simp add: cst_val_def build_int_cst_wide_def int_type32_def dval_def sdval_def)
  moreover have "wrap_type int_type32 2147483648 = - 2147483648" "\<not> in_type int_type32 2147483648" "in_type int_type32 (- 2147483648)"
    by (simp_all add: wrap_type_def int_type32_def ext_val_def in_type_def signed_take_bit_eq_take_bit_minus take_bit_eq_mod bit_iff_odd)
  moreover have "TREE_TYPE ?a = int_type32" "\<not> TREE_OVERFLOW ?a" "\<not> TYPE_UNSIGNED int_type32"
    by (simp_all add: build_int_cst_wide_def int_type32_def)
  ultimately show ?thesis using fold_unary_const [of ?a int_type32 target64] by auto
qed

text \<open>folding an integer comparison gives the truth of the comparison of the values.\<close>

theorem fold_relational_const_holds:
  assumes "code \<in> {LT_EXPR, LE_EXPR, GT_EXPR, GE_EXPR, EQ_EXPR, NE_EXPR}" "TREE_TYPE b = TREE_TYPE a"
  shows "fold_relational_const trapping code a b =
    Inr (holds code (if cst_val a < cst_val b then Less else if cst_val a = cst_val b then Equal else Greater))"
proof -
  define u where "u = TYPE_UNSIGNED (TREE_TYPE a)"
  have lt: "(if u then INT_CST_LT_UNSIGNED x y else INT_CST_LT x y) \<longleftrightarrow> arg_val u x < arg_val u y" for x y
    by (simp add: INT_CST_LT_UNSIGNED_def INT_CST_LT_def arg_val_def dval_less_lex)
  have eq: "TREE_INT_CST_LOW x = TREE_INT_CST_LOW y \<and> TREE_INT_CST_HIGH x = TREE_INT_CST_HIGH y \<longleftrightarrow> arg_val u x = arg_val u y" for x y
    using udval_inj [of "TREE_INT_CST_LOW x" "TREE_INT_CST_HIGH x" "TREE_INT_CST_LOW y" "TREE_INT_CST_HIGH y"]
    by (metis arg_val_def dval_mod)
  have v: "arg_val u a = cst_val a" "arg_val u b = cst_val b" using assms(2) by (simp_all add: arg_val_def cst_val_def u_def)
  have tb: "TYPE_UNSIGNED (TREE_TYPE b) = u" "TYPE_UNSIGNED (TREE_TYPE a) = u" using assms(2) by (simp_all add: u_def)
  show ?thesis
    using assms(1)
    by (elim insertE emptyE; simp add: fold_relational_const_def Let_def lt eq v tb; linarith?)
qed

theorem fold_relational_const_holds_witness:
  "fold_relational_const True GE_EXPR (build_int_cst_wide int_type32 (- 7) (- 1)) (build_int_cst_wide int_type32 0 0) = Inr False"
  using fold_relational_const_holds [of GE_EXPR "build_int_cst_wide int_type32 0 0" "build_int_cst_wide int_type32 (- 7) (- 1)" True]
  by (simp add: build_int_cst_wide_def cst_val_def int_type32_def dval_def sdval_def)

end
