(* ===== verification/Bit_Set_Interface.thy ===== *)
theory Bit_Set_Interface
  imports Gcc_Prelude
begin

text \<open>
  The contract the compiler's bit sets share: a representation with an invariant, the range of
  indices it has room for, and its contents as a set of naturals; testing, setting and clearing a
  bit. A test may move a search cache, so it returns the representation as well. Clients that
  issue sequences of updates rely on the lemmas proved here once for \<open>sbitmap\<close> and \<open>bitmap\<close>.
\<close>

datatype bit_op = Set_Bit nat | Clear_Bit nat

fun op_index :: "bit_op \<Rightarrow> nat" where
  "op_index (Set_Bit i) = i"
| "op_index (Clear_Bit i) = i"

fun apply_op :: "nat set \<Rightarrow> bit_op \<Rightarrow> nat set" where
  "apply_op S (Set_Bit i) = insert i S"
| "apply_op S (Clear_Bit i) = S - {i}"

fun run_ops :: "('b \<Rightarrow> nat \<Rightarrow> 'b outcome) \<Rightarrow> ('b \<Rightarrow> nat \<Rightarrow> 'b outcome) \<Rightarrow> 'b \<Rightarrow> bit_op list \<Rightarrow> 'b outcome" where
  "run_ops put erase b [] = Inr b"
| "run_ops put erase b (p # ps) =
     (case (case p of Set_Bit i \<Rightarrow> put b i | Clear_Bit i \<Rightarrow> erase b i) of
        Inl e \<Rightarrow> Inl e
      | Inr b \<Rightarrow> run_ops put erase b ps)"

text \<open>Updates of different indices commute on sets.\<close>

lemma apply_op_commute: "op_index p \<noteq> op_index q \<Longrightarrow> apply_op (apply_op S p) q = apply_op (apply_op S q) p"
  by (cases p; cases q) auto

lemma fold_ops_member:
  "i \<in> foldl apply_op S ps \<longleftrightarrow>
     (case filter (\<lambda>p. op_index p = i) (rev ps) of [] \<Rightarrow> i \<in> S | p # _ \<Rightarrow> p = Set_Bit i)"
proof (induction ps rule: rev_induct)
  case (snoc p ps)
  then show ?case by (cases p) auto
qed simp

locale bit_set =
  fixes wf :: "'b \<Rightarrow> bool"
    and room :: "'b \<Rightarrow> nat"
    and elems :: "'b \<Rightarrow> nat set"
    and probe :: "'b \<Rightarrow> nat \<Rightarrow> ('b \<times> bool) outcome"
    and put :: "'b \<Rightarrow> nat \<Rightarrow> 'b outcome"
    and erase :: "'b \<Rightarrow> nat \<Rightarrow> 'b outcome"
  assumes test: "wf b \<Longrightarrow> i < room b \<Longrightarrow>
      \<exists>b'. probe b i = Inr (b', i \<in> elems b) \<and> wf b' \<and> room b' = room b \<and> elems b' = elems b"
    and set: "wf b \<Longrightarrow> i < room b \<Longrightarrow>
      \<exists>b'. put b i = Inr b' \<and> wf b' \<and> room b' = room b \<and> elems b' = insert i (elems b)"
    and clear: "wf b \<Longrightarrow> i < room b \<Longrightarrow>
      \<exists>b'. erase b i = Inr b' \<and> wf b' \<and> room b' = room b \<and> elems b' = elems b - {i}"
begin

lemma run_ops_refine:
  assumes "wf b" "\<forall>p \<in> List.set ps. op_index p < room b"
  shows "\<exists>b'. run_ops put erase b ps = Inr b' \<and> wf b' \<and> room b' = room b
           \<and> elems b' = foldl apply_op (elems b) ps"
  using assms
proof (induction ps arbitrary: b)
  case (Cons p ps)
  obtain b1 where "(case p of Set_Bit i \<Rightarrow> put b i | Clear_Bit i \<Rightarrow> erase b i) = Inr b1"
      "wf b1" "room b1 = room b" "elems b1 = apply_op (elems b) p"
    using Cons.prems set [of b "op_index p"] clear [of b "op_index p"] by (cases p) auto
  with Cons.IH [of b1] Cons.prems show ?case by simp
qed simp

text \<open>What a client reads back: the last update of the index decides.\<close>

lemma test_after_ops:
  assumes "wf b" "\<forall>p \<in> List.set ps. op_index p < room b" "i < room b"
  shows "\<exists>b' b''. run_ops put erase b ps = Inr b' \<and> wf b''
           \<and> probe b' i = Inr (b'', case filter (\<lambda>p. op_index p = i) (rev ps) of [] \<Rightarrow> i \<in> elems b
                                                                      | p # _ \<Rightarrow> p = Set_Bit i)"
proof -
  obtain b' where b': "run_ops put erase b ps = Inr b'" "wf b'" "room b' = room b"
      "elems b' = foldl apply_op (elems b) ps"
    using run_ops_refine [OF assms(1,2)] by blast
  then obtain b'' where "probe b' i = Inr (b'', i \<in> elems b')" "wf b''"
    using test [of b' i] assms(3) by auto
  with b' fold_ops_member [of i "elems b" ps] show ?thesis by auto
qed

end

end
