(* ===== verification/Sbitmap.thy ===== *)
theory Sbitmap
  imports Gcc_Prelude
begin

text \<open>
  Simple bitmaps, \<open>src/gcc/sbitmap.c\<close> and \<open>src/gcc/sbitmap.h\<close>: fixed-size bit vectors of 64-bit
  elements with an optional array of per-element population counts. The C pointers to bitmaps are
  the bitmaps themselves; an operation that writes to \<open>dst\<close> returns the new \<open>dst\<close>. All loops
  are elementwise, so they give the same result when \<open>dst\<close> is also an operand. \<open>unsigned int\<close>
  quantities are natural numbers; the computations that can wrap, \<open>SBITMAP_SET_SIZE\<close> and the bit numbers
  of the iterator, say so, as do the conversions of a bit number to \<open>int\<close>.
  A read or write outside an element array is \<open>Undefined\<close>; \<open>sbitmap_zero\<close>, \<open>sbitmap_ones\<close> and the
  dumps are for bitmaps whose array has the \<open>size\<close> elements that hold \<open>n_bits\<close> bits, which every
  bitmap from \<open>sbitmap_alloc\<close> has.
\<close>

section \<open>Data\<close>

abbreviation SBITMAP_ELT_BITS :: nat where
  "SBITMAP_ELT_BITS \<equiv> 64"

record sbitmap =
  sb_popcount :: "uchar list option"
  sb_n_bits :: nat
  sb_size :: nat
  sb_elms :: "hwi list"

definition SBITMAP_SET_SIZE :: "nat \<Rightarrow> nat" where
  "SBITMAP_SET_SIZE N = ((N + SBITMAP_ELT_BITS - 1) mod 2 ^ 32) div SBITMAP_ELT_BITS"

text \<open>\<open>__builtin_popcountl\<close>, and the table-driven count used with older compilers.\<close>

definition do_popcount :: "hwi \<Rightarrow> nat" where
  "do_popcount w = length (filter (bit w) [0..<SBITMAP_ELT_BITS])"

definition popcount_table :: "nat list" where
  "popcount_table =
    [0, 1, 1, 2, 1, 2, 2, 3, 1, 2, 2, 3, 2, 3, 3, 4, 1, 2, 2, 3, 2, 3, 3, 4,
     2, 3, 3, 4, 3, 4, 4, 5, 1, 2, 2, 3, 2, 3, 3, 4, 2, 3, 3, 4, 3, 4, 4, 5,
     2, 3, 3, 4, 3, 4, 4, 5, 3, 4, 4, 5, 4, 5, 5, 6, 1, 2, 2, 3, 2, 3, 3, 4,
     2, 3, 3, 4, 3, 4, 4, 5, 2, 3, 3, 4, 3, 4, 4, 5, 3, 4, 4, 5, 4, 5, 5, 6,
     2, 3, 3, 4, 3, 4, 4, 5, 3, 4, 4, 5, 4, 5, 5, 6, 3, 4, 4, 5, 4, 5, 5, 6,
     4, 5, 5, 6, 5, 6, 6, 7, 1, 2, 2, 3, 2, 3, 3, 4, 2, 3, 3, 4, 3, 4, 4, 5,
     2, 3, 3, 4, 3, 4, 4, 5, 3, 4, 4, 5, 4, 5, 5, 6, 2, 3, 3, 4, 3, 4, 4, 5,
     3, 4, 4, 5, 4, 5, 5, 6, 3, 4, 4, 5, 4, 5, 5, 6, 4, 5, 5, 6, 5, 6, 6, 7,
     2, 3, 3, 4, 3, 4, 4, 5, 3, 4, 4, 5, 4, 5, 5, 6, 3, 4, 4, 5, 4, 5, 5, 6,
     4, 5, 5, 6, 5, 6, 6, 7, 3, 4, 4, 5, 4, 5, 5, 6, 4, 5, 5, 6, 5, 6, 6, 7,
     4, 5, 5, 6, 5, 6, 6, 7, 5, 6, 6, 7, 6, 7, 7, 8]"

fun elt_popcount_loop :: "hwi \<Rightarrow> nat \<Rightarrow> nat \<Rightarrow> nat" where
  "elt_popcount_loop a 0 ret = ret"
| "elt_popcount_loop a (Suc k) ret =
     elt_popcount_loop a k (ret + popcount_table ! unat (drop_bit (8 * (7 - k)) a AND 0xff))"

definition sbitmap_elt_popcount :: "hwi \<Rightarrow> nat" where
  "sbitmap_elt_popcount a = (if a = 0 then 0 else elt_popcount_loop a 8 0)"

section \<open>Single bits\<close>

definition TEST_BIT :: "sbitmap \<Rightarrow> nat \<Rightarrow> bool outcome" where
  "TEST_BIT bmap bitno =
     (if bitno div SBITMAP_ELT_BITS < length (sb_elms bmap)
      then Inr (drop_bit (bitno mod SBITMAP_ELT_BITS) (sb_elms bmap ! (bitno div SBITMAP_ELT_BITS)) AND 1 = 1)
      else Inl Undefined)"

text \<open>Counts are adjusted by \<open>step\<close> when the bit changes.\<close>

definition adjust_popcount :: "(uchar \<Rightarrow> uchar) \<Rightarrow> nat \<Rightarrow> bool \<Rightarrow> uchar list option \<Rightarrow> uchar list option" where
  "adjust_popcount step k changed = map_option (\<lambda>p. if changed then p[k := step (p ! k)] else p)"

definition SET_BIT :: "sbitmap \<Rightarrow> nat \<Rightarrow> sbitmap outcome" where
  "SET_BIT bmap bitno =
     (case TEST_BIT bmap bitno of
        Inl e \<Rightarrow> Inl e
      | Inr oldbit \<Rightarrow>
          (let k = bitno div SBITMAP_ELT_BITS
           in Inr (bmap\<lparr>sb_popcount := adjust_popcount (\<lambda>c. c + 1) k (\<not> oldbit) (sb_popcount bmap),
                      sb_elms := (sb_elms bmap)[k := sb_elms bmap ! k OR push_bit (bitno mod SBITMAP_ELT_BITS) 1]\<rparr>)))"

definition RESET_BIT :: "sbitmap \<Rightarrow> nat \<Rightarrow> sbitmap outcome" where
  "RESET_BIT bmap bitno =
     (case TEST_BIT bmap bitno of
        Inl e \<Rightarrow> Inl e
      | Inr oldbit \<Rightarrow>
          (let k = bitno div SBITMAP_ELT_BITS
           in Inr (bmap\<lparr>sb_popcount := adjust_popcount (\<lambda>c. c - 1) k oldbit (sb_popcount bmap),
                      sb_elms := (sb_elms bmap)[k := sb_elms bmap ! k AND NOT (push_bit (bitno mod SBITMAP_ELT_BITS) 1)]\<rparr>)))"

section \<open>Allocation and copying\<close>

text \<open>Fresh memory has the contents \<open>garbage\<close>.\<close>

definition sbitmap_alloc :: "(nat \<Rightarrow> hwi) \<Rightarrow> nat \<Rightarrow> sbitmap" where
  "sbitmap_alloc garbage n_elms =
     (let size = SBITMAP_SET_SIZE n_elms
      in \<lparr>sb_popcount = None, sb_n_bits = n_elms, sb_size = size, sb_elms = map garbage [0..<size]\<rparr>)"

definition sbitmap_alloc_with_popcount :: "(nat \<Rightarrow> hwi) \<Rightarrow> (nat \<Rightarrow> uchar) \<Rightarrow> nat \<Rightarrow> sbitmap" where
  "sbitmap_alloc_with_popcount garbage pgarbage n_elms =
     (let bmap = sbitmap_alloc garbage n_elms
      in bmap\<lparr>sb_popcount := Some (map pgarbage [0..<sb_size bmap])\<rparr>)"

text \<open>A mask of the low bits of the last element.\<close>

abbreviation last_mask :: "nat \<Rightarrow> hwi" where
  "last_mask last_bit \<equiv> drop_bit (SBITMAP_ELT_BITS - last_bit) (- 1)"

text \<open>
  \<open>sbitmap_resize\<close>: the realloc keeps the old elements (and never shrinks); the element array
  after it holds \<open>size\<close> elements at least, \<open>garbage\<close> past the old ones.
\<close>

definition resize_storage :: "(nat \<Rightarrow> hwi) \<Rightarrow> (nat \<Rightarrow> uchar) \<Rightarrow> sbitmap \<Rightarrow> nat \<Rightarrow> sbitmap" where
  "resize_storage garbage pgarbage bmap new_size =
     (if new_size > sb_size bmap then
        bmap\<lparr>sb_elms := sb_elms bmap @ map garbage [sb_size bmap..<new_size],
             sb_popcount := map_option (\<lambda>p. p @ map pgarbage [sb_size bmap..<new_size]) (sb_popcount bmap)\<rparr>
      else bmap)"

text \<open>
  The memory the function may touch: a byte count that would be negative and an element before
  the array are undefined. Bitmaps whose \<open>size\<close> fits their \<open>n_bits\<close> never meet these cases.
\<close>

definition resize_defined :: "sbitmap \<Rightarrow> nat \<Rightarrow> bool \<Rightarrow> bool" where
  "resize_defined bmap n_elms def \<longleftrightarrow>
     (let size = SBITMAP_SET_SIZE n_elms; old_size = sb_size bmap
      in old_size \<le> length (sb_elms bmap)
         \<and> (n_elms > sb_n_bits bmap \<longrightarrow> old_size \<le> size \<and> (def \<and> sb_n_bits bmap mod SBITMAP_ELT_BITS \<noteq> 0 \<longrightarrow> old_size \<noteq> 0))
         \<and> (n_elms mod SBITMAP_ELT_BITS \<noteq> 0 \<longrightarrow> size \<noteq> 0))"

definition sbitmap_resize :: "(nat \<Rightarrow> hwi) \<Rightarrow> (nat \<Rightarrow> uchar) \<Rightarrow> sbitmap \<Rightarrow> nat \<Rightarrow> bool \<Rightarrow> sbitmap outcome" where
  "sbitmap_resize garbage pgarbage bmap n_elms def =
     (if \<not> resize_defined bmap n_elms def then Inl Undefined
      else
        (let size = SBITMAP_SET_SIZE n_elms;
             old_size = sb_size bmap;
             bmap = resize_storage garbage pgarbage bmap size;
             bmap =
               (if n_elms > sb_n_bits bmap then
                  (if def then
                     (let elms = map (\<lambda>i. if old_size \<le> i \<and> i < size then - 1 else sb_elms bmap ! i) [0..<length (sb_elms bmap)];
                          last_bit = sb_n_bits bmap mod SBITMAP_ELT_BITS;
                          elms = (if last_bit \<noteq> 0
                                  then elms[old_size - 1 := elms ! (old_size - 1) OR NOT (last_mask last_bit)] else elms);
                          last_bit = n_elms mod SBITMAP_ELT_BITS;
                          elms = (if last_bit \<noteq> 0
                                  then elms[size - 1 := elms ! (size - 1) AND last_mask last_bit] else elms)
                      in bmap\<lparr>sb_elms := elms\<rparr>)
                   else
                     bmap\<lparr>sb_elms := map (\<lambda>i. if old_size \<le> i \<and> i < size then 0 else sb_elms bmap ! i) [0..<length (sb_elms bmap)],
                          sb_popcount := map_option
                            (\<lambda>p. map (\<lambda>i. if old_size \<le> i \<and> i < size then 0 else p ! i) [0..<length p]) (sb_popcount bmap)\<rparr>)
                else if n_elms < sb_n_bits bmap then
                  (let last_bit = n_elms mod SBITMAP_ELT_BITS
                   in if last_bit \<noteq> 0 then
                        (let w = sb_elms bmap ! (size - 1) AND last_mask last_bit
                         in bmap\<lparr>sb_elms := (sb_elms bmap)[size - 1 := w],
                                 sb_popcount := map_option (\<lambda>p. p[size - 1 := word_of_nat (do_popcount w)]) (sb_popcount bmap)\<rparr>)
                      else bmap)
                else bmap)
         in Inr (bmap\<lparr>sb_n_bits := n_elms, sb_size := size\<rparr>)))"

text \<open>\<open>sbitmap_realloc\<close> leaves \<open>size\<close> alone when the storage is large enough.\<close>

definition sbitmap_realloc :: "(nat \<Rightarrow> hwi) \<Rightarrow> sbitmap \<Rightarrow> nat \<Rightarrow> sbitmap" where
  "sbitmap_realloc garbage src n_elms =
     (let size = SBITMAP_SET_SIZE n_elms
      in if sb_size src \<ge> size then src\<lparr>sb_n_bits := n_elms\<rparr>
         else src\<lparr>sb_elms := sb_elms src @ map garbage [sb_size src..<size], sb_n_bits := n_elms, sb_size := size\<rparr>)"

text \<open>A vector of bitmaps; their elements are in one block of memory.\<close>

definition sbitmap_vector_alloc :: "(nat \<Rightarrow> nat \<Rightarrow> hwi) \<Rightarrow> nat \<Rightarrow> nat \<Rightarrow> sbitmap list" where
  "sbitmap_vector_alloc garbage n_vecs n_elms = map (\<lambda>i. sbitmap_alloc (garbage i) n_elms) [0..<n_vecs]"

definition sbitmap_copy_n :: "sbitmap \<Rightarrow> sbitmap \<Rightarrow> nat \<Rightarrow> sbitmap outcome" where
  "sbitmap_copy_n dst src n =
     (if n > length (sb_elms src) \<or> n > length (sb_elms dst) then Inl Undefined
      else
        (let dst = dst\<lparr>sb_elms := take n (sb_elms src) @ drop n (sb_elms dst)\<rparr>
         in case sb_popcount dst of
              None \<Rightarrow> Inr dst
            | Some dp \<Rightarrow>
                (case sb_popcount src of
                   None \<Rightarrow> Inl Undefined
                 | Some sp \<Rightarrow> (if n > length sp \<or> n > length dp then Inl Undefined
                              else Inr (dst\<lparr>sb_popcount := Some (take n sp @ drop n dp)\<rparr>)))))"

definition sbitmap_copy :: "sbitmap \<Rightarrow> sbitmap \<Rightarrow> sbitmap outcome" where
  "sbitmap_copy dst src = sbitmap_copy_n dst src (sb_size dst)"

section \<open>Whole-bitmap tests and fills\<close>

definition sbitmap_equal :: "sbitmap \<Rightarrow> sbitmap \<Rightarrow> bool outcome" where
  "sbitmap_equal a b =
     (if sb_size a > length (sb_elms a) \<or> sb_size a > length (sb_elms b) then Inl Undefined
      else Inr (take (sb_size a) (sb_elms a) = take (sb_size a) (sb_elms b)))"

fun empty_loop :: "hwi list \<Rightarrow> nat \<Rightarrow> nat \<Rightarrow> bool outcome" where
  "empty_loop elms i 0 = Inr True"
| "empty_loop elms i (Suc k) =
     (if i \<ge> length elms then Inl Undefined
      else if elms ! i \<noteq> 0 then Inr False
      else empty_loop elms (Suc i) k)"

definition sbitmap_empty_p :: "sbitmap \<Rightarrow> bool outcome" where
  "sbitmap_empty_p bmap = empty_loop (sb_elms bmap) 0 (sb_size bmap)"

text \<open>
  \<open>(1 << n) - 1\<close> is an \<open>int\<close> expression: shifting 1 by 31 or more is undefined.
\<close>

definition int_mask :: "nat \<Rightarrow> hwi outcome" where
  "int_mask n = (if n \<ge> 31 then Inl Undefined else Inr (push_bit n 1 - 1))"

definition sbitmap_range_empty_p :: "sbitmap \<Rightarrow> nat \<Rightarrow> nat \<Rightarrow> bool outcome" where
  "sbitmap_range_empty_p bmap start n =
     (let i = start div SBITMAP_ELT_BITS; shift = start mod SBITMAP_ELT_BITS
      in if sb_n_bits bmap < start + n then Inl Ice
         else if i \<ge> length (sb_elms bmap) then Inl Undefined
         else
           (let elm = drop_bit shift (sb_elms bmap ! i)
            in if shift + n \<le> SBITMAP_ELT_BITS then
                 (if shift + n < SBITMAP_ELT_BITS then map_sum id (\<lambda>m. elm AND m = 0) (int_mask n)
                  else Inr (elm = 0))
               else if elm \<noteq> 0 then Inr False
               else
                 (let n = n - (SBITMAP_ELT_BITS - shift); i = i + 1;
                      full = n div SBITMAP_ELT_BITS; rest = n mod SBITMAP_ELT_BITS
                  in case empty_loop (sb_elms bmap) i full of
                       Inl e \<Rightarrow> Inl e
                     | Inr False \<Rightarrow> Inr False
                     | Inr True \<Rightarrow>
                         (if rest = 0 then Inr True
                          else if i + full \<ge> length (sb_elms bmap) then Inl Undefined
                          else map_sum id (\<lambda>m. sb_elms bmap ! (i + full) AND m = 0) (int_mask rest)))))"

definition sbitmap_zero :: "sbitmap \<Rightarrow> sbitmap" where
  "sbitmap_zero bmap =
     bmap\<lparr>sb_elms := replicate (sb_size bmap) 0 @ drop (sb_size bmap) (sb_elms bmap),
          sb_popcount := map_option (\<lambda>p. replicate (sb_size bmap) 0 @ drop (sb_size bmap) p) (sb_popcount bmap)\<rparr>"

definition sbitmap_ones :: "sbitmap \<Rightarrow> sbitmap" where
  "sbitmap_ones bmap =
     (let n = sb_size bmap; last_bit = sb_n_bits bmap mod SBITMAP_ELT_BITS;
          bmap = bmap\<lparr>sb_elms := replicate n (- 1) @ drop n (sb_elms bmap),
                      sb_popcount := map_option (\<lambda>p. replicate n (- 1) @ drop n p) (sb_popcount bmap)\<rparr>
      in if last_bit \<noteq> 0 then
           bmap\<lparr>sb_elms := (sb_elms bmap)[n - 1 := last_mask last_bit],
                sb_popcount := map_option (\<lambda>p. p[n - 1 := word_of_nat (do_popcount (last_mask last_bit))]) (sb_popcount bmap)\<rparr>
         else bmap)"

definition sbitmap_vector_zero :: "sbitmap list \<Rightarrow> nat \<Rightarrow> sbitmap list" where
  "sbitmap_vector_zero bmap n_vecs = map sbitmap_zero (take n_vecs bmap) @ drop n_vecs bmap"

definition sbitmap_vector_ones :: "sbitmap list \<Rightarrow> nat \<Rightarrow> sbitmap list" where
  "sbitmap_vector_ones bmap n_vecs = map sbitmap_ones (take n_vecs bmap) @ drop n_vecs bmap"

section \<open>Set operations\<close>

text \<open>
  The three elementwise loops: \<open>tmp i\<close> is the new element \<open>i\<close>, computed from the operands;
  \<open>cg_loop\<close> collects the changed bits, \<open>popcount_loop\<close> updates the counts of changed elements.
\<close>

fun plain_loop :: "(nat \<Rightarrow> hwi) \<Rightarrow> nat \<Rightarrow> nat \<Rightarrow> hwi list \<Rightarrow> hwi list" where
  "plain_loop tmp i 0 dst = dst"
| "plain_loop tmp i (Suc k) dst = plain_loop tmp (Suc i) k (dst[i := tmp i])"

fun cg_loop :: "(nat \<Rightarrow> hwi) \<Rightarrow> nat \<Rightarrow> nat \<Rightarrow> hwi list \<Rightarrow> hwi \<Rightarrow> hwi list \<times> hwi" where
  "cg_loop tmp i 0 dst changed = (dst, changed)"
| "cg_loop tmp i (Suc k) dst changed =
     cg_loop tmp (Suc i) k (dst[i := tmp i]) (changed OR (dst ! i XOR tmp i))"

fun popcount_loop :: "(nat \<Rightarrow> hwi) \<Rightarrow> nat \<Rightarrow> nat \<Rightarrow> hwi list \<Rightarrow> uchar list \<Rightarrow> hwi list \<times> uchar list" where
  "popcount_loop tmp i 0 dst p = (dst, p)"
| "popcount_loop tmp i (Suc k) dst p =
     popcount_loop tmp (Suc i) k (dst[i := tmp i])
       (if dst ! i XOR tmp i \<noteq> 0 then p[i := word_of_nat (do_popcount (tmp i))] else p)"

text \<open>The operands must have the elements of \<open>dst\<close>.\<close>

definition covers :: "sbitmap \<Rightarrow> sbitmap list \<Rightarrow> bool" where
  "covers dst srcs \<longleftrightarrow> sb_size dst \<le> length (sb_elms dst) \<and> (\<forall>s \<in> set srcs. sb_size dst \<le> length (sb_elms s))"

definition plain_op :: "sbitmap \<Rightarrow> sbitmap list \<Rightarrow> (nat \<Rightarrow> hwi) \<Rightarrow> sbitmap outcome" where
  "plain_op dst srcs tmp =
     (if covers dst srcs then Inr (dst\<lparr>sb_elms := plain_loop tmp 0 (sb_size dst) (sb_elms dst)\<rparr>) else Inl Undefined)"

definition cg_op :: "sbitmap \<Rightarrow> sbitmap list \<Rightarrow> (nat \<Rightarrow> hwi) \<Rightarrow> (sbitmap \<times> bool) outcome" where
  "cg_op dst srcs tmp =
     (if sb_popcount dst \<noteq> None then Inl Ice
      else if \<not> covers dst srcs then Inl Undefined
      else (let (elms, changed) = cg_loop tmp 0 (sb_size dst) (sb_elms dst) 0
            in Inr (dst\<lparr>sb_elms := elms\<rparr>, changed \<noteq> 0)))"

definition popcount_op :: "sbitmap \<Rightarrow> sbitmap list \<Rightarrow> (nat \<Rightarrow> hwi) \<Rightarrow> sbitmap outcome" where
  "popcount_op dst srcs tmp =
     (case sb_popcount dst of
        None \<Rightarrow> plain_op dst srcs tmp
      | Some p \<Rightarrow>
          (if \<not> covers dst srcs \<or> length p < sb_size dst then Inl Undefined
           else (let (elms, p) = popcount_loop tmp 0 (sb_size dst) (sb_elms dst) p
                 in Inr (dst\<lparr>sb_elms := elms, sb_popcount := Some p\<rparr>))))"

definition sbitmap_union_of_diff_cg :: "sbitmap \<Rightarrow> sbitmap \<Rightarrow> sbitmap \<Rightarrow> sbitmap \<Rightarrow> (sbitmap \<times> bool) outcome" where
  "sbitmap_union_of_diff_cg dst a b c =
     cg_op dst [a, b, c] (\<lambda>i. sb_elms a ! i OR (sb_elms b ! i AND NOT (sb_elms c ! i)))"

definition sbitmap_union_of_diff :: "sbitmap \<Rightarrow> sbitmap \<Rightarrow> sbitmap \<Rightarrow> sbitmap \<Rightarrow> sbitmap outcome" where
  "sbitmap_union_of_diff dst a b c =
     (if sb_popcount dst \<noteq> None \<or> sb_popcount a \<noteq> None \<or> sb_popcount b \<noteq> None \<or> sb_popcount c \<noteq> None then Inl Ice
      else plain_op dst [a, b, c] (\<lambda>i. sb_elms a ! i OR (sb_elms b ! i AND NOT (sb_elms c ! i))))"

definition sbitmap_not :: "sbitmap \<Rightarrow> sbitmap \<Rightarrow> sbitmap outcome" where
  "sbitmap_not dst src =
     (if sb_popcount dst \<noteq> None then Inl Ice
      else case plain_op dst [src] (\<lambda>i. NOT (sb_elms src ! i)) of
        Inl e \<Rightarrow> Inl e
      | Inr dst \<Rightarrow>
          (let n = sb_size dst; last_bit = sb_n_bits src mod SBITMAP_ELT_BITS
           in if last_bit = 0 then Inr dst
              else if n = 0 then Inl Undefined
              else Inr (dst\<lparr>sb_elms := (sb_elms dst)[n - 1 := sb_elms dst ! (n - 1) AND last_mask last_bit]\<rparr>)))"

text \<open>\<open>same\<close> tells whether \<open>dst\<close> and \<open>a\<close> are the same bitmap, the code's \<open>dst != a\<close> negated.\<close>

definition sbitmap_difference :: "bool \<Rightarrow> sbitmap \<Rightarrow> sbitmap \<Rightarrow> sbitmap \<Rightarrow> sbitmap outcome" where
  "sbitmap_difference same dst a b =
     (if sb_popcount dst \<noteq> None then Inl Ice
      else if sb_size a < sb_size dst then Inl Ice
      else
        (let dst_size = sb_size dst; min_size = min (sb_size b) dst_size
         in if dst_size > length (sb_elms dst) \<or> dst_size > length (sb_elms a) \<or> min_size > length (sb_elms b)
            then Inl Undefined
            else
              (let elms = plain_loop (\<lambda>i. sb_elms a ! i AND NOT (sb_elms b ! i)) 0 min_size (sb_elms dst);
                   elms = (if \<not> same \<and> min_size \<noteq> dst_size
                           then plain_loop (\<lambda>i. sb_elms a ! i) min_size (dst_size - min_size) elms else elms)
               in Inr (dst\<lparr>sb_elms := elms\<rparr>))))"

fun common_loop :: "hwi list \<Rightarrow> hwi list \<Rightarrow> nat \<Rightarrow> nat \<Rightarrow> bool" where
  "common_loop ap bp i 0 = False"
| "common_loop ap bp i (Suc k) = (if ap ! i AND bp ! i \<noteq> 0 then True else common_loop ap bp (Suc i) k)"

definition sbitmap_any_common_bits :: "sbitmap \<Rightarrow> sbitmap \<Rightarrow> bool outcome" where
  "sbitmap_any_common_bits a b =
     (let n = min (sb_size a) (sb_size b)
      in if n > length (sb_elms a) \<or> n > length (sb_elms b) then Inl Undefined
         else Inr (common_loop (sb_elms a) (sb_elms b) 0 n))"

definition sbitmap_a_and_b_cg :: "sbitmap \<Rightarrow> sbitmap \<Rightarrow> sbitmap \<Rightarrow> (sbitmap \<times> bool) outcome" where
  "sbitmap_a_and_b_cg dst a b = cg_op dst [a, b] (\<lambda>i. sb_elms a ! i AND sb_elms b ! i)"

definition sbitmap_a_and_b :: "sbitmap \<Rightarrow> sbitmap \<Rightarrow> sbitmap \<Rightarrow> sbitmap outcome" where
  "sbitmap_a_and_b dst a b = popcount_op dst [a, b] (\<lambda>i. sb_elms a ! i AND sb_elms b ! i)"

definition sbitmap_a_xor_b_cg :: "sbitmap \<Rightarrow> sbitmap \<Rightarrow> sbitmap \<Rightarrow> (sbitmap \<times> bool) outcome" where
  "sbitmap_a_xor_b_cg dst a b = cg_op dst [a, b] (\<lambda>i. sb_elms a ! i XOR sb_elms b ! i)"

definition sbitmap_a_xor_b :: "sbitmap \<Rightarrow> sbitmap \<Rightarrow> sbitmap \<Rightarrow> sbitmap outcome" where
  "sbitmap_a_xor_b dst a b = popcount_op dst [a, b] (\<lambda>i. sb_elms a ! i XOR sb_elms b ! i)"

definition sbitmap_a_or_b_cg :: "sbitmap \<Rightarrow> sbitmap \<Rightarrow> sbitmap \<Rightarrow> (sbitmap \<times> bool) outcome" where
  "sbitmap_a_or_b_cg dst a b = cg_op dst [a, b] (\<lambda>i. sb_elms a ! i OR sb_elms b ! i)"

definition sbitmap_a_or_b :: "sbitmap \<Rightarrow> sbitmap \<Rightarrow> sbitmap \<Rightarrow> sbitmap outcome" where
  "sbitmap_a_or_b dst a b = popcount_op dst [a, b] (\<lambda>i. sb_elms a ! i OR sb_elms b ! i)"

fun subset_loop :: "hwi list \<Rightarrow> hwi list \<Rightarrow> nat \<Rightarrow> nat \<Rightarrow> bool outcome" where
  "subset_loop ap bp i 0 = Inr True"
| "subset_loop ap bp i (Suc k) =
     (if i \<ge> length ap \<or> i \<ge> length bp then Inl Undefined
      else if ap ! i OR bp ! i \<noteq> bp ! i then Inr False
      else subset_loop ap bp (Suc i) k)"

definition sbitmap_a_subset_b_p :: "sbitmap \<Rightarrow> sbitmap \<Rightarrow> bool outcome" where
  "sbitmap_a_subset_b_p a b = subset_loop (sb_elms a) (sb_elms b) 0 (sb_size a)"

definition sbitmap_a_or_b_and_c_cg :: "sbitmap \<Rightarrow> sbitmap \<Rightarrow> sbitmap \<Rightarrow> sbitmap \<Rightarrow> (sbitmap \<times> bool) outcome" where
  "sbitmap_a_or_b_and_c_cg dst a b c =
     cg_op dst [a, b, c] (\<lambda>i. sb_elms a ! i OR (sb_elms b ! i AND sb_elms c ! i))"

definition sbitmap_a_or_b_and_c :: "sbitmap \<Rightarrow> sbitmap \<Rightarrow> sbitmap \<Rightarrow> sbitmap \<Rightarrow> sbitmap outcome" where
  "sbitmap_a_or_b_and_c dst a b c =
     (if sb_popcount dst \<noteq> None then Inl Ice
      else plain_op dst [a, b, c] (\<lambda>i. sb_elms a ! i OR (sb_elms b ! i AND sb_elms c ! i)))"

definition sbitmap_a_and_b_or_c_cg :: "sbitmap \<Rightarrow> sbitmap \<Rightarrow> sbitmap \<Rightarrow> sbitmap \<Rightarrow> (sbitmap \<times> bool) outcome" where
  "sbitmap_a_and_b_or_c_cg dst a b c =
     cg_op dst [a, b, c] (\<lambda>i. sb_elms a ! i AND (sb_elms b ! i OR sb_elms c ! i))"

definition sbitmap_a_and_b_or_c :: "sbitmap \<Rightarrow> sbitmap \<Rightarrow> sbitmap \<Rightarrow> sbitmap \<Rightarrow> sbitmap outcome" where
  "sbitmap_a_and_b_or_c dst a b c =
     plain_op dst [a, b, c] (\<lambda>i. sb_elms a ! i AND (sb_elms b ! i OR sb_elms c ! i))"


section \<open>Meets over the flow graph\<close>

text \<open>
  The edges of block \<open>bb\<close> are a list: \<open>None\<close> for an edge to \<open>EXIT_BLOCK_PTR\<close> (from
  \<open>ENTRY_BLOCK_PTR\<close> for predecessors), \<open>Some k\<close> for one to block \<open>k\<close>. The four functions
  differ in the direction of the edges, which is the caller's choice of list, and in the meet.
  The first loop copies the bitmap of the first usable edge; \<open>meet_rest\<close> is the second.
\<close>

fun meet_rest :: "(hwi \<Rightarrow> hwi \<Rightarrow> hwi) \<Rightarrow> sbitmap list \<Rightarrow> sbitmap \<Rightarrow> nat option list \<Rightarrow> sbitmap outcome" where
  "meet_rest f src dst [] = Inr dst"
| "meet_rest f src dst (None # es) = meet_rest f src dst es"
| "meet_rest f src dst (Some k # es) =
     (if k \<ge> length src then Inl Undefined
      else case plain_op dst [src ! k] (\<lambda>i. f (sb_elms dst ! i) (sb_elms (src ! k) ! i)) of
             Inl e \<Rightarrow> Inl e
           | Inr dst \<Rightarrow> meet_rest f src dst es)"

fun meet_edges :: "(hwi \<Rightarrow> hwi \<Rightarrow> hwi) \<Rightarrow> sbitmap list \<Rightarrow> sbitmap \<Rightarrow> nat option list \<Rightarrow> sbitmap outcome option" where
  "meet_edges f src dst [] = None"
| "meet_edges f src dst (None # es) = meet_edges f src dst es"
| "meet_edges f src dst (Some k # es) =
     Some (if k \<ge> length src then Inl Undefined
           else case sbitmap_copy dst (src ! k) of Inl e \<Rightarrow> Inl e | Inr dst \<Rightarrow> meet_rest f src dst es)"

text \<open>
  The intersections test \<open>e == 0\<close>, which holds only for a block without edges: when every edge
  is skipped, \<open>dst\<close> keeps its old contents.
\<close>

definition sbitmap_intersection_of :: "sbitmap \<Rightarrow> sbitmap list \<Rightarrow> nat option list \<Rightarrow> sbitmap outcome" where
  "sbitmap_intersection_of dst src edges =
     (if sb_popcount dst \<noteq> None then Inl Ice
      else case meet_edges (AND) src dst edges of
             Some r \<Rightarrow> r
           | None \<Rightarrow> Inr (if edges = [] then sbitmap_ones dst else dst))"

definition sbitmap_intersection_of_succs :: "sbitmap \<Rightarrow> sbitmap list \<Rightarrow> (nat \<Rightarrow> nat option list) \<Rightarrow> nat \<Rightarrow> sbitmap outcome" where
  "sbitmap_intersection_of_succs dst src succs bb = sbitmap_intersection_of dst src (succs bb)"

definition sbitmap_intersection_of_preds :: "sbitmap \<Rightarrow> sbitmap list \<Rightarrow> (nat \<Rightarrow> nat option list) \<Rightarrow> nat \<Rightarrow> sbitmap outcome" where
  "sbitmap_intersection_of_preds dst src preds bb = sbitmap_intersection_of dst src (preds bb)"

definition sbitmap_union_of :: "sbitmap \<Rightarrow> sbitmap list \<Rightarrow> nat option list \<Rightarrow> sbitmap outcome" where
  "sbitmap_union_of dst src edges =
     (if sb_popcount dst \<noteq> None then Inl Ice
      else case meet_edges (OR) src dst edges of
             Some r \<Rightarrow> r
           | None \<Rightarrow> Inr (sbitmap_zero dst))"

definition sbitmap_union_of_succs :: "sbitmap \<Rightarrow> sbitmap list \<Rightarrow> (nat \<Rightarrow> nat option list) \<Rightarrow> nat \<Rightarrow> sbitmap outcome" where
  "sbitmap_union_of_succs dst src succs bb = sbitmap_union_of dst src (succs bb)"

definition sbitmap_union_of_preds :: "sbitmap \<Rightarrow> sbitmap list \<Rightarrow> (nat \<Rightarrow> nat option list) \<Rightarrow> nat \<Rightarrow> sbitmap outcome" where
  "sbitmap_union_of_preds dst src preds bb = sbitmap_union_of dst src (preds bb)"

section \<open>Iteration\<close>

record sbitmap_iterator =
  it_ptr :: "hwi list"
  it_size :: nat
  it_word_num :: nat
  it_bit_num :: nat
  it_word :: hwi

definition sbitmap_iter_init :: "sbitmap \<Rightarrow> nat \<Rightarrow> sbitmap_iterator outcome" where
  "sbitmap_iter_init bmp mn =
     (let word_num = mn div SBITMAP_ELT_BITS;
          i = \<lparr>it_ptr = sb_elms bmp, it_size = sb_size bmp, it_word_num = word_num, it_bit_num = mn, it_word = 0\<rparr>
      in if word_num \<ge> sb_size bmp then Inr i
         else if word_num \<ge> length (sb_elms bmp) then Inl Undefined
         else Inr (i\<lparr>it_word := drop_bit (mn mod SBITMAP_ELT_BITS) (sb_elms bmp ! word_num)\<rparr>))"

text \<open>Skipping zero words: \<open>False\<close> at the end of the bitmap.\<close>

partial_function (option) iter_skip_words :: "sbitmap_iterator \<Rightarrow> (bool \<times> sbitmap_iterator) search" where
  "iter_skip_words i =
     (if it_word i \<noteq> 0 then Some (Inr (True, i))
      else
        (let i = i\<lparr>it_word_num := (it_word_num i + 1) mod 2 ^ 32\<rparr>
         in if it_word_num i \<ge> it_size i then Some (Inr (False, i))
            else if it_word_num i \<ge> length (it_ptr i) then Some (Inl Undefined)
            else iter_skip_words (i\<lparr>it_bit_num := (it_word_num i * SBITMAP_ELT_BITS) mod 2 ^ 32,
                                    it_word := it_ptr i ! it_word_num i\<rparr>)))"

declare iter_skip_words.simps [code]

text \<open>Skipping zero bits of a word; on a zero word the loop would never end.\<close>

partial_function (option) iter_skip_bits :: "hwi \<Rightarrow> nat \<Rightarrow> (hwi \<times> nat) option" where
  "iter_skip_bits word bit_num =
     (if word AND 1 = 0 then iter_skip_bits (drop_bit 1 word) ((bit_num + 1) mod 2 ^ 32) else Some (word, bit_num))"

declare iter_skip_bits.simps [code]

definition sbitmap_iter_cond :: "sbitmap_iterator \<Rightarrow> (nat option \<times> sbitmap_iterator) search" where
  "sbitmap_iter_cond i =
     and_then (iter_skip_words i) (\<lambda>(more, i).
       if \<not> more then Some (Inr (None, i))
       else
         (case iter_skip_bits (it_word i) (it_bit_num i) of
            None \<Rightarrow> None
          | Some (word, bit_num) \<Rightarrow> Some (Inr (Some bit_num, i\<lparr>it_word := word, it_bit_num := bit_num\<rparr>))))"

definition sbitmap_iter_next :: "sbitmap_iterator \<Rightarrow> sbitmap_iterator" where
  "sbitmap_iter_next i = i\<lparr>it_word := drop_bit 1 (it_word i), it_bit_num := (it_bit_num i + 1) mod 2 ^ 32\<rparr>"

text \<open>The loop \<open>EXECUTE_IF_SET_IN_SBITMAP\<close>, collecting the values of \<open>N\<close>.\<close>

partial_function (option) execute_if_set :: "sbitmap_iterator \<Rightarrow> nat list \<Rightarrow> nat list search" where
  "execute_if_set i ns =
     (case sbitmap_iter_cond i of
        None \<Rightarrow> None
      | Some (Inl e) \<Rightarrow> Some (Inl e)
      | Some (Inr (None, i)) \<Rightarrow> Some (Inr ns)
      | Some (Inr (Some n, i)) \<Rightarrow> execute_if_set (sbitmap_iter_next i) (ns @ [n]))"

declare execute_if_set.simps [code]

definition EXECUTE_IF_SET_IN_SBITMAP :: "sbitmap \<Rightarrow> nat \<Rightarrow> nat list search" where
  "EXECUTE_IF_SET_IN_SBITMAP bmap mn = and_then (Some (sbitmap_iter_init bmap mn)) (\<lambda>i. execute_if_set i [])"

text \<open>The conversion of an \<open>unsigned int\<close> to the \<open>int\<close> that is returned.\<close>

definition int_of_unsigned :: "nat \<Rightarrow> int" where
  "int_of_unsigned n = sint (of_nat n :: uint32)"

text \<open>The first bit: the loop body returns at once.\<close>

definition sbitmap_first_set_bit :: "sbitmap \<Rightarrow> int search" where
  "sbitmap_first_set_bit bmap =
     and_then (Some (sbitmap_iter_init bmap 0)) (\<lambda>i.
     and_then (sbitmap_iter_cond i) (\<lambda>(n, i).
       Some (Inr (case n of None \<Rightarrow> - 1 | Some n \<Rightarrow> int_of_unsigned n))))"

text \<open>The inner loop of \<open>sbitmap_last_set_bit\<close>; the mask is bit \<open>k - 1\<close>.\<close>

fun last_bit_loop :: "hwi \<Rightarrow> nat \<Rightarrow> nat option" where
  "last_bit_loop word 0 = None"
| "last_bit_loop word (Suc k) = (if word AND push_bit k 1 \<noteq> 0 then Some k else last_bit_loop word k)"

fun last_word_loop :: "hwi list \<Rightarrow> nat \<Rightarrow> int outcome" where
  "last_word_loop ptr 0 = Inr (- 1)"
| "last_word_loop ptr (Suc i) =
     (if i \<ge> length ptr then Inl Undefined
      else if ptr ! i \<noteq> 0 then
        (case last_bit_loop (ptr ! i) SBITMAP_ELT_BITS of
           None \<Rightarrow> Inl Undefined
         | Some k \<Rightarrow> Inr (int_of_unsigned (i * SBITMAP_ELT_BITS + k)))
      else last_word_loop ptr i)"

text \<open>The counter is an \<open>int\<close>: from a larger size it starts negative.\<close>

definition sbitmap_last_set_bit :: "sbitmap \<Rightarrow> int outcome" where
  "sbitmap_last_set_bit bmap = last_word_loop (sb_elms bmap) (if sb_size bmap \<le> 2 ^ 31 then sb_size bmap else 0)"

section \<open>Output\<close>

text \<open>One bit of \<open>dump_sbitmap\<close>, with the separator before every tenth.\<close>

definition dump_bit :: "sbitmap \<Rightarrow> nat \<Rightarrow> string" where
  "dump_bit bmap n =
     (if n \<noteq> 0 \<and> n mod 10 = 0 then '' '' else [])
     @ (if sb_elms bmap ! (n div SBITMAP_ELT_BITS) AND push_bit (n mod SBITMAP_ELT_BITS) 1 \<noteq> 0 then ''1'' else ''0'')"

definition dump_sbitmap :: "sbitmap \<Rightarrow> string" where
  "dump_sbitmap bmap =
     ''  '' @ concat (map (dump_bit bmap) [0..<min (sb_size bmap * SBITMAP_ELT_BITS) (sb_n_bits bmap)]) @ [CHR 0x0A]"

fun dump_file_loop :: "sbitmap \<Rightarrow> nat \<Rightarrow> nat \<Rightarrow> nat \<Rightarrow> string outcome" where
  "dump_file_loop bmap i 0 pos = Inr []"
| "dump_file_loop bmap i (Suc k) pos =
     (case TEST_BIT bmap i of
        Inl e \<Rightarrow> Inl e
      | Inr False \<Rightarrow> dump_file_loop bmap (Suc i) k pos
      | Inr True \<Rightarrow>
          (let (nl, pos) = (if pos > 70 then ([CHR 0x0A, CHR '' '', CHR '' ''], 0) else ([], pos));
               pos = pos + 2 + of_bool (i \<ge> 10) + of_bool (i \<ge> 100) + of_bool (i \<ge> 1000)
           in map_sum id (\<lambda>s. nl @ dec_string i @ '' '' @ s) (dump_file_loop bmap (Suc i) k pos)))"

definition dump_sbitmap_file :: "sbitmap \<Rightarrow> string outcome" where
  "dump_sbitmap_file bmap =
     map_sum id (\<lambda>s. ''n_bits = '' @ dec_string (sb_n_bits bmap) @ '', set = {'' @ s @ ''}'' @ [CHR 0x0A])
       (dump_file_loop bmap 0 (sb_n_bits bmap) 30)"

definition dump_sbitmap_vector :: "string \<Rightarrow> string \<Rightarrow> sbitmap list \<Rightarrow> string" where
  "dump_sbitmap_vector title subtitle bmaps =
     title @ [CHR 0x0A]
     @ concat (map (\<lambda>(bb, b). subtitle @ '' '' @ dec_string bb @ [CHR 0x0A] @ dump_sbitmap b) (enumerate 0 bmaps))
     @ [CHR 0x0A]"

section \<open>Counting\<close>

fun popcount_words :: "sbitmap \<Rightarrow> nat \<Rightarrow> nat" where
  "popcount_words a 0 = 0"
| "popcount_words a (Suc ix) =
     popcount_words a ix + (case sb_popcount a of Some p \<Rightarrow> unat (p ! ix) | None \<Rightarrow> do_popcount (sb_elms a ! ix))"

definition sbitmap_popcount :: "sbitmap \<Rightarrow> nat \<Rightarrow> nat outcome" where
  "sbitmap_popcount a maxbit =
     (if maxbit = 0 then Inr 0
      else
        (let maxbit = (if maxbit \<ge> sb_n_bits a then sb_n_bits a else maxbit);
             lastword = min (sb_size a) ((maxbit + 1 + SBITMAP_ELT_BITS - 1) div SBITMAP_ELT_BITS - 1)
         in if lastword > length (sb_elms a) \<or> sb_size a > length (sb_elms a) then Inl Undefined
            else
              (let count = popcount_words a lastword; bitindex = maxbit mod SBITMAP_ELT_BITS
               in Inr (if lastword < sb_size a \<and> bitindex \<noteq> 0
                       then count + do_popcount (sb_elms a ! lastword AND last_mask bitindex)
                       else count))))"

end
