(* ===== verification/Sbitmap_Sets.thy ===== *)
theory Sbitmap_Sets
  imports Sbitmap Bit_Set_Interface
begin

text \<open>
  What the operations of \<open>Sbitmap\<close> compute: a bitmap stands for the set of its bit numbers, and
  every operation keeps the representation invariant and computes the set operation it is named
  for, with the population counts in step when the bitmap has them.
\<close>

section \<open>Abstraction and invariant\<close>

definition sbitmap_set :: "sbitmap \<Rightarrow> nat set" where
  "sbitmap_set b = {i. i < SBITMAP_ELT_BITS * sb_size b
                       \<and> bit (sb_elms b ! (i div SBITMAP_ELT_BITS)) (i mod SBITMAP_ELT_BITS)}"

definition popcounts_ok :: "sbitmap \<Rightarrow> bool" where
  "popcounts_ok b \<longleftrightarrow>
     (case sb_popcount b of
        None \<Rightarrow> True
      | Some p \<Rightarrow> sb_size b \<le> length p
                \<and> (\<forall>i < sb_size b. unat (p ! i) = do_popcount (sb_elms b ! i)))"

definition sbitmap_wf :: "sbitmap \<Rightarrow> bool" where
  "sbitmap_wf b \<longleftrightarrow>
     sb_n_bits b + 63 < 2 ^ 32 \<and> sb_size b = SBITMAP_SET_SIZE (sb_n_bits b) \<and> sb_size b \<le> length (sb_elms b)
     \<and> (\<forall>i \<in> sbitmap_set b. i < sb_n_bits b) \<and> popcounts_ok b"

lemma set_size: "n + 63 < 2 ^ 32 \<Longrightarrow> SBITMAP_SET_SIZE n = (n + 63) div 64"
  by (simp add: SBITMAP_SET_SIZE_def)

lemma wf_size: "sbitmap_wf b \<Longrightarrow> sb_n_bits b \<le> 64 * sb_size b" "sbitmap_wf b \<Longrightarrow> 64 * sb_size b < sb_n_bits b + 64"
  by (auto simp: sbitmap_wf_def set_size)

lemma index_split: "i < 64 * n \<Longrightarrow> i div 64 < n" for i n :: nat
  by simp

lemma do_popcount_card: "do_popcount w = card {k. k < 64 \<and> bit w k}"
proof -
  have "{k. k < 64 \<and> bit w k} = set (filter (bit w) [0..<64])" by auto
  moreover have "distinct (filter (bit w) [0..<64])" by simp
  ultimately show ?thesis unfolding do_popcount_def by (metis distinct_card)
qed

lemma do_popcount_le: "do_popcount w \<le> 64"
  using length_filter_le [of "bit w" "[0..<64]"] by (simp add: do_popcount_def)

lemma unat_popcount [simp]: "unat (word_of_nat (do_popcount w) :: uchar) = do_popcount w"
  using do_popcount_le [of w] by (simp add: unat_of_nat)

section \<open>The loops\<close>

lemma length_plain_loop [simp]: "length (plain_loop tmp i k dst) = length dst"
  by (induction k arbitrary: i dst) auto

lemma nth_plain_loop:
  "j < length dst \<Longrightarrow> plain_loop tmp i k dst ! j = (if i \<le> j \<and> j < i + k then tmp j else dst ! j)"
  by (induction k arbitrary: i dst) (auto simp: nth_list_update not_less_eq_eq dest: le_antisym)

lemma cg_loop_eq:
  "i + k \<le> length dst \<Longrightarrow>
   fst (cg_loop tmp i k dst c) = plain_loop tmp i k dst
   \<and> (snd (cg_loop tmp i k dst c) \<noteq> 0 \<longleftrightarrow> c \<noteq> 0 \<or> (\<exists>j. i \<le> j \<and> j < i + k \<and> dst ! j \<noteq> tmp j))"
proof (induction k arbitrary: i dst c)
  case (Suc k)
  have "(\<exists>j. i \<le> j \<and> j < i + Suc k \<and> dst ! j \<noteq> tmp j) \<longleftrightarrow>
        dst ! i \<noteq> tmp i \<or> (\<exists>j. Suc i \<le> j \<and> j < Suc i + k \<and> dst[i := tmp i] ! j \<noteq> tmp j)"
    (is "?L \<longleftrightarrow> ?R")
  proof
    assume ?L
    then obtain j where "i \<le> j" "j < i + Suc k" "dst ! j \<noteq> tmp j" by blast
    then show ?R by (cases "j = i") (auto intro!: exI [of _ j])
  next
    assume ?R
    then show ?L by (auto intro: exI [of _ i]) (metis Suc_leD Suc_n_not_le_n nth_list_update_neq)
  qed
  with Suc.IH [of "Suc i" "dst[i := tmp i]" "c OR (dst ! i XOR tmp i)"] Suc.prems
  show ?case by (auto simp: or_eq_0_iff_word xor_eq_0_iff_word)
qed auto

lemma popcount_loop_eq:
  "fst (popcount_loop tmp i k dst p) = plain_loop tmp i k dst"
  "length (snd (popcount_loop tmp i k dst p)) = length p"
  "j < length p \<Longrightarrow> snd (popcount_loop tmp i k dst p) ! j =
     (if i \<le> j \<and> j < i + k \<and> dst ! j \<noteq> tmp j then word_of_nat (do_popcount (tmp j)) else p ! j)"
proof -
  show "fst (popcount_loop tmp i k dst p) = plain_loop tmp i k dst"
    by (induction k arbitrary: i dst p) auto
  show "length (snd (popcount_loop tmp i k dst p)) = length p"
    by (induction k arbitrary: i dst p) auto
  show "snd (popcount_loop tmp i k dst p) ! j =
     (if i \<le> j \<and> j < i + k \<and> dst ! j \<noteq> tmp j then word_of_nat (do_popcount (tmp j)) else p ! j)"
    if "j < length p"
    using that
    by (induction k arbitrary: i dst p) (auto simp: nth_list_update xor_eq_0_iff_word not_less_eq_eq dest: le_antisym)
qed

section \<open>Single bits\<close>

lemma TEST_BIT_val: "i div 64 < length (sb_elms b) \<Longrightarrow> TEST_BIT b i = Inr (bit (sb_elms b ! (i div 64)) (i mod 64))"
  by (simp add: TEST_BIT_def bit_iff_and_drop_bit_eq_1)

lemma do_popcount_set: "k < 64 \<Longrightarrow> \<not> bit w k \<Longrightarrow> do_popcount (w OR push_bit k 1) = Suc (do_popcount w)"
proof -
  assume k: "k < 64" "\<not> bit w k"
  then have "{j. j < 64 \<and> bit (w OR push_bit k 1) j} = insert k {j. j < 64 \<and> bit w j}"
    by (auto simp: bit_simps)
  with k show ?thesis by (simp add: do_popcount_card)
qed

lemma do_popcount_reset: "k < 64 \<Longrightarrow> bit w k \<Longrightarrow> Suc (do_popcount (w AND NOT (push_bit k 1))) = do_popcount w"
proof -
  assume k: "k < 64" "bit w k"
  then have "{j. j < 64 \<and> bit (w AND NOT (push_bit k 1)) j} = {j. j < 64 \<and> bit w j} - {k}"
    by (auto simp: bit_simps)
  moreover have "card {j. j < 64 \<and> bit w j} > 0" using k by (auto simp: card_gt_0_iff)
  ultimately show ?thesis using k by (simp add: do_popcount_card card_Diff_singleton)
qed

lemma popcounts_ok_update:
  assumes "popcounts_ok b" "k < sb_size b" "sb_size b \<le> length (sb_elms b)"
    and "\<And>p. sb_popcount b = Some p \<Longrightarrow> unat (p ! k) = do_popcount (sb_elms b ! k) \<Longrightarrow>
           unat (if ch then st (p ! k) else p ! k) = do_popcount w"
  shows "popcounts_ok (b\<lparr>sb_popcount := adjust_popcount st k ch (sb_popcount b), sb_elms := (sb_elms b)[k := w]\<rparr>)"
  using assms
  by (cases "sb_popcount b") (auto simp: popcounts_ok_def adjust_popcount_def nth_list_update)

lemma set_bit_popcount:
  assumes "unat (c :: uchar) = do_popcount w" "k < 64"
  shows "unat (if \<not> bit w k then c + 1 else c) = do_popcount (w OR push_bit k 1)"
proof (cases "bit w k")
  case True
  then have "w OR push_bit k 1 = w" by (intro bit_word_eqI) (auto simp: bit_simps)
  with True assms show ?thesis by simp
next
  case False
  then have "do_popcount (w OR push_bit k 1) = Suc (do_popcount w)" using assms(2) by (rule do_popcount_set [rotated])
  moreover have "do_popcount w \<le> 64" by (rule do_popcount_le)
  ultimately show ?thesis using False assms by (simp add: unat_plus_if_size word_size)
qed

lemma reset_bit_popcount:
  assumes "unat (c :: uchar) = do_popcount w" "k < 64"
  shows "unat (if bit w k then c - 1 else c) = do_popcount (w AND NOT (push_bit k 1))"
proof (cases "bit w k")
  case False
  then have "w AND NOT (push_bit k 1) = w" by (intro bit_word_eqI) (auto simp: bit_simps)
  with False assms show ?thesis by simp
next
  case True
  then have "Suc (do_popcount (w AND NOT (push_bit k 1))) = do_popcount w" using assms(2) by (rule do_popcount_reset [rotated])
  moreover from this have "c \<noteq> 0" using assms by auto
  ultimately show ?thesis using True assms by (simp add: unat_minus_one)
qed

lemma mem_sbitmap_set:
  "i \<in> sbitmap_set b \<longleftrightarrow> i div 64 < sb_size b \<and> bit (sb_elms b ! (i div 64)) (i mod 64)"
  by (auto simp: sbitmap_set_def div_less_iff_less_mult mult.commute)

text \<open>A word update at one index, seen as an update of the set.\<close>

lemma sbitmap_set_update:
  assumes "i < 64 * sb_size b" "sb_size b \<le> length (sb_elms b)"
    and "\<And>k. k < 64 \<Longrightarrow> bit w k \<longleftrightarrow> (if k = i mod 64 then v else bit (sb_elms b ! (i div 64)) k)"
  shows "sbitmap_set (b\<lparr>sb_popcount := q, sb_elms := (sb_elms b)[i div 64 := w]\<rparr>)
           = (if v then insert i (sbitmap_set b) else sbitmap_set b - {i})"
proof -
  have same: "j div 64 = i div 64 \<and> j mod 64 = i mod 64 \<longleftrightarrow> j = i" for j
    by (metis div_mult_mod_eq)
  have "j \<in> sbitmap_set (b\<lparr>sb_popcount := q, sb_elms := (sb_elms b)[i div 64 := w]\<rparr>)
         \<longleftrightarrow> (if j = i then v else j \<in> sbitmap_set b)" for j
  proof (cases "j = i")
    case True
    have "i div 64 < length (sb_elms b)" "i div 64 < sb_size b" using assms(1,2) by simp_all
    then show ?thesis using assms(3) [of "i mod 64"] by (simp add: mem_sbitmap_set True)
  next
    case False
    have "bit ((sb_elms b)[i div 64 := w] ! (j div 64)) (j mod 64) = bit (sb_elms b ! (j div 64)) (j mod 64)"
      if "j div 64 < sb_size b"
    proof (cases "j div 64 = i div 64")
      case True
      with same [of j] False have "j mod 64 \<noteq> i mod 64" by blast
      then have "bit w (j mod 64) \<longleftrightarrow> bit (sb_elms b ! (i div 64)) (j mod 64)"
        using assms(3) [of "j mod 64"] by simp
      moreover have "i div 64 < length (sb_elms b)" using that assms(2) True by linarith
      ultimately show ?thesis by (simp only: True nth_list_update_eq)
    qed simp
    then show ?thesis using False by (auto simp: mem_sbitmap_set)
  qed
  then show ?thesis by (intro set_eqI) (simp only: if_distrib [of "\<lambda>S. _ \<in> S"], simp)
qed

lemma SET_BIT_set:
  assumes "sbitmap_wf b" "i < sb_n_bits b"
  shows "\<exists>b'. SET_BIT b i = Inr b' \<and> sbitmap_wf b' \<and> sb_n_bits b' = sb_n_bits b
           \<and> sbitmap_set b' = insert i (sbitmap_set b)"
proof -
  have i: "i < 64 * sb_size b" using assms wf_size(1) [of b] by simp
  let ?k = "i div 64" and ?m = "i mod 64"
  let ?w = "sb_elms b ! ?k OR push_bit ?m 1"
  let ?b = "b\<lparr>sb_popcount := adjust_popcount (\<lambda>c. c + 1) ?k (\<not> bit (sb_elms b ! ?k) ?m) (sb_popcount b),
              sb_elms := (sb_elms b)[?k := ?w]\<rparr>"
  have len: "sb_size b \<le> length (sb_elms b)" and ok: "popcounts_ok b" using assms by (auto simp: sbitmap_wf_def)
  have k: "?k < sb_size b" using i by simp
  have r: "SET_BIT b i = Inr ?b" using k len by (simp add: SET_BIT_def TEST_BIT_val Let_def)
  have s: "sbitmap_set ?b = insert i (sbitmap_set b)"
    using sbitmap_set_update [OF i len, of ?w True] by (auto simp: bit_simps)
  have "popcounts_ok ?b"
    by (rule popcounts_ok_update [OF ok k len]) (simp only: set_bit_popcount mod_less_divisor zero_less_numeral)
  with assms s r show ?thesis by (auto simp: sbitmap_wf_def)
qed

lemma RESET_BIT_set:
  assumes "sbitmap_wf b" "i < sb_n_bits b"
  shows "\<exists>b'. RESET_BIT b i = Inr b' \<and> sbitmap_wf b' \<and> sb_n_bits b' = sb_n_bits b
           \<and> sbitmap_set b' = sbitmap_set b - {i}"
proof -
  have i: "i < 64 * sb_size b" using assms wf_size(1) [of b] by simp
  let ?k = "i div 64" and ?m = "i mod 64"
  let ?w = "sb_elms b ! ?k AND NOT (push_bit ?m 1)"
  let ?b = "b\<lparr>sb_popcount := adjust_popcount (\<lambda>c. c - 1) ?k (bit (sb_elms b ! ?k) ?m) (sb_popcount b),
              sb_elms := (sb_elms b)[?k := ?w]\<rparr>"
  have len: "sb_size b \<le> length (sb_elms b)" and ok: "popcounts_ok b" using assms by (auto simp: sbitmap_wf_def)
  have k: "?k < sb_size b" using i by simp
  have r: "RESET_BIT b i = Inr ?b" using k len by (simp add: RESET_BIT_def TEST_BIT_val Let_def)
  have s: "sbitmap_set ?b = sbitmap_set b - {i}"
    using sbitmap_set_update [OF i len, of ?w False] by (auto simp: bit_simps)
  have "popcounts_ok ?b"
    by (rule popcounts_ok_update [OF ok k len]) (simp only: reset_bit_popcount mod_less_divisor zero_less_numeral)
  with assms s r show ?thesis by (auto simp: sbitmap_wf_def)
qed

lemma TEST_BIT_set:
  assumes "sbitmap_wf b" "i < sb_n_bits b"
  shows "TEST_BIT b i = Inr (i \<in> sbitmap_set b)"
proof -
  have "i < 64 * sb_size b" "sb_size b \<le> length (sb_elms b)" using assms wf_size(1) [of b] by (auto simp: sbitmap_wf_def)
  then have "i div 64 < sb_size b" "i div 64 < length (sb_elms b)" by simp_all
  then show ?thesis by (simp add: TEST_BIT_val mem_sbitmap_set)
qed

interpretation sb: bit_set sbitmap_wf sb_n_bits sbitmap_set "\<lambda>b i. map_sum id (Pair b) (TEST_BIT b i)" SET_BIT RESET_BIT
  by unfold_locales (auto simp: TEST_BIT_set intro: SET_BIT_set RESET_BIT_set)


section \<open>Set operations\<close>

text \<open>The result of an operation on \<open>dst\<close>: a well-formed bitmap of the same shape with contents \<open>S\<close>.\<close>

definition sb_result :: "sbitmap outcome \<Rightarrow> sbitmap \<Rightarrow> nat set \<Rightarrow> bool" where
  "sb_result r dst S \<longleftrightarrow>
     (\<exists>d. r = Inr d \<and> sbitmap_wf d \<and> sb_n_bits d = sb_n_bits dst \<and> sbitmap_set d = S
          \<and> (sb_popcount d = None \<longleftrightarrow> sb_popcount dst = None))"

definition sb_result_cg :: "(sbitmap \<times> bool) outcome \<Rightarrow> sbitmap \<Rightarrow> nat set \<Rightarrow> bool" where
  "sb_result_cg r dst S \<longleftrightarrow> sb_result (map_sum id fst r) dst S \<and> map_sum id snd r = Inr (S \<noteq> sbitmap_set dst)"

definition same_shape :: "sbitmap list \<Rightarrow> bool" where
  "same_shape bs \<longleftrightarrow> (\<forall>b \<in> set bs. sbitmap_wf b \<and> sb_n_bits b = sb_n_bits (hd bs))"

lemma wf_same_size: "sbitmap_wf a \<Longrightarrow> sbitmap_wf b \<Longrightarrow> sb_n_bits a = sb_n_bits b \<Longrightarrow> sb_size a = sb_size b"
  by (simp add: sbitmap_wf_def)

lemma same_shape_covers: "same_shape (d # bs) \<Longrightarrow> covers d bs"
proof -
  assume a: "same_shape (d # bs)"
  then have "sb_size d \<le> length (sb_elms b)" if "b \<in> set (d # bs)" for b
    using that wf_same_size [of d b] unfolding same_shape_def by (metis list.sel(1) list.set_intros(1) sbitmap_wf_def)
  then show ?thesis by (simp add: covers_def)
qed

lemma bit_elm: "i < sb_size b \<Longrightarrow> k < 64 \<Longrightarrow> bit (sb_elms b ! i) k \<longleftrightarrow> 64 * i + k \<in> sbitmap_set b"
  by (simp add: mem_sbitmap_set)

lemma bit_elm_shape:
  "same_shape (d # bs) \<Longrightarrow> b \<in> set (d # bs) \<Longrightarrow> i < sb_size d \<Longrightarrow> k < 64 \<Longrightarrow>
     bit (sb_elms b ! i) k \<longleftrightarrow> 64 * i + k \<in> sbitmap_set b"
  using bit_elm [of i b k] wf_same_size [of d b] by (auto simp: same_shape_def)

lemma words_of_set:
  assumes "sb_size d \<le> length (sb_elms d)" "sb_n_bits d \<le> 64 * sb_size d"
    and "\<And>i k. i < sb_size d \<Longrightarrow> k < 64 \<Longrightarrow> bit (sb_elms d ! i) k \<longleftrightarrow> 64 * i + k \<in> S" "\<And>i. i \<in> S \<Longrightarrow> i < sb_n_bits d"
  shows "sbitmap_set d = S"
proof (rule set_eqI)
  fix j :: nat
  have "64 * (j div 64) + j mod 64 = j" by simp
  then have "j \<in> sbitmap_set d \<longleftrightarrow> j div 64 < sb_size d \<and> j \<in> S"
    using assms(3) [of "j div 64" "j mod 64"] by (auto simp: mem_sbitmap_set)
  moreover have "j div 64 < sb_size d" if "j \<in> S" using assms(2,4) that by fastforce
  ultimately show "j \<in> sbitmap_set d \<longleftrightarrow> j \<in> S" by blast
qed

lemma popcount_op_result:
  assumes "sbitmap_wf dst" "covers dst srcs"
    and tmp: "\<And>i k. i < sb_size dst \<Longrightarrow> k < 64 \<Longrightarrow> bit (tmp i) k \<longleftrightarrow> 64 * i + k \<in> S"
    and S: "\<And>i. i \<in> S \<Longrightarrow> i < sb_n_bits dst"
  shows "sb_result (popcount_op dst srcs tmp) dst S"
proof -
  let ?e = "plain_loop tmp 0 (sb_size dst) (sb_elms dst)"
  have len: "sb_size dst \<le> length (sb_elms dst)" and n: "sb_n_bits dst \<le> 64 * sb_size dst"
    and ok: "popcounts_ok dst"
    using assms(1) wf_size(1) by (auto simp: sbitmap_wf_def)
  have e: "?e ! i = tmp i" if "i < sb_size dst" for i using that len by (simp add: nth_plain_loop)
  have set: "sbitmap_set (dst\<lparr>sb_elms := ?e, sb_popcount := q\<rparr>) = S" for q
    by (rule words_of_set) (use len n tmp S e in simp_all)
  show ?thesis
  proof (cases "sb_popcount dst")
    case None
    then have "popcounts_ok (dst\<lparr>sb_elms := ?e\<rparr>)" by (simp add: popcounts_ok_def)
    moreover have "sbitmap_set (dst\<lparr>sb_elms := ?e\<rparr>) = S" using set [of None] by (simp add: sbitmap_set_def)
    ultimately show ?thesis using assms S None len
      by (simp add: sb_result_def popcount_op_def plain_op_def sbitmap_wf_def)
  next
    case (Some p)
    let ?p = "snd (popcount_loop tmp 0 (sb_size dst) (sb_elms dst) p)"
    have p: "sb_size dst \<le> length p" "\<And>i. i < sb_size dst \<Longrightarrow> unat (p ! i) = do_popcount (sb_elms dst ! i)"
      using ok Some by (auto simp: popcounts_ok_def)
    have "popcounts_ok (dst\<lparr>sb_elms := ?e, sb_popcount := Some ?p\<rparr>)"
      using p e by (simp add: popcounts_ok_def popcount_loop_eq)
    moreover have "popcount_op dst srcs tmp = Inr (dst\<lparr>sb_elms := ?e, sb_popcount := Some ?p\<rparr>)"
      using Some assms(2) p popcount_loop_eq(1) [of tmp 0 "sb_size dst" "sb_elms dst" p]
      by (simp add: popcount_op_def case_prod_beta)
    ultimately show ?thesis using assms set [of "Some ?p"] S Some len
      by (simp add: sb_result_def sbitmap_wf_def)
  qed
qed

lemma plain_op_result:
  assumes "sbitmap_wf dst" "covers dst srcs" "sb_popcount dst = None"
    and "\<And>i k. i < sb_size dst \<Longrightarrow> k < 64 \<Longrightarrow> bit (tmp i) k \<longleftrightarrow> 64 * i + k \<in> S"
    and "\<And>i. i \<in> S \<Longrightarrow> i < sb_n_bits dst"
  shows "sb_result (plain_op dst srcs tmp) dst S"
proof -
  have "popcount_op dst srcs tmp = plain_op dst srcs tmp" using assms(3) by (simp add: popcount_op_def)
  with popcount_op_result [OF assms(1,2,4,5)] show ?thesis by simp
qed

lemma cg_op_result:
  assumes "sbitmap_wf dst" "covers dst srcs" "sb_popcount dst = None"
    and tmp: "\<And>i k. i < sb_size dst \<Longrightarrow> k < 64 \<Longrightarrow> bit (tmp i) k \<longleftrightarrow> 64 * i + k \<in> S"
    and S: "\<And>i. i \<in> S \<Longrightarrow> i < sb_n_bits dst"
  shows "sb_result_cg (cg_op dst srcs tmp) dst S"
proof -
  let ?c = "cg_loop tmp 0 (sb_size dst) (sb_elms dst) 0"
  have len: "sb_size dst \<le> length (sb_elms dst)" using assms(1) by (simp add: sbitmap_wf_def)
  have c: "fst ?c = plain_loop tmp 0 (sb_size dst) (sb_elms dst)"
      "snd ?c \<noteq> 0 \<longleftrightarrow> (\<exists>j < sb_size dst. sb_elms dst ! j \<noteq> tmp j)"
    using cg_loop_eq [of 0 "sb_size dst" "sb_elms dst" tmp 0] len by simp_all
  have "(\<forall>j < sb_size dst. sb_elms dst ! j = tmp j) \<longleftrightarrow> S = sbitmap_set dst"
  proof
    assume "\<forall>j < sb_size dst. sb_elms dst ! j = tmp j"
    then have "sbitmap_set dst = S"
      by (intro words_of_set) (use len assms wf_size(1) in auto)
    then show "S = sbitmap_set dst" by simp
  next
    assume "S = sbitmap_set dst"
    then show "\<forall>j < sb_size dst. sb_elms dst ! j = tmp j"
      using tmp bit_elm by (auto intro!: bit_word_eqI)
  qed
  with c have ch: "snd ?c \<noteq> 0 \<longleftrightarrow> S \<noteq> sbitmap_set dst" by blast
  have "cg_op dst srcs tmp = Inr (dst\<lparr>sb_elms := plain_loop tmp 0 (sb_size dst) (sb_elms dst)\<rparr>, S \<noteq> sbitmap_set dst)"
    using assms(2,3) c(1) ch by (simp add: cg_op_def case_prod_beta)
  moreover have "plain_op dst srcs tmp = Inr (dst\<lparr>sb_elms := plain_loop tmp 0 (sb_size dst) (sb_elms dst)\<rparr>)"
    using assms(2) by (simp add: plain_op_def)
  ultimately show ?thesis
    using plain_op_result [OF assms] by (simp add: sb_result_cg_def)
qed

lemmas shape_simps = same_shape_covers bit_elm_shape


lemma shape_bound: "same_shape (d # bs) \<Longrightarrow> b \<in> set (d # bs) \<Longrightarrow> i \<in> sbitmap_set b \<Longrightarrow> i < sb_n_bits d"
  unfolding same_shape_def by (metis list.sel(1) sbitmap_wf_def)

lemma shape_wf: "same_shape (d # bs) \<Longrightarrow> b \<in> set (d # bs) \<Longrightarrow> sbitmap_wf b"
  unfolding same_shape_def by blast

lemma shape_size: "same_shape (d # bs) \<Longrightarrow> b \<in> set (d # bs) \<Longrightarrow> sb_size b = sb_size d"
  unfolding same_shape_def by (metis list.sel(1) list.set_intros(1) wf_same_size)

lemma shape_n_bits: "same_shape (d # bs) \<Longrightarrow> b \<in> set (d # bs) \<Longrightarrow> sb_n_bits b = sb_n_bits d"
  unfolding same_shape_def by (metis list.sel(1))

text \<open>Bitmaps of one element.\<close>

definition one_word :: "uchar option \<Rightarrow> nat \<Rightarrow> hwi \<Rightarrow> sbitmap" where
  "one_word p n w = \<lparr>sb_popcount = map_option (\<lambda>c. [c]) p, sb_n_bits = n, sb_size = 1, sb_elms = [w]\<rparr>"

lemma one_word_set: "sbitmap_set (one_word p n w) = set (filter (bit w) [0..<64])"
  by (auto simp: one_word_def sbitmap_set_def)

lemma one_word_n_bits: "sb_n_bits (one_word p n w) = n"
  by (simp add: one_word_def)

lemma one_word_wf:
  assumes "0 < n" "n < 64" "unat w < 2 ^ n"
    "case p of None \<Rightarrow> True | Some c \<Rightarrow> unat c = do_popcount w"
  shows "sbitmap_wf (one_word p n w)"
proof -
  have "i < n" if "i \<in> sbitmap_set (one_word p n w)" for i
  proof -
    have "take_bit n w = w" using assms(3) by (simp add: word_unat_eq_iff unsigned_take_bit_eq take_bit_nat_eq_self)
    moreover have "bit w i" using that by (simp add: one_word_set)
    ultimately show ?thesis by (metis bit_take_bit_iff)
  qed
  moreover have "popcounts_ok (one_word p n w)" using assms(4) by (auto simp: popcounts_ok_def one_word_def split: option.splits)
  moreover have "(n + 63) div 64 = 1" using assms(1,2) by simp
  ultimately show ?thesis using assms by (auto simp: sbitmap_wf_def one_word_def set_size)
qed

text \<open>
  C29: The set operations that maintain population counts compute intersection, symmetric
  difference and union of bitmaps of the same shape: the result satisfies the invariant, so that
  every count of \<open>dst\<close> is again the number of bits of its element.
\<close>

theorem sbitmap_counted_operations:
  assumes "same_shape [dst, a, b]"
  shows "sb_result (sbitmap_a_and_b dst a b) dst (sbitmap_set a \<inter> sbitmap_set b)
       \<and> sb_result (sbitmap_a_or_b dst a b) dst (sbitmap_set a \<union> sbitmap_set b)
       \<and> sb_result (sbitmap_a_xor_b dst a b) dst ((sbitmap_set a - sbitmap_set b) \<union> (sbitmap_set b - sbitmap_set a))"
  unfolding sbitmap_a_and_b_def sbitmap_a_or_b_def sbitmap_a_xor_b_def
  using assms shape_wf [OF assms, of dst] shape_bound [OF assms, of a] shape_bound [OF assms, of b]
  by (intro conjI popcount_op_result same_shape_covers)
     (auto simp: bit_simps bit_elm_shape [OF assms, of a] bit_elm_shape [OF assms, of b])

theorem sbitmap_counted_operations_witness:
  "same_shape [one_word (Some 3) 5 0x13, one_word None 5 0x13, one_word None 5 6]
   \<and> sb_result (sbitmap_a_xor_b (one_word (Some 3) 5 0x13) (one_word None 5 0x13) (one_word None 5 6)) (one_word (Some 3) 5 0x13) {0, 2, 4}"
proof -
  have "do_popcount 0x13 = 3" by code_simp
  then have shape: "same_shape [one_word (Some 3) 5 0x13, one_word None 5 0x13, one_word None 5 6]"
    by (simp add: same_shape_def one_word_wf one_word_n_bits)
  moreover have "sbitmap_set (one_word None 5 0x13) = {0, 1, 4}" "sbitmap_set (one_word None 5 6) = {1, 2}"
    unfolding one_word_set by code_simp+
  moreover have "{0, 1, 4} - {1, 2} \<union> ({1, 2} - {0, 1, 4 :: nat}) = {0, 2, 4}" by auto
  ultimately show ?thesis using sbitmap_counted_operations [OF shape] by (simp only: simp_thms)
qed

text \<open>
  The operations without population counts: union with a difference, and the two mixed
  operations. On a destination with counts they stop at an assertion (the last one has none and
  requires that there are no counts to keep).
\<close>

theorem sbitmap_plain_operations:
  assumes "same_shape [dst, a, b, c]"
  shows "(sb_popcount dst = None \<and> sb_popcount a = None \<and> sb_popcount b = None \<and> sb_popcount c = None \<longrightarrow>
           sb_result (sbitmap_union_of_diff dst a b c) dst (sbitmap_set a \<union> (sbitmap_set b - sbitmap_set c)))
       \<and> (sb_popcount dst = None \<longrightarrow>
           sb_result (sbitmap_a_or_b_and_c dst a b c) dst (sbitmap_set a \<union> (sbitmap_set b \<inter> sbitmap_set c))
         \<and> sb_result (sbitmap_a_and_b_or_c dst a b c) dst (sbitmap_set a \<inter> (sbitmap_set b \<union> sbitmap_set c)))
       \<and> (sb_popcount dst \<noteq> None \<longrightarrow>
           sbitmap_union_of_diff dst a b c = Inl Ice \<and> sbitmap_a_or_b_and_c dst a b c = Inl Ice)"
proof -
  note bits = bit_elm_shape [OF assms, of a] bit_elm_shape [OF assms, of b] bit_elm_shape [OF assms, of c]
  note bounds = shape_wf [OF assms, of dst] shape_bound [OF assms, of a] shape_bound [OF assms, of b] shape_bound [OF assms, of c]
  have 1: "sb_result (sbitmap_union_of_diff dst a b c) dst (sbitmap_set a \<union> (sbitmap_set b - sbitmap_set c))"
    if "sb_popcount dst = None" "sb_popcount a = None" "sb_popcount b = None" "sb_popcount c = None"
    using that assms bounds unfolding sbitmap_union_of_diff_def
    by (simp only: if_False simp_thms, intro plain_op_result same_shape_covers) (auto simp: bit_simps bits)
  have 2: "sb_result (sbitmap_a_or_b_and_c dst a b c) dst (sbitmap_set a \<union> (sbitmap_set b \<inter> sbitmap_set c))
         \<and> sb_result (sbitmap_a_and_b_or_c dst a b c) dst (sbitmap_set a \<inter> (sbitmap_set b \<union> sbitmap_set c))"
    if "sb_popcount dst = None"
    using that assms bounds unfolding sbitmap_a_or_b_and_c_def sbitmap_a_and_b_or_c_def
    by (simp only: if_False simp_thms, intro conjI plain_op_result same_shape_covers) (auto simp: bit_simps bits)
  show ?thesis using 1 2 by (simp add: sbitmap_union_of_diff_def sbitmap_a_or_b_and_c_def)
qed


theorem sbitmap_plain_operations_witness:
  "same_shape [one_word None 5 0, one_word None 5 1, one_word None 5 6, one_word None 5 2]
   \<and> sb_result (sbitmap_union_of_diff (one_word None 5 0) (one_word None 5 1) (one_word None 5 6) (one_word None 5 2))
       (one_word None 5 0) {0, 2}"
proof -
  have shape: "same_shape [one_word None 5 0, one_word None 5 1, one_word None 5 6, one_word None 5 2]"
    by (simp add: same_shape_def one_word_wf one_word_n_bits)
  have "sbitmap_set (one_word None 5 1) \<union> (sbitmap_set (one_word None 5 6) - sbitmap_set (one_word None 5 2)) = {0, 2}"
    unfolding one_word_set by code_simp
  moreover have "sb_popcount (one_word None n w) = None" for n w by (simp add: one_word_def)
  ultimately show ?thesis using shape sbitmap_plain_operations [OF shape] by simp
qed

text \<open>
  The change-reporting operations, used by the data-flow solvers to detect a fixed point,
  compute the same sets and return true exactly when the contents of \<open>dst\<close> have changed.
\<close>

theorem sbitmap_cg_operations:
  assumes "same_shape [dst, a, b, c]" "sb_popcount dst = None"
  shows "sb_result_cg (sbitmap_a_and_b_cg dst a b) dst (sbitmap_set a \<inter> sbitmap_set b)
       \<and> sb_result_cg (sbitmap_a_or_b_cg dst a b) dst (sbitmap_set a \<union> sbitmap_set b)
       \<and> sb_result_cg (sbitmap_a_xor_b_cg dst a b) dst ((sbitmap_set a - sbitmap_set b) \<union> (sbitmap_set b - sbitmap_set a))
       \<and> sb_result_cg (sbitmap_union_of_diff_cg dst a b c) dst (sbitmap_set a \<union> (sbitmap_set b - sbitmap_set c))
       \<and> sb_result_cg (sbitmap_a_or_b_and_c_cg dst a b c) dst (sbitmap_set a \<union> (sbitmap_set b \<inter> sbitmap_set c))
       \<and> sb_result_cg (sbitmap_a_and_b_or_c_cg dst a b c) dst (sbitmap_set a \<inter> (sbitmap_set b \<union> sbitmap_set c))"
proof -
  note bits = bit_elm_shape [OF assms(1), of a] bit_elm_shape [OF assms(1), of b] bit_elm_shape [OF assms(1), of c]
  note bounds = shape_bound [OF assms(1), of a] shape_bound [OF assms(1), of b] shape_bound [OF assms(1), of c]
  have wf: "sbitmap_wf dst" using shape_wf [OF assms(1), of dst] by simp
  have cov: "covers dst [a, b]" "covers dst [a, b, c]"
    using same_shape_covers [OF assms(1)] by (simp_all add: covers_def)
  show ?thesis
    unfolding sbitmap_a_and_b_cg_def sbitmap_a_or_b_cg_def sbitmap_a_xor_b_cg_def
      sbitmap_union_of_diff_cg_def sbitmap_a_or_b_and_c_cg_def sbitmap_a_and_b_or_c_cg_def
    by (intro conjI cg_op_result wf cov assms(2)) (use bounds in \<open>auto simp: bit_simps bits\<close>)
qed

theorem sbitmap_cg_operations_witness:
  "same_shape [one_word None 5 6, one_word None 5 2, one_word None 5 4, one_word None 5 0]
   \<and> sb_result_cg (sbitmap_a_or_b_cg (one_word None 5 6) (one_word None 5 2) (one_word None 5 4)) (one_word None 5 6) {1, 2}"
proof -
  have shape: "same_shape [one_word None 5 6, one_word None 5 2, one_word None 5 4, one_word None 5 0]"
    by (simp add: same_shape_def one_word_wf one_word_n_bits)
  have "sbitmap_set (one_word None 5 2) \<union> sbitmap_set (one_word None 5 4) = {1, 2}"
    unfolding one_word_set by code_simp
  moreover have "sb_popcount (one_word None n w) = None" for n w by (simp add: one_word_def)
  ultimately show ?thesis using shape sbitmap_cg_operations [OF shape] by simp
qed


section \<open>Iteration\<close>

definition it_ok :: "sbitmap_iterator \<Rightarrow> bool" where
  "it_ok i \<longleftrightarrow>
     it_size i \<le> length (it_ptr i) \<and> 64 * it_size i < 2 ^ 32 \<and> it_word_num i + 1 < 2 ^ 32 \<and>
     (if it_word_num i < it_size i
      then 64 * it_word_num i \<le> it_bit_num i \<and> it_bit_num i \<le> 64 * it_word_num i + 64
           \<and> it_word i = drop_bit (it_bit_num i - 64 * it_word_num i) (it_ptr i ! it_word_num i)
      else it_word i = 0 \<and> 64 * it_size i \<le> it_bit_num i)"

definition pending :: "sbitmap_iterator \<Rightarrow> nat set" where
  "pending i = {n. it_bit_num i \<le> n \<and> n < 64 * it_size i \<and> bit (it_ptr i ! (n div 64)) (n mod 64)}"

lemma finite_pending [simp]: "finite (pending i)"
  by (rule finite_subset [of _ "{..<64 * it_size i}"]) (auto simp: pending_def)

lemma wf_size_bound: "sbitmap_wf b \<Longrightarrow> 64 * sb_size b < 2 ^ 32"
  by (auto simp: sbitmap_wf_def set_size)

lemma iter_init_spec:
  assumes "sbitmap_wf b" "mn < 2 ^ 32"
  shows "\<exists>i. sbitmap_iter_init b mn = Inr i \<and> it_ok i \<and> pending i = {n \<in> sbitmap_set b. mn \<le> n}"
proof -
  have b: "sb_size b \<le> length (sb_elms b)" "64 * sb_size b < 2 ^ 32"
    using assms(1) wf_size_bound by (auto simp: sbitmap_wf_def)
  have m: "mn div 64 + 1 < 2 ^ 32" using assms(2) by simp
  show ?thesis
  proof (cases "sb_size b \<le> mn div 64")
    case True
    then have "64 * sb_size b \<le> mn" by linarith
    then show ?thesis using True b m
      by (auto simp: sbitmap_iter_init_def it_ok_def pending_def sbitmap_set_def Let_def)
  next
    case False
    then show ?thesis using b m
      by (auto simp: sbitmap_iter_init_def it_ok_def pending_def sbitmap_set_def Let_def minus_mult_div_eq_mod)
  qed
qed

text \<open>A word of the iterator holds the pending bits of its element.\<close>

lemma word_pending:
  assumes "it_ok i" "it_word_num i < it_size i" "n < 64 * it_word_num i + 64" "it_bit_num i \<le> n"
  shows "n \<in> pending i \<longleftrightarrow> bit (it_word i) (n - it_bit_num i)"
proof -
  have b: "64 * it_word_num i \<le> it_bit_num i" and w: "it_word i = drop_bit (it_bit_num i - 64 * it_word_num i) (it_ptr i ! it_word_num i)"
    using assms by (auto simp: it_ok_def)
  have "n div 64 = it_word_num i" using assms b by (intro div_nat_eqI) simp_all
  moreover from this have "n mod 64 = (it_bit_num i - 64 * it_word_num i) + (n - it_bit_num i)"
    using assms(4) b by (simp add: modulo_nat_def)
  moreover have "n < 64 * it_size i" using assms by simp
  ultimately show ?thesis using assms(4) by (simp add: pending_def w bit_drop_bit_eq)
qed

lemma empty_word_pending:
  assumes "it_ok i" "it_word_num i < it_size i" "it_word i = 0"
  shows "pending i = {n. 64 * it_word_num i + 64 \<le> n \<and> n < 64 * it_size i \<and> bit (it_ptr i ! (n div 64)) (n mod 64)}"
proof -
  have "n \<notin> pending i" if "n < 64 * it_word_num i + 64" for n
    using word_pending [OF assms(1,2) that] assms(3) by (auto simp: pending_def)
  moreover have "it_bit_num i \<le> 64 * it_word_num i + 64" using assms by (simp add: it_ok_def)
  ultimately show ?thesis by (auto simp: pending_def not_less [symmetric])
qed

text \<open>The step to the next word.\<close>

lemma next_word:
  assumes "it_ok i" "it_word i = 0" "it_word_num i + 1 < it_size i"
  defines "j \<equiv> i\<lparr>it_word_num := it_word_num i + 1, it_bit_num := (it_word_num i + 1) * 64, it_word := it_ptr i ! (it_word_num i + 1)\<rparr>"
  shows "iter_skip_words i = iter_skip_words j" "it_ok j" "pending j = pending i"
proof -
  have i: "it_size i \<le> length (it_ptr i)" "64 * it_size i < 2 ^ 32" using assms(1) by (simp_all add: it_ok_def)
  have "it_word_num i + 1 < 2 ^ 32" "(it_word_num i + 1) * 64 < 2 ^ 32" using i(2) assms(3) by simp_all
  then have "(it_word_num i + 1) mod 2 ^ 32 = it_word_num i + 1"
    "((it_word_num i + 1) * 64) mod 2 ^ 32 = (it_word_num i + 1) * 64"
    by (simp_all only: mod_less)
  then show "iter_skip_words i = iter_skip_words j"
    using assms(2,3) i(1) by (subst iter_skip_words.simps) (simp add: j_def Let_def)
  show "it_ok j" using assms(1,3) i by (auto simp: it_ok_def j_def)
  show "pending j = pending i"
    using empty_word_pending [OF assms(1) _ assms(2)] assms(3) by (simp add: pending_def j_def) (simp add: algebra_simps)
qed

lemma last_word:
  assumes "it_ok i" "it_word i = 0" "it_size i \<le> it_word_num i + 1"
  shows "pending i = {}" "\<exists>j. iter_skip_words i = Some (Inr (False, j))"
proof -
  show "pending i = {}"
  proof (cases "it_word_num i < it_size i")
    case True
    with assms(3) have "it_size i = it_word_num i + 1" by simp
    with empty_word_pending [OF assms(1) True assms(2)] show ?thesis by auto
  next
    case False
    with assms(1) show ?thesis by (auto simp: it_ok_def pending_def)
  qed
  have "(it_word_num i + 1) mod 2 ^ 32 = it_word_num i + 1" using assms(1) by (intro mod_less) (simp add: it_ok_def)
  then show "\<exists>j. iter_skip_words i = Some (Inr (False, j))"
    using assms(2,3) by (subst iter_skip_words.simps) (simp add: Let_def)
qed

lemma iter_skip_words_spec:
  assumes "it_ok i"
  shows "\<exists>more j. iter_skip_words i = Some (Inr (more, j)) \<and>
    (if more then it_ok j \<and> it_word j \<noteq> 0 \<and> pending j = pending i else pending i = {})"
  using assms
proof (induction "it_size i - it_word_num i" arbitrary: i rule: less_induct)
  case less
  consider "it_word i \<noteq> 0" | "it_word i = 0" "it_size i \<le> it_word_num i + 1" | "it_word i = 0" "it_word_num i + 1 < it_size i"
    by linarith
  then show ?case
  proof cases
    case 1
    then show ?thesis using less.prems by (subst iter_skip_words.simps) (auto intro: exI [of _ True])
  next
    case 2
    then show ?thesis using last_word [OF less.prems] by auto
  next
    case 3
    note n = next_word [OF less.prems 3]
    show ?thesis unfolding n(1) n(3) [symmetric] using 3(2) by (intro less.hyps n(2)) simp
  qed
qed

lemma iter_skip_bits_spec:
  "bit w k \<Longrightarrow> (\<And>l. l < k \<Longrightarrow> \<not> bit w l) \<Longrightarrow> b + k < 2 ^ 32 \<Longrightarrow> iter_skip_bits w b = Some (drop_bit k w, b + k)"
proof (induction k arbitrary: w b)
  case 0
  then have "w AND 1 \<noteq> 0" by (simp add: and_one_eq bit_0 odd_iff_mod_2_eq_one)
  then show ?case by (subst iter_skip_bits.simps) simp
next
  case (Suc k)
  have "w AND 1 = 0" using Suc.prems(2) [of 0] by (simp add: and_one_eq bit_0 even_iff_mod_2_eq_zero)
  moreover have "iter_skip_bits (drop_bit 1 w) (b + 1) = Some (drop_bit k (drop_bit 1 w), b + 1 + k)"
    using Suc.prems by (intro Suc.IH) (simp_all add: bit_drop_bit_eq)
  moreover have "(b + 1) mod 2 ^ 32 = b + 1" using Suc.prems(3) by (intro mod_less) simp
  ultimately show ?case by (subst iter_skip_bits.simps) simp
qed

lemma bit_num_le_pending:
  assumes "it_ok i" "it_word i \<noteq> 0"
  shows "\<exists>k. bit (it_word i) k \<and> (\<forall>l < k. \<not> bit (it_word i) l) \<and> it_bit_num i + k \<in> pending i
           \<and> Min (pending i) = it_bit_num i + k \<and> it_word_num i < it_size i \<and> it_bit_num i + k < 64 * it_word_num i + 64"
proof -
  obtain n where "bit (it_word i) n" using assms(2) by (metis bit_eq_iff bit_0_eq bot_apply bot_bool_def)
  then obtain k where k: "bit (it_word i) k" "\<forall>l < k. \<not> bit (it_word i) l"
    using exists_least_iff [of "bit (it_word i)"] by blast
  have w: "it_word_num i < it_size i" using assms by (auto simp: it_ok_def split: if_splits)
  then have end_lt: "it_bit_num i + k < 64 * it_word_num i + 64"
    using assms(1) k(1)
    by (auto simp: it_ok_def bit_drop_bit_eq dest: bit_imp_le_length)
  from this w assms(1) k(1) have p: "it_bit_num i + k \<in> pending i" by (simp add: word_pending)
  have "it_bit_num i + k \<le> n" if "n \<in> pending i" for n
  proof (rule ccontr)
    assume less: "\<not> it_bit_num i + k \<le> n"
    have le: "it_bit_num i \<le> n" using that by (simp add: pending_def)
    moreover have "n < 64 * it_word_num i + 64" using less end_lt by simp
    ultimately have "bit (it_word i) (n - it_bit_num i)" using that word_pending [OF assms(1) w] by blast
    moreover have "n - it_bit_num i < k" using less le by simp
    ultimately show False using k(2) by blast
  qed
  with p have "Min (pending i) = it_bit_num i + k" by (intro Min_eqI) auto
  with p k w end_lt show ?thesis by blast
qed

lemma sbitmap_iter_cond_spec:
  assumes "it_ok i"
  shows "if pending i = {} then (\<exists>j. sbitmap_iter_cond i = Some (Inr (None, j)))
         else (\<exists>j. sbitmap_iter_cond i = Some (Inr (Some (Min (pending i)), j)) \<and> it_ok (sbitmap_iter_next j)
                  \<and> pending (sbitmap_iter_next j) = pending i - {Min (pending i)})"
proof -
  obtain more j where skip: "iter_skip_words i = Some (Inr (more, j))"
    and spec: "if more then it_ok j \<and> it_word j \<noteq> 0 \<and> pending j = pending i else pending i = {}"
    using iter_skip_words_spec [OF assms] by blast
  show ?thesis
  proof (cases more)
    case False
    with spec skip show ?thesis by (simp add: sbitmap_iter_cond_def)
  next
    case True
    then have j: "it_ok j" "it_word j \<noteq> 0" "pending j = pending i" using spec by auto
    obtain k where k: "bit (it_word j) k" "\<forall>l < k. \<not> bit (it_word j) l" "it_bit_num j + k \<in> pending j"
        "Min (pending j) = it_bit_num j + k" "it_word_num j < it_size j" "it_bit_num j + k < 64 * it_word_num j + 64"
      using bit_num_le_pending [OF j(1,2)] by blast
    have lt: "it_bit_num j + k + 1 < 2 ^ 32" using j(1) k(5,6) by (simp add: it_ok_def)
    let ?m = "j\<lparr>it_word := drop_bit k (it_word j), it_bit_num := it_bit_num j + k\<rparr>"
    have "iter_skip_bits (it_word j) (it_bit_num j) = Some (drop_bit k (it_word j), it_bit_num j + k)"
      using k lt by (intro iter_skip_bits_spec) auto
    then have "sbitmap_iter_cond i = Some (Inr (Some (Min (pending i)), ?m))"
      using skip True k(4) j(3) by (simp add: sbitmap_iter_cond_def)
    moreover have next_eq: "sbitmap_iter_next ?m =
        ?m\<lparr>it_word := drop_bit 1 (drop_bit k (it_word j)), it_bit_num := it_bit_num j + k + 1\<rparr>"
      using lt by (simp add: sbitmap_iter_next_def)
    have "it_ok (sbitmap_iter_next ?m)" unfolding next_eq
      using j(1) k(5,6) by (auto simp: it_ok_def drop_bit_drop_bit Suc_diff_le add.commute)
    moreover have "pending (sbitmap_iter_next ?m) = {n \<in> pending j. it_bit_num j + k < n}"
      unfolding next_eq by (auto simp: pending_def)
    moreover have "\<dots> = pending i - {Min (pending i)}"
      using k(4) j(3) Min_le [OF finite_pending, of _ j] by (auto simp: order.order_iff_strict)
    ultimately show ?thesis using k(3) j(3) by auto
  qed
qed

lemma execute_if_set_spec:
  "it_ok i \<Longrightarrow> execute_if_set i ns = Some (Inr (ns @ sorted_list_of_set (pending i)))"
proof (induction "card (pending i)" arbitrary: i ns)
  case 0
  then have "pending i = {}" by simp
  with sbitmap_iter_cond_spec [OF 0(2)] show ?case by (subst execute_if_set.simps) auto
next
  case (Suc c)
  let ?m = "Min (pending i)"
  have ne: "pending i \<noteq> {}" using Suc.hyps(2) by auto
  then obtain j where j: "sbitmap_iter_cond i = Some (Inr (Some ?m, j))" "it_ok (sbitmap_iter_next j)"
      "pending (sbitmap_iter_next j) = pending i - {?m}"
    using sbitmap_iter_cond_spec [OF Suc.prems] by auto
  have "card (pending i - {?m}) = c" using Suc.hyps(2) ne by (simp add: card_Diff_singleton)
  then have "execute_if_set (sbitmap_iter_next j) (ns @ [?m]) = Some (Inr ((ns @ [?m]) @ sorted_list_of_set (pending i - {?m})))"
    using Suc.hyps(1) [of "sbitmap_iter_next j"] j by simp
  moreover have "sorted_list_of_set (pending i) = ?m # sorted_list_of_set (pending i - {?m})"
    using ne by (simp add: sorted_list_of_set_nonempty)
  ultimately show ?case using j(1) by (subst execute_if_set.simps) simp
qed

lemma int_of_unsigned_cases: "n < 2 ^ 32 \<Longrightarrow> int_of_unsigned n = (if n < 2 ^ 31 then int n else int n - 2 ^ 32)"
proof -
  assume "n < 2 ^ 32"
  then have "uint (of_nat n :: uint32) = int n" by (simp add: unsigned_of_nat take_bit_nat_eq_self)
  moreover have "sint (w :: uint32) = (if uint w < 2 ^ 31 then uint w else uint w - 2 ^ 32)" for w
  proof -
    have "odd (uint w div 2 ^ 31) \<longleftrightarrow> \<not> uint w < 2 ^ 31"
    proof (cases "uint w < 2 ^ 31")
      case False
      then have "uint w div 2 ^ 31 = 1"
        using uint_lt2p [of w] by (intro int_div_pos_eq [where r = "uint w - 2 ^ 31"]) simp_all
      with False show ?thesis by simp
    qed simp
    then show ?thesis
      using uint_lt2p [of w] by (simp add: sint_uint signed_take_bit_eq_take_bit_minus bit_iff_odd take_bit_int_eq_self)
  qed
  ultimately show ?thesis by (simp add: int_of_unsigned_def)
qed

lemma sbitmap_first_set_bit_spec:
  assumes "sbitmap_wf b"
  shows "sbitmap_first_set_bit b = Some (Inr (if sbitmap_set b = {} then - 1 else int_of_unsigned (Min (sbitmap_set b))))"
proof -
  obtain i where i: "sbitmap_iter_init b 0 = Inr i" "it_ok i" "pending i = sbitmap_set b"
    using iter_init_spec [OF assms, of 0] by auto
  show ?thesis
    using sbitmap_iter_cond_spec [OF i(2)] i(1,3) by (auto simp: sbitmap_first_set_bit_def split: if_splits)
qed

text \<open>
  C35: For a well-formed bitmap the iterator terminates, reads only elements of the array, and enumerates, in
  increasing order and without repetition, exactly the set bits that are not below the starting
  point. \<open>sbitmap_first_set_bit\<close> returns the number of the least set bit, and -1 for an empty bitmap; a
  number of \<open>2 ^ 31\<close> or more comes back negative, less \<open>2 ^ 32\<close>, because the result is an \<open>int\<close>.
\<close>

theorem sbitmap_iteration:
  assumes "sbitmap_wf b" "mn < 2 ^ 32"
  shows "EXECUTE_IF_SET_IN_SBITMAP b mn = Some (Inr (sorted_list_of_set {n \<in> sbitmap_set b. mn \<le> n})) \<and>
    sbitmap_first_set_bit b =
      Some (Inr (if sbitmap_set b = {} then - 1
                 else if Min (sbitmap_set b) < 2 ^ 31 then int (Min (sbitmap_set b))
                 else int (Min (sbitmap_set b)) - 2 ^ 32))"
proof -
  obtain i where i: "sbitmap_iter_init b mn = Inr i" "it_ok i" "pending i = {n \<in> sbitmap_set b. mn \<le> n}"
    using iter_init_spec [OF assms] by blast
  have "Min (sbitmap_set b) < 2 ^ 32" if "sbitmap_set b \<noteq> {}"
  proof -
    have "finite (sbitmap_set b)" by (rule finite_subset [of _ "{..<64 * sb_size b}"]) (auto simp: sbitmap_set_def)
    then have "Min (sbitmap_set b) < 64 * sb_size b" using Min_in [OF _ that] by (auto simp: sbitmap_set_def)
    then show ?thesis using wf_size_bound [OF assms(1)] by linarith
  qed
  then show ?thesis
    using execute_if_set_spec [OF i(2), of "[]"] i(1,3)
    by (simp add: EXECUTE_IF_SET_IN_SBITMAP_def sbitmap_first_set_bit_spec [OF assms(1)] int_of_unsigned_cases)
qed

theorem sbitmap_iteration_witness:
  "EXECUTE_IF_SET_IN_SBITMAP (one_word None 5 26) 2 = Some (Inr [3, 4]) \<and>
   sbitmap_first_set_bit (one_word None 5 26) = Some (Inr 1)"
proof -
  have "sbitmap_wf (one_word None 5 26)" by (rule one_word_wf) simp_all
  moreover have set: "sbitmap_set (one_word None 5 26) = {1, 3, 4}" unfolding one_word_set by code_simp
  moreover have "{n. (n = 1 \<or> n = 3 \<or> n = 4) \<and> 2 \<le> n} = {3, 4 :: nat}" by auto
  ultimately show ?thesis using sbitmap_iteration [of "one_word None 5 26" 2] by simp
qed

lemma and_push_bit_one: "w AND push_bit k 1 \<noteq> 0 \<longleftrightarrow> bit w k" for w :: hwi
  by (simp add: and_exp_eq_0_iff_not_bit push_bit_eq_mult)

lemma last_bit_loop_spec:
  "n \<le> 64 \<Longrightarrow> last_bit_loop w n = (if {k. k < n \<and> bit w k} = {} then None else Some (Max {k. k < n \<and> bit w k}))"
proof (induction n)
  case (Suc n)
  have split: "{k. k < Suc n \<and> bit w k} = (if bit w n then insert n {k. k < n \<and> bit w k} else {k. k < n \<and> bit w k})"
    by (auto simp: less_Suc_eq)
  have max: "Max (insert n {k. k < n \<and> bit w k}) = n" by (rule Max_eqI) auto
  have test: "w AND push_bit n 1 \<noteq> 0 \<longleftrightarrow> bit w n" by (rule and_push_bit_one)
  show ?case
  proof (cases "bit w n")
    case True
    then show ?thesis unfolding last_bit_loop.simps split using max test by simp
  next
    case False
    then show ?thesis unfolding last_bit_loop.simps split using Suc.IH Suc.prems test by simp
  qed
qed simp

lemma last_word_loop_spec:
  "n \<le> length ptr \<Longrightarrow>
   last_word_loop ptr n =
     Inr (let S = {i. i < 64 * n \<and> bit (ptr ! (i div 64)) (i mod 64)} in if S = {} then - 1 else int_of_unsigned (Max S))"
proof (induction n)
  case (Suc n)
  let ?S = "{i. i < 64 * Suc n \<and> bit (ptr ! (i div 64)) (i mod 64)}"
  let ?K = "{k. k < 64 \<and> bit (ptr ! n) k}"
  have split: "?S = {i. i < 64 * n \<and> bit (ptr ! (i div 64)) (i mod 64)} \<union> (\<lambda>k. n * 64 + k) ` ?K" (is "_ = ?T \<union> ?U")
  proof (intro subset_antisym subsetI)
    fix i assume i: "i \<in> ?S"
    show "i \<in> ?T \<union> ?U"
    proof (cases "i < 64 * n")
      case False
      then have n: "i div 64 = n" using i by (auto intro: div_nat_eqI)
      then have "i = n * 64 + i mod 64" by auto
      with i n have "i \<in> ?U" by (intro image_eqI [of _ _ "i mod 64"]) auto
      then show ?thesis ..
    qed (use i in simp)
  qed auto
  show ?case
  proof (cases "ptr ! n = 0")
    case True
    then have "?U = {}" by simp
    with Suc True split show ?thesis by simp
  next
    case False
    then obtain k where "bit (ptr ! n) k" by (metis bit_eq_iff bit_0_eq bot_apply bot_bool_def)
    moreover from this have "k < 64" using bit_imp_le_length by fastforce
    ultimately have K: "?K \<noteq> {}" by blast
    have "Max ?S = n * 64 + Max ?K"
    proof (rule Max_eqI)
      show "finite ?S" by (rule finite_subset [of _ "{..<64 * Suc n}"]) auto
      show "n * 64 + Max ?K \<in> ?S" using Max_in [OF _ K] unfolding split by auto
      fix i assume "i \<in> ?S"
      then consider "i < 64 * n" | k where "i = n * 64 + k" "k \<in> ?K" unfolding split by blast
      then show "i \<le> n * 64 + Max ?K" by cases (auto simp: Max_ge)
    qed
    moreover have "?S \<noteq> {}" using K unfolding split by blast
    moreover have "last_bit_loop (ptr ! n) 64 = Some (Max ?K)" using K last_bit_loop_spec [of 64 "ptr ! n"] by simp
    ultimately show ?thesis using False Suc.prems by (auto simp: Let_def)
  qed
qed (simp add: Let_def)

lemma sbitmap_last_set_bit_spec:
  assumes "sbitmap_wf b"
  shows "sbitmap_last_set_bit b = Inr (if sbitmap_set b = {} then - 1 else int_of_unsigned (Max (sbitmap_set b)))"
proof -
  have "sb_size b \<le> 2 ^ 31" using wf_size_bound [OF assms] by simp
  moreover have "sb_size b \<le> length (sb_elms b)" using assms by (simp add: sbitmap_wf_def)
  ultimately show ?thesis
    using last_word_loop_spec [of "sb_size b" "sb_elms b"] by (auto simp: sbitmap_last_set_bit_def sbitmap_set_def Let_def)
qed

section \<open>Sequences of updates\<close>

text \<open>
  C28: Any sequence of in-range \<open>SET_BIT\<close> and \<open>RESET_BIT\<close> operations succeeds, keeps the invariant
  (the population counts included) and does to the bitmap's set what the sequence does to a
  mathematical set; a later \<open>TEST_BIT\<close> then answers with the last update of that bit.
\<close>

theorem sbitmap_updates_refine:
  assumes "sbitmap_wf b" "\<forall>p \<in> set ps. op_index p < sb_n_bits b" "i < sb_n_bits b"
  shows "\<exists>b'. run_ops SET_BIT RESET_BIT b ps = Inr b' \<and> sbitmap_wf b' \<and> sb_n_bits b' = sb_n_bits b
           \<and> sbitmap_set b' = foldl apply_op (sbitmap_set b) ps
           \<and> TEST_BIT b' i = Inr (case filter (\<lambda>p. op_index p = i) (rev ps) of
                                    [] \<Rightarrow> i \<in> sbitmap_set b | p # _ \<Rightarrow> p = Set_Bit i)"
proof -
  obtain b' where b': "run_ops SET_BIT RESET_BIT b ps = Inr b'" "sbitmap_wf b'" "sb_n_bits b' = sb_n_bits b"
      "sbitmap_set b' = foldl apply_op (sbitmap_set b) ps"
    using sb.run_ops_refine [OF assms(1,2)] by blast
  moreover have "TEST_BIT b' i = Inr (i \<in> sbitmap_set b')" using b' assms(3) by (intro TEST_BIT_set) simp_all
  ultimately show ?thesis using fold_ops_member [of i "sbitmap_set b" ps] by simp
qed

theorem sbitmap_updates_refine_witness:
  "\<exists>b'. run_ops SET_BIT RESET_BIT (one_word (Some 1) 5 1) [Set_Bit 3, Clear_Bit 0, Set_Bit 4] = Inr b'
     \<and> sbitmap_wf b' \<and> TEST_BIT b' 0 = Inr False"
proof -
  have "do_popcount 1 = 1" by code_simp
  then have "sbitmap_wf (one_word (Some 1) 5 1)" by (simp add: one_word_wf)
  with sbitmap_updates_refine [of "one_word (Some 1) 5 1" "[Set_Bit 3, Clear_Bit 0, Set_Bit 4]" 0]
  show ?thesis by (auto simp: one_word_n_bits)
qed

section \<open>Counting\<close>

lemma popcount_words_card:
  assumes "popcounts_ok a" "n \<le> sb_size a"
  shows "popcount_words a n = card {i \<in> sbitmap_set a. i < 64 * n}"
  using assms(2)
proof (induction n)
  case (Suc n)
  let ?S = "\<lambda>n. {i \<in> sbitmap_set a. i < 64 * n}"
  let ?K = "{k. k < 64 \<and> bit (sb_elms a ! n) k}"
  have w: "(case sb_popcount a of Some p \<Rightarrow> unat (p ! n) | None \<Rightarrow> do_popcount (sb_elms a ! n)) = card ?K"
    using assms(1) Suc.prems by (auto simp: popcounts_ok_def do_popcount_card split: option.splits)
  have split: "?S (Suc n) = ?S n \<union> (\<lambda>k. 64 * n + k) ` ?K"
  proof (intro subset_antisym subsetI)
    fix i assume i: "i \<in> ?S (Suc n)"
    show "i \<in> ?S n \<union> (\<lambda>k. 64 * n + k) ` ?K"
    proof (cases "i < 64 * n")
      case False
      then have "i div 64 = n" using i by (auto intro: div_nat_eqI)
      moreover from this have "i = 64 * n + i mod 64" by auto
      ultimately have "i \<in> (\<lambda>k. 64 * n + k) ` ?K" using i by (intro image_eqI [of _ _ "i mod 64"]) (auto simp: mem_sbitmap_set)
      then show ?thesis ..
    qed (use i in simp)
  next
    fix i assume "i \<in> ?S n \<union> (\<lambda>k. 64 * n + k) ` ?K"
    then show "i \<in> ?S (Suc n)" using Suc.prems bit_elm [of n a] by auto
  qed
  have "card (?S (Suc n)) = card (?S n) + card ((\<lambda>k. 64 * n + k) ` ?K)"
    unfolding split by (rule card_Un_disjoint) auto
  also have "card ((\<lambda>k. 64 * n + k) ` ?K) = card ?K" by (rule card_image) (auto simp: inj_on_def)
  finally show ?case using Suc w by simp
qed simp

lemma masked_popcount:
  assumes "n < sb_size a" "k \<le> 64"
  shows "do_popcount (sb_elms a ! n AND last_mask k) = card {i \<in> sbitmap_set a. 64 * n \<le> i \<and> i < 64 * n + k}"
proof -
  have "{j. j < 64 \<and> bit (sb_elms a ! n AND last_mask k) j} = {j. j < k \<and> bit (sb_elms a ! n) j}"
    using assms(2) by (auto simp: bit_simps)
  moreover have "(\<lambda>j. 64 * n + j) ` {j. j < k \<and> bit (sb_elms a ! n) j} = {i \<in> sbitmap_set a. 64 * n \<le> i \<and> i < 64 * n + k}"
    (is "?f ` ?A = ?B")
  proof (intro subset_antisym subsetI)
    fix i assume i: "i \<in> ?B"
    then have "i = ?f (i - 64 * n)" "i - 64 * n < k" by auto
    moreover from this i have "i - 64 * n \<in> ?A" using bit_elm [OF assms(1), of "i - 64 * n"] assms(2) by simp
    ultimately show "i \<in> ?f ` ?A" by blast
  next
    fix i assume "i \<in> ?f ` ?A"
    then show "i \<in> ?B" using bit_elm [OF assms(1)] assms(2) by auto
  qed
  moreover have "card (?f ` ?A) = card ?A" by (rule card_image) (auto simp: inj_on_def)
  ultimately show ?thesis by (simp add: do_popcount_card)
qed

text \<open>
  \<open>sbitmap_popcount\<close> counts the set bits below \<open>maxbit\<close>, whether it reads the stored counts or
  the elements, and also when \<open>maxbit\<close> is past the end of the bitmap.
\<close>

theorem sbitmap_popcount_counts:
  assumes "sbitmap_wf a"
  shows "sbitmap_popcount a maxbit = Inr (card {i \<in> sbitmap_set a. i < maxbit})"
proof (cases "maxbit = 0")
  case False
  define m where "m = min maxbit (sb_n_bits a)"
  have wf: "sb_size a \<le> length (sb_elms a)" "popcounts_ok a" "sb_n_bits a \<le> 64 * sb_size a"
      "\<And>i. i \<in> sbitmap_set a \<Longrightarrow> i < sb_n_bits a"
    using assms wf_size(1) [OF assms] by (auto simp: sbitmap_wf_def)
  have set: "{i \<in> sbitmap_set a. i < maxbit} = {i \<in> sbitmap_set a. i < m}" using wf(4) by (auto simp: m_def)
  have m_le: "m \<le> 64 * sb_size a" using wf(3) by (simp add: m_def)
  then have le: "m div 64 \<le> sb_size a" by linarith
  have "m + 1 + 64 - 1 = m + 64" by simp
  then have "(m + 1 + 64 - 1) div 64 = m div 64 + 1" by (simp only: div_add_self2 zero_neq_numeral not_False_eq_True)
  with le have last: "min (sb_size a) ((m + 1 + 64 - 1) div 64 - 1) = m div 64" by simp
  have all: "popcount_words a (m div 64) = card {i \<in> sbitmap_set a. i < 64 * (m div 64)}"
    by (rule popcount_words_card [OF wf(2) le])
  have r: "sbitmap_popcount a maxbit =
     Inr (if m div 64 < sb_size a \<and> m mod 64 \<noteq> 0
          then popcount_words a (m div 64) + do_popcount (sb_elms a ! (m div 64) AND last_mask (m mod 64))
          else popcount_words a (m div 64))"
  proof -
    have m: "(if sb_n_bits a \<le> maxbit then sb_n_bits a else maxbit) = m" by (simp add: m_def min_def)
    have "\<not> (length (sb_elms a) < m div 64 \<or> length (sb_elms a) < sb_size a)" using le wf(1) by linarith
    then show ?thesis using False unfolding sbitmap_popcount_def Let_def m last by (simp only: if_False)
  qed
  show ?thesis
  proof (cases "m div 64 < sb_size a \<and> m mod 64 \<noteq> 0")
    case True
    have "{i \<in> sbitmap_set a. i < m} = {i \<in> sbitmap_set a. i < 64 * (m div 64)}
            \<union> {i \<in> sbitmap_set a. 64 * (m div 64) \<le> i \<and> i < 64 * (m div 64) + m mod 64}"
      by auto
    moreover have "card \<dots> = card {i \<in> sbitmap_set a. i < 64 * (m div 64)}
            + card {i \<in> sbitmap_set a. 64 * (m div 64) \<le> i \<and> i < 64 * (m div 64) + m mod 64}"
      by (rule card_Un_disjoint) auto
    ultimately show ?thesis using True r all masked_popcount [of "m div 64" a "m mod 64"] set by simp
  next
    case False
    then have "m mod 64 = 0" using le m_le by (metis div_less_iff_less_mult div_mult_mod_eq le_antisym mult.commute nat_less_le not_less add_cancel_right_right zero_less_numeral mult_le_mono2)
    then have eq: "64 * (m div 64) = m" by auto
    show ?thesis unfolding r set using False all [unfolded eq] by (simp only: if_False)
  qed
qed (simp add: sbitmap_popcount_def)

theorem sbitmap_popcount_counts_witness:
  "sbitmap_wf (one_word (Some 3) 5 0x13) \<and> sbitmap_popcount (one_word (Some 3) 5 0x13) 4 = Inr 2"
proof -
  have "do_popcount 0x13 = 3" by code_simp
  then have "sbitmap_wf (one_word (Some 3) 5 0x13)" by (simp add: one_word_wf)
  moreover have "{i \<in> sbitmap_set (one_word (Some 3) 5 0x13). i < 4} = {0, 1}"
    unfolding one_word_set by code_simp
  ultimately show ?thesis using sbitmap_popcount_counts [of "one_word (Some 3) 5 0x13" 4] by simp
qed


section \<open>The table-driven population count\<close>

text \<open>The table doubles: the counts of \<open>2 ^ k + n\<close> are one more than those of \<open>n < 2 ^ k\<close>.\<close>

fun doubled_counts :: "nat \<Rightarrow> nat list" where
  "doubled_counts 0 = [0]"
| "doubled_counts (Suc k) = doubled_counts k @ map Suc (doubled_counts k)"

lemma length_doubled_counts [simp]: "length (doubled_counts k) = 2 ^ k"
  by (induction k) auto

lemma nth_doubled_counts: "n < 2 ^ k \<Longrightarrow> doubled_counts k ! n = length (filter (bit n) [0..<k])"
proof (induction k arbitrary: n)
  case (Suc k)
  show ?case
  proof (cases "n < 2 ^ k")
    case True
    then have "\<not> bit n k" by (metis bit_take_bit_iff less_irrefl take_bit_nat_eq_self_iff)
    with True Suc.IH show ?thesis by (simp add: nth_append)
  next
    case False
    then have n: "n = 2 ^ k + (n - 2 ^ k)" and m: "n - 2 ^ k < 2 ^ k" using Suc.prems by auto
    then have "n div 2 ^ k = 1" by (metis add.commute add_cancel_right_left div_add_self1 div_less power_not_zero zero_neq_numeral)
    then have top: "bit n k" by (simp add: bit_iff_odd)
    have "take_bit k n = n - 2 ^ k" using n m by (metis add.commute mod_add_self2 mod_less take_bit_eq_mod)
    then have low: "bit n j \<longleftrightarrow> bit (n - 2 ^ k) j" if "j < k" for j using that by (metis bit_take_bit_iff)
    have "filter (bit n) [0..<k] = filter (bit (n - 2 ^ k)) [0..<k]" by (rule filter_cong) (simp_all add: low)
    with False top m Suc.IH [OF m] show ?thesis by (simp add: nth_append)
  qed
qed simp

lemma popcount_table_byte: "n < 256 \<Longrightarrow> popcount_table ! n = length (filter (bit n) [0..<8])"
proof -
  have "popcount_table = doubled_counts 8" by (simp add: popcount_table_def eval_nat_numeral)
  then show "n < 256 \<Longrightarrow> popcount_table ! n = length (filter (bit n) [0..<8])"
    using nth_doubled_counts [of n 8] by simp
qed

lemma table_entry:
  fixes a :: hwi
  shows "popcount_table ! unat (drop_bit (8 * j) a AND 0xff) = length (filter (bit a) [8 * j..<8 * j + 8])"
proof -
  have m: "drop_bit (8 * j) a AND 0xff = take_bit 8 (drop_bit (8 * j) a)"
    by (simp add: take_bit_eq_mask mask_eq_exp_minus_1)
  let ?u = "unat (take_bit 8 (drop_bit (8 * j) a))"
  have b: "bit ?u k \<longleftrightarrow> k < 8 \<and> bit a (8 * j + k)" for k
    by (auto simp: bit_simps bit_unsigned_iff)
  have "?u < 256" by (simp add: unsigned_take_bit_eq take_bit_nat_less_exp [of 8, simplified])
  then have "popcount_table ! ?u = length (filter (bit ?u) [0..<8])" by (rule popcount_table_byte)
  also have "filter (bit ?u) [0..<8] = filter (\<lambda>k. bit a (8 * j + k)) [0..<8]"
    by (rule filter_cong) (simp_all add: b)
  also have "length \<dots> = length (filter (bit a) (map ((+) (8 * j)) [0..<8]))"
    by (simp add: filter_map comp_def)
  also have "map ((+) (8 * j)) [0..<8] = [8 * j..<8 * j + 8]"
    by (rule nth_equalityI) simp_all
  finally show ?thesis by (simp only: m)
qed

lemma elt_popcount_loop_spec:
  "k \<le> 8 \<Longrightarrow> elt_popcount_loop a k ret = ret + length (filter (bit a) [8 * (8 - k)..<64])"
proof (induction k arbitrary: ret)
  case (Suc k)
  have e: "8 - Suc k = 7 - k" by simp
  have "[8 * (8 - Suc k)..<64] = [8 * (7 - k)..<8 * (7 - k) + 8] @ [8 * (8 - k)..<64]"
    using Suc.prems upt_add_eq_append [of "8 * (7 - k)" "8 * (7 - k) + 8" "8 * k"] by (simp add: algebra_simps)
  with Suc show ?case by (simp add: table_entry)
qed simp

text \<open>
  The byte-table population count used when the host compiler has no builtin agrees with the
  number of set bits on every element.
\<close>

theorem sbitmap_elt_popcount_correct: "sbitmap_elt_popcount a = do_popcount a"
  using elt_popcount_loop_spec [of 8 a 0] by (simp add: sbitmap_elt_popcount_def do_popcount_def)

section \<open>Filling, complement, difference\<close>

lemma bit_last_mask: "k \<le> 64 \<Longrightarrow> bit (last_mask k) j \<longleftrightarrow> j < k" for j :: nat
  by (auto simp: bit_simps)

lemma sbitmap_zero_result: "sbitmap_wf b \<Longrightarrow> sb_result (Inr (sbitmap_zero b)) b {}"
proof -
  assume wf: "sbitmap_wf b"
  have s: "sbitmap_set (sbitmap_zero b) = {}"
    by (auto simp: sbitmap_set_def sbitmap_zero_def nth_append)
  moreover have "do_popcount 0 = 0" by (simp add: do_popcount_def)
  ultimately show ?thesis using wf
    by (auto simp: sb_result_def sbitmap_wf_def sbitmap_zero_def popcounts_ok_def nth_append split: option.splits)
qed

text \<open>The number of the last element's bits that are in use.\<close>

lemma last_bits_nat:
  fixes n s q r :: nat
  assumes "n \<le> 64 * s" "64 * s < n + 64" "q < s" "r < 64"
  shows "64 * q + r < n \<longleftrightarrow> \<not> (n mod 64 \<noteq> 0 \<and> q = s - 1) \<or> r < n mod 64"
proof -
  define a b where "a = n div 64" and "b = n mod 64"
  have n: "n = 64 * a + b" "b < 64" by (simp_all add: a_def b_def)
  show ?thesis
  proof (cases "b = 0")
    case True
    then have "a = s" using assms n by linarith
    with True n assms show ?thesis unfolding b_def [symmetric] by simp
  next
    case False
    then have s: "s = a + 1" using assms n by linarith
    show ?thesis
    proof (cases "q = a")
      case True
      with s False n show ?thesis unfolding b_def [symmetric] by simp
    next
      case ne: False
      then have "64 * q + r < n" using s n assms by linarith
      with ne s show ?thesis by simp
    qed
  qed
qed

lemma last_bits:
  assumes "sbitmap_wf b"
  shows "q < sb_size b \<Longrightarrow> r < 64 \<Longrightarrow> 64 * q + r < sb_n_bits b \<longleftrightarrow>
           \<not> (sb_n_bits b mod 64 \<noteq> 0 \<and> q = sb_size b - 1) \<or> r < sb_n_bits b mod 64"
    and "sb_size b = 0 \<Longrightarrow> sb_n_bits b = 0"
  using last_bits_nat wf_size [OF assms] by auto

lemma sbitmap_ones_elms:
  assumes "sbitmap_wf b" "i < sb_size b" "k < 64"
  shows "bit (sb_elms (sbitmap_ones b) ! i) k \<longleftrightarrow> 64 * i + k < sb_n_bits b"
proof -
  have len: "sb_size b \<le> length (sb_elms b)" using assms(1) by (simp add: sbitmap_wf_def)
  have "sb_elms (sbitmap_ones b) ! i = (if sb_n_bits b mod 64 \<noteq> 0 \<and> i = sb_size b - 1 then last_mask (sb_n_bits b mod 64) else - 1)"
    using assms(2) len by (auto simp: sbitmap_ones_def Let_def nth_append nth_list_update)
  moreover have "bit (last_mask (sb_n_bits b mod 64)) k \<longleftrightarrow> k < sb_n_bits b mod 64"
    by (rule bit_last_mask) simp
  ultimately show ?thesis using last_bits(1) [OF assms(1), of i k] assms(2,3) by (auto simp: bit_simps)
qed

lemma sbitmap_ones_result:
  assumes "sbitmap_wf b" "sb_popcount b = None"
  shows "sb_result (Inr (sbitmap_ones b)) b {..<sb_n_bits b}"
proof -
  let ?d = "sbitmap_ones b"
  have fields: "sb_n_bits ?d = sb_n_bits b" "sb_size ?d = sb_size b" "sb_popcount ?d = None"
      "length (sb_elms ?d) = length (sb_elms b)"
    using assms by (auto simp: sbitmap_ones_def Let_def sbitmap_wf_def)
  have "sbitmap_set ?d = {..<sb_n_bits b}"
    by (rule words_of_set) (use assms fields wf_size [OF assms(1)] sbitmap_ones_elms [OF assms(1)] in \<open>simp_all add: sbitmap_wf_def\<close>)
  with fields assms show ?thesis by (simp add: sb_result_def sbitmap_wf_def popcounts_ok_def)
qed

lemma sbitmap_not_result:
  assumes "same_shape [dst, src]" "sb_popcount dst = None"
  shows "sb_result (sbitmap_not dst src) dst ({..<sb_n_bits dst} - sbitmap_set src)"
proof -
  have wf: "sbitmap_wf dst" "sbitmap_wf src" and sz: "sb_size src = sb_size dst" and nb: "sb_n_bits src = sb_n_bits dst"
    using shape_wf [OF assms(1)] shape_size [OF assms(1), of src] shape_n_bits [OF assms(1), of src] by simp_all
  have len: "sb_size dst \<le> length (sb_elms dst)" using wf by (simp add: sbitmap_wf_def)
  let ?l = "sb_n_bits dst mod 64" and ?n = "sb_size dst"
  let ?p = "plain_loop (\<lambda>i. NOT (sb_elms src ! i)) 0 ?n (sb_elms dst)"
  let ?d = "dst\<lparr>sb_elms := if ?l = 0 then ?p else ?p[?n - 1 := ?p ! (?n - 1) AND last_mask ?l]\<rparr>"
  have r: "sbitmap_not dst src = Inr ?d"
    using same_shape_covers [OF assms(1)] assms(2) last_bits(2) [OF wf(1)] nb
    by (simp add: sbitmap_not_def plain_op_def Let_def)
  have e: "bit (sb_elms ?d ! i) k \<longleftrightarrow> 64 * i + k \<in> {..<sb_n_bits dst} - sbitmap_set src"
    if i: "i < ?n" "k < 64" for i k
  proof -
    have p: "?p ! i = NOT (sb_elms src ! i)" using i len by (simp add: nth_plain_loop)
    have "bit (last_mask ?l) k \<longleftrightarrow> k < ?l" by (rule bit_last_mask) simp
    then show ?thesis using i p len last_bits(1) [OF wf(1), of i k] bit_elm [of i src k] sz
      by (auto simp: bit_simps nth_list_update)
  qed
  have "sbitmap_set ?d = {..<sb_n_bits dst} - sbitmap_set src"
    by (rule words_of_set) (use len wf_size [OF wf(1)] e in auto)
  with r wf assms(2) len show ?thesis by (simp add: sb_result_def sbitmap_wf_def popcounts_ok_def)
qed


lemma sbitmap_difference_result:
  assumes "same_shape [dst, a]" "sbitmap_wf b" "sb_popcount dst = None" "same \<Longrightarrow> dst = a"
  shows "sb_result (sbitmap_difference same dst a b) dst (sbitmap_set a - sbitmap_set b)"
proof -
  let ?n = "sb_size dst" and ?m = "min (sb_size b) (sb_size dst)"
  have wf: "sbitmap_wf dst" "sbitmap_wf a" and sz: "sb_size a = ?n"
    using shape_wf [OF assms(1)] shape_size [OF assms(1), of a] by simp_all
  have len: "?n \<le> length (sb_elms dst)" "?n \<le> length (sb_elms a)" "sb_size b \<le> length (sb_elms b)"
    using wf assms(2) sz unfolding sbitmap_wf_def by metis+
  let ?p = "plain_loop (\<lambda>i. sb_elms a ! i AND NOT (sb_elms b ! i)) 0 ?m (sb_elms dst)"
  let ?q = "if \<not> same \<and> ?m \<noteq> ?n then plain_loop (\<lambda>i. sb_elms a ! i) ?m (?n - ?m) ?p else ?p"
  have r: "sbitmap_difference same dst a b = Inr (dst\<lparr>sb_elms := ?q\<rparr>)"
    using assms(3) sz len by (simp add: sbitmap_difference_def Let_def)
  have q: "?q ! i = (if i < sb_size b then sb_elms a ! i AND NOT (sb_elms b ! i) else sb_elms a ! i)" if "i < ?n" for i
    using that len assms(4) by (auto simp: nth_plain_loop)
  have "sbitmap_set (dst\<lparr>sb_elms := ?q\<rparr>) = sbitmap_set a - sbitmap_set b"
  proof (rule words_of_set)
    fix i k :: nat assume i: "i < sb_size (dst\<lparr>sb_elms := ?q\<rparr>)" "k < 64"
    have "64 * i + k \<in> sbitmap_set b \<Longrightarrow> i < sb_size b" by (simp add: sbitmap_set_def)
    then show "bit (sb_elms (dst\<lparr>sb_elms := ?q\<rparr>) ! i) k \<longleftrightarrow> 64 * i + k \<in> sbitmap_set a - sbitmap_set b"
      using i q [of i] bit_elm [of i a k] bit_elm [of i b k] sz by (auto simp: bit_simps)
  qed (use len wf_size [OF wf(1)] shape_bound [OF assms(1), of a] in auto)
  then show ?thesis unfolding r using assms(3) wf len shape_bound [OF assms(1), of a]
    by (simp add: sb_result_def sbitmap_wf_def popcounts_ok_def)
qed

section \<open>Tests\<close>

lemma words_eq_iff_sets:
  assumes "sb_size a = sb_size b"
  shows "(\<forall>i < sb_size a. sb_elms a ! i = sb_elms b ! i) \<longleftrightarrow> sbitmap_set a = sbitmap_set b"
proof
  assume "\<forall>i < sb_size a. sb_elms a ! i = sb_elms b ! i"
  then show "sbitmap_set a = sbitmap_set b" using assms by (auto simp: mem_sbitmap_set)
next
  assume "sbitmap_set a = sbitmap_set b"
  then show "\<forall>i < sb_size a. sb_elms a ! i = sb_elms b ! i"
    using assms bit_elm [of _ a] bit_elm [of _ b] by (auto intro!: bit_word_eqI)
qed

lemma range_all_Suc:
  "(\<forall>j. i \<le> j \<and> j < i + Suc k \<longrightarrow> P j) \<longleftrightarrow> P i \<and> (\<forall>j. Suc i \<le> j \<and> j < Suc i + k \<longrightarrow> P j)"
  by (auto simp: Suc_le_eq) (metis le_neq_implies_less)

lemma range_ex_Suc:
  "(\<exists>j. i \<le> j \<and> j < i + Suc k \<and> P j) \<longleftrightarrow> P i \<or> (\<exists>j. Suc i \<le> j \<and> j < Suc i + k \<and> P j)"
  using range_all_Suc [of i k "\<lambda>j. \<not> P j"] by blast

lemma empty_loop_spec:
  "i + k \<le> length elms \<Longrightarrow> empty_loop elms i k = Inr (\<forall>j. i \<le> j \<and> j < i + k \<longrightarrow> elms ! j = 0)"
proof (induction k arbitrary: i)
  case (Suc k)
  show ?case using Suc.IH [of "Suc i"] Suc.prems by (simp only: range_all_Suc) simp
qed auto

lemma subset_loop_spec:
  "i + k \<le> length ap \<Longrightarrow> i + k \<le> length bp \<Longrightarrow>
   subset_loop ap bp i k = Inr (\<forall>j. i \<le> j \<and> j < i + k \<longrightarrow> ap ! j OR bp ! j = bp ! j)"
proof (induction k arbitrary: i)
  case (Suc k)
  show ?case using Suc.IH [of "Suc i"] Suc.prems by (simp only: range_all_Suc) simp
qed auto

lemma common_loop_spec:
  "common_loop ap bp i k \<longleftrightarrow> (\<exists>j. i \<le> j \<and> j < i + k \<and> ap ! j AND bp ! j \<noteq> 0)"
proof (induction k arbitrary: i)
  case (Suc k)
  show ?case using Suc.IH [of "Suc i"] by (simp only: range_ex_Suc) simp
qed auto

lemma subset_words: "a OR b = b \<longleftrightarrow> (\<forall>k < 64. bit a k \<longrightarrow> bit b k)" for a b :: hwi
  by (auto simp: bit_eq_iff bit_simps)

lemma common_words: "a AND b \<noteq> 0 \<longleftrightarrow> (\<exists>k < 64. bit a k \<and> bit b k)" for a b :: hwi
  by (auto simp: bit_eq_iff bit_simps dest: bit_imp_le_length)

text \<open>Quantification over the words and the bits of a word.\<close>

lemma all_words_iff: "(\<forall>i < n. \<forall>k < 64. P (64 * i + k)) \<longleftrightarrow> (\<forall>j < 64 * n. P j)" for n :: nat
proof
  assume l: "\<forall>i < n. \<forall>k < 64. P (64 * i + k)"
  show "\<forall>j < 64 * n. P j"
  proof (intro allI impI)
    fix j :: nat assume "j < 64 * n"
    then have "j div 64 < n" "j mod 64 < 64" by simp_all
    with l have "P (64 * (j div 64) + j mod 64)" by blast
    then show "P j" by simp
  qed
qed auto

text \<open>
  The tests on whole bitmaps decide equality, inclusion, overlap and emptiness of the sets they
  stand for; inclusion and equality are between bitmaps of one shape, overlap between any two.
\<close>

theorem sbitmap_tests:
  assumes "sbitmap_wf a" "sbitmap_wf b"
  shows "(sb_n_bits a = sb_n_bits b \<longrightarrow>
            sbitmap_equal a b = Inr (sbitmap_set a = sbitmap_set b)
            \<and> sbitmap_a_subset_b_p a b = Inr (sbitmap_set a \<subseteq> sbitmap_set b))
       \<and> sbitmap_any_common_bits a b = Inr (sbitmap_set a \<inter> sbitmap_set b \<noteq> {})
       \<and> sbitmap_empty_p a = Inr (sbitmap_set a = {})"
proof -
  have len: "sb_size a \<le> length (sb_elms a)" "sb_size b \<le> length (sb_elms b)"
    using assms by (simp_all add: sbitmap_wf_def)
  have eq: "sbitmap_equal a b = Inr (sbitmap_set a = sbitmap_set b)
         \<and> sbitmap_a_subset_b_p a b = Inr (sbitmap_set a \<subseteq> sbitmap_set b)" if "sb_n_bits a = sb_n_bits b"
  proof -
    have sz: "sb_size a = sb_size b" using assms that by (rule wf_same_size)
    have "take (sb_size a) (sb_elms a) = take (sb_size a) (sb_elms b) \<longleftrightarrow> (\<forall>i < sb_size a. sb_elms a ! i = sb_elms b ! i)"
      using len sz by (auto simp: list_eq_iff_nth_eq)
    then have "sbitmap_equal a b = Inr (sbitmap_set a = sbitmap_set b)"
      using len sz words_eq_iff_sets [OF sz] by (simp add: sbitmap_equal_def)
    moreover have "(\<forall>j < sb_size a. sb_elms a ! j OR sb_elms b ! j = sb_elms b ! j) \<longleftrightarrow> sbitmap_set a \<subseteq> sbitmap_set b"
      using all_words_iff [of "sb_size a" "\<lambda>j. j \<in> sbitmap_set a \<longrightarrow> j \<in> sbitmap_set b"] sz
      by (auto simp: subset_words bit_elm [of _ a] bit_elm [of _ b]) (auto simp: sbitmap_set_def)
    ultimately show ?thesis
      using subset_loop_spec [of 0 "sb_size a" "sb_elms a" "sb_elms b"] len sz by (simp add: sbitmap_a_subset_b_p_def)
  qed
  have "(\<exists>j < min (sb_size a) (sb_size b). sb_elms a ! j AND sb_elms b ! j \<noteq> 0) \<longleftrightarrow> sbitmap_set a \<inter> sbitmap_set b \<noteq> {}"
    using all_words_iff [of "min (sb_size a) (sb_size b)" "\<lambda>j. \<not> (j \<in> sbitmap_set a \<and> j \<in> sbitmap_set b)"]
    by (auto simp: common_words bit_elm [of _ a] bit_elm [of _ b]) (auto simp: sbitmap_set_def)
  then have common: "sbitmap_any_common_bits a b = Inr (sbitmap_set a \<inter> sbitmap_set b \<noteq> {})"
    using len by (auto simp: sbitmap_any_common_bits_def common_loop_spec Let_def)
  have "(\<forall>j < sb_size a. sb_elms a ! j = 0) \<longleftrightarrow> sbitmap_set a = {}"
  proof -
    have "sbitmap_set (a\<lparr>sb_elms := replicate (sb_size a) 0\<rparr>) = {}" by (auto simp: mem_sbitmap_set)
    with words_eq_iff_sets [of a "a\<lparr>sb_elms := replicate (sb_size a) 0\<rparr>"] show ?thesis by simp
  qed
  then have "sbitmap_empty_p a = Inr (sbitmap_set a = {})"
    using len empty_loop_spec [of 0 "sb_size a" "sb_elms a"] by (simp add: sbitmap_empty_p_def)
  with eq common show ?thesis by blast
qed

theorem sbitmap_tests_witness:
  "sbitmap_a_subset_b_p (one_word None 5 2) (one_word None 5 6) = Inr True \<and> sbitmap_wf (one_word None 5 6)"
proof -
  have wf: "sbitmap_wf (one_word None 5 2)" "sbitmap_wf (one_word None 5 6)" by (simp_all add: one_word_wf)
  have "sbitmap_set (one_word None 5 2) \<subseteq> sbitmap_set (one_word None 5 6)" unfolding one_word_set by code_simp
  with sbitmap_tests [OF wf] wf show ?thesis by (simp add: one_word_n_bits)
qed


section \<open>Meets over the flow graph\<close>

lemma plain_op_words:
  "same_shape [dst, s] \<Longrightarrow> sb_popcount dst = None \<Longrightarrow>
   sb_result (plain_op dst [s] (\<lambda>i. sb_elms dst ! i AND sb_elms s ! i)) dst (sbitmap_set dst \<inter> sbitmap_set s)
   \<and> sb_result (plain_op dst [s] (\<lambda>i. sb_elms dst ! i OR sb_elms s ! i)) dst (sbitmap_set dst \<union> sbitmap_set s)"
  using shape_bound [of dst "[s]" s] shape_bound [of dst "[s]" dst] shape_wf [of dst "[s]" dst]
  by (intro conjI plain_op_result same_shape_covers)
     (auto simp: bit_simps bit_elm_shape [of dst "[s]" dst] bit_elm_shape [of dst "[s]" s])

text \<open>The blocks an edge list leads to, special blocks left out.\<close>

definition targets :: "nat option list \<Rightarrow> nat list" where
  "targets es = List.map_filter id es"

lemma targets_simps [simp]: "targets [] = []" "targets (None # es) = targets es" "targets (Some k # es) = k # targets es"
  by (simp_all add: targets_def List.map_filter_def)

lemma meet_rest_result:
  assumes "sbitmap_wf dst" "sb_popcount dst = None"
    and "\<forall>k \<in> set (targets es). k < length src \<and> sbitmap_wf (src ! k) \<and> sb_n_bits (src ! k) = sb_n_bits dst"
  shows "sb_result (meet_rest (AND) src dst es) dst (fold (\<lambda>k S. S \<inter> sbitmap_set (src ! k)) (targets es) (sbitmap_set dst))
       \<and> sb_result (meet_rest (OR) src dst es) dst (fold (\<lambda>k S. S \<union> sbitmap_set (src ! k)) (targets es) (sbitmap_set dst))"
  using assms
proof (induction es arbitrary: dst)
  case Nil
  then show ?case by (simp add: sb_result_def)
next
  case (Cons e es)
  show ?case
  proof (cases e)
    case None
    with Cons show ?thesis by simp
  next
    case (Some k)
    then have k: "k < length src" and shape: "same_shape [dst, src ! k]" and rest:
        "\<forall>k \<in> set (targets es). k < length src \<and> sbitmap_wf (src ! k) \<and> sb_n_bits (src ! k) = sb_n_bits dst"
      using Cons.prems by (auto simp: same_shape_def)
    obtain d1 d2 where d:
        "plain_op dst [src ! k] (\<lambda>i. sb_elms dst ! i AND sb_elms (src ! k) ! i) = Inr d1"
        "sbitmap_wf d1" "sb_n_bits d1 = sb_n_bits dst" "sbitmap_set d1 = sbitmap_set dst \<inter> sbitmap_set (src ! k)" "sb_popcount d1 = None"
        "plain_op dst [src ! k] (\<lambda>i. sb_elms dst ! i OR sb_elms (src ! k) ! i) = Inr d2"
        "sbitmap_wf d2" "sb_n_bits d2 = sb_n_bits dst" "sbitmap_set d2 = sbitmap_set dst \<union> sbitmap_set (src ! k)" "sb_popcount d2 = None"
      using plain_op_words [OF shape Cons.prems(2)] Cons.prems(2) unfolding sb_result_def by blast
    from Cons.IH [of d1] Cons.IH [of d2] d rest k Some Cons.prems(2) show ?thesis
      by (simp add: sb_result_def)
  qed
qed

lemma sbitmap_copy_result:
  assumes "same_shape [dst, src]" "sb_popcount dst = None"
  shows "sb_result (sbitmap_copy dst src) dst (sbitmap_set src)"
proof -
  let ?d = "dst\<lparr>sb_elms := take (sb_size dst) (sb_elms src) @ drop (sb_size dst) (sb_elms dst)\<rparr>"
  have wf: "sbitmap_wf dst" "sbitmap_wf src" "sb_size src = sb_size dst" "sb_n_bits src = sb_n_bits dst"
    using shape_wf [OF assms(1)] shape_size [OF assms(1), of src] shape_n_bits [OF assms(1), of src] by simp_all
  have len: "sb_size dst \<le> length (sb_elms dst)" "sb_size dst \<le> length (sb_elms src)"
    using wf unfolding sbitmap_wf_def by metis+
  have "sbitmap_set ?d = sbitmap_set src" using len wf(3) by (auto simp: mem_sbitmap_set nth_append)
  moreover have "sbitmap_copy dst src = Inr ?d" using len assms(2) by (simp add: sbitmap_copy_def sbitmap_copy_n_def)
  ultimately show ?thesis using wf len assms(2) shape_bound [OF assms(1), of src]
    by (simp add: sb_result_def sbitmap_wf_def popcounts_ok_def)
qed

lemma fold_inter: "fold (\<lambda>k S. S \<inter> f k) ks A = A \<inter> (\<Inter>k \<in> set ks. f k)"
  by (induction ks arbitrary: A) auto

lemma fold_union: "fold (\<lambda>k S. S \<union> f k) ks A = A \<union> (\<Union>k \<in> set ks. f k)"
  by (induction ks arbitrary: A) auto

lemma meet_edges_none: "targets es = [] \<Longrightarrow> meet_edges f src dst es = None"
proof (induction es)
  case (Cons e es)
  then show ?case by (cases e) simp_all
qed simp

lemma meet_edges_first:
  "targets es = k # ks \<Longrightarrow> k < length src \<Longrightarrow> sbitmap_copy dst (src ! k) = Inr d \<Longrightarrow>
   \<exists>es'. targets es' = ks \<and> meet_edges f src dst es = Some (meet_rest f src d es')"
proof (induction es)
  case (Cons e es)
  then show ?case by (cases e) auto
qed simp

text \<open>
  C40: The data-flow meets: over the edges that lead to ordinary blocks, the union and the
  intersection of the neighbours' sets. With no such edge the union is empty; the intersection is
  the full set when the block has no edge at all, but keeps the old contents of \<open>dst\<close> when all its
  edges lead to the exit block.
\<close>

theorem sbitmap_meets:
  assumes "sbitmap_wf dst" "sb_popcount dst = None"
    and "\<forall>k \<in> set (targets (succs bb)). k < length src \<and> sbitmap_wf (src ! k) \<and> sb_n_bits (src ! k) = sb_n_bits dst"
  shows "sb_result (sbitmap_union_of_succs dst src succs bb) dst (\<Union>k \<in> set (targets (succs bb)). sbitmap_set (src ! k))
       \<and> sb_result (sbitmap_intersection_of_succs dst src succs bb) dst
           (if targets (succs bb) \<noteq> [] then (\<Inter>k \<in> set (targets (succs bb)). sbitmap_set (src ! k))
            else if succs bb = [] then {..<sb_n_bits dst} else sbitmap_set dst)"
proof (cases "targets (succs bb)")
  case Nil
  then have none: "meet_edges f src dst (succs bb) = None" for f by (rule meet_edges_none)
  have "sb_result (Inr dst) dst (sbitmap_set dst)" using assms by (simp add: sb_result_def)
  with Nil none sbitmap_zero_result [OF assms(1)] sbitmap_ones_result [OF assms(1,2)] assms(2) show ?thesis
    by (simp add: sbitmap_union_of_succs_def sbitmap_union_of_def sbitmap_intersection_of_succs_def sbitmap_intersection_of_def)
next
  case (Cons k ks)
  then have k: "k < length src" and shape: "same_shape [dst, src ! k]"
    using assms by (auto simp: same_shape_def)
  obtain d where d: "sbitmap_copy dst (src ! k) = Inr d" "sbitmap_wf d" "sb_n_bits d = sb_n_bits dst"
      "sbitmap_set d = sbitmap_set (src ! k)" "sb_popcount d = None"
    using sbitmap_copy_result [OF shape assms(2)] assms(2) unfolding sb_result_def by blast
  have rest: "\<forall>k \<in> set ks. k < length src \<and> sbitmap_wf (src ! k) \<and> sb_n_bits (src ! k) = sb_n_bits d"
    using assms(3) Cons d(3) by simp
  obtain es1 where es1: "targets es1 = ks" "meet_edges (AND) src dst (succs bb) = Some (meet_rest (AND) src d es1)"
    using meet_edges_first [OF Cons k d(1)] by blast
  obtain es2 where es2: "targets es2 = ks" "meet_edges (OR) src dst (succs bb) = Some (meet_rest (OR) src d es2)"
    using meet_edges_first [OF Cons k d(1)] by blast
  have "sb_result (meet_rest (AND) src d es1) d (sbitmap_set (src ! k) \<inter> (\<Inter>k \<in> set ks. sbitmap_set (src ! k)))"
      "sb_result (meet_rest (OR) src d es2) d (sbitmap_set (src ! k) \<union> (\<Union>k \<in> set ks. sbitmap_set (src ! k)))"
    using meet_rest_result [OF d(2,5), of es1 src] meet_rest_result [OF d(2,5), of es2 src] rest d(4) es1(1) es2(1)
    by (simp_all add: fold_inter fold_union)
  then show ?thesis using Cons es1 es2 d(3,5) assms(2)
    by (simp add: sb_result_def sbitmap_union_of_succs_def sbitmap_union_of_def sbitmap_intersection_of_succs_def sbitmap_intersection_of_def)
qed

theorem sbitmap_meets_witness:
  "sb_result (sbitmap_intersection_of_succs (one_word None 5 0) [one_word None 5 6, one_word None 5 3] (\<lambda>_. [Some 0, None, Some 1]) 7)
     (one_word None 5 0) {1}"
proof -
  have wf: "sbitmap_wf (one_word None 5 0)" "sbitmap_wf (one_word None 5 6)" "sbitmap_wf (one_word None 5 3)"
    by (simp_all add: one_word_wf)
  have "sbitmap_set (one_word None 5 6) \<inter> sbitmap_set (one_word None 5 3) = {1}" unfolding one_word_set by code_simp
  moreover have "sb_popcount (one_word None 5 0) = None" by (simp add: one_word_def)
  ultimately show ?thesis
    using sbitmap_meets [of "one_word None 5 0" "\<lambda>_. [Some 0, None, Some 1]" 7 "[one_word None 5 6, one_word None 5 3]"] wf
    by (simp add: one_word_n_bits)
qed

section \<open>Resizing\<close>

text \<open>The new elements, and why resizing a well-formed bitmap is always defined.\<close>

lemma resize_defined_wf:
  assumes "sbitmap_wf b" "n + 63 < 2 ^ 32"
  shows "resize_defined b n def"
proof -
  have "SBITMAP_SET_SIZE n = (n + 63) div 64" "sb_size b = (sb_n_bits b + 63) div 64"
    using assms by (simp_all add: set_size sbitmap_wf_def)
  then show ?thesis using assms by (auto simp: resize_defined_def Let_def sbitmap_wf_def div_le_mono)
qed

lemma resize_storage_nth:
  "i < sb_size b \<Longrightarrow> sb_size b \<le> length (sb_elms b) \<Longrightarrow> sb_elms (resize_storage g pg b s) ! i = sb_elms b ! i"
  by (auto simp: resize_storage_def nth_append)

lemma resize_storage_simps [simp]:
  "sb_n_bits (resize_storage g pg b s) = sb_n_bits b" "sb_size (resize_storage g pg b s) = sb_size b"
  "sb_popcount (resize_storage g pg b s) = None \<longleftrightarrow> sb_popcount b = None"
  by (simp_all add: resize_storage_def)

lemma resize_storage_length:
  "sb_size b \<le> length (sb_elms b) \<Longrightarrow> s \<le> length (sb_elms (resize_storage g pg b s))"
  by (auto simp: resize_storage_def)


text \<open>Masking the last element of an array of \<open>size\<close> elements cuts the set at \<open>n\<close>.\<close>

lemma mask_last_element:
  assumes "n \<le> 64 * sz" "64 * sz < n + 64" "i < sz" "sz \<le> length xs" "k < 64"
  shows "bit ((if n mod 64 \<noteq> 0 then xs[sz - 1 := xs ! (sz - 1) AND last_mask (n mod 64)] else xs) ! i) k
           \<longleftrightarrow> bit (xs ! i) k \<and> 64 * i + k < n"
proof -
  have "bit (last_mask (n mod 64)) k \<longleftrightarrow> k < n mod 64" by (rule bit_last_mask) simp
  then show ?thesis using last_bits_nat [OF assms(1,2,3,5)] assms(3,4) by (auto simp: bit_simps nth_list_update)
qed

lemma fill_old_element:
  assumes "sbitmap_wf b" "i < sb_size b" "sb_size b \<le> length xs" "\<And>j. j < sb_size b \<Longrightarrow> xs ! j = sb_elms b ! j" "k < 64"
  shows "bit ((if sb_n_bits b mod 64 \<noteq> 0 then xs[sb_size b - 1 := xs ! (sb_size b - 1) OR NOT (last_mask (sb_n_bits b mod 64))] else xs) ! i) k
           \<longleftrightarrow> 64 * i + k \<in> sbitmap_set b \<or> sb_n_bits b \<le> 64 * i + k"
proof -
  have "bit (last_mask (sb_n_bits b mod 64)) k \<longleftrightarrow> k < sb_n_bits b mod 64" by (rule bit_last_mask) simp
  then show ?thesis
    using last_bits(1) [OF assms(1,2,5)] assms(2-5) bit_elm [OF assms(2,5)]
    by (auto simp: bit_simps nth_list_update)
qed

text \<open>The elements after the resize, for each of the three ways it can go.\<close>

lemma resize_bits:
  assumes wf: "sbitmap_wf b" and n: "n + 63 < 2 ^ 32" and nopc: "sb_popcount b = None"
  shows "\<exists>d. sbitmap_resize g pg b n def = Inr d \<and> sb_n_bits d = n \<and> sb_size d = SBITMAP_SET_SIZE n \<and> sb_popcount d = None
           \<and> sb_size d \<le> length (sb_elms d)
           \<and> (\<forall>i k. i < sb_size d \<longrightarrow> k < 64 \<longrightarrow>
                (bit (sb_elms d ! i) k \<longleftrightarrow> 64 * i + k < n \<and> (64 * i + k \<in> sbitmap_set b \<or> def \<and> sb_n_bits b \<le> 64 * i + k)))"
proof -
  let ?s = "SBITMAP_SET_SIZE n" and ?o = "sb_size b" and ?r = "resize_storage g pg b (SBITMAP_SET_SIZE n)"
  have s: "n \<le> 64 * ?s" "64 * ?s < n + 64" using n by (auto simp: set_size)
  have o: "sb_n_bits b \<le> 64 * ?o" "64 * ?o < sb_n_bits b + 64" "?o \<le> length (sb_elms b)"
      "\<And>i. i \<in> sbitmap_set b \<Longrightarrow> i < sb_n_bits b"
    using wf wf_size [OF wf] by (auto simp: sbitmap_wf_def)
  have len: "?s \<le> length (sb_elms ?r)" "?o \<le> length (sb_elms ?r)"
    using o(3) resize_storage_length [OF o(3)] by (auto simp: resize_storage_def)
  have old: "sb_elms ?r ! i = sb_elms b ! i" if "i < ?o" for i using that o(3) by (rule resize_storage_nth)
  have notin: "64 * i + k \<notin> sbitmap_set b" if "?o \<le> i" for i k using that by (simp add: sbitmap_set_def)
  note defd = resize_defined_wf [OF wf n, of def]
  consider "sb_n_bits b < n" def | "sb_n_bits b < n" "\<not> def" | "n < sb_n_bits b" | "n = sb_n_bits b" by linarith
  then show ?thesis
  proof cases
    case 1
    let ?u = "map (\<lambda>i. if ?o \<le> i \<and> i < ?s then - 1 else sb_elms ?r ! i) [0..<length (sb_elms ?r)]"
    let ?v = "if sb_n_bits b mod 64 \<noteq> 0 then ?u[?o - 1 := ?u ! (?o - 1) OR NOT (last_mask (sb_n_bits b mod 64))] else ?u"
    let ?w = "if n mod 64 \<noteq> 0 then ?v[?s - 1 := ?v ! (?s - 1) AND last_mask (n mod 64)] else ?v"
    have "bit (?v ! i) k \<longleftrightarrow> 64 * i + k \<in> sbitmap_set b \<or> sb_n_bits b \<le> 64 * i + k" if i: "i < ?s" "k < 64" for i k
    proof (cases "i < ?o")
      case True
      show ?thesis by (rule fill_old_element [OF wf True]) (use len old i in simp_all)
    next
      case False
      then have "?v ! i = - 1" using i len by (auto simp: nth_list_update)
      then show ?thesis using i False o(1) by (simp add: bit_simps)
    qed
    then have "bit (?w ! i) k \<longleftrightarrow> 64 * i + k < n \<and> (64 * i + k \<in> sbitmap_set b \<or> sb_n_bits b \<le> 64 * i + k)"
      if "i < ?s" "k < 64" for i k
      using that mask_last_element [OF s that(1), of ?v k] len(1) by (simp only: conj_commute) simp
    moreover have "sbitmap_resize g pg b n def = Inr (?r\<lparr>sb_elms := ?w, sb_n_bits := n, sb_size := ?s\<rparr>)"
      using 1 defd by (simp add: sbitmap_resize_def Let_def)
    ultimately show ?thesis using len 1 nopc by simp
  next
    case 2
    let ?w = "map (\<lambda>i. if ?o \<le> i \<and> i < ?s then 0 else sb_elms ?r ! i) [0..<length (sb_elms ?r)]"
    have "bit (?w ! i) k \<longleftrightarrow> 64 * i + k \<in> sbitmap_set b" if "i < ?s" "k < 64" for i k
      using that len old bit_elm [of i b k] notin [of i k] by (cases "i < ?o") auto
    moreover have "i < n" if "i \<in> sbitmap_set b" for i using o(4) [OF that] 2 by simp
    moreover have "sbitmap_resize g pg b n def = Inr (?r\<lparr>sb_elms := ?w, sb_popcount := None, sb_n_bits := n, sb_size := ?s\<rparr>)"
      using 2 defd nopc iffD2 [OF resize_storage_simps(3) nopc] by (simp add: sbitmap_resize_def Let_def)
    ultimately show ?thesis using len 2 by auto
  next
    case 3
    then have le: "?s \<le> ?o" using n wf by (auto simp: set_size sbitmap_wf_def div_le_mono)
    let ?w = "if n mod 64 \<noteq> 0 then (sb_elms b)[?s - 1 := sb_elms b ! (?s - 1) AND last_mask (n mod 64)] else sb_elms b"
    have "bit (?w ! i) k \<longleftrightarrow> 64 * i + k < n \<and> 64 * i + k \<in> sbitmap_set b" if "i < ?s" "k < 64" for i k
      using that mask_last_element [OF s that(1), of "sb_elms b" k] bit_elm [of i b k] le o(3) by (simp only: conj_commute)
    moreover have "sbitmap_resize g pg b n def = Inr (b\<lparr>sb_elms := ?w, sb_n_bits := n, sb_size := ?s\<rparr>)"
      using 3 defd nopc le by (simp add: sbitmap_resize_def Let_def resize_storage_def)
    ultimately show ?thesis using 3 le o(3) nopc by auto
  next
    case 4
    then have "?s = ?o" using wf by (simp add: sbitmap_wf_def)
    moreover from this have "sbitmap_resize g pg b n def = Inr (b\<lparr>sb_n_bits := n, sb_size := ?s\<rparr>)"
      using 4 defd by (simp add: sbitmap_resize_def Let_def resize_storage_def)
    ultimately show ?thesis using 4 o nopc bit_elm [of _ b] by fastforce
  qed
qed

text \<open>
  Resizing a bitmap without population counts keeps its members below the new size and, when
  it grows, gives the new bits the default; the result is well formed whatever the fresh memory
  held.
\<close>

theorem sbitmap_resize_set:
  assumes "sbitmap_wf b" "n + 63 < 2 ^ 32" "sb_popcount b = None"
  shows "\<exists>d. sbitmap_resize g pg b n def = Inr d \<and> sbitmap_wf d \<and> sb_n_bits d = n
           \<and> sbitmap_set d = {i \<in> sbitmap_set b. i < n} \<union> (if def then {sb_n_bits b..<n} else {})"
proof -
  obtain d where d: "sbitmap_resize g pg b n def = Inr d" "sb_n_bits d = n" "sb_size d = SBITMAP_SET_SIZE n"
      "sb_popcount d = None" "sb_size d \<le> length (sb_elms d)"
      "\<And>i k. i < sb_size d \<Longrightarrow> k < 64 \<Longrightarrow>
        (bit (sb_elms d ! i) k \<longleftrightarrow> 64 * i + k < n \<and> (64 * i + k \<in> sbitmap_set b \<or> def \<and> sb_n_bits b \<le> 64 * i + k))"
    using resize_bits [OF assms, of g pg def] by blast
  have size: "sb_n_bits d \<le> 64 * sb_size d" using d(2,3) assms(2) by (auto simp: set_size)
  have "sbitmap_set d = {i \<in> sbitmap_set b. i < n} \<union> (if def then {sb_n_bits b..<n} else {})"
    by (rule words_of_set [OF d(5) size]) (use d(2,6) in \<open>auto split: if_splits\<close>)
  then show ?thesis using d assms(2) by (auto simp: sbitmap_wf_def popcounts_ok_def split: if_splits)
qed

theorem sbitmap_resize_set_witness:
  "\<exists>d. sbitmap_resize (\<lambda>_. 7) (\<lambda>_. 0) (one_word None 5 0x13) 3 True = Inr d \<and> sbitmap_set d = {0, 1}"
proof -
  have "{i \<in> sbitmap_set (one_word None 5 0x13). i < 3} \<union> {5..<3} = {0, 1}"
    unfolding one_word_set by code_simp
  moreover have "sbitmap_wf (one_word None 5 0x13)" by (simp add: one_word_wf)
  moreover have "sb_popcount (one_word None 5 0x13) = None" by (simp add: one_word_def)
  ultimately show ?thesis
    using sbitmap_resize_set [of "one_word None 5 0x13" 3 "\<lambda>_. 7" "\<lambda>_. 0" True] by (auto simp: one_word_n_bits)
qed

end
