(* ===== verification/Bitmap.thy ===== *)
theory Bitmap
  imports Gcc_Prelude
begin

text \<open>
  Sparse bitmaps, \<open>src/gcc/bitmap.c\<close> and \<open>src/gcc/bitmap.h\<close>: a doubly linked list of elements, each
  with an index and two 64-bit words, a cached element \<open>current\<close> and its index.

  The chain of \<open>next\<close> and \<open>prev\<close> pointers is a list, and a pointer to one of its elements is a
  position in the list; a null pointer past the last element is the length of the list. A loop
  that holds \<open>dst_prev\<close> and \<open>dst_elt\<close> keeps them adjacent, so one position stands for both. The
  free lists of the obstack and of the collector are not modelled: an allocated element has
  cleared bits and an index that its caller sets. \<open>current\<close> may be null, a position, or an element
  that has been put on a free list (\<open>Freed\<close>, with the index field it had); using an element from
  the free list through the bitmap is \<open>Undefined\<close>.

  Comparisons of bitmap pointers are boolean arguments of the operations that make them.
\<close>

section \<open>Data\<close>

abbreviation BITMAP_WORD_BITS :: nat where
  "BITMAP_WORD_BITS \<equiv> 64"

abbreviation BITMAP_ELEMENT_WORDS :: nat where
  "BITMAP_ELEMENT_WORDS \<equiv> 2"

abbreviation BITMAP_ELEMENT_ALL_BITS :: nat where
  "BITMAP_ELEMENT_ALL_BITS \<equiv> 128"

record bitmap_element =
  e_indx :: nat
  e_bits :: "hwi list"

datatype current_elt = Null | At nat | Freed nat

record bitmap_head =
  bm_elts :: "bitmap_element list"
  bm_current :: current_elt
  bm_indx :: nat

definition bitmap_initialize :: "nat \<Rightarrow> bitmap_head" where
  "bitmap_initialize garbage = \<lparr>bm_elts = [], bm_current = Null, bm_indx = garbage\<rparr>"

section \<open>Elements of the list\<close>

definition bitmap_element_free :: "bitmap_head \<Rightarrow> nat \<Rightarrow> bitmap_head" where
  "bitmap_element_free head i =
     (let elts = bm_elts head; elts' = take i elts @ drop (Suc i) elts
      in case bm_current head of
           At c \<Rightarrow>
             (if c = i then
                (if Suc i < length elts
                 then \<lparr>bm_elts = elts', bm_current = At i, bm_indx = e_indx (elts ! Suc i)\<rparr>
                 else if 0 < i
                 then \<lparr>bm_elts = elts', bm_current = At (i - 1), bm_indx = e_indx (elts ! (i - 1))\<rparr>
                 else \<lparr>bm_elts = elts', bm_current = Null, bm_indx = 0\<rparr>)
              else head\<lparr>bm_elts := elts', bm_current := At (if i < c then c - 1 else c)\<rparr>)
         | _ \<Rightarrow> head\<lparr>bm_elts := elts'\<rparr>)"

definition bitmap_element_allocate :: "nat \<Rightarrow> bitmap_element" where
  "bitmap_element_allocate indx = \<lparr>e_indx = indx, e_bits = replicate BITMAP_ELEMENT_WORDS 0\<rparr>"

definition bitmap_elt_clear_from :: "bitmap_head \<Rightarrow> nat \<Rightarrow> bitmap_head outcome" where
  "bitmap_elt_clear_from head i =
     (let elts = bm_elts head
      in if i \<ge> length elts then Inr head
         else if i = 0 then Inr \<lparr>bm_elts = [], bm_current = Null, bm_indx = 0\<rparr>
         else
           (case bm_current head of
              At c \<Rightarrow>
                (if c \<ge> length elts then Inl Undefined
                 else if e_indx (elts ! c) > e_indx (elts ! (i - 1))
                 then Inr \<lparr>bm_elts = take i elts, bm_current = At (i - 1), bm_indx = e_indx (elts ! (i - 1))\<rparr>
                 else Inr (head\<lparr>bm_elts := take i elts,
                                bm_current := (if c < i then At c else Freed (e_indx (elts ! c)))\<rparr>))
            | _ \<Rightarrow> Inl Undefined))"

definition bitmap_clear :: "bitmap_head \<Rightarrow> bitmap_head outcome" where
  "bitmap_clear head = (if bm_elts head \<noteq> [] then bitmap_elt_clear_from head 0 else Inr head)"

definition bitmap_element_zerop :: "bitmap_element \<Rightarrow> bool" where
  "bitmap_element_zerop element \<longleftrightarrow> e_bits element ! 0 OR e_bits element ! 1 = 0"

text \<open>The two search loops of \<open>bitmap_element_link\<close>.\<close>

fun link_back :: "bitmap_element list \<Rightarrow> nat \<Rightarrow> nat \<Rightarrow> nat" where
  "link_back elts indx 0 = 0"
| "link_back elts indx (Suc p) = (if e_indx (elts ! p) > indx then link_back elts indx p else Suc p)"

function link_forward :: "bitmap_element list \<Rightarrow> nat \<Rightarrow> nat \<Rightarrow> nat" where
  "link_forward elts indx ptr =
     (if Suc ptr < length elts \<and> e_indx (elts ! Suc ptr) < indx then link_forward elts indx (Suc ptr) else ptr)"
  by pat_completeness auto
termination
  by (relation "measure (\<lambda>(elts, indx, ptr). length elts - ptr)") auto

declare link_forward.simps [simp del]

definition insert_at :: "nat \<Rightarrow> 'a \<Rightarrow> 'a list \<Rightarrow> 'a list" where
  "insert_at d x xs = take d xs @ x # drop d xs"

definition bitmap_element_link :: "bitmap_head \<Rightarrow> bitmap_element \<Rightarrow> bitmap_head outcome" where
  "bitmap_element_link head element =
     (let indx = e_indx element; elts = bm_elts head
      in if elts = [] then Inr \<lparr>bm_elts = [element], bm_current = At 0, bm_indx = indx\<rparr>
         else
           (case bm_current head of
              At c \<Rightarrow>
                (if c \<ge> length elts then Inl Undefined
                 else if indx < bm_indx head
                 then (let ptr = link_back elts indx c
                       in Inr \<lparr>bm_elts = insert_at ptr element elts, bm_current = At ptr, bm_indx = indx\<rparr>)
                 else (let ptr = link_forward elts indx c
                       in Inr \<lparr>bm_elts = insert_at (Suc ptr) element elts, bm_current = At (Suc ptr), bm_indx = indx\<rparr>))
            | _ \<Rightarrow> Inl Undefined))"

text \<open>
  \<open>bitmap_elt_insert_after\<close>: the new element goes to position \<open>d\<close>, after the element at \<open>d - 1\<close>, or
  to the start of the list when there is none; \<open>current\<close> keeps pointing to its element.
\<close>

definition bitmap_elt_insert_after :: "bitmap_head \<Rightarrow> nat \<Rightarrow> nat \<Rightarrow> bitmap_head outcome" where
  "bitmap_elt_insert_after head d indx =
     (let node = bitmap_element_allocate indx;
          shifted = (case bm_current head of At c \<Rightarrow> At (if d \<le> c then Suc c else c) | x \<Rightarrow> x)
      in if d = 0 then
           (if bm_current head = Null
            then Inr \<lparr>bm_elts = node # bm_elts head, bm_current = At 0, bm_indx = indx\<rparr>
            else Inr (head\<lparr>bm_elts := node # bm_elts head, bm_current := shifted\<rparr>))
         else if bm_current head = Null then Inl Ice
         else Inr (head\<lparr>bm_elts := insert_at d node (bm_elts head), bm_current := shifted\<rparr>))"

text \<open>Stores to an element.\<close>

definition set_elt_bits :: "bitmap_head \<Rightarrow> nat \<Rightarrow> hwi list \<Rightarrow> bitmap_head" where
  "set_elt_bits head i r = head\<lparr>bm_elts := (bm_elts head)[i := (bm_elts head ! i)\<lparr>e_bits := r\<rparr>]\<rparr>"

definition set_elt_indx :: "bitmap_head \<Rightarrow> nat \<Rightarrow> nat \<Rightarrow> bitmap_head" where
  "set_elt_indx head i indx = head\<lparr>bm_elts := (bm_elts head)[i := (bm_elts head ! i)\<lparr>e_indx := indx\<rparr>]\<rparr>"

section \<open>Copying\<close>

fun copy_loop :: "bitmap_head \<Rightarrow> bitmap_element list \<Rightarrow> bitmap_head" where
  "copy_loop to [] = to"
| "copy_loop to (from_ptr # rest) =
     copy_loop
       (if bm_elts to = [] then \<lparr>bm_elts = [from_ptr], bm_current = At 0, bm_indx = e_indx from_ptr\<rparr>
        else to\<lparr>bm_elts := bm_elts to @ [from_ptr]\<rparr>) rest"

definition bitmap_copy :: "bitmap_head \<Rightarrow> bitmap_head \<Rightarrow> bitmap_head outcome" where
  "bitmap_copy to from = map_sum id (\<lambda>to. copy_loop to (bm_elts from)) (bitmap_clear to)"

section \<open>Single bits\<close>

text \<open>The forward and backward searches of \<open>bitmap_find_bit\<close>.\<close>

function find_forward :: "bitmap_element list \<Rightarrow> nat \<Rightarrow> nat \<Rightarrow> nat" where
  "find_forward elts indx element =
     (if Suc element < length elts \<and> e_indx (elts ! element) < indx then find_forward elts indx (Suc element) else element)"
  by pat_completeness auto
termination
  by (relation "measure (\<lambda>(elts, indx, element). length elts - element)") auto

declare find_forward.simps [simp del]

fun find_backward :: "bitmap_element list \<Rightarrow> nat \<Rightarrow> nat \<Rightarrow> nat" where
  "find_backward elts indx 0 = 0"
| "find_backward elts indx (Suc element) =
     (if e_indx (elts ! Suc element) > indx then find_backward elts indx element else Suc element)"

definition bitmap_find_bit :: "bitmap_head \<Rightarrow> nat \<Rightarrow> (bitmap_head \<times> nat option) outcome" where
  "bitmap_find_bit head bitno =
     (let indx = bitno div BITMAP_ELEMENT_ALL_BITS; elts = bm_elts head
      in case bm_current head of
           Null \<Rightarrow> Inr (head, None)
         | Freed _ \<Rightarrow> Inl Undefined
         | At c \<Rightarrow>
             (if c \<ge> length elts then Inl Undefined
              else if bm_indx head = indx then Inr (head, Some c)
              else
                (let element =
                       (if bm_indx head < indx then find_forward elts indx c
                        else if bm_indx head div 2 < indx then find_backward elts indx c
                        else find_forward elts indx 0)
                 in Inr (head\<lparr>bm_current := At element, bm_indx := e_indx (elts ! element)\<rparr>,
                         if e_indx (elts ! element) \<noteq> indx then None else Some element))))"

definition bitmap_clear_bit :: "bitmap_head \<Rightarrow> nat \<Rightarrow> (bitmap_head \<times> bool) outcome" where
  "bitmap_clear_bit head bitno =
     (case bitmap_find_bit head bitno of
        Inl e \<Rightarrow> Inl e
      | Inr (head, None) \<Rightarrow> Inr (head, False)
      | Inr (head, Some ptr) \<Rightarrow>
          (let bit_num = bitno mod BITMAP_WORD_BITS;
               word_num = bitno div BITMAP_WORD_BITS mod BITMAP_ELEMENT_WORDS;
               bit_val = push_bit bit_num 1;
               bits = e_bits (bm_elts head ! ptr);
               res = (bits ! word_num AND bit_val \<noteq> 0);
               head = (if res then set_elt_bits head ptr (bits[word_num := bits ! word_num AND NOT bit_val]) else head)
           in Inr (if bitmap_element_zerop (bm_elts head ! ptr) then bitmap_element_free head ptr else head, res)))"

definition bitmap_set_bit :: "bitmap_head \<Rightarrow> nat \<Rightarrow> (bitmap_head \<times> bool) outcome" where
  "bitmap_set_bit head bitno =
     (let word_num = bitno div BITMAP_WORD_BITS mod BITMAP_ELEMENT_WORDS;
          bit_num = bitno mod BITMAP_WORD_BITS;
          bit_val = push_bit bit_num 1
      in case bitmap_find_bit head bitno of
           Inl e \<Rightarrow> Inl e
         | Inr (head, None) \<Rightarrow>
             (let ptr = bitmap_element_allocate (bitno div BITMAP_ELEMENT_ALL_BITS);
                  ptr = ptr\<lparr>e_bits := (e_bits ptr)[word_num := bit_val]\<rparr>
              in map_sum id (\<lambda>head. (head, True)) (bitmap_element_link head ptr))
         | Inr (head, Some ptr) \<Rightarrow>
             (let bits = e_bits (bm_elts head ! ptr);
                  res = (bits ! word_num AND bit_val = 0)
              in Inr (if res then set_elt_bits head ptr (bits[word_num := bits ! word_num OR bit_val]) else head, res)))"

definition bitmap_bit_p :: "bitmap_head \<Rightarrow> nat \<Rightarrow> (bitmap_head \<times> bool) outcome" where
  "bitmap_bit_p head bitno =
     (case bitmap_find_bit head bitno of
        Inl e \<Rightarrow> Inl e
      | Inr (head, None) \<Rightarrow> Inr (head, False)
      | Inr (head, Some ptr) \<Rightarrow>
          (let bit_num = bitno mod BITMAP_WORD_BITS;
               word_num = bitno div BITMAP_WORD_BITS mod BITMAP_ELEMENT_WORDS
           in Inr (head, drop_bit bit_num (e_bits (bm_elts head ! ptr) ! word_num) AND 1 = 1)))"

section \<open>Queries\<close>

definition popcountl :: "hwi \<Rightarrow> nat" where
  "popcountl w = length (filter (bit w) [0..<BITMAP_WORD_BITS])"

definition bitmap_empty_p :: "bitmap_head \<Rightarrow> bool" where
  "bitmap_empty_p m \<longleftrightarrow> bm_elts m = []"

definition bitmap_count_bits :: "bitmap_head \<Rightarrow> nat" where
  "bitmap_count_bits a = fold (\<lambda>elt count. fold (\<lambda>w count. count + popcountl w) (e_bits elt) count) (bm_elts a) 0"

fun single_loop :: "hwi list \<Rightarrow> nat \<Rightarrow> bool" where
  "single_loop [] count = (count = 1)"
| "single_loop (w # ws) count = (let count = count + popcountl w in if count > 1 then False else single_loop ws count)"

definition bitmap_single_bit_set_p :: "bitmap_head \<Rightarrow> bool" where
  "bitmap_single_bit_set_p a =
     (case bm_elts a of
        [] \<Rightarrow> False
      | elt # rest \<Rightarrow> (if rest \<noteq> [] then False else single_loop (e_bits elt) 0))"

text \<open>\<open>__builtin_ctzl\<close>, and the binary search used with older compilers.\<close>

definition ctzl :: "hwi \<Rightarrow> nat" where
  "ctzl w = (if w = 0 then 0 else hd (filter (bit w) [0..<BITMAP_WORD_BITS]))"

definition ctz_step :: "nat \<Rightarrow> hwi \<times> nat \<Rightarrow> hwi \<times> nat" where
  "ctz_step k = (\<lambda>(word, bit_no). if word AND mask k = 0 then (drop_bit k word, bit_no + k) else (word, bit_no))"

definition ctz_search :: "hwi \<Rightarrow> nat \<Rightarrow> nat outcome" where
  "ctz_search word bit_no =
     (let (word, bit_no) = fold ctz_step [32, 16, 8, 4, 2, 1] (word, bit_no)
      in if word AND 1 \<noteq> 0 then Inr bit_no else Inl Ice)"

fun first_word :: "hwi list \<Rightarrow> nat \<Rightarrow> (hwi \<times> nat) option" where
  "first_word [] ix = None"
| "first_word (w # ws) ix = (if w \<noteq> 0 then Some (w, ix) else first_word ws (Suc ix))"

definition bitmap_first_set_bit :: "bitmap_head \<Rightarrow> nat outcome" where
  "bitmap_first_set_bit a =
     (case bm_elts a of
        [] \<Rightarrow> Inl Ice
      | elt # _ \<Rightarrow>
          (let bit_no = e_indx elt * BITMAP_ELEMENT_ALL_BITS
           in case first_word (e_bits elt) 0 of
                None \<Rightarrow> Inl Ice
              | Some (word, ix) \<Rightarrow> Inr (bit_no + ix * BITMAP_WORD_BITS + ctzl word)))"

fun equal_loop :: "bitmap_element list \<Rightarrow> bitmap_element list \<Rightarrow> bool" where
  "equal_loop (a_elt # as) (b_elt # bs) =
     (if e_indx a_elt \<noteq> e_indx b_elt then False
      else if e_bits a_elt \<noteq> e_bits b_elt then False
      else equal_loop as bs)"
| "equal_loop as bs = (as = [] \<and> bs = [])"

definition bitmap_equal_p :: "bitmap_head \<Rightarrow> bitmap_head \<Rightarrow> bool" where
  "bitmap_equal_p a b = equal_loop (bm_elts a) (bm_elts b)"

text \<open>The word loops: the results in order, and whether any of them is nonzero (the code's \<open>ior\<close>).\<close>

definition word_op :: "(hwi \<Rightarrow> hwi \<Rightarrow> hwi) \<Rightarrow> bitmap_element \<Rightarrow> bitmap_element \<Rightarrow> hwi list" where
  "word_op f a_elt b_elt = map2 f (e_bits a_elt) (e_bits b_elt)"

definition ior_words :: "hwi list \<Rightarrow> hwi" where
  "ior_words r = fold (OR) r 0"

fun intersect_loop :: "bitmap_element list \<Rightarrow> bitmap_element list \<Rightarrow> bool" where
  "intersect_loop (a_elt # as) (b_elt # bs) =
     (if e_indx a_elt < e_indx b_elt then intersect_loop as (b_elt # bs)
      else if e_indx b_elt < e_indx a_elt then intersect_loop (a_elt # as) bs
      else if \<exists>r \<in> set (word_op (AND) a_elt b_elt). r \<noteq> 0 then True
      else intersect_loop as bs)"
| "intersect_loop as bs = False"

definition bitmap_intersect_p :: "bitmap_head \<Rightarrow> bitmap_head \<Rightarrow> bool" where
  "bitmap_intersect_p a b = intersect_loop (bm_elts a) (bm_elts b)"

abbreviation and_not :: "hwi \<Rightarrow> hwi \<Rightarrow> hwi" where
  "and_not x y \<equiv> x AND NOT y"

fun intersect_compl_loop :: "bitmap_element list \<Rightarrow> bitmap_element list \<Rightarrow> bool" where
  "intersect_compl_loop (a_elt # as) (b_elt # bs) =
     (if e_indx a_elt < e_indx b_elt then True
      else if e_indx b_elt < e_indx a_elt then intersect_compl_loop (a_elt # as) bs
      else if \<exists>r \<in> set (word_op and_not a_elt b_elt). r \<noteq> 0 then True
      else intersect_compl_loop as bs)"
| "intersect_compl_loop as bs = (as \<noteq> [])"

definition bitmap_intersect_compl_p :: "bitmap_head \<Rightarrow> bitmap_head \<Rightarrow> bool" where
  "bitmap_intersect_compl_p a b = intersect_compl_loop (bm_elts a) (bm_elts b)"

section \<open>Set operations\<close>

text \<open>
  The end of the operations: \<open>current\<close> must be null exactly when the list is empty, and \<open>indx\<close> is
  refreshed from it.
\<close>

definition current_indx :: "bitmap_head \<Rightarrow> nat" where
  "current_indx h = (case bm_current h of At c \<Rightarrow> e_indx (bm_elts h ! c) | Freed k \<Rightarrow> k | Null \<Rightarrow> bm_indx h)"

definition check_and_sync :: "bitmap_head \<Rightarrow> bitmap_head outcome" where
  "check_and_sync dst =
     (if (bm_current dst = Null) \<noteq> (bm_elts dst = []) then Inl Ice
      else Inr (dst\<lparr>bm_indx := current_indx dst\<rparr>))"

definition check_current :: "bitmap_head \<Rightarrow> bitmap_head outcome" where
  "check_current a =
     (if (bm_current a = Null) \<noteq> (bm_elts a = []) then Inl Ice
      else if bm_current a \<noteq> Null \<and> bm_indx a \<noteq> current_indx a then Inl Ice
      else Inr a)"

definition current_to_first :: "bitmap_head \<Rightarrow> bitmap_head" where
  "current_to_first dst = dst\<lparr>bm_current := (if bm_elts dst = [] then Null else At 0)\<rparr>"

text \<open>The destination element of a three-operand operation: the next old one, or a new one.\<close>

definition dst_slot :: "bitmap_head \<Rightarrow> nat \<Rightarrow> nat \<Rightarrow> bitmap_head outcome" where
  "dst_slot dst d indx =
     (if d \<ge> length (bm_elts dst) then bitmap_elt_insert_after dst d indx else Inr (set_elt_indx dst d indx))"

fun and_loop :: "bitmap_head \<Rightarrow> nat \<Rightarrow> bitmap_element list \<Rightarrow> bitmap_element list \<Rightarrow> (bitmap_head \<times> nat) outcome" where
  "and_loop dst d (a_elt # as) (b_elt # bs) =
     (if e_indx a_elt < e_indx b_elt then and_loop dst d as (b_elt # bs)
      else if e_indx b_elt < e_indx a_elt then and_loop dst d (a_elt # as) bs
      else
        (case dst_slot dst d (e_indx a_elt) of
           Inl e \<Rightarrow> Inl e
         | Inr dst \<Rightarrow>
             (let r = word_op (AND) a_elt b_elt
              in and_loop (set_elt_bits dst d r) (if ior_words r \<noteq> 0 then Suc d else d) as bs)))"
| "and_loop dst d as bs = Inr (dst, d)"

text \<open>\<open>dst_is_src\<close>: \<open>dst == a || dst == b\<close>; \<open>same\<close>: \<open>a == b\<close>.\<close>

definition bitmap_and :: "bool \<Rightarrow> bool \<Rightarrow> bitmap_head \<Rightarrow> bitmap_head \<Rightarrow> bitmap_head \<Rightarrow> bitmap_head outcome" where
  "bitmap_and dst_is_src same dst a b =
     (if dst_is_src then Inl Ice
      else if same then bitmap_copy dst a
      else
        (case and_loop dst 0 (bm_elts a) (bm_elts b) of
           Inl e \<Rightarrow> Inl e
         | Inr (dst, d) \<Rightarrow>
             (case bitmap_elt_clear_from (current_to_first dst) d of Inl e \<Rightarrow> Inl e | Inr dst \<Rightarrow> check_and_sync dst)))"

lemma length_element_free: "i < length (bm_elts h) \<Longrightarrow> length (bm_elts (bitmap_element_free h i)) = length (bm_elts h) - 1"
  by (auto simp: bitmap_element_free_def Let_def split: current_elt.splits)

lemma length_set_elt_bits [simp]: "length (bm_elts (set_elt_bits h i r)) = length (bm_elts h)"
  by (simp add: set_elt_bits_def)

function and_into_loop :: "bitmap_head \<Rightarrow> nat \<Rightarrow> bitmap_element list \<Rightarrow> bitmap_head \<times> nat" where
  "and_into_loop a i [] = (a, i)"
| "and_into_loop a i (b_elt # bs) =
     (if i \<ge> length (bm_elts a) then (a, i)
      else
        (let a_elt = bm_elts a ! i
         in if e_indx a_elt < e_indx b_elt then and_into_loop (bitmap_element_free a i) i (b_elt # bs)
            else if e_indx b_elt < e_indx a_elt then and_into_loop a i bs
            else
              (let r = word_op (AND) a_elt b_elt; a = set_elt_bits a i r
               in if ior_words r = 0 then and_into_loop (bitmap_element_free a i) i bs
                  else and_into_loop a (Suc i) bs)))"
  by pat_completeness auto
termination
  by (relation "measure (\<lambda>(a, i, bs). length (bm_elts a) + length bs)") (auto simp: length_element_free)

definition bitmap_and_into :: "bool \<Rightarrow> bitmap_head \<Rightarrow> bitmap_head \<Rightarrow> bitmap_head outcome" where
  "bitmap_and_into same a b =
     (if same then Inr a
      else
        (let (a, i) = and_into_loop a 0 (bm_elts b)
         in case bitmap_elt_clear_from a i of Inl e \<Rightarrow> Inl e | Inr a \<Rightarrow> check_current a))"

text \<open>
  \<open>bitmap_elt_copy\<close>: \<open>present\<close> tells whether \<open>dst_elt\<close> is non-null; it is then the element at \<open>d\<close>,
  and a new element would be inserted there.
\<close>

definition bitmap_elt_copy :: "bitmap_head \<Rightarrow> bool \<Rightarrow> nat \<Rightarrow> bitmap_element \<Rightarrow> bool \<Rightarrow> (bitmap_head \<times> bool) outcome" where
  "bitmap_elt_copy dst present d src_elt changed =
     (if \<not> changed \<and> present \<and> e_indx (bm_elts dst ! d) = e_indx src_elt
      then Inr (set_elt_bits dst d (e_bits src_elt), e_bits src_elt \<noteq> e_bits (bm_elts dst ! d))
      else
        (case (if present then Inr (set_elt_indx dst d (e_indx src_elt))
               else bitmap_elt_insert_after dst d (e_indx src_elt)) of
           Inl e \<Rightarrow> Inl e
         | Inr dst \<Rightarrow> Inr (set_elt_bits dst d (e_bits src_elt), True)))"

abbreviation present_at :: "bitmap_head \<Rightarrow> nat \<Rightarrow> bool" where
  "present_at dst d \<equiv> d < length (bm_elts dst)"

text \<open>The matching elements of \<open>bitmap_and_compl\<close>: the new destination, \<open>changed\<close>, and whether to advance.\<close>

definition and_compl_match ::
    "bitmap_head \<Rightarrow> nat \<Rightarrow> bitmap_element \<Rightarrow> bitmap_element \<Rightarrow> bool \<Rightarrow> (bitmap_head \<times> bool \<times> bool) outcome" where
  "and_compl_match dst d a_elt b_elt changed =
     (let r = word_op and_not a_elt b_elt; ior = (ior_words r \<noteq> 0)
      in if \<not> changed \<and> present_at dst d \<and> e_indx (bm_elts dst ! d) = e_indx a_elt
         then Inr (set_elt_bits dst d r, e_bits (bm_elts dst ! d) \<noteq> r, ior)
         else
           (let new_element = (\<not> present_at dst d \<or> e_indx (bm_elts dst ! d) > e_indx a_elt)
            in case (if new_element then bitmap_elt_insert_after dst d (e_indx a_elt)
                     else Inr (set_elt_indx dst d (e_indx a_elt))) of
                 Inl e \<Rightarrow> Inl e
               | Inr dst \<Rightarrow>
                   (let dst = set_elt_bits dst d r
                    in if ior then Inr (dst, True, True)
                       else Inr (bitmap_element_free dst d, changed \<or> \<not> new_element, False))))"

fun and_compl_loop ::
    "bitmap_head \<Rightarrow> nat \<Rightarrow> bitmap_element list \<Rightarrow> bitmap_element list \<Rightarrow> bool \<Rightarrow> (bitmap_head \<times> nat \<times> bool) outcome" where
  "and_compl_loop dst d [] bs changed = Inr (dst, d, changed)"
| "and_compl_loop dst d (a_elt # as) bs changed =
     (case dropWhile (\<lambda>b_elt. e_indx b_elt < e_indx a_elt) bs of
        [] \<Rightarrow>
          (case bitmap_elt_copy dst (present_at dst d) d a_elt changed of
             Inl e \<Rightarrow> Inl e | Inr (dst, changed) \<Rightarrow> and_compl_loop dst (Suc d) as [] changed)
      | b_elt # bs \<Rightarrow>
          (if e_indx b_elt > e_indx a_elt then
             (case bitmap_elt_copy dst (present_at dst d) d a_elt changed of
                Inl e \<Rightarrow> Inl e | Inr (dst, changed) \<Rightarrow> and_compl_loop dst (Suc d) as (b_elt # bs) changed)
           else
             (case and_compl_match dst d a_elt b_elt changed of
                Inl e \<Rightarrow> Inl e
              | Inr (dst, changed, advance) \<Rightarrow> and_compl_loop dst (if advance then Suc d else d) as bs changed)))"

text \<open>Dropping what is left of the old destination.\<close>

definition finish_dst :: "bitmap_head \<Rightarrow> nat \<Rightarrow> bool \<Rightarrow> (bitmap_head \<times> bool) outcome" where
  "finish_dst dst d changed =
     (case (if present_at dst d then bitmap_elt_clear_from dst d else Inr dst) of
        Inl e \<Rightarrow> Inl e
      | Inr dst' \<Rightarrow> map_sum id (\<lambda>h. (h, changed \<or> present_at dst d)) (check_and_sync dst'))"

definition bitmap_and_compl :: "bool \<Rightarrow> bool \<Rightarrow> bitmap_head \<Rightarrow> bitmap_head \<Rightarrow> bitmap_head \<Rightarrow> (bitmap_head \<times> bool) outcome" where
  "bitmap_and_compl dst_is_src same dst a b =
     (if dst_is_src then Inl Ice
      else if same then map_sum id (\<lambda>h. (h, \<not> bitmap_empty_p dst)) (bitmap_clear dst)
      else
        (case and_compl_loop dst 0 (bm_elts a) (bm_elts b) False of
           Inl e \<Rightarrow> Inl e
         | Inr (dst, d, changed) \<Rightarrow> finish_dst (current_to_first dst) d changed))"


function and_compl_into_loop :: "bitmap_head \<Rightarrow> nat \<Rightarrow> bitmap_element list \<Rightarrow> bool \<Rightarrow> bitmap_head \<times> bool" where
  "and_compl_into_loop a i [] changed = (a, changed)"
| "and_compl_into_loop a i (b_elt # bs) changed =
     (if i \<ge> length (bm_elts a) then (a, changed)
      else
        (let a_elt = bm_elts a ! i
         in if e_indx a_elt < e_indx b_elt then and_compl_into_loop a (Suc i) (b_elt # bs) changed
            else if e_indx b_elt < e_indx a_elt then and_compl_into_loop a i bs changed
            else
              (let cleared = word_op (AND) a_elt b_elt;
                   r = map2 (XOR) (e_bits a_elt) cleared;
                   a = set_elt_bits a i r;
                   changed = (changed \<or> ior_words cleared \<noteq> 0)
               in if ior_words r = 0 then and_compl_into_loop (bitmap_element_free a i) i bs changed
                  else and_compl_into_loop a (Suc i) bs changed)))"
  by pat_completeness auto
termination
  by (relation "measure (\<lambda>(a, i, bs, _). length (bm_elts a) - i + length bs)") (auto simp: length_element_free)

definition bitmap_and_compl_into :: "bool \<Rightarrow> bitmap_head \<Rightarrow> bitmap_head \<Rightarrow> (bitmap_head \<times> bool) outcome" where
  "bitmap_and_compl_into same a b =
     (if same then
        (if bitmap_empty_p a then Inr (a, False) else map_sum id (\<lambda>a. (a, True)) (bitmap_clear a))
      else
        (let (a, changed) = and_compl_into_loop a 0 (bm_elts b) False
         in map_sum id (\<lambda>a. (a, changed)) (check_current a)))"

function compl_and_into_loop :: "bitmap_head \<Rightarrow> nat \<Rightarrow> bitmap_element list \<Rightarrow> bitmap_head outcome" where
  "compl_and_into_loop a i bs =
     (if i < length (bm_elts a) \<and> (bs = [] \<or> e_indx (bm_elts a ! i) < e_indx (hd bs))
      then compl_and_into_loop (bitmap_element_free a i) i bs
      else
        (case bs of
           [] \<Rightarrow> Inr a
         | b_elt # bs' \<Rightarrow>
             (if i \<ge> length (bm_elts a) \<or> e_indx b_elt < e_indx (bm_elts a ! i) then
                (case bitmap_elt_insert_after a i (e_indx b_elt) of
                   Inl e \<Rightarrow> Inl e
                 | Inr a \<Rightarrow> compl_and_into_loop (set_elt_bits a i (e_bits b_elt)) (Suc i) bs')
              else
                (let a_elt = bm_elts a ! i;
                     cleared = word_op (AND) a_elt b_elt;
                     r = map2 (XOR) (e_bits b_elt) cleared;
                     a = set_elt_bits a i r
                 in if ior_words r = 0 then compl_and_into_loop (bitmap_element_free a i) i bs'
                    else compl_and_into_loop a (Suc i) bs'))))"
  by pat_completeness auto
termination
proof (relation "inv_image (less_than <*lex*> less_than) (\<lambda>(a, i, bs). (length bs, length (bm_elts a)))", goal_cases)
  case (2 a i bs)
  then show ?case by (auto simp: length_element_free)
qed auto

declare compl_and_into_loop.simps [simp del]

definition bitmap_compl_and_into :: "bool \<Rightarrow> bitmap_head \<Rightarrow> bitmap_head \<Rightarrow> bitmap_head outcome" where
  "bitmap_compl_and_into same a b =
     (if same then Inl Ice
      else if bitmap_empty_p a then bitmap_copy a b
      else if bitmap_empty_p b then bitmap_clear a
      else case compl_and_into_loop a 0 (bm_elts b) of Inl e \<Rightarrow> Inl e | Inr a \<Rightarrow> check_current a)"

text \<open>\<open>bitmap_elt_ior\<close>: \<open>a_elt\<close> and \<open>b_elt\<close> may be null.\<close>

definition bitmap_elt_ior ::
    "bitmap_head \<Rightarrow> bool \<Rightarrow> nat \<Rightarrow> bitmap_element option \<Rightarrow> bitmap_element option \<Rightarrow> bool \<Rightarrow> (bitmap_head \<times> bool) outcome" where
  "bitmap_elt_ior dst present d a_elt b_elt changed =
     (case (a_elt, b_elt) of
        (None, None) \<Rightarrow> Inl Ice
      | (Some a, None) \<Rightarrow> bitmap_elt_copy dst present d a changed
      | (None, Some b) \<Rightarrow> bitmap_elt_copy dst present d b changed
      | (Some a, Some b) \<Rightarrow>
          (if e_indx a = e_indx b then
             (let r = word_op (OR) a b
              in if \<not> changed \<and> present \<and> e_indx (bm_elts dst ! d) = e_indx a
                 then Inr (set_elt_bits dst d r, r \<noteq> e_bits (bm_elts dst ! d))
                 else
                   (case (if present then Inr (set_elt_indx dst d (e_indx a))
                          else bitmap_elt_insert_after dst d (e_indx a)) of
                      Inl e \<Rightarrow> Inl e
                    | Inr dst \<Rightarrow> Inr (set_elt_bits dst d r, True)))
           else if e_indx a < e_indx b then bitmap_elt_copy dst present d a changed
           else bitmap_elt_copy dst present d b changed))"

definition head_elt :: "'a list \<Rightarrow> 'a option" where
  "head_elt xs = (case xs of [] \<Rightarrow> None | x # _ \<Rightarrow> Some x)"

text \<open>The advance of the two source lists in \<open>bitmap_ior\<close>.\<close>

fun ior_advance :: "bitmap_element list \<Rightarrow> bitmap_element list \<Rightarrow> bitmap_element list \<times> bitmap_element list" where
  "ior_advance (a # as) (b # bs) =
     (if e_indx a = e_indx b then (as, bs) else if e_indx a \<le> e_indx b then (as, b # bs) else (a # as, bs))"
| "ior_advance (a # as) [] = (as, [])"
| "ior_advance [] (b # bs) = ([], bs)"
| "ior_advance [] [] = ([], [])"

lemma ior_advance_less:
  "as \<noteq> [] \<or> bs \<noteq> [] \<Longrightarrow> ior_advance as bs = (as', bs') \<Longrightarrow> length as' + length bs' < length as + length bs"
  by (cases "(as, bs)" rule: ior_advance.cases) (auto split: if_splits)

function ior_loop ::
    "bitmap_head \<Rightarrow> nat \<Rightarrow> bitmap_element list \<Rightarrow> bitmap_element list \<Rightarrow> bool \<Rightarrow> (bitmap_head \<times> nat \<times> bool) outcome" where
  "ior_loop dst d as bs changed =
     (if as = [] \<and> bs = [] then Inr (dst, d, changed)
      else
        (case bitmap_elt_ior dst (present_at dst d) d (head_elt as) (head_elt bs) changed of
           Inl e \<Rightarrow> Inl e
         | Inr (dst, changed) \<Rightarrow> ior_loop dst (Suc d) (fst (ior_advance as bs)) (snd (ior_advance as bs)) changed))"
  by pat_completeness auto
termination
  by (relation "measure (\<lambda>(dst, d, as, bs, _). length as + length bs)") (auto intro: ior_advance_less prod.collapse [symmetric])

declare ior_loop.simps [simp del]

definition bitmap_ior :: "bool \<Rightarrow> bitmap_head \<Rightarrow> bitmap_head \<Rightarrow> bitmap_head \<Rightarrow> (bitmap_head \<times> bool) outcome" where
  "bitmap_ior dst_is_src dst a b =
     (if dst_is_src then Inl Ice
      else
        (case ior_loop dst 0 (bm_elts a) (bm_elts b) False of
           Inl e \<Rightarrow> Inl e
         | Inr (dst, d, changed) \<Rightarrow> finish_dst dst d changed))"

function ior_into_loop :: "bitmap_head \<Rightarrow> nat \<Rightarrow> bitmap_element list \<Rightarrow> bool \<Rightarrow> (bitmap_head \<times> bool) outcome" where
  "ior_into_loop a i [] changed = Inr (a, changed)"
| "ior_into_loop a i (b_elt # bs) changed =
     (let a_elt = (if present_at a i then Some (bm_elts a ! i) else None)
      in if a_elt = None \<or> e_indx (bm_elts a ! i) = e_indx b_elt then
           (case bitmap_elt_ior a (a_elt \<noteq> None) i a_elt (Some b_elt) changed of
              Inl e \<Rightarrow> Inl e | Inr (a, changed) \<Rightarrow> ior_into_loop a (Suc i) bs changed)
         else if e_indx (bm_elts a ! i) > e_indx b_elt then
           (case bitmap_elt_copy a False i b_elt changed of
              Inl e \<Rightarrow> Inl e | Inr (a, changed) \<Rightarrow> ior_into_loop a (Suc i) bs changed)
         else ior_into_loop a (Suc i) (b_elt # bs) changed)"
  by pat_completeness auto
termination
  by (relation "inv_image (less_than <*lex*> less_than) (\<lambda>(a, i, bs, _). (length bs, length (bm_elts a) - i))")
     (auto split: if_splits)

definition bitmap_ior_into :: "bool \<Rightarrow> bitmap_head \<Rightarrow> bitmap_head \<Rightarrow> (bitmap_head \<times> bool) outcome" where
  "bitmap_ior_into same a b =
     (if same then Inr (a, False)
      else
        (case ior_into_loop a 0 (bm_elts b) False of
           Inl e \<Rightarrow> Inl e
         | Inr (a, changed) \<Rightarrow> map_sum id (\<lambda>a. (a, changed)) (check_and_sync a)))"


function xor_loop ::
    "bitmap_head \<Rightarrow> nat \<Rightarrow> bitmap_element list \<Rightarrow> bitmap_element list \<Rightarrow> (bitmap_head \<times> nat) outcome" where
  "xor_loop dst d as bs =
     (if as = [] \<and> bs = [] then Inr (dst, d)
      else if as \<noteq> [] \<and> bs \<noteq> [] \<and> e_indx (hd as) = e_indx (hd bs) then
        (case dst_slot dst d (e_indx (hd as)) of
           Inl e \<Rightarrow> Inl e
         | Inr dst \<Rightarrow>
             (let r = word_op (XOR) (hd as) (hd bs)
              in xor_loop (set_elt_bits dst d r) (if ior_words r \<noteq> 0 then Suc d else d) (tl as) (tl bs)))
      else
        (let from_a = (bs = [] \<or> as \<noteq> [] \<and> e_indx (hd as) < e_indx (hd bs));
             src = (if from_a then hd as else hd bs)
         in case dst_slot dst d (e_indx src) of
              Inl e \<Rightarrow> Inl e
            | Inr dst \<Rightarrow>
                (if from_a then xor_loop (set_elt_bits dst d (e_bits src)) (Suc d) (tl as) bs
                 else xor_loop (set_elt_bits dst d (e_bits src)) (Suc d) as (tl bs))))"
  by pat_completeness auto
termination
  by (relation "measure (\<lambda>(dst, d, as, bs). length as + length bs)") (auto simp: neq_Nil_conv)

declare xor_loop.simps [simp del]

definition bitmap_xor :: "bool \<Rightarrow> bool \<Rightarrow> bitmap_head \<Rightarrow> bitmap_head \<Rightarrow> bitmap_head \<Rightarrow> bitmap_head outcome" where
  "bitmap_xor dst_is_src same dst a b =
     (if dst_is_src then Inl Ice
      else if same then bitmap_clear dst
      else
        (case xor_loop dst 0 (bm_elts a) (bm_elts b) of
           Inl e \<Rightarrow> Inl e
         | Inr (dst, d) \<Rightarrow>
             (case bitmap_elt_clear_from (current_to_first dst) d of Inl e \<Rightarrow> Inl e | Inr dst \<Rightarrow> check_and_sync dst)))"

function xor_into_loop :: "bitmap_head \<Rightarrow> nat \<Rightarrow> bitmap_element list \<Rightarrow> bitmap_head outcome" where
  "xor_into_loop a i [] = Inr a"
| "xor_into_loop a i (b_elt # bs) =
     (if \<not> present_at a i \<or> e_indx b_elt < e_indx (bm_elts a ! i) then
        (case bitmap_elt_insert_after a i (e_indx b_elt) of
           Inl e \<Rightarrow> Inl e
         | Inr a \<Rightarrow> xor_into_loop (set_elt_bits a i (e_bits b_elt)) (Suc i) bs)
      else if e_indx (bm_elts a ! i) < e_indx b_elt then xor_into_loop a (Suc i) (b_elt # bs)
      else
        (let r = word_op (XOR) (bm_elts a ! i) b_elt; a = set_elt_bits a i r
         in if ior_words r \<noteq> 0 then xor_into_loop a (Suc i) bs
            else xor_into_loop (bitmap_element_free a i) i bs))"
  by pat_completeness auto
termination
  by (relation "inv_image (less_than <*lex*> less_than) (\<lambda>(a, i, bs). (length bs, length (bm_elts a) - i))") auto

definition bitmap_xor_into :: "bool \<Rightarrow> bitmap_head \<Rightarrow> bitmap_head \<Rightarrow> bitmap_head outcome" where
  "bitmap_xor_into same a b =
     (if same then bitmap_clear a
      else case xor_into_loop a 0 (bm_elts b) of Inl e \<Rightarrow> Inl e | Inr a \<Rightarrow> check_and_sync a)"

text \<open>
  \<open>bitmap_ior_and_compl\<close>: in each round the kill list is moved to the element of \<open>b\<close>; a killed
  element of \<open>b\<close> that is not after \<open>a_elt\<close> contributes its remaining bits, if there are any.
\<close>

function ior_and_compl_loop ::
    "bitmap_head \<Rightarrow> nat \<Rightarrow> bitmap_element list \<Rightarrow> bitmap_element list \<Rightarrow> bitmap_element list \<Rightarrow> bool
       \<Rightarrow> (bitmap_head \<times> nat \<times> bool) outcome" where
  "ior_and_compl_loop dst d as bs ks changed =
     (if as = [] \<and> bs = [] then Inr (dst, d, changed)
      else
        (let ks = (if bs \<noteq> [] then dropWhile (\<lambda>k. e_indx k < e_indx (hd bs)) ks else ks)
         in if bs \<noteq> [] \<and> ks \<noteq> [] \<and> e_indx (hd ks) = e_indx (hd bs) \<and> (as = [] \<or> e_indx (hd as) \<ge> e_indx (hd bs)) then
              (let r = word_op and_not (hd bs) (hd ks); tmp_elt = \<lparr>e_indx = e_indx (hd bs), e_bits = r\<rparr>
               in if ior_words r \<noteq> 0 then
                    (case bitmap_elt_ior dst (present_at dst d) d (head_elt as) (Some tmp_elt) changed of
                       Inl e \<Rightarrow> Inl e
                     | Inr (dst, changed) \<Rightarrow>
                         ior_and_compl_loop dst (Suc d)
                           (if as \<noteq> [] \<and> e_indx (hd as) = e_indx (hd bs) then tl as else as) (tl bs) (tl ks) changed)
                  else ior_and_compl_loop dst d as (tl bs) (tl ks) changed)
            else
              (case bitmap_elt_ior dst (present_at dst d) d (head_elt as) (head_elt bs) changed of
                 Inl e \<Rightarrow> Inl e
               | Inr (dst, changed) \<Rightarrow>
                   ior_and_compl_loop dst (Suc d) (fst (ior_advance as bs)) (snd (ior_advance as bs)) ks changed)))"
  by pat_completeness auto
termination
proof (relation "measure (\<lambda>(dst, d, as, bs, ks, _). length as + length bs)", goal_cases)
  case (2 dst d as bs ks changed x xa xb y xc ya)
  then show ?case by (cases as; cases bs) auto
next
  case (4 dst d as bs ks changed x y xa ya)
  then show ?case using ior_advance_less [of as bs "fst (ior_advance as bs)" "snd (ior_advance as bs)"] by auto
qed (auto simp: neq_Nil_conv)

declare ior_and_compl_loop.simps [simp del]

definition bitmap_ior_and_compl ::
    "bool \<Rightarrow> bool \<Rightarrow> bitmap_head \<Rightarrow> bitmap_head \<Rightarrow> bitmap_head \<Rightarrow> bitmap_head \<Rightarrow> (bitmap_head \<times> bool) outcome" where
  "bitmap_ior_and_compl dst_is_src b_is_kill dst a b kill =
     (if dst_is_src then Inl Ice
      else if b_is_kill \<or> bitmap_empty_p b then
        (let changed = (\<not> bitmap_equal_p dst a)
         in if changed then map_sum id (\<lambda>d. (d, True)) (bitmap_copy dst a) else Inr (dst, False))
      else if bitmap_empty_p kill then bitmap_ior False dst a b
      else if bitmap_empty_p a then bitmap_and_compl False False dst b kill
      else
        (case ior_and_compl_loop dst 0 (bm_elts a) (bm_elts b) (bm_elts kill) False of
           Inl e \<Rightarrow> Inl e
         | Inr (dst, d, changed) \<Rightarrow> finish_dst dst d changed))"

text \<open>\<open>bitmap_and_compl\<close> sees \<open>from1 == from2\<close> when the two are the same bitmap.\<close>

definition bitmap_ior_and_compl_into :: "nat \<Rightarrow> bool \<Rightarrow> bitmap_head \<Rightarrow> bitmap_head \<Rightarrow> bitmap_head \<Rightarrow> (bitmap_head \<times> bool) outcome" where
  "bitmap_ior_and_compl_into garbage same12 a from1 from2 =
     (case bitmap_and_compl False same12 (bitmap_initialize garbage) from1 from2 of
        Inl e \<Rightarrow> Inl e
      | Inr (tmp, _) \<Rightarrow> bitmap_ior_into False a tmp)"

section \<open>Ranges\<close>

abbreviation u32 :: "nat \<Rightarrow> nat" where
  "u32 n \<equiv> n mod 2 ^ 32"

text \<open>The words and masks of a range inside the element that starts at \<open>elt_start_bit\<close>.\<close>

definition range_first :: "nat \<Rightarrow> nat \<Rightarrow> nat \<times> hwi" where
  "range_first start elt_start_bit =
     (if elt_start_bit \<le> start
      then ((start - elt_start_bit) div BITMAP_WORD_BITS, NOT (push_bit (start mod BITMAP_WORD_BITS) 1 - 1))
      else (0, NOT 0))"

definition range_last :: "nat \<Rightarrow> nat \<Rightarrow> nat \<times> hwi" where
  "range_last end_bit_plus1 elt_start_bit =
     (if u32 (elt_start_bit + BITMAP_ELEMENT_ALL_BITS) \<le> end_bit_plus1
      then (BITMAP_ELEMENT_WORDS - 1, NOT 0)
      else (u32 (end_bit_plus1 + 2 ^ 32 - elt_start_bit) div BITMAP_WORD_BITS, push_bit (end_bit_plus1 mod BITMAP_WORD_BITS) 1 - 1))"

text \<open>
  \<open>f\<close> combines a word with a mask (the code's \<open>|= mask\<close> or \<open>&= ~mask\<close>). With two words per element
  the loop over the words between the first and the last one is empty.
\<close>

definition modify_range :: "(hwi \<Rightarrow> hwi \<Rightarrow> hwi) \<Rightarrow> nat \<Rightarrow> nat \<Rightarrow> nat \<Rightarrow> hwi list \<Rightarrow> hwi list outcome" where
  "modify_range f start end_bit_plus1 elt_start_bit bits =
     (let (fw, fm) = range_first start elt_start_bit; (lw, lm) = range_last end_bit_plus1 elt_start_bit
      in if fw \<ge> BITMAP_ELEMENT_WORDS \<or> lw \<ge> BITMAP_ELEMENT_WORDS then Inl Undefined
         else if fw = lw then Inr (bits[fw := f (bits ! fw) (fm AND lm)])
         else (let bits = bits[fw := f (bits ! fw) fm] in Inr (bits[lw := f (bits ! lw) lm])))"

fun set_range_loop :: "bitmap_head \<Rightarrow> nat \<Rightarrow> nat \<Rightarrow> nat \<Rightarrow> nat \<Rightarrow> nat \<Rightarrow> (bitmap_head \<times> nat) outcome" where
  "set_range_loop head p start end_bit_plus1 i 0 = Inr (head, p)"
| "set_range_loop head p start end_bit_plus1 i (Suc n) =
     (case (if \<not> present_at head p \<or> e_indx (bm_elts head ! p) \<noteq> i
            then bitmap_elt_insert_after head p i else Inr head) of
        Inl e \<Rightarrow> Inl e
      | Inr head \<Rightarrow>
          (case modify_range (OR) start end_bit_plus1 (u32 (i * BITMAP_ELEMENT_ALL_BITS)) (e_bits (bm_elts head ! p)) of
             Inl e \<Rightarrow> Inl e
           | Inr bits \<Rightarrow> set_range_loop (set_elt_bits head p bits) (Suc p) start end_bit_plus1 (Suc i) n))"

definition bitmap_set_range :: "bitmap_head \<Rightarrow> nat \<Rightarrow> nat \<Rightarrow> bitmap_head outcome" where
  "bitmap_set_range head start count =
     (if count = 0 then Inr head
      else
        (let first_index = start div BITMAP_ELEMENT_ALL_BITS;
             end_bit_plus1 = u32 (start + count);
             last_index = u32 (end_bit_plus1 + 2 ^ 32 - 1) div BITMAP_ELEMENT_ALL_BITS
         in case bitmap_find_bit head start of
              Inl e \<Rightarrow> Inl e
            | Inr (head, elt) \<Rightarrow>
                (case (case elt of
                         Some p \<Rightarrow> Inr (head, p)
                       | None \<Rightarrow>
                           (case bitmap_element_link head (bitmap_element_allocate first_index) of
                              Inl e \<Rightarrow> Inl e
                            | Inr head \<Rightarrow> (case bm_current head of At p \<Rightarrow> Inr (head, p) | _ \<Rightarrow> Inl Undefined))) of
                   Inl e \<Rightarrow> Inl e
                 | Inr (head, p) \<Rightarrow>
                     (if e_indx (bm_elts head ! p) \<noteq> first_index then Inl Ice
                      else
                        (case set_range_loop head p start end_bit_plus1 first_index (Suc last_index - first_index) of
                           Inl e \<Rightarrow> Inl e
                         | Inr (head, p) \<Rightarrow>
                             (let c = (if present_at head p then p else p - 1)
                              in Inr (head\<lparr>bm_current := At c, bm_indx := e_indx (bm_elts head ! c)\<rparr>)))))))"

function clear_range_loop :: "bitmap_head \<Rightarrow> nat \<Rightarrow> nat \<Rightarrow> nat \<Rightarrow> nat \<Rightarrow> (bitmap_head \<times> nat) outcome" where
  "clear_range_loop head p start end_bit_plus1 last_index =
     (if \<not> present_at head p \<or> e_indx (bm_elts head ! p) > last_index then Inr (head, p)
      else
        (let elt_start_bit = u32 (e_indx (bm_elts head ! p) * BITMAP_ELEMENT_ALL_BITS)
         in if elt_start_bit \<ge> start \<and> u32 (elt_start_bit + BITMAP_ELEMENT_ALL_BITS) \<le> end_bit_plus1
            then clear_range_loop (bitmap_element_free head p) p start end_bit_plus1 last_index
            else
              (case modify_range and_not start end_bit_plus1 elt_start_bit (e_bits (bm_elts head ! p)) of
                 Inl e \<Rightarrow> Inl e
               | Inr bits \<Rightarrow>
                   (let head = set_elt_bits head p bits
                    in if \<forall>w \<in> set bits. w = 0
                       then clear_range_loop (bitmap_element_free head p) p start end_bit_plus1 last_index
                       else clear_range_loop head (Suc p) start end_bit_plus1 last_index))))"
  by pat_completeness auto
termination
  by (relation "measure (\<lambda>(head, p, _). length (bm_elts head) - p)") (auto simp: length_element_free)

declare clear_range_loop.simps [simp del]

definition bitmap_clear_range :: "bitmap_head \<Rightarrow> nat \<Rightarrow> nat \<Rightarrow> bitmap_head outcome" where
  "bitmap_clear_range head start count =
     (if count = 0 then Inr head
      else
        (let first_index = start div BITMAP_ELEMENT_ALL_BITS;
             end_bit_plus1 = u32 (start + count);
             last_index = u32 (end_bit_plus1 + 2 ^ 32 - 1) div BITMAP_ELEMENT_ALL_BITS
         in case bitmap_find_bit head start of
              Inl e \<Rightarrow> Inl e
            | Inr (head, elt) \<Rightarrow>
                (let p = (case elt of
                            Some p \<Rightarrow> Some p
                          | None \<Rightarrow>
                              (case bm_current head of
                                 At c \<Rightarrow> (if bm_indx head < first_index
                                          then (if Suc c < length (bm_elts head) then Some (Suc c) else None)
                                          else Some c)
                               | _ \<Rightarrow> None))
                 in case p of
                      None \<Rightarrow> Inr head
                    | Some p \<Rightarrow>
                        (case clear_range_loop head p start end_bit_plus1 last_index of
                           Inl e \<Rightarrow> Inl e
                         | Inr (head, p) \<Rightarrow>
                             Inr (if present_at head p
                                  then head\<lparr>bm_current := At p, bm_indx := e_indx (bm_elts head ! p)\<rparr> else head)))))"

section \<open>Hashing\<close>

definition bitmap_hash :: "bitmap_head \<Rightarrow> uint32" where
  "bitmap_hash head =
     ucast (fold (\<lambda>ptr hash. fold (\<lambda>w hash. hash XOR w) (e_bits ptr) (hash XOR word_of_nat (e_indx ptr))) (bm_elts head) (0 :: hwi))"


end
