(* ===== verification/Bitmap_Sets.thy ===== *)
theory Bitmap_Sets
  imports Bitmap Bit_Set_Interface
begin

text \<open>
  What the operations of \<open>Bitmap\<close> compute: the invariant of the element list (strictly increasing
  indices, no empty element) and of the search cache, the set of bits a bitmap stands for, and for
  every operation that the result satisfies the invariant and has the right set.
\<close>

section \<open>Abstraction and invariant\<close>

definition elt_ok :: "bitmap_element \<Rightarrow> bool" where
  "elt_ok e \<longleftrightarrow> length (e_bits e) = 2 \<and> (\<exists>w \<in> set (e_bits e). w \<noteq> 0)"

definition elts_ok :: "bitmap_element list \<Rightarrow> bool" where
  "elts_ok es \<longleftrightarrow> sorted_wrt (<) (map e_indx es) \<and> (\<forall>e \<in> set es. elt_ok e)"

text \<open>The cache points to an element and knows its index.\<close>

definition cur_ok :: "bitmap_head \<Rightarrow> bool" where
  "cur_ok h \<longleftrightarrow>
     (case bm_current h of
        Null \<Rightarrow> bm_elts h = []
      | At c \<Rightarrow> c < length (bm_elts h) \<and> bm_indx h = e_indx (bm_elts h ! c)
      | Freed _ \<Rightarrow> False)"

definition bitmap_wf :: "bitmap_head \<Rightarrow> bool" where
  "bitmap_wf h \<longleftrightarrow> elts_ok (bm_elts h) \<and> cur_ok h"

definition elt_set :: "bitmap_element \<Rightarrow> nat set" where
  "elt_set e = {i. i div 128 = e_indx e \<and> bit (e_bits e ! (i div 64 mod 2)) (i mod 64)}"

definition elts_set :: "bitmap_element list \<Rightarrow> nat set" where
  "elts_set es = (\<Union>e \<in> set es. elt_set e)"

definition bitmap_set :: "bitmap_head \<Rightarrow> nat set" where
  "bitmap_set h = elts_set (bm_elts h)"

lemma elts_set_simps [simp]:
  "elts_set [] = {}" "elts_set (e # es) = elt_set e \<union> elts_set es" "elts_set (es @ fs) = elts_set es \<union> elts_set fs"
  by (auto simp: elts_set_def)

lemma elts_ok_simps [simp]:
  "elts_ok []" "elts_ok (e # es) \<longleftrightarrow> elt_ok e \<and> elts_ok es \<and> (\<forall>f \<in> set es. e_indx e < e_indx f)"
  by (auto simp: elts_ok_def)

lemma elts_ok_append:
  "elts_ok (es @ fs) \<longleftrightarrow> elts_ok es \<and> elts_ok fs \<and> (\<forall>e \<in> set es. \<forall>f \<in> set fs. e_indx e < e_indx f)"
  by (auto simp: elts_ok_def sorted_wrt_append)

lemma indx_less: "elts_ok es \<Longrightarrow> i < j \<Longrightarrow> j < length es \<Longrightarrow> e_indx (es ! i) < e_indx (es ! j)"
  using sorted_wrt_nth_less [of "(<)" "map e_indx es" i j] by (simp add: elts_ok_def)

lemma indx_inj: "elts_ok es \<Longrightarrow> i < length es \<Longrightarrow> j < length es \<Longrightarrow> e_indx (es ! i) = e_indx (es ! j) \<Longrightarrow> i = j"
  by (metis indx_less less_irrefl nat_neq_iff)

lemma elt_ok_nth: "elts_ok es \<Longrightarrow> i < length es \<Longrightarrow> elt_ok (es ! i)"
  by (simp add: elts_ok_def)

lemma elt_set_indx: "i \<in> elt_set e \<Longrightarrow> i div 128 = e_indx e"
  by (simp add: elt_set_def)

lemma mem_elts_set: "elts_ok es \<Longrightarrow> p < length es \<Longrightarrow> e_indx (es ! p) = i div 128 \<Longrightarrow> i \<in> elts_set es \<longleftrightarrow> i \<in> elt_set (es ! p)"
proof
  assume es: "elts_ok es" "p < length es" "e_indx (es ! p) = i div 128" and "i \<in> elts_set es"
  then obtain q where q: "q < length es" "i \<in> elt_set (es ! q)" by (auto simp: elts_set_def in_set_conv_nth)
  have "e_indx (es ! q) = e_indx (es ! p)" using elt_set_indx [OF q(2)] es(3) by (simp only:)
  then have "q = p" by (rule indx_inj [OF es(1) q(1) es(2)])
  with q show "i \<in> elt_set (es ! p)" by simp
qed (auto simp: elts_set_def)

lemma not_mem_elts_set: "\<forall>e \<in> set es. e_indx e \<noteq> i div 128 \<Longrightarrow> i \<notin> elts_set es"
  by (auto simp: elts_set_def elt_set_def)

section \<open>Searching\<close>

lemma find_forward_spec:
  "c < length es \<Longrightarrow>
   c \<le> find_forward es ix c \<and> find_forward es ix c < length es
   \<and> (Suc (find_forward es ix c) = length es \<or> ix \<le> e_indx (es ! find_forward es ix c))
   \<and> (\<forall>j. c \<le> j \<and> j < find_forward es ix c \<longrightarrow> e_indx (es ! j) < ix)"
proof (induction es ix c rule: find_forward.induct)
  case (1 es ix c)
  show ?case
  proof (cases "Suc c < length es \<and> e_indx (es ! c) < ix")
    case True
    then have "find_forward es ix c = find_forward es ix (Suc c)" by (simp add: find_forward.simps [of es ix c])
    moreover have "e_indx (es ! j) < ix" if "c \<le> j" "j < find_forward es ix (Suc c)" for j
      using that 1(1) [OF True] True by (cases "j = c") auto
    ultimately show ?thesis using 1(1) [OF True] True by auto
  next
    case False
    then have "find_forward es ix c = c" by (subst find_forward.simps) (simp only: if_False)
    with False 1(2) show ?thesis by auto
  qed
qed

lemma find_backward_spec:
  "c < length es \<Longrightarrow>
   find_backward es ix c \<le> c \<and> (find_backward es ix c = 0 \<or> e_indx (es ! find_backward es ix c) \<le> ix)
   \<and> (\<forall>j. find_backward es ix c < j \<and> j \<le> c \<longrightarrow> ix < e_indx (es ! j))"
  by (induction es ix c rule: find_backward.induct) (auto simp: le_Suc_eq)

lemma find_hits:
  assumes ok: "elts_ok es" and q: "q < length es" "e_indx (es ! q) = ix" and c: "c < length es"
  shows "e_indx (es ! c) \<le> ix \<Longrightarrow> find_forward es ix c = q"
    and "find_forward es ix 0 = q"
    and "ix \<le> e_indx (es ! c) \<Longrightarrow> find_backward es ix c = q"
proof -
  have *: "find_forward es ix b = q" if "b \<le> q" for b
  proof -
    let ?p = "find_forward es ix b"
    have p: "b \<le> ?p" "?p < length es" "Suc ?p = length es \<or> ix \<le> e_indx (es ! ?p)" "\<forall>j. b \<le> j \<and> j < ?p \<longrightarrow> e_indx (es ! j) < ix"
      using find_forward_spec [of b es ix] that q(1) by auto
    have "\<not> q < ?p" using p(4) that q(2) by auto
    moreover have "\<not> ?p < q" using p(3) q indx_less [OF ok, of ?p q] by auto
    ultimately show ?thesis by simp
  qed
  show "find_forward es ix 0 = q" by (rule *) simp
  show "find_forward es ix c = q" if "e_indx (es ! c) \<le> ix"
    using that q c indx_less [OF ok, of q c] by (intro *) (meson leI not_less)
  show "find_backward es ix c = q" if le: "ix \<le> e_indx (es ! c)"
  proof -
    let ?p = "find_backward es ix c"
    have p: "?p \<le> c" "?p = 0 \<or> e_indx (es ! ?p) \<le> ix" "\<forall>j. ?p < j \<and> j \<le> c \<longrightarrow> ix < e_indx (es ! j)"
      using find_backward_spec [OF c, of ix] by auto
    have "q \<le> c" using le q c indx_less [OF ok, of c q] by (meson leI not_less)
    then have "\<not> ?p < q" using p(3) q(2) by auto
    moreover have "\<not> q < ?p" using p(1,2) c q(2) indx_less [OF ok, of q ?p] by auto
    ultimately show ?thesis by simp
  qed
qed

lemma bitmap_find_bit_spec:
  assumes "bitmap_wf h"
  shows "\<exists>h' r. bitmap_find_bit h i = Inr (h', r) \<and> bitmap_wf h' \<and> bm_elts h' = bm_elts h
           \<and> (case r of
                None \<Rightarrow> (\<forall>e \<in> set (bm_elts h). e_indx e \<noteq> i div 128)
              | Some p \<Rightarrow> p < length (bm_elts h) \<and> e_indx (bm_elts h ! p) = i div 128)"
proof (cases "bm_current h")
  case Null
  then show ?thesis using assms by (simp add: bitmap_find_bit_def bitmap_wf_def cur_ok_def Let_def)
next
  case (Freed k)
  then show ?thesis using assms by (simp add: bitmap_wf_def cur_ok_def)
next
  case (At c)
  let ?es = "bm_elts h" and ?ix = "i div 128"
  have ok: "elts_ok ?es" and c: "c < length ?es" "bm_indx h = e_indx (?es ! c)"
    using assms At by (simp_all add: bitmap_wf_def cur_ok_def)
  show ?thesis
  proof (cases "bm_indx h = ?ix")
    case True
    then show ?thesis using assms At c by (simp add: bitmap_find_bit_def Let_def)
  next
    case False
    define el where "el = (if bm_indx h < ?ix then find_forward ?es ?ix c
                        else if bm_indx h div 2 < ?ix then find_backward ?es ?ix c else find_forward ?es ?ix 0)"
    have el: "el < length ?es"
    proof -
      have "find_forward ?es ?ix c < length ?es" using find_forward_spec [OF c(1)] by blast
      moreover have "find_forward ?es ?ix 0 < length ?es" using find_forward_spec [of 0 ?es ?ix] c(1) by (cases ?es) auto
      moreover have "find_backward ?es ?ix c < length ?es" using find_backward_spec [OF c(1), of ?ix] c(1) by linarith
      ultimately show ?thesis by (simp add: el_def)
    qed
    have "el = q" if "q < length ?es" "e_indx (?es ! q) = ?ix" for q
      using find_hits [OF ok that c(1)] False c(2) by (auto simp: el_def)
    then have none: "\<forall>e \<in> set ?es. e_indx e \<noteq> ?ix" if "e_indx (?es ! el) \<noteq> ?ix"
      using that by (auto simp: in_set_conv_nth)
    have r: "bitmap_find_bit h i = Inr (h\<lparr>bm_current := At el, bm_indx := e_indx (?es ! el)\<rparr>,
               if e_indx (?es ! el) \<noteq> ?ix then None else Some el)"
      using At c(1) False by (simp add: bitmap_find_bit_def Let_def el_def)
    have wf: "bitmap_wf (h\<lparr>bm_current := At el, bm_indx := e_indx (?es ! el)\<rparr>)"
      using ok el by (simp add: bitmap_wf_def cur_ok_def)
    show ?thesis unfolding r by (rule exI, rule exI, intro conjI, rule refl) (use wf none el in auto)
  qed
qed

section \<open>Linking and freeing elements\<close>

lemma link_back_spec:
  "link_back es ix c \<le> c \<and> (link_back es ix c = 0 \<or> e_indx (es ! (link_back es ix c - 1)) \<le> ix)
   \<and> (\<forall>j. link_back es ix c \<le> j \<and> j < c \<longrightarrow> ix < e_indx (es ! j))"
  by (induction es ix c rule: link_back.induct) (auto simp: less_Suc_eq)

lemma link_forward_spec:
  "c < length es \<Longrightarrow>
   c \<le> link_forward es ix c \<and> link_forward es ix c < length es
   \<and> (Suc (link_forward es ix c) = length es \<or> ix \<le> e_indx (es ! Suc (link_forward es ix c)))
   \<and> (\<forall>j. c < j \<and> j \<le> link_forward es ix c \<longrightarrow> e_indx (es ! j) < ix)"
proof (induction es ix c rule: link_forward.induct)
  case (1 es ix c)
  show ?case
  proof (cases "Suc c < length es \<and> e_indx (es ! Suc c) < ix")
    case True
    then have "link_forward es ix c = link_forward es ix (Suc c)" by (simp add: link_forward.simps [of es ix c])
    moreover have "e_indx (es ! j) < ix" if "c < j" "j \<le> link_forward es ix (Suc c)" for j
      using that 1(1) [OF True] True by (cases "j = Suc c") auto
    ultimately show ?thesis using 1(1) [OF True] True by auto
  next
    case False
    then have "link_forward es ix c = c" by (subst link_forward.simps) (simp only: if_False)
    with False 1(2) show ?thesis by auto
  qed
qed

lemma elts_ok_insert_at:
  assumes "elts_ok es" "elt_ok e" "p \<le> length es"
    and "\<And>j. j < p \<Longrightarrow> e_indx (es ! j) < e_indx e" "\<And>j. p \<le> j \<Longrightarrow> j < length es \<Longrightarrow> e_indx e < e_indx (es ! j)"
  shows "elts_ok (insert_at p e es)"
proof -
  have split: "elts_ok (take p es @ drop p es)" using assms(1) by simp
  have "\<forall>f \<in> set (take p es). e_indx f < e_indx e"
    using assms(3,4) by (auto simp: in_set_conv_nth)
  moreover have "\<forall>f \<in> set (drop p es). e_indx e < e_indx f"
    using assms(3,5) by (auto simp: in_set_conv_nth)
  ultimately show ?thesis using split assms(2) unfolding insert_at_def elts_ok_append elts_ok_simps by auto
qed

lemma elts_set_insert_at: "elts_set (insert_at p e es) = elt_set e \<union> elts_set es"
proof -
  have "elts_set es = elts_set (take p es @ drop p es)" by simp
  then show ?thesis unfolding insert_at_def elts_set_simps by auto
qed

lemma nth_insert_at [simp]: "p \<le> length es \<Longrightarrow> insert_at p e es ! p = e"
  by (simp add: insert_at_def nth_append)

lemma length_insert_at [simp]: "length (insert_at p e es) = Suc (length es)"
  by (simp add: insert_at_def)

lemma bitmap_element_link_spec:
  assumes wf: "bitmap_wf h" and new: "\<forall>f \<in> set (bm_elts h). e_indx f \<noteq> e_indx e" and e: "elt_ok e"
  shows "\<exists>h'. bitmap_element_link h e = Inr h' \<and> bitmap_wf h' \<and> bitmap_set h' = elt_set e \<union> bitmap_set h"
proof (cases "bm_elts h = []")
  case True
  then show ?thesis using e by (simp add: bitmap_element_link_def Let_def bitmap_wf_def cur_ok_def bitmap_set_def)
next
  case False
  let ?es = "bm_elts h" and ?ix = "e_indx e"
  obtain c where c: "bm_current h = At c" "c < length ?es" "bm_indx h = e_indx (?es ! c)"
    using wf False by (auto simp: bitmap_wf_def cur_ok_def split: current_elt.splits)
  have ok: "elts_ok ?es" using wf by (simp add: bitmap_wf_def)
  have neq: "e_indx (?es ! j) \<noteq> ?ix" if "j < length ?es" for j using new that by auto
  have place: "\<exists>p. p \<le> length ?es \<and> bitmap_element_link h e = Inr \<lparr>bm_elts = insert_at p e ?es, bm_current = At p, bm_indx = ?ix\<rparr>
          \<and> (\<forall>j < p. e_indx (?es ! j) < ?ix) \<and> (\<forall>j. p \<le> j \<longrightarrow> j < length ?es \<longrightarrow> ?ix < e_indx (?es ! j))"
  proof (cases "?ix < bm_indx h")
    case True
    let ?p = "link_back ?es ?ix c"
    have p: "?p \<le> c" "?p = 0 \<or> e_indx (?es ! (?p - 1)) \<le> ?ix" "\<forall>j. ?p \<le> j \<and> j < c \<longrightarrow> ?ix < e_indx (?es ! j)"
      using link_back_spec [of ?es ?ix c] by auto
    have "e_indx (?es ! j) < ?ix" if "j < ?p" for j
    proof -
      have lt: "?p - 1 < length ?es" and le: "j < ?p - 1 \<or> j = ?p - 1" using that p(1) c(2) by linarith+
      have "e_indx (?es ! (?p - 1)) < ?ix" using p(2) that neq [OF lt] by linarith
      then show ?thesis using le indx_less [OF ok _ lt, of j] by auto
    qed
    moreover have "?ix < e_indx (?es ! j)" if "?p \<le> j" "j < length ?es" for j
      using that p(3) True c(3) indx_less [OF ok, of c j] by (cases "j < c"; cases "j = c") auto
    moreover have "bitmap_element_link h e = Inr \<lparr>bm_elts = insert_at ?p e ?es, bm_current = At ?p, bm_indx = ?ix\<rparr>"
      using c True False by (simp add: bitmap_element_link_def Let_def)
    ultimately show ?thesis using p(1) c(2) by (intro exI [of _ ?p]) auto
  next
    case ge: False
    let ?q = "link_forward ?es ?ix c"
    have q: "c \<le> ?q" "?q < length ?es" "Suc ?q = length ?es \<or> ?ix \<le> e_indx (?es ! Suc ?q)"
        "\<forall>j. c < j \<and> j \<le> ?q \<longrightarrow> e_indx (?es ! j) < ?ix"
      using link_forward_spec [OF c(2), of ?ix] by auto
    have "e_indx (?es ! c) < ?ix" using ge c(2,3) neq [of c] by simp
    then have "e_indx (?es ! j) < ?ix" if "j < Suc ?q" for j
      using that q(4) c(2) indx_less [OF ok, of j c] by (cases "c < j"; cases "j = c") auto
    moreover have "?ix < e_indx (?es ! j)" if j: "Suc ?q \<le> j" "j < length ?es" for j
    proof -
      have "?ix \<le> e_indx (?es ! Suc ?q)" using q(3) j by auto
      also have "e_indx (?es ! Suc ?q) \<le> e_indx (?es ! j)"
        using indx_less [OF ok, of "Suc ?q" j] j by (cases "j = Suc ?q") auto
      finally show ?thesis using neq [OF j(2)] by simp
    qed
    moreover have "bitmap_element_link h e = Inr \<lparr>bm_elts = insert_at (Suc ?q) e ?es, bm_current = At (Suc ?q), bm_indx = ?ix\<rparr>"
      using c ge False by (simp add: bitmap_element_link_def Let_def)
    ultimately show ?thesis using q(2) by (intro exI [of _ "Suc ?q"]) auto
  qed
  then obtain p where "p \<le> length ?es" "bitmap_element_link h e = Inr \<lparr>bm_elts = insert_at p e ?es, bm_current = At p, bm_indx = ?ix\<rparr>"
      "elts_ok (insert_at p e ?es)"
    using elts_ok_insert_at [OF ok e] by blast
  then show ?thesis by (simp add: bitmap_wf_def cur_ok_def bitmap_set_def elts_set_insert_at)
qed

lemma element_free_spec:
  assumes "cur_ok h" "i < length (bm_elts h)"
  shows "cur_ok (bitmap_element_free h i) \<and> bm_elts (bitmap_element_free h i) = take i (bm_elts h) @ drop (Suc i) (bm_elts h)"
proof -
  obtain c where c: "bm_current h = At c" "c < length (bm_elts h)" "bm_indx h = e_indx (bm_elts h ! c)"
    using assms by (auto simp: cur_ok_def split: current_elt.splits)
  consider "c = i" "Suc i < length (bm_elts h)" | "c = i" "Suc i = length (bm_elts h)" "0 < i"
    | "c = i" "Suc i = length (bm_elts h)" "i = 0" | "c < i" | "i < c"
    using assms(2) by linarith
  then show ?thesis
    using c assms(2) by cases (auto simp: bitmap_element_free_def cur_ok_def Let_def nth_append min_def)
qed


section \<open>Updating one element\<close>

lemma bit_index_eq:
  "i div 128 = j div 128 \<Longrightarrow> i div 64 mod 2 = j div 64 mod 2 \<Longrightarrow> i mod 64 = j mod 64 \<Longrightarrow> i = j" for i j :: nat
proof -
  assume a: "i div 128 = j div 128" "i div 64 mod 2 = j div 64 mod 2" "i mod 64 = j mod 64"
  have "n div 128 = n div 64 div 2" for n :: nat by (simp add: div_mult2_eq [symmetric])
  then have "i div 64 = j div 64" using a(1,2) by (metis div_mult_mod_eq)
  then show "i = j" using a(3) by (metis div_mult_mod_eq)
qed

lemma elts_set_split:
  assumes "elts_ok es" "p < length es"
  shows "elts_set (take p es @ drop (Suc p) es) = elts_set es - elt_set (es ! p)"
proof -
  have es: "es = take p es @ es ! p # drop (Suc p) es" using assms(2) by (rule id_take_nth_drop)
  then have "elts_ok (take p es @ es ! p # drop (Suc p) es)" using assms(1) by simp
  then have "\<forall>e \<in> set (take p es @ drop (Suc p) es). e_indx e \<noteq> e_indx (es ! p)"
    unfolding elts_ok_append elts_ok_simps by auto
  then have disj: "elts_set (take p es @ drop (Suc p) es) \<inter> elt_set (es ! p) = {}"
    by (auto simp: elts_set_def dest!: elt_set_indx)
  have "elts_set es = elts_set (take p es @ es ! p # drop (Suc p) es)" by (rule arg_cong [OF es])
  then show ?thesis using disj by auto
qed

lemma elts_ok_remove: "elts_ok es \<Longrightarrow> p < length es \<Longrightarrow> elts_ok (take p es @ drop (Suc p) es)"
  by (subst (asm) id_take_nth_drop [of p es], assumption) (auto simp: elts_ok_append)

lemma elts_set_update:
  assumes "elts_ok es" "p < length es"
  shows "elts_set (es[p := e]) = elts_set es - elt_set (es ! p) \<union> elt_set e"
  using elts_set_split [OF assms] assms(2) by (auto simp: upd_conv_take_nth_drop)

lemma elts_ok_update: "elts_ok es \<Longrightarrow> elt_ok e \<Longrightarrow> p < length es \<Longrightarrow> e_indx e = e_indx (es ! p) \<Longrightarrow> elts_ok (es[p := e])"
proof -
  assume a: "elts_ok es" "elt_ok e" "p < length es" "e_indx e = e_indx (es ! p)"
  then have "map e_indx (es[p := e]) = map e_indx es" by (simp add: map_update list_update_same_conv)
  moreover have "\<forall>f \<in> set (es[p := e]). elt_ok f" using a set_update_subset_insert [of es p e] by (auto simp: elts_ok_def)
  ultimately show ?thesis using a(1) by (simp add: elts_ok_def)
qed

text \<open>One bit of one element.\<close>

lemma elt_set_update:
  assumes "length (e_bits e) = 2" "e_indx e = i div 128"
    and "\<And>k. k < 64 \<Longrightarrow> bit x k \<longleftrightarrow> (if k = i mod 64 then v else bit (e_bits e ! (i div 64 mod 2)) k)"
  shows "elt_set (e\<lparr>e_bits := (e_bits e)[i div 64 mod 2 := x]\<rparr>) = (if v then insert i (elt_set e) else elt_set e - {i})"
proof -
  have w: "i div 64 mod 2 < length (e_bits e)" using assms(1) by simp
  have "j \<in> elt_set (e\<lparr>e_bits := (e_bits e)[i div 64 mod 2 := x]\<rparr>) \<longleftrightarrow> (if j = i then v else j \<in> elt_set e)" for j
  proof (cases "j = i")
    case True
    then show ?thesis using assms(2) assms(3) [of "i mod 64"] w by (simp add: elt_set_def)
  next
    case False
    then have "bit ((e_bits e)[i div 64 mod 2 := x] ! (j div 64 mod 2)) (j mod 64) = bit (e_bits e ! (j div 64 mod 2)) (j mod 64)"
      if "j div 128 = e_indx e"
    proof (cases "j div 64 mod 2 = i div 64 mod 2")
      case True
      have "j mod 64 \<noteq> i mod 64" using bit_index_eq [of j i] that assms(2) True False by auto
      then show ?thesis using assms(3) [of "j mod 64"] w unfolding True by (simp only: nth_list_update_eq) simp
    next
      case False
      then show ?thesis by (metis nth_list_update_neq)
    qed
    then show ?thesis using False by (auto simp: elt_set_def)
  qed
  then show ?thesis by (intro set_eqI) (simp only: if_distrib [of "\<lambda>S. _ \<in> S"], simp)
qed

lemma elt_set_empty: "length (e_bits e) = 2 \<Longrightarrow> bitmap_element_zerop e \<Longrightarrow> elt_set e = {}"
proof -
  assume a: "length (e_bits e) = 2" "bitmap_element_zerop e"
  have "e_bits e ! 0 = 0" "e_bits e ! 1 = 0"
    using a(2) by (simp_all add: bitmap_element_zerop_def or_eq_0_iff_word)
  moreover have "i div 64 mod 2 = 0 \<or> i div 64 mod 2 = 1" for i :: nat by linarith
  ultimately show ?thesis unfolding elt_set_def by (auto, metis bit_0_eq bot_apply bot_bool_def One_nat_def)
qed

lemma not_zerop_ok: "length (e_bits e) = 2 \<Longrightarrow> \<not> bitmap_element_zerop e \<longleftrightarrow> elt_ok e"
proof -
  assume a: "length (e_bits e) = 2"
  then obtain x y where "e_bits e = [x, y]" by (auto simp: numeral_2_eq_2 length_Suc_conv)
  then show ?thesis by (auto simp: bitmap_element_zerop_def elt_ok_def or_eq_0_iff_word)
qed


section \<open>Single bits\<close>

lemma word_test: "w AND push_bit k 1 = 0 \<longleftrightarrow> \<not> bit w k" for w :: hwi
  by (simp add: and_exp_eq_0_iff_not_bit push_bit_eq_mult)

lemma mem_bitmap_set_at:
  "bitmap_wf h \<Longrightarrow> p < length (bm_elts h) \<Longrightarrow> e_indx (bm_elts h ! p) = i div 128 \<Longrightarrow>
   i \<in> bitmap_set h \<longleftrightarrow> bit (e_bits (bm_elts h ! p) ! (i div 64 mod 2)) (i mod 64)"
  by (simp add: bitmap_set_def bitmap_wf_def mem_elts_set elt_set_def)

lemma bitmap_bit_p_spec:
  assumes "bitmap_wf h"
  shows "\<exists>h'. bitmap_bit_p h i = Inr (h', i \<in> bitmap_set h) \<and> bitmap_wf h' \<and> bitmap_set h' = bitmap_set h"
proof -
  obtain h' r where r: "bitmap_find_bit h i = Inr (h', r)" "bitmap_wf h'" "bm_elts h' = bm_elts h"
      "case r of None \<Rightarrow> (\<forall>e \<in> set (bm_elts h). e_indx e \<noteq> i div 128)
       | Some p \<Rightarrow> p < length (bm_elts h) \<and> e_indx (bm_elts h ! p) = i div 128"
    using bitmap_find_bit_spec [OF assms] by blast
  show ?thesis
  proof (cases r)
    case None
    then have "i \<notin> bitmap_set h" using r(4) not_mem_elts_set [of "bm_elts h" i] by (simp add: bitmap_set_def)
    with r None show ?thesis by (simp add: bitmap_bit_p_def bitmap_set_def)
  next
    case (Some p)
    then have "i \<in> bitmap_set h \<longleftrightarrow> bit (e_bits (bm_elts h ! p) ! (i div 64 mod 2)) (i mod 64)"
      using r(4) mem_bitmap_set_at [OF assms] by simp
    with r Some show ?thesis by (simp add: bitmap_bit_p_def bitmap_set_def bit_iff_and_drop_bit_eq_1)
  qed
qed

text \<open>Storing new bits in an element that keeps a nonzero word.\<close>

lemma set_elt_bits_wf:
  assumes "bitmap_wf h" "p < length (bm_elts h)" "elt_ok ((bm_elts h ! p)\<lparr>e_bits := r\<rparr>)"
  shows "bitmap_wf (set_elt_bits h p r)"
    and "bitmap_set (set_elt_bits h p r) = bitmap_set h - elt_set (bm_elts h ! p) \<union> elt_set ((bm_elts h ! p)\<lparr>e_bits := r\<rparr>)"
proof -
  have ok: "elts_ok (bm_elts h)" using assms(1) by (simp add: bitmap_wf_def)
  have "cur_ok (set_elt_bits h p r)"
    using assms(1,2) by (auto simp: bitmap_wf_def cur_ok_def set_elt_bits_def nth_list_update split: current_elt.splits)
  then show "bitmap_wf (set_elt_bits h p r)"
    using elts_ok_update [OF ok assms(3,2)] by (simp add: bitmap_wf_def set_elt_bits_def)
  show "bitmap_set (set_elt_bits h p r) = bitmap_set h - elt_set (bm_elts h ! p) \<union> elt_set ((bm_elts h ! p)\<lparr>e_bits := r\<rparr>)"
    using elts_set_update [OF ok assms(2)] by (simp add: bitmap_set_def set_elt_bits_def)
qed

lemma elt_subset: "p < length (bm_elts h) \<Longrightarrow> elt_set (bm_elts h ! p) \<subseteq> bitmap_set h"
  unfolding bitmap_set_def elts_set_def by (meson UN_upper nth_mem)

text \<open>A new element.\<close>

lemma allocate_simps [simp]:
  "e_indx (bitmap_element_allocate n) = n" "length (e_bits (bitmap_element_allocate n)) = 2"
  "e_bits (bitmap_element_allocate n) ! (j mod 2) = 0"
  by (simp_all add: bitmap_element_allocate_def)

lemma new_elt_set:
  "elt_set ((bitmap_element_allocate (i div 128))\<lparr>e_bits := (e_bits (bitmap_element_allocate (i div 128)))[i div 64 mod 2 := push_bit (i mod 64) 1]\<rparr>) = {i}"
proof -
  have "elt_set (bitmap_element_allocate (i div 128)) = {}" unfolding elt_set_def by simp
  moreover have "bit (push_bit (i mod 64) 1 :: hwi) k \<longleftrightarrow> k = i mod 64" if "k < 64" for k
    using that by (auto simp: bit_simps)
  ultimately show ?thesis using elt_set_update [of "bitmap_element_allocate (i div 128)" i "push_bit (i mod 64) 1" True] by simp
qed

lemma bitmap_set_bit_spec:
  assumes "bitmap_wf h"
  shows "\<exists>h'. bitmap_set_bit h i = Inr (h', i \<notin> bitmap_set h) \<and> bitmap_wf h' \<and> bitmap_set h' = insert i (bitmap_set h)"
proof -
  let ?w = "i div 64 mod 2" and ?v = "push_bit (i mod 64) 1 :: hwi"
  obtain h' r where r: "bitmap_find_bit h i = Inr (h', r)" "bitmap_wf h'" "bm_elts h' = bm_elts h"
      "case r of None \<Rightarrow> (\<forall>e \<in> set (bm_elts h). e_indx e \<noteq> i div 128)
       | Some p \<Rightarrow> p < length (bm_elts h) \<and> e_indx (bm_elts h ! p) = i div 128"
    using bitmap_find_bit_spec [OF assms] by blast
  have same: "bitmap_set h' = bitmap_set h" using r(3) by (simp add: bitmap_set_def)
  show ?thesis
  proof (cases r)
    case None
    let ?e = "(bitmap_element_allocate (i div 128))\<lparr>e_bits := (e_bits (bitmap_element_allocate (i div 128)))[?w := ?v]\<rparr>"
    have fresh: "i \<notin> bitmap_set h" using None r(4) not_mem_elts_set [of "bm_elts h" i] by (simp add: bitmap_set_def)
    have set: "elt_set ?e = {i}" by (rule new_elt_set)
    then have "elt_ok ?e"
      using elt_set_empty [of ?e] not_zerop_ok [of ?e] by auto
    then obtain h2 where "bitmap_element_link h' ?e = Inr h2" "bitmap_wf h2" "bitmap_set h2 = elt_set ?e \<union> bitmap_set h'"
      using bitmap_element_link_spec [OF r(2), of ?e] None r(3,4) by auto
    then show ?thesis using r None fresh set same by (simp add: bitmap_set_bit_def Let_def)
  next
    case (Some p)
    then have p: "p < length (bm_elts h')" "e_indx (bm_elts h' ! p) = i div 128" using r by auto
    let ?bits = "e_bits (bm_elts h' ! p)"
    have mem: "i \<in> bitmap_set h \<longleftrightarrow> bit (?bits ! ?w) (i mod 64)" using mem_bitmap_set_at [OF r(2) p] same by simp
    have res: "(?bits ! ?w AND ?v = 0) \<longleftrightarrow> i \<notin> bitmap_set h" unfolding word_test mem ..
    show ?thesis
    proof (cases "i \<in> bitmap_set h")
      case True
      then show ?thesis using r Some res same by (auto simp: bitmap_set_bit_def Let_def)
    next
      case False
      let ?r = "?bits[?w := ?bits ! ?w OR ?v]" and ?e = "bm_elts h' ! p"
      have len: "length ?bits = 2" using elt_ok_nth [of "bm_elts h'" p] r(2) p by (simp add: bitmap_wf_def elt_ok_def)
      have e: "elt_set (?e\<lparr>e_bits := ?r\<rparr>) = insert i (elt_set ?e)"
        using elt_set_update [OF len p(2), of "?bits ! ?w OR ?v" True] by (auto simp: bit_simps)
      then have "elt_ok (?e\<lparr>e_bits := ?r\<rparr>)"
        using elt_set_empty [of "?e\<lparr>e_bits := ?r\<rparr>"] not_zerop_ok [of "?e\<lparr>e_bits := ?r\<rparr>"] len by auto
      then have "bitmap_wf (set_elt_bits h' p ?r)" "bitmap_set (set_elt_bits h' p ?r) = insert i (bitmap_set h)"
        using set_elt_bits_wf [OF r(2) p(1)] e same elt_subset [OF p(1)] by auto
      then show ?thesis using r Some res False by (simp add: bitmap_set_bit_def Let_def)
    qed
  qed
qed

lemma bitmap_clear_bit_spec:
  assumes "bitmap_wf h"
  shows "\<exists>h'. bitmap_clear_bit h i = Inr (h', i \<in> bitmap_set h) \<and> bitmap_wf h' \<and> bitmap_set h' = bitmap_set h - {i}"
proof -
  let ?w = "i div 64 mod 2" and ?v = "push_bit (i mod 64) 1 :: hwi"
  obtain h' r where r: "bitmap_find_bit h i = Inr (h', r)" "bitmap_wf h'" "bm_elts h' = bm_elts h"
      "case r of None \<Rightarrow> (\<forall>e \<in> set (bm_elts h). e_indx e \<noteq> i div 128)
       | Some p \<Rightarrow> p < length (bm_elts h) \<and> e_indx (bm_elts h ! p) = i div 128"
    using bitmap_find_bit_spec [OF assms] by blast
  have same: "bitmap_set h' = bitmap_set h" using r(3) by (simp add: bitmap_set_def)
  show ?thesis
  proof (cases r)
    case None
    then have "i \<notin> bitmap_set h" using r(4) not_mem_elts_set [of "bm_elts h" i] by (simp add: bitmap_set_def)
    with r None same show ?thesis by (simp add: bitmap_clear_bit_def)
  next
    case (Some p)
    then have p: "p < length (bm_elts h')" "e_indx (bm_elts h' ! p) = i div 128" using r by auto
    let ?bits = "e_bits (bm_elts h' ! p)" and ?e = "bm_elts h' ! p"
    have mem: "i \<in> bitmap_set h \<longleftrightarrow> bit (?bits ! ?w) (i mod 64)" using mem_bitmap_set_at [OF r(2) p] same by simp
    have res: "(?bits ! ?w AND ?v \<noteq> 0) \<longleftrightarrow> i \<in> bitmap_set h" unfolding word_test mem by simp
    have ok: "elt_ok ?e" "elts_ok (bm_elts h')" using elt_ok_nth [of "bm_elts h'" p] r(2) p by (simp_all add: bitmap_wf_def)
    then have len: "length ?bits = 2" by (simp add: elt_ok_def)
    show ?thesis
    proof (cases "i \<in> bitmap_set h")
      case False
      moreover have "\<not> bitmap_element_zerop ?e" using not_zerop_ok [OF len] ok by simp
      ultimately show ?thesis using r Some res same by (simp add: bitmap_clear_bit_def Let_def)
    next
      case True
      let ?r = "?bits[?w := ?bits ! ?w AND NOT ?v]"
      let ?e' = "?e\<lparr>e_bits := ?r\<rparr>" and ?s = "set_elt_bits h' p ?r"
      have e: "elt_set ?e' = elt_set ?e - {i}"
        using elt_set_update [OF len p(2), of "?bits ! ?w AND NOT ?v" False] by (auto simp: bit_simps)
      have sp: "bm_elts ?s ! p = ?e'" using p(1) by (simp add: set_elt_bits_def)
      have step: "bitmap_clear_bit h i = Inr (if bitmap_element_zerop ?e' then bitmap_element_free ?s p else ?s, True)"
        using r(1) Some res True sp by (simp add: bitmap_clear_bit_def Let_def)
      have only: "elts_set (take p (bm_elts h') @ drop (Suc p) (bm_elts h')) = bitmap_set h - elt_set ?e"
        using elts_set_split [OF ok(2) p(1)] same by (simp add: bitmap_set_def)
      show ?thesis
      proof (cases "bitmap_element_zerop ?e'")
        case zero: True
        have "cur_ok ?s" using r(2) p(1)
          by (auto simp: bitmap_wf_def cur_ok_def set_elt_bits_def nth_list_update split: current_elt.splits)
        then have "cur_ok (bitmap_element_free ?s p)"
            "bm_elts (bitmap_element_free ?s p) = take p (bm_elts h') @ drop (Suc p) (bm_elts h')"
          using element_free_spec [of ?s p] p(1) by (auto simp: set_elt_bits_def)
        moreover have "elt_set ?e \<subseteq> {i}" using elt_set_empty [OF _ zero] len e by auto
        moreover have "i \<in> elt_set ?e" using True mem p(2) by (simp add: elt_set_def)
        ultimately show ?thesis using step zero True only elts_ok_remove [OF ok(2) p(1)]
          by (auto simp: bitmap_wf_def bitmap_set_def)
      next
        case nonzero: False
        then have "elt_ok ?e'" using not_zerop_ok [of ?e'] len by simp
        then have "bitmap_wf ?s" "bitmap_set ?s = bitmap_set h - {i}"
          using set_elt_bits_wf [OF r(2) p(1)] e same elt_subset [OF p(1)] True mem p(2) elts_set_split [OF ok(2) p(1)]
          by (auto simp: elt_set_def)
        then show ?thesis using step nonzero True by simp
      qed
    qed
  qed
qed


interpretation bm: bit_set bitmap_wf "\<lambda>_. 2 ^ 32" bitmap_set bitmap_bit_p
    "\<lambda>h i. map_sum id fst (bitmap_set_bit h i)" "\<lambda>h i. map_sum id fst (bitmap_clear_bit h i)"
proof
  fix b i assume "bitmap_wf b"
  then show "\<exists>b'. bitmap_bit_p b i = Inr (b', i \<in> bitmap_set b) \<and> bitmap_wf b' \<and> (2 :: nat) ^ 32 = 2 ^ 32 \<and> bitmap_set b' = bitmap_set b"
    using bitmap_bit_p_spec by simp
  show "\<exists>b'. map_sum id fst (bitmap_set_bit b i) = Inr b' \<and> bitmap_wf b' \<and> (2 :: nat) ^ 32 = 2 ^ 32 \<and> bitmap_set b' = insert i (bitmap_set b)"
    using bitmap_set_bit_spec [OF \<open>bitmap_wf b\<close>, of i] by auto
  show "\<exists>b'. map_sum id fst (bitmap_clear_bit b i) = Inr b' \<and> bitmap_wf b' \<and> (2 :: nat) ^ 32 = 2 ^ 32 \<and> bitmap_set b' = bitmap_set b - {i}"
    using bitmap_clear_bit_spec [OF \<open>bitmap_wf b\<close>, of i] by auto
qed

text \<open>
  C12: Starting from a well-formed bitmap, any sequence of \<open>bitmap_set_bit\<close> and \<open>bitmap_clear_bit\<close>
  succeeds, keeps the invariant of the element list and of the search cache, and does to the
  bitmap's set what it does to a mathematical set; \<open>bitmap_bit_p\<close> then answers with the last
  update of the bit, and the next update reports whether it changes the bit.
\<close>

theorem bitmap_updates_refine:
  assumes "bitmap_wf h" "\<forall>p \<in> set ps. op_index p < 2 ^ 32" "i < 2 ^ 32"
  shows "\<exists>h'. run_ops (\<lambda>h i. map_sum id fst (bitmap_set_bit h i)) (\<lambda>h i. map_sum id fst (bitmap_clear_bit h i)) h ps = Inr h'
           \<and> bitmap_wf h' \<and> bitmap_set h' = foldl apply_op (bitmap_set h) ps
           \<and> map_sum id snd (bitmap_bit_p h' i) =
               Inr (case filter (\<lambda>p. op_index p = i) (rev ps) of [] \<Rightarrow> i \<in> bitmap_set h | p # _ \<Rightarrow> p = Set_Bit i)
           \<and> map_sum id snd (bitmap_set_bit h' i) = Inr (i \<notin> bitmap_set h')
           \<and> map_sum id snd (bitmap_clear_bit h' i) = Inr (i \<in> bitmap_set h')"
proof -
  obtain h' where h': "run_ops (\<lambda>h i. map_sum id fst (bitmap_set_bit h i)) (\<lambda>h i. map_sum id fst (bitmap_clear_bit h i)) h ps = Inr h'"
      "bitmap_wf h'" "bitmap_set h' = foldl apply_op (bitmap_set h) ps"
    using bm.run_ops_refine [OF assms(1,2)] by blast
  have m: "i \<in> bitmap_set h' \<longleftrightarrow> (case filter (\<lambda>p. op_index p = i) (rev ps) of [] \<Rightarrow> i \<in> bitmap_set h | p # _ \<Rightarrow> p = Set_Bit i)"
    unfolding h'(3) by (rule fold_ops_member)
  have t: "map_sum id snd (bitmap_bit_p h' i) = Inr (i \<in> bitmap_set h')"
      "map_sum id snd (bitmap_set_bit h' i) = Inr (i \<notin> bitmap_set h')"
      "map_sum id snd (bitmap_clear_bit h' i) = Inr (i \<in> bitmap_set h')"
    using bitmap_bit_p_spec [OF h'(2), of i] bitmap_set_bit_spec [OF h'(2), of i] bitmap_clear_bit_spec [OF h'(2), of i] by auto
  show ?thesis by (intro exI [of _ h'] conjI h' t(1) [unfolded m] t(2,3))
qed

lemma bitmap_initialize_wf: "bitmap_wf (bitmap_initialize g)" "bitmap_set (bitmap_initialize g) = {}"
  by (simp_all add: bitmap_initialize_def bitmap_wf_def cur_ok_def bitmap_set_def)

theorem bitmap_updates_refine_witness:
  "\<exists>h'. run_ops (\<lambda>h i. map_sum id fst (bitmap_set_bit h i)) (\<lambda>h i. map_sum id fst (bitmap_clear_bit h i))
          (bitmap_initialize 7) [Set_Bit 300, Set_Bit 5, Clear_Bit 300] = Inr h' \<and> bitmap_wf h' \<and> bitmap_set h' = {5}"
proof -
  have "foldl apply_op (bitmap_set (bitmap_initialize 7)) [Set_Bit 300, Set_Bit 5, Clear_Bit 300] = {5}"
    by (auto simp: bitmap_initialize_wf)
  with bitmap_updates_refine [of "bitmap_initialize 7" "[Set_Bit 300, Set_Bit 5, Clear_Bit 300]" 5]
  show ?thesis by (auto simp: bitmap_initialize_wf)
qed

section \<open>Merging element lists\<close>

text \<open>
  The set operations on the element lists alone: what the loops compute, without the destination
  they reuse.
\<close>

lemma ior_words_nonzero: "ior_words r \<noteq> 0 \<longleftrightarrow> (\<exists>w \<in> set r. w \<noteq> 0)"
proof -
  have "fold (OR) r x = 0 \<longleftrightarrow> x = 0 \<and> (\<forall>w \<in> set r. w = 0)" for x :: hwi
    by (induction r arbitrary: x) (auto simp: or_eq_0_iff_word)
  then show ?thesis by (auto simp: ior_words_def)
qed

abbreviation mk_elt :: "nat \<Rightarrow> hwi list \<Rightarrow> bitmap_element" where
  "mk_elt ix r \<equiv> \<lparr>e_indx = ix, e_bits = r\<rparr>"

definition nonempty_elt :: "nat \<Rightarrow> hwi list \<Rightarrow> bitmap_element list" where
  "nonempty_elt ix r = (if ior_words r \<noteq> 0 then [mk_elt ix r] else [])"

fun and_elts :: "bitmap_element list \<Rightarrow> bitmap_element list \<Rightarrow> bitmap_element list" where
  "and_elts (a # as) (b # bs) =
     (if e_indx a < e_indx b then and_elts as (b # bs)
      else if e_indx b < e_indx a then and_elts (a # as) bs
      else nonempty_elt (e_indx a) (word_op (AND) a b) @ and_elts as bs)"
| "and_elts as bs = []"

fun xor_elts :: "bitmap_element list \<Rightarrow> bitmap_element list \<Rightarrow> bitmap_element list" where
  "xor_elts (a # as) (b # bs) =
     (if e_indx a = e_indx b then nonempty_elt (e_indx a) (word_op (XOR) a b) @ xor_elts as bs
      else if e_indx a < e_indx b then a # xor_elts as (b # bs)
      else b # xor_elts (a # as) bs)"
| "xor_elts as [] = as"
| "xor_elts [] bs = bs"

fun and_compl_elts :: "bitmap_element list \<Rightarrow> bitmap_element list \<Rightarrow> bitmap_element list" where
  "and_compl_elts (a # as) (b # bs) =
     (if e_indx b < e_indx a then and_compl_elts (a # as) bs
      else if e_indx a < e_indx b then a # and_compl_elts as (b # bs)
      else nonempty_elt (e_indx a) (word_op and_not a b) @ and_compl_elts as bs)"
| "and_compl_elts as [] = as"
| "and_compl_elts [] bs = []"

fun ior_elts :: "bitmap_element list \<Rightarrow> bitmap_element list \<Rightarrow> bitmap_element list" where
  "ior_elts (a # as) (b # bs) =
     (if e_indx a = e_indx b then mk_elt (e_indx a) (word_op (OR) a b) # ior_elts as bs
      else if e_indx a < e_indx b then a # ior_elts as (b # bs)
      else b # ior_elts (a # as) bs)"
| "ior_elts as [] = as"
| "ior_elts [] bs = bs"

lemma word_op_bit:
  assumes "length (e_bits a) = 2" "length (e_bits b) = 2"
  shows "length (word_op f a b) = 2" "word_op f a b ! (j mod 2) = f (e_bits a ! (j mod 2)) (e_bits b ! (j mod 2))"
  using assms by (simp_all add: word_op_def)

lemma elt_set_nonempty:
  "length r = 2 \<Longrightarrow> elts_set (nonempty_elt ix r) = elt_set (mk_elt ix r)"
  using elt_set_empty [of "mk_elt ix r"] not_zerop_ok [of "mk_elt ix r"]
  by (auto simp: nonempty_elt_def ior_words_nonzero elt_ok_def)

lemma elts_ok_nonempty: "length r = 2 \<Longrightarrow> elts_ok (nonempty_elt ix r)"
  by (simp add: nonempty_elt_def ior_words_nonzero elt_ok_def)

lemma elt_set_word_op:
  assumes "elt_ok a" "elt_ok b" "e_indx a = e_indx b"
  shows "elt_set (mk_elt (e_indx a) (word_op (AND) a b)) = elt_set a \<inter> elt_set b"
    and "elt_set (mk_elt (e_indx a) (word_op (OR) a b)) = elt_set a \<union> elt_set b"
    and "elt_set (mk_elt (e_indx a) (word_op (XOR) a b)) = (elt_set a - elt_set b) \<union> (elt_set b - elt_set a)"
    and "elt_set (mk_elt (e_indx a) (word_op and_not a b)) = elt_set a - elt_set b"
proof -
  have l: "length (e_bits a) = 2" "length (e_bits b) = 2" using assms by (simp_all add: elt_ok_def)
  show "elt_set (mk_elt (e_indx a) (word_op (AND) a b)) = elt_set a \<inter> elt_set b"
    and "elt_set (mk_elt (e_indx a) (word_op (OR) a b)) = elt_set a \<union> elt_set b"
    and "elt_set (mk_elt (e_indx a) (word_op (XOR) a b)) = (elt_set a - elt_set b) \<union> (elt_set b - elt_set a)"
    and "elt_set (mk_elt (e_indx a) (word_op and_not a b)) = elt_set a - elt_set b"
    using assms(3) by (auto simp: elt_set_def word_op_bit [OF l] bit_simps)
qed


text \<open>Elements with different indices have disjoint sets.\<close>

lemma elt_disjoint: "e_indx e \<noteq> e_indx f \<Longrightarrow> elt_set e \<inter> elt_set f = {}"
  by (auto simp: elt_set_def)

lemma elt_elts_disjoint: "\<forall>f \<in> set fs. e_indx e \<noteq> e_indx f \<Longrightarrow> elt_set e \<inter> elts_set fs = {}"
  using elt_disjoint by (fastforce simp: elts_set_def)

lemma elt_ok_set: "elt_ok e \<Longrightarrow> elt_set e \<noteq> {}"
proof -
  assume "elt_ok e"
  then obtain j where j: "j < 2" "e_bits e ! j \<noteq> 0" by (auto simp: elt_ok_def in_set_conv_nth)
  obtain k where k: "bit (e_bits e ! j) k" using j(2) by (metis bit_eq_iff bit_0_eq bot_apply bot_bool_def)
  then have lt: "k < 64" using bit_imp_le_length by fastforce
  let ?i = "128 * e_indx e + 64 * j + k"
  have i: "?i = 64 * (2 * e_indx e + j) + k" by simp
  have "?i div 128 = e_indx e" using j(1) lt by simp
  moreover have "?i mod 64 = k" unfolding i using lt by (metis mod_mult_self4 mod_less)
  moreover have "?i div 64 mod 2 = j"
  proof -
    have "?i div 64 = 2 * e_indx e + j" using lt by simp
    then show ?thesis using j(1) by simp
  qed
  ultimately have "?i \<in> elt_set e" using k by (simp add: elt_set_def)
  then show "elt_set e \<noteq> {}" by blast
qed

lemma nonempty_indx: "e \<in> set (nonempty_elt ix r) \<Longrightarrow> e_indx e = ix"
  by (auto simp: nonempty_elt_def split: if_splits)

lemma elts_ok_nonempty_append:
  "length r = 2 \<Longrightarrow> elts_ok es \<Longrightarrow> \<forall>e \<in> set es. ix < e_indx e \<Longrightarrow> elts_ok (nonempty_elt ix r @ es)"
  by (auto simp: elts_ok_append elts_ok_nonempty dest: nonempty_indx)

lemma and_elts_spec:
  "elts_ok as \<Longrightarrow> elts_ok bs \<Longrightarrow>
   elts_ok (and_elts as bs) \<and> elts_set (and_elts as bs) = elts_set as \<inter> elts_set bs
   \<and> e_indx ` set (and_elts as bs) \<subseteq> e_indx ` set as"
proof (induction as bs rule: and_elts.induct)
  case (1 a as b bs)
  consider "e_indx a < e_indx b" | "e_indx b < e_indx a" | "e_indx a = e_indx b" by linarith
  then show ?case
  proof cases
    case 1
    have "elt_set a \<inter> elts_set (b # bs) = {}" using 1 "1.prems" by (intro elt_elts_disjoint) auto
    then show ?thesis using 1 "1.IH"(1) "1.prems" by auto
  next
    case 2
    have "elt_set b \<inter> elts_set (a # as) = {}" using 2 "1.prems" by (intro elt_elts_disjoint) auto
    then show ?thesis using 2 "1.IH"(2) "1.prems" by auto
  next
    case 3
    let ?r = "word_op (AND) a b"
    have l: "length ?r = 2" using "1.prems" by (auto simp: elt_ok_def word_op_bit)
    have ih: "elts_ok (and_elts as bs)" "elts_set (and_elts as bs) = elts_set as \<inter> elts_set bs"
        "e_indx ` set (and_elts as bs) \<subseteq> e_indx ` set as"
      using 3 "1.IH"(3) "1.prems" by auto
    have gt: "\<forall>e \<in> set (and_elts as bs). e_indx a < e_indx e" using ih(3) "1.prems"(1) by fastforce
    have set: "elts_set (nonempty_elt (e_indx a) ?r) = elt_set a \<inter> elt_set b"
      using elt_set_nonempty [OF l] elt_set_word_op(1) [of a b] 3 "1.prems" by auto
    have "elt_set a \<inter> elts_set bs = {}" "elt_set b \<inter> elts_set as = {}"
      using 3 "1.prems" by (auto intro!: elt_elts_disjoint)
    then have "elts_set (and_elts (a # as) (b # bs)) = elts_set (a # as) \<inter> elts_set (b # bs)"
      using 3 set ih(2) by auto
    moreover have "e_indx ` set (and_elts (a # as) (b # bs)) \<subseteq> e_indx ` set (a # as)"
      using 3 ih(3) by (auto dest: nonempty_indx)
    moreover have "elts_ok (and_elts (a # as) (b # bs))" using 3 elts_ok_nonempty_append [OF l ih(1) gt] by simp
    ultimately show ?thesis by blast
  qed
qed auto

lemma and_compl_elts_spec:
  "elts_ok as \<Longrightarrow> elts_ok bs \<Longrightarrow>
   elts_ok (and_compl_elts as bs) \<and> elts_set (and_compl_elts as bs) = elts_set as - elts_set bs
   \<and> e_indx ` set (and_compl_elts as bs) \<subseteq> e_indx ` set as"
proof (induction as bs rule: and_compl_elts.induct)
  case (1 a as b bs)
  consider "e_indx a < e_indx b" | "e_indx b < e_indx a" | "e_indx a = e_indx b" by linarith
  then show ?case
  proof cases
    case 1
    have d: "elt_set a \<inter> elts_set (b # bs) = {}" using 1 "1.prems" by (intro elt_elts_disjoint) auto
    have ih: "elts_ok (and_compl_elts as (b # bs))" "elts_set (and_compl_elts as (b # bs)) = elts_set as - elts_set (b # bs)"
        "e_indx ` set (and_compl_elts as (b # bs)) \<subseteq> e_indx ` set as"
      using 1 "1.IH"(2) "1.prems" by auto
    have "\<forall>e \<in> set (and_compl_elts as (b # bs)). e_indx a < e_indx e" using ih(3) "1.prems"(1) by fastforce
    then show ?thesis using 1 ih d "1.prems" by auto
  next
    case 2
    have "elt_set b \<inter> elts_set (a # as) = {}" using 2 "1.prems" by (intro elt_elts_disjoint) auto
    then show ?thesis using 2 "1.IH"(1) "1.prems" by auto
  next
    case 3
    let ?r = "word_op and_not a b"
    have l: "length ?r = 2" using "1.prems" by (auto simp: elt_ok_def word_op_bit)
    have ih: "elts_ok (and_compl_elts as bs)" "elts_set (and_compl_elts as bs) = elts_set as - elts_set bs"
        "e_indx ` set (and_compl_elts as bs) \<subseteq> e_indx ` set as"
      using 3 "1.IH"(3) "1.prems" by auto
    have gt: "\<forall>e \<in> set (and_compl_elts as bs). e_indx a < e_indx e" using ih(3) "1.prems"(1) by fastforce
    have set: "elts_set (nonempty_elt (e_indx a) ?r) = elt_set a - elt_set b"
      using elt_set_nonempty [OF l] elt_set_word_op(4) [of a b] 3 "1.prems" by auto
    have "elt_set a \<inter> elts_set bs = {}" "elt_set b \<inter> elts_set as = {}"
      using 3 "1.prems" by (auto intro!: elt_elts_disjoint)
    then have "elts_set (and_compl_elts (a # as) (b # bs)) = elts_set (a # as) - elts_set (b # bs)"
      using 3 set ih(2) by auto
    moreover have "e_indx ` set (and_compl_elts (a # as) (b # bs)) \<subseteq> e_indx ` set (a # as)"
      using 3 ih(3) by (auto dest: nonempty_indx)
    moreover have "elts_ok (and_compl_elts (a # as) (b # bs))" using 3 elts_ok_nonempty_append [OF l ih(1) gt] by simp
    ultimately show ?thesis by blast
  qed
qed auto

text \<open>The two merges that keep elements of both lists, with the word operation as a parameter.\<close>

lemma xor_elts_spec:
  "elts_ok as \<Longrightarrow> elts_ok bs \<Longrightarrow>
   elts_ok (xor_elts as bs) \<and> elts_set (xor_elts as bs) = (elts_set as - elts_set bs) \<union> (elts_set bs - elts_set as)
   \<and> e_indx ` set (xor_elts as bs) \<subseteq> e_indx ` set (as @ bs)"
proof (induction as bs rule: xor_elts.induct)
  case (1 a as b bs)
  consider "e_indx a < e_indx b" | "e_indx b < e_indx a" | "e_indx a = e_indx b" by linarith
  then show ?case
  proof cases
    case 1
    have d: "elt_set a \<inter> elts_set (b # bs) = {}" using 1 "1.prems" by (intro elt_elts_disjoint) auto
    have ih: "elts_ok (xor_elts as (b # bs))"
        "elts_set (xor_elts as (b # bs)) = (elts_set as - elts_set (b # bs)) \<union> (elts_set (b # bs) - elts_set as)"
        "e_indx ` set (xor_elts as (b # bs)) \<subseteq> e_indx ` set (as @ b # bs)"
      using 1 "1.IH"(2) "1.prems" by auto
    have "elt_set a \<inter> elts_set as = {}" using "1.prems" by (intro elt_elts_disjoint) auto
    moreover have "\<forall>e \<in> set (xor_elts as (b # bs)). e_indx a < e_indx e" using ih(3) 1 "1.prems" by fastforce
    ultimately show ?thesis using 1 ih d "1.prems" by auto
  next
    case 2
    have d: "elt_set b \<inter> elts_set (a # as) = {}" using 2 "1.prems" by (intro elt_elts_disjoint) auto
    have ih: "elts_ok (xor_elts (a # as) bs)"
        "elts_set (xor_elts (a # as) bs) = (elts_set (a # as) - elts_set bs) \<union> (elts_set bs - elts_set (a # as))"
        "e_indx ` set (xor_elts (a # as) bs) \<subseteq> e_indx ` set ((a # as) @ bs)"
      using 2 "1.IH"(3) "1.prems" by auto
    have "elt_set b \<inter> elts_set bs = {}" using "1.prems" by (intro elt_elts_disjoint) auto
    moreover have "\<forall>e \<in> set (xor_elts (a # as) bs). e_indx b < e_indx e" using ih(3) 2 "1.prems" by fastforce
    ultimately show ?thesis using 2 ih d "1.prems" by auto
  next
    case 3
    let ?r = "word_op (XOR) a b"
    have l: "length ?r = 2" using "1.prems" by (auto simp: elt_ok_def word_op_bit)
    have ih: "elts_ok (xor_elts as bs)" "elts_set (xor_elts as bs) = (elts_set as - elts_set bs) \<union> (elts_set bs - elts_set as)"
        "e_indx ` set (xor_elts as bs) \<subseteq> e_indx ` set (as @ bs)"
      using 3 "1.IH"(1) "1.prems" by auto
    have gt: "\<forall>e \<in> set (xor_elts as bs). e_indx a < e_indx e" using ih(3) 3 "1.prems" by fastforce
    have set: "elts_set (nonempty_elt (e_indx a) ?r) = (elt_set a - elt_set b) \<union> (elt_set b - elt_set a)"
      using elt_set_nonempty [OF l] elt_set_word_op(3) [of a b] 3 "1.prems" by auto
    have "elt_set a \<inter> elts_set bs = {}" "elt_set b \<inter> elts_set as = {}" "elt_set a \<inter> elts_set as = {}" "elt_set b \<inter> elts_set bs = {}"
      using 3 "1.prems" by (auto intro!: elt_elts_disjoint)
    then have "elts_set (xor_elts (a # as) (b # bs)) = (elts_set (a # as) - elts_set (b # bs)) \<union> (elts_set (b # bs) - elts_set (a # as))"
      using 3 set ih(2) by auto
    moreover have "e_indx ` set (xor_elts (a # as) (b # bs)) \<subseteq> e_indx ` set ((a # as) @ b # bs)"
      using 3 ih(3) by (auto dest: nonempty_indx)
    moreover have "elts_ok (xor_elts (a # as) (b # bs))" using 3 elts_ok_nonempty_append [OF l ih(1) gt] by simp
    ultimately show ?thesis by blast
  qed
qed auto

lemma ior_elts_spec:
  "elts_ok as \<Longrightarrow> elts_ok bs \<Longrightarrow>
   elts_ok (ior_elts as bs) \<and> elts_set (ior_elts as bs) = elts_set as \<union> elts_set bs
   \<and> e_indx ` set (ior_elts as bs) \<subseteq> e_indx ` set (as @ bs)"
proof (induction as bs rule: ior_elts.induct)
  case (1 a as b bs)
  consider "e_indx a < e_indx b" | "e_indx b < e_indx a" | "e_indx a = e_indx b" by linarith
  then show ?case
  proof cases
    case 1
    have ih: "elts_ok (ior_elts as (b # bs))" "elts_set (ior_elts as (b # bs)) = elts_set as \<union> elts_set (b # bs)"
        "e_indx ` set (ior_elts as (b # bs)) \<subseteq> e_indx ` set (as @ b # bs)"
      using 1 "1.IH"(2) "1.prems" by auto
    have "\<forall>e \<in> set (ior_elts as (b # bs)). e_indx a < e_indx e" using ih(3) 1 "1.prems" by fastforce
    then show ?thesis using 1 ih "1.prems" by auto
  next
    case 2
    have ih: "elts_ok (ior_elts (a # as) bs)" "elts_set (ior_elts (a # as) bs) = elts_set (a # as) \<union> elts_set bs"
        "e_indx ` set (ior_elts (a # as) bs) \<subseteq> e_indx ` set ((a # as) @ bs)"
      using 2 "1.IH"(3) "1.prems" by auto
    have "\<forall>e \<in> set (ior_elts (a # as) bs). e_indx b < e_indx e" using ih(3) 2 "1.prems" by fastforce
    then show ?thesis using 2 ih "1.prems" by auto
  next
    case 3
    let ?e = "mk_elt (e_indx a) (word_op (OR) a b)"
    have ih: "elts_ok (ior_elts as bs)" "elts_set (ior_elts as bs) = elts_set as \<union> elts_set bs"
        "e_indx ` set (ior_elts as bs) \<subseteq> e_indx ` set (as @ bs)"
      using 3 "1.IH"(1) "1.prems" by auto
    have gt: "\<forall>e \<in> set (ior_elts as bs). e_indx a < e_indx e" using ih(3) 3 "1.prems" by fastforce
    have set: "elt_set ?e = elt_set a \<union> elt_set b" using elt_set_word_op(2) [of a b] 3 "1.prems" by auto
    have len: "length (e_bits ?e) = 2" using "1.prems" by (auto simp: elt_ok_def word_op_bit)
    have "elt_set a \<noteq> {}" using "1.prems" by (intro elt_ok_set) auto
    then have "elt_ok ?e" using elt_set_empty [of ?e] not_zerop_ok [of ?e] set len by auto
    then show ?thesis using 3 set ih gt by auto
  qed
qed auto


section \<open>Operations with a separate destination\<close>

text \<open>
  The loops write the merged list over the old elements of the destination. All they need of it is
  that \<open>current\<close> is not null while there are elements.
\<close>

definition live :: "bitmap_head \<Rightarrow> bool" where
  "live h \<longleftrightarrow> (bm_elts h \<noteq> [] \<longrightarrow> bm_current h \<noteq> Null)"

lemma wf_live: "bitmap_wf h \<Longrightarrow> live h"
  by (auto simp: bitmap_wf_def cur_ok_def live_def)

lemma insert_after_spec:
  assumes "live dst" "d \<le> length (bm_elts dst)"
  shows "\<exists>dst'. bitmap_elt_insert_after dst d ix = Inr dst' \<and> bm_elts dst' = insert_at d (bitmap_element_allocate ix) (bm_elts dst)
           \<and> bm_current dst' \<noteq> Null"
proof (cases "d = 0")
  case True
  then show ?thesis by (auto simp: bitmap_elt_insert_after_def Let_def insert_at_def split: current_elt.splits)
next
  case False
  then have "bm_current dst \<noteq> Null" using assms by (auto simp: live_def)
  with False show ?thesis by (auto simp: bitmap_elt_insert_after_def Let_def split: current_elt.splits)
qed

text \<open>Storing index and bits at position \<open>d\<close> extends the finished prefix by one element.\<close>

lemma take_set_elt:
  assumes "d < length (bm_elts h)" "e_indx (bm_elts h ! d) = ix"
  shows "take (Suc d) (bm_elts (set_elt_bits h d r)) = take d (bm_elts h) @ [mk_elt ix r]"
    and "take d (bm_elts (set_elt_bits h d r)) = take d (bm_elts h)"
  using assms by (simp_all add: set_elt_bits_def take_Suc_conv_app_nth)

lemma set_elt_simps [simp]:
  "bm_current (set_elt_bits h d r) = bm_current h" "bm_current (set_elt_indx h d ix) = bm_current h"
  "length (bm_elts (set_elt_indx h d ix)) = length (bm_elts h)"
  by (simp_all add: set_elt_bits_def set_elt_indx_def)

lemma new_slot:
  assumes "live dst" "d \<le> length (bm_elts dst)"
  shows "\<exists>dst'. bitmap_elt_insert_after dst d ix = Inr dst' \<and> live (set_elt_bits dst' d r) \<and> Suc d \<le> length (bm_elts dst')
           \<and> take d (bm_elts dst') = take d (bm_elts dst) \<and> e_indx (bm_elts dst' ! d) = ix
           \<and> take (Suc d) (bm_elts (set_elt_bits dst' d r)) = take d (bm_elts dst) @ [mk_elt ix r]
           \<and> drop (Suc d) (bm_elts (set_elt_bits dst' d r)) = drop d (bm_elts dst)"
proof -
  obtain dst' where i: "bitmap_elt_insert_after dst d ix = Inr dst'" "bm_current dst' \<noteq> Null"
      "bm_elts dst' = insert_at d (bitmap_element_allocate ix) (bm_elts dst)"
    using insert_after_spec [OF assms] by blast
  have p: "d < length (bm_elts dst')" "e_indx (bm_elts dst' ! d) = ix" "take d (bm_elts dst') = take d (bm_elts dst)"
      "drop (Suc d) (bm_elts dst') = drop d (bm_elts dst)"
    using i(3) assms(2) by (simp_all add: insert_at_def nth_append)
  show ?thesis
    using i(1,2) p take_set_elt [OF p(1,2), of r] by (auto simp: live_def set_elt_bits_def)
qed

lemma reused_slot:
  assumes "live dst" "d < length (bm_elts dst)"
  shows "live (set_elt_bits (set_elt_indx dst d ix) d r)"
    and "take (Suc d) (bm_elts (set_elt_bits (set_elt_indx dst d ix) d r)) = take d (bm_elts dst) @ [mk_elt ix r]"
    and "take d (bm_elts (set_elt_bits (set_elt_indx dst d ix) d r)) = take d (bm_elts dst)"
    and "drop (Suc d) (bm_elts (set_elt_bits (set_elt_indx dst d ix) d r)) = drop (Suc d) (bm_elts dst)"
proof -
  have p: "d < length (bm_elts (set_elt_indx dst d ix))" "e_indx (bm_elts (set_elt_indx dst d ix) ! d) = ix"
      "take d (bm_elts (set_elt_indx dst d ix)) = take d (bm_elts dst)"
    using assms(2) by (simp_all add: set_elt_indx_def)
  then show "take (Suc d) (bm_elts (set_elt_bits (set_elt_indx dst d ix) d r)) = take d (bm_elts dst) @ [mk_elt ix r]"
    and "take d (bm_elts (set_elt_bits (set_elt_indx dst d ix) d r)) = take d (bm_elts dst)"
    using take_set_elt [OF p(1,2), of r] by simp_all
  show "live (set_elt_bits (set_elt_indx dst d ix) d r)"
    using assms by (simp add: live_def set_elt_bits_def set_elt_indx_def)
  show "drop (Suc d) (bm_elts (set_elt_bits (set_elt_indx dst d ix) d r)) = drop (Suc d) (bm_elts dst)"
    by (simp add: set_elt_bits_def set_elt_indx_def)
qed

lemma dst_slot_spec:
  assumes "live dst" "d \<le> length (bm_elts dst)"
  shows "\<exists>dst'. dst_slot dst d ix = Inr dst' \<and> live (set_elt_bits dst' d r) \<and> Suc d \<le> length (bm_elts dst')
           \<and> take d (bm_elts (set_elt_bits dst' d r)) = take d (bm_elts dst)
           \<and> take (Suc d) (bm_elts (set_elt_bits dst' d r)) = take d (bm_elts dst) @ [mk_elt ix r]"
proof (cases "d < length (bm_elts dst)")
  case True
  then show ?thesis using reused_slot [OF assms(1) True, of ix r] by (simp add: dst_slot_def)
next
  case False
  obtain dst' where "bitmap_elt_insert_after dst d ix = Inr dst'" "live (set_elt_bits dst' d r)" "Suc d \<le> length (bm_elts dst')"
      "take d (bm_elts dst') = take d (bm_elts dst)"
      "take (Suc d) (bm_elts (set_elt_bits dst' d r)) = take d (bm_elts dst) @ [mk_elt ix r]"
    using new_slot [OF assms, of ix r] by blast
  moreover from this have "take d (bm_elts (set_elt_bits dst' d r)) = take d (bm_elts dst)" by (simp add: set_elt_bits_def)
  ultimately show ?thesis using False by (simp add: dst_slot_def)
qed

lemma and_loop_spec:
  "live dst \<Longrightarrow> d \<le> length (bm_elts dst) \<Longrightarrow>
   \<exists>dst' d'. and_loop dst d as bs = Inr (dst', d') \<and> live dst' \<and> d' \<le> length (bm_elts dst')
     \<and> take d' (bm_elts dst') = take d (bm_elts dst) @ and_elts as bs"
proof (induction as bs arbitrary: dst d rule: and_elts.induct)
  case (1 a as b bs)
  consider "e_indx a < e_indx b" | "e_indx b < e_indx a" | "e_indx a = e_indx b" by linarith
  then show ?case
  proof cases
    case 3
    let ?r = "word_op (AND) a b"
    obtain dst1 where d1: "dst_slot dst d (e_indx a) = Inr dst1" "live (set_elt_bits dst1 d ?r)" "Suc d \<le> length (bm_elts dst1)"
        "take d (bm_elts (set_elt_bits dst1 d ?r)) = take d (bm_elts dst)"
        "take (Suc d) (bm_elts (set_elt_bits dst1 d ?r)) = take d (bm_elts dst) @ [mk_elt (e_indx a) ?r]"
      using dst_slot_spec [OF "1.prems", of "e_indx a" ?r] by blast
    then show ?thesis
      using 3 "1.IH"(3) [of "set_elt_bits dst1 d ?r" "if ior_words ?r \<noteq> 0 then Suc d else d"]
      by (auto simp: nonempty_elt_def)
  qed (use 1 in auto)
qed auto

lemma merge_Nil [simp]: "xor_elts [] bs = bs" "and_compl_elts [] bs = []" "ior_elts [] bs = bs"
  by (cases bs; simp)+

lemma xor_loop_spec:
  "live dst \<Longrightarrow> d \<le> length (bm_elts dst) \<Longrightarrow>
   \<exists>dst' d'. xor_loop dst d as bs = Inr (dst', d') \<and> live dst' \<and> d' \<le> length (bm_elts dst')
     \<and> take d' (bm_elts dst') = take d (bm_elts dst) @ xor_elts as bs"
proof (induction dst d as bs rule: xor_loop.induct)
  case (1 dst d as bs)
  have slot: "\<exists>dst'. dst_slot dst d ix = Inr dst' \<and> live (set_elt_bits dst' d r) \<and> Suc d \<le> length (bm_elts dst')
           \<and> take d (bm_elts (set_elt_bits dst' d r)) = take d (bm_elts dst)
           \<and> take (Suc d) (bm_elts (set_elt_bits dst' d r)) = take d (bm_elts dst) @ [mk_elt ix r]" for ix r
    by (rule dst_slot_spec [OF "1.prems"])
  consider "as = []" "bs = []" | a as' b bs' where "as = a # as'" "bs = b # bs'" "e_indx a = e_indx b"
    | a as' where "as = a # as'" "bs = [] \<or> e_indx a < e_indx (hd bs)"
    | b bs' where "bs = b # bs'" "as = [] \<or> e_indx b < e_indx (hd as)"
    by (cases as; cases bs) (auto, meson linorder_neqE_nat)
  then show ?case
  proof cases
    case 1
    then show ?thesis using "1.prems" by (simp add: xor_loop.simps)
  next
    case 2
    let ?r = "word_op (XOR) a b"
    obtain dst1 where d1: "dst_slot dst d (e_indx a) = Inr dst1" "live (set_elt_bits dst1 d ?r)" "Suc d \<le> length (bm_elts dst1)"
        "take d (bm_elts (set_elt_bits dst1 d ?r)) = take d (bm_elts dst)"
        "take (Suc d) (bm_elts (set_elt_bits dst1 d ?r)) = take d (bm_elts dst) @ [mk_elt (e_indx a) ?r]"
      using slot by blast
    then show ?thesis
      using 2 "1.IH"(1) [OF _ _ _ refl, of dst1] by (subst xor_loop.simps) (auto simp: nonempty_elt_def split: if_splits)
  next
    case 3
    obtain dst1 where d1: "dst_slot dst d (e_indx a) = Inr dst1" "live (set_elt_bits dst1 d (e_bits a))" "Suc d \<le> length (bm_elts dst1)"
        "take (Suc d) (bm_elts (set_elt_bits dst1 d (e_bits a))) = take d (bm_elts dst) @ [a]"
      using slot [of "e_indx a" "e_bits a"] by auto
    then show ?thesis
      using 3 "1.IH"(2) [OF _ _ refl refl, of dst1] by (subst xor_loop.simps) (cases bs; auto)
  next
    case 4
    obtain dst1 where d1: "dst_slot dst d (e_indx b) = Inr dst1" "live (set_elt_bits dst1 d (e_bits b))" "Suc d \<le> length (bm_elts dst1)"
        "take (Suc d) (bm_elts (set_elt_bits dst1 d (e_bits b))) = take d (bm_elts dst) @ [b]"
      using slot [of "e_indx b" "e_bits b"] by auto
    then show ?thesis
      using 4 "1.IH"(3) [OF _ _ refl refl, of dst1] by (subst xor_loop.simps) (cases as; auto)
  qed
qed


text \<open>The common ending: the cache is set to the first element and the rest is freed.\<close>

lemma finish_first:
  assumes "elts_ok (take d (bm_elts dst))" "d \<le> length (bm_elts dst)"
  shows "\<exists>h h1. bitmap_elt_clear_from (current_to_first dst) d = Inr h1 \<and> check_and_sync h1 = Inr h
           \<and> bitmap_wf h \<and> bm_elts h = take d (bm_elts dst)"
proof -
  let ?es = "bm_elts dst"
  consider "d = length ?es" | "d = 0" "?es \<noteq> []" | "0 < d" "d < length ?es" using assms(2) by fastforce
  then show ?thesis
  proof cases
    case 1
    then show ?thesis using assms
      by (auto simp: bitmap_elt_clear_from_def current_to_first_def check_and_sync_def current_indx_def bitmap_wf_def cur_ok_def Let_def)
  next
    case 2
    then show ?thesis
      by (auto simp: bitmap_elt_clear_from_def current_to_first_def check_and_sync_def current_indx_def bitmap_wf_def cur_ok_def Let_def)
  next
    case 3
    have "e_indx (?es ! 0) \<le> e_indx (?es ! (d - 1))"
      using indx_less [OF assms(1), of 0 "d - 1"] 3 by (cases "d = 1") auto
    then show ?thesis using 3 assms
      by (auto simp: bitmap_elt_clear_from_def current_to_first_def check_and_sync_def current_indx_def bitmap_wf_def cur_ok_def Let_def)
  qed
qed

lemma copy_loop_spec:
  "bm_elts to \<noteq> [] \<Longrightarrow> bm_elts (copy_loop to es) = bm_elts to @ es \<and> bm_current (copy_loop to es) = bm_current to
     \<and> bm_indx (copy_loop to es) = bm_indx to"
  by (induction es arbitrary: to) auto

lemma bitmap_clear_spec:
  assumes "bitmap_wf h"
  shows "\<exists>h'. bitmap_clear h = Inr h' \<and> bm_elts h' = [] \<and> bm_current h' = Null"
  using assms by (auto simp: bitmap_clear_def bitmap_elt_clear_from_def bitmap_wf_def cur_ok_def split: current_elt.splits)

lemma bitmap_copy_spec:
  assumes "bitmap_wf to" "bitmap_wf from"
  shows "\<exists>h. bitmap_copy to from = Inr h \<and> bitmap_wf h \<and> bm_elts h = bm_elts from"
proof -
  obtain t where t: "bitmap_clear to = Inr t" "bm_elts t = []" "bm_current t = Null" using bitmap_clear_spec [OF assms(1)] by blast
  show ?thesis
  proof (cases "bm_elts from")
    case Nil
    then show ?thesis using t by (simp add: bitmap_copy_def bitmap_wf_def cur_ok_def)
  next
    case (Cons e es)
    then show ?thesis
      using t assms(2) copy_loop_spec [of "\<lparr>bm_elts = [e], bm_current = At 0, bm_indx = e_indx e\<rparr>" es]
      by (simp add: bitmap_copy_def bitmap_wf_def cur_ok_def)
  qed
qed

text \<open>
  C24: \<open>bitmap_and\<close> and \<open>bitmap_xor\<close> store the intersection and the symmetric difference of two
  bitmaps in a third one, whatever that held: the result is well formed, with a valid cache. The
  same holds when the two operands are one bitmap; a destination that is also an operand is
  rejected by an assertion.
\<close>

theorem bitmap_and_xor:
  assumes "bitmap_wf dst" "bitmap_wf a" "bitmap_wf b"
  shows "(\<exists>h. bitmap_and False False dst a b = Inr h \<and> bitmap_wf h \<and> bitmap_set h = bitmap_set a \<inter> bitmap_set b)
       \<and> (\<exists>h. bitmap_and False True dst a a = Inr h \<and> bitmap_wf h \<and> bitmap_set h = bitmap_set a)
       \<and> (\<exists>h. bitmap_xor False False dst a b = Inr h \<and> bitmap_wf h
              \<and> bitmap_set h = (bitmap_set a - bitmap_set b) \<union> (bitmap_set b - bitmap_set a))
       \<and> (\<exists>h. bitmap_xor False True dst a a = Inr h \<and> bitmap_wf h \<and> bitmap_set h = {})
       \<and> bitmap_and True s dst a b = Inl Ice \<and> bitmap_xor True s dst a b = Inl Ice"
proof -
  have ok: "elts_ok (bm_elts a)" "elts_ok (bm_elts b)" using assms by (simp_all add: bitmap_wf_def)
  obtain h1 d1 where l1: "and_loop dst 0 (bm_elts a) (bm_elts b) = Inr (h1, d1)" "d1 \<le> length (bm_elts h1)"
      "take d1 (bm_elts h1) = and_elts (bm_elts a) (bm_elts b)"
    using and_loop_spec [OF wf_live [OF assms(1)], of 0 "bm_elts a" "bm_elts b"] by auto
  obtain h2 d2 where l2: "xor_loop dst 0 (bm_elts a) (bm_elts b) = Inr (h2, d2)" "d2 \<le> length (bm_elts h2)"
      "take d2 (bm_elts h2) = xor_elts (bm_elts a) (bm_elts b)"
    using xor_loop_spec [OF wf_live [OF assms(1)], of 0 "bm_elts a" "bm_elts b"] by auto
  have "\<exists>h. bitmap_and False False dst a b = Inr h \<and> bitmap_wf h \<and> bitmap_set h = bitmap_set a \<inter> bitmap_set b"
    using finish_first [of d1 h1] l1 and_elts_spec [OF ok] by (auto simp: bitmap_and_def bitmap_set_def)
  moreover have "\<exists>h. bitmap_xor False False dst a b = Inr h \<and> bitmap_wf h
              \<and> bitmap_set h = (bitmap_set a - bitmap_set b) \<union> (bitmap_set b - bitmap_set a)"
    using finish_first [of d2 h2] l2 xor_elts_spec [OF ok] by (auto simp: bitmap_xor_def bitmap_set_def)
  moreover have "\<exists>h. bitmap_and False True dst a a = Inr h \<and> bitmap_wf h \<and> bitmap_set h = bitmap_set a"
    using bitmap_copy_spec [OF assms(1,2)] by (auto simp: bitmap_and_def bitmap_set_def)
  moreover have "\<exists>h. bitmap_xor False True dst a a = Inr h \<and> bitmap_wf h \<and> bitmap_set h = {}"
    using bitmap_clear_spec [OF assms(1)] by (auto simp: bitmap_xor_def bitmap_set_def bitmap_wf_def cur_ok_def)
  moreover have "bitmap_and True s dst a b = Inl Ice" "bitmap_xor True s dst a b = Inl Ice"
    by (simp_all add: bitmap_and_def bitmap_xor_def)
  ultimately show ?thesis by blast
qed

text \<open>A bitmap with one element in use.\<close>

definition one_elt :: "nat \<Rightarrow> hwi \<Rightarrow> bitmap_head" where
  "one_elt ix w = \<lparr>bm_elts = [mk_elt ix [w, 0]], bm_current = At 0, bm_indx = ix\<rparr>"

lemma one_elt_wf: "w \<noteq> 0 \<Longrightarrow> bitmap_wf (one_elt ix w)"
  by (simp add: one_elt_def bitmap_wf_def cur_ok_def elt_ok_def)

theorem bitmap_and_xor_witness:
  "\<exists>h. bitmap_and False False (bitmap_initialize 0) (one_elt 3 6) (one_elt 3 5) = Inr h \<and> bitmap_wf h
     \<and> bitmap_set h = bitmap_set (one_elt 3 6) \<inter> bitmap_set (one_elt 3 5)"
  using bitmap_and_xor [of "bitmap_initialize 0" "one_elt 3 6" "one_elt 3 5" True] bitmap_initialize_wf(1) [of 0]
    one_elt_wf [of 6 3] one_elt_wf [of 5 3] by simp


section \<open>Operations that report a change\<close>

text \<open>
  \<open>tracks orig dst d as changed\<close>: while nothing has changed the destination is as it was; once it
  has, no continuation with elements of the indices still to come can give the old list again.
\<close>

definition diverged :: "bitmap_element list \<Rightarrow> bitmap_element list \<Rightarrow> nat set \<Rightarrow> bool" where
  "diverged orig xs I \<longleftrightarrow> (\<forall>zs. e_indx ` set zs \<subseteq> I \<longrightarrow> xs @ zs \<noteq> orig)"

definition tracks :: "bitmap_element list \<Rightarrow> bitmap_head \<Rightarrow> nat \<Rightarrow> nat set \<Rightarrow> bool \<Rightarrow> bool" where
  "tracks orig dst d I changed \<longleftrightarrow>
     (if changed then diverged orig (take d (bm_elts dst)) I else bm_elts dst = orig)"

lemma diverged_snoc: "diverged orig xs I \<Longrightarrow> e_indx e \<in> I \<Longrightarrow> J \<subseteq> I \<Longrightarrow> diverged orig (xs @ [e]) J"
  unfolding diverged_def
proof (intro allI impI)
  fix zs :: "bitmap_element list"
  assume all: "\<forall>zs. e_indx ` set zs \<subseteq> I \<longrightarrow> xs @ zs \<noteq> orig"
    and i: "e_indx e \<in> I" "J \<subseteq> I" "e_indx ` set zs \<subseteq> J"
  have "e_indx ` set (e # zs) \<subseteq> I" using i by auto
  then have "xs @ (e # zs) \<noteq> orig" using all by blast
  then show "(xs @ [e]) @ zs \<noteq> orig" by simp
qed

lemma diverged_mono: "diverged orig xs I \<Longrightarrow> J \<subseteq> I \<Longrightarrow> diverged orig xs J"
  unfolding diverged_def by blast

lemma diverged_at:
  "d \<le> length orig \<Longrightarrow> (d < length orig \<Longrightarrow> orig ! d \<noteq> e) \<Longrightarrow> diverged orig (take d orig @ [e]) I"
proof -
  assume d: "d \<le> length orig" "d < length orig \<Longrightarrow> orig ! d \<noteq> e"
  have "(take d orig @ [e]) @ zs \<noteq> orig" for zs
  proof
    assume eq: "(take d orig @ [e]) @ zs = orig"
    have "length ((take d orig @ [e]) @ zs) = d + 1 + length zs" using d(1) by simp
    then have "d < length orig" using arg_cong [OF eq, of length] by simp
    moreover have "((take d orig @ [e]) @ zs) ! d = e" using d(1) by (simp add: nth_append)
    ultimately show False using d(2) unfolding eq by simp
  qed
  then show "diverged orig (take d orig @ [e]) I" by (simp only: diverged_def simp_thms)
qed

lemma diverged_drop:
  "d < length orig \<Longrightarrow> e_indx (orig ! d) \<notin> I \<Longrightarrow> diverged orig (take d orig) I"
proof -
  assume d: "d < length orig" "e_indx (orig ! d) \<notin> I"
  have "take d orig @ zs \<noteq> orig" if "e_indx ` set zs \<subseteq> I" for zs
  proof
    assume eq: "take d orig @ zs = orig"
    then have zs: "zs = drop d orig" by (metis append_eq_conv_conj append_take_drop_id)
    then have "orig ! d \<in> set zs" using d(1) by (metis Cons_nth_drop_Suc list.set_intros(1))
    then show False using that d(2) by blast
  qed
  then show "diverged orig (take d orig) I" by (simp add: diverged_def)
qed

text \<open>Writing one source element; \<open>e\<close> is what the slot holds afterwards.\<close>

definition wrote :: "bitmap_element list \<Rightarrow> bitmap_head \<Rightarrow> nat \<Rightarrow> bitmap_element \<Rightarrow> bitmap_head \<Rightarrow> nat set \<Rightarrow> bool \<Rightarrow> bool" where
  "wrote orig dst d e dst' I changed' \<longleftrightarrow>
     live dst' \<and> Suc d \<le> length (bm_elts dst') \<and> take (Suc d) (bm_elts dst') = take d (bm_elts dst) @ [e]
     \<and> tracks orig dst' (Suc d) I changed'"

lemma elt_update_eq: "e_indx e = ix \<Longrightarrow> e\<lparr>e_bits := r\<rparr> = mk_elt ix r"
  by (cases e) simp

lemma write_slot:
  assumes "live dst" "d \<le> length (bm_elts dst)" "tracks orig dst d I changed" "ix \<in> I" "J \<subseteq> I"
    and "present = (d < length (bm_elts dst)) \<or> (\<not> present \<and> (\<not> changed \<longrightarrow> d < length orig \<longrightarrow> e_indx (orig ! d) \<noteq> ix))"
  shows "\<exists>dst' c'. (if \<not> changed \<and> present \<and> e_indx (bm_elts dst ! d) = ix
                    then Inr (set_elt_bits dst d r, r \<noteq> e_bits (bm_elts dst ! d))
                    else case (if present then Inr (set_elt_indx dst d ix) else bitmap_elt_insert_after dst d ix) of
                           Inl e \<Rightarrow> Inl e | Inr dst \<Rightarrow> Inr (set_elt_bits dst d r, True)) = Inr (dst', c')
           \<and> wrote orig dst d (mk_elt ix r) dst' J c'"
proof (cases "\<not> changed \<and> present \<and> e_indx (bm_elts dst ! d) = ix")
  case True
  then have orig: "bm_elts dst = orig" and d: "d < length (bm_elts dst)" using assms(3,6) by (auto simp: tracks_def)
  have e: "bm_elts (set_elt_bits dst d r) = orig[d := mk_elt ix r]" using True orig by (simp add: set_elt_bits_def elt_update_eq)
  have "tracks orig (set_elt_bits dst d r) (Suc d) J (r \<noteq> e_bits (bm_elts dst ! d))"
  proof (cases "r = e_bits (bm_elts dst ! d)")
    case same: True
    then have "mk_elt ix r = orig ! d" using True orig by simp
    then show ?thesis using same e by (simp add: tracks_def)
  next
    case False
    then have "orig ! d \<noteq> mk_elt ix r" using orig by auto
    then have "diverged orig (take d orig @ [mk_elt ix r]) J" using d orig by (intro diverged_at) auto
    then show ?thesis using False e d orig by (simp add: tracks_def take_Suc_conv_app_nth)
  qed
  then show ?thesis using True assms(1) d take_set_elt [of d dst ix r] by (auto simp: wrote_def live_def)
next
  case False
  have div: "diverged orig (take d (bm_elts dst) @ [mk_elt ix r]) J"
  proof (cases changed)
    case True
    then show ?thesis using assms(3,4,5) by (intro diverged_snoc [of _ _ I]) (auto simp: tracks_def)
  next
    case unchanged: False
    then have orig: "bm_elts dst = orig" using assms(3) by (simp add: tracks_def)
    have "orig ! d \<noteq> mk_elt ix r" if "d < length orig"
      using False unchanged that assms(6) orig by (cases present) auto
    then show ?thesis unfolding orig using assms(2) orig by (intro diverged_at) auto
  qed
  show ?thesis
  proof (cases present)
    case True
    then have d: "d < length (bm_elts dst)" using assms(6) by simp
    let ?h = "set_elt_bits (set_elt_indx dst d ix) d r"
    have "wrote orig dst d (mk_elt ix r) ?h J True"
      using reused_slot [OF assms(1) d, of ix r] d div by (simp add: wrote_def tracks_def)
    then show ?thesis using True False by auto
  next
    case absent: False
    obtain dst' where n: "bitmap_elt_insert_after dst d ix = Inr dst'" "live (set_elt_bits dst' d r)" "Suc d \<le> length (bm_elts dst')"
        "take (Suc d) (bm_elts (set_elt_bits dst' d r)) = take d (bm_elts dst) @ [mk_elt ix r]"
      using new_slot [OF assms(1,2), of ix r] by blast
    then have "wrote orig dst d (mk_elt ix r) (set_elt_bits dst' d r) J True" using div by (simp add: wrote_def tracks_def)
    then show ?thesis using absent n(1) by auto
  qed
qed

lemma elt_copy_spec:
  assumes "live dst" "d \<le> length (bm_elts dst)" "tracks orig dst d I changed" "e_indx e \<in> I" "J \<subseteq> I"
    and "present = (d < length (bm_elts dst)) \<or> (\<not> present \<and> (\<not> changed \<longrightarrow> d < length orig \<longrightarrow> e_indx (orig ! d) \<noteq> e_indx e))"
  shows "\<exists>dst' c'. bitmap_elt_copy dst present d e changed = Inr (dst', c') \<and> wrote orig dst d e dst' J c'"
proof -
  have "mk_elt (e_indx e) (e_bits e) = e" by simp
  with write_slot [OF assms, of "e_bits e"] show ?thesis unfolding bitmap_elt_copy_def by (simp only:)
qed


lemma free_elts: "bm_elts (bitmap_element_free h i) = take i (bm_elts h) @ drop (Suc i) (bm_elts h)"
  by (auto simp: bitmap_element_free_def Let_def split: current_elt.splits)

lemma live_free: "live h \<Longrightarrow> i < length (bm_elts h) \<Longrightarrow> live (bitmap_element_free h i)"
  by (auto simp: bitmap_element_free_def Let_def live_def split: current_elt.splits)

lemma tracks_mono: "tracks orig dst d I c \<Longrightarrow> J \<subseteq> I \<Longrightarrow> tracks orig dst d J c"
  by (auto simp: tracks_def intro: diverged_mono)

text \<open>The outcome of a matching pair in \<open>bitmap_and_compl\<close>.\<close>

definition matched ::
    "bitmap_element list \<Rightarrow> bitmap_head \<Rightarrow> nat \<Rightarrow> nat \<Rightarrow> hwi list \<Rightarrow> bitmap_head \<Rightarrow> nat set \<Rightarrow> bool \<Rightarrow> bool" where
  "matched orig dst d ix r dst' I c' \<longleftrightarrow>
     (if ior_words r \<noteq> 0 then wrote orig dst d (mk_elt ix r) dst' I c'
      else live dst' \<and> d \<le> length (bm_elts dst') \<and> take d (bm_elts dst') = take d (bm_elts dst) \<and> tracks orig dst' d I c')"

lemma and_compl_match_spec:
  assumes dst: "live dst" "d \<le> length (bm_elts dst)" "tracks orig dst d (insert ix I) changed"
    and orig: "elts_ok orig" and I: "\<forall>i \<in> I. ix < i" and a: "ix = e_indx a"
  shows "\<exists>dst' c'. and_compl_match dst d a b changed = Inr (dst', c', ior_words (word_op and_not a b) \<noteq> 0)
           \<and> matched orig dst d ix (word_op and_not a b) dst' I c'"
proof -
  define r where "r = word_op and_not a b"
  show ?thesis
  proof (cases "\<not> changed \<and> present_at dst d \<and> e_indx (bm_elts dst ! d) = ix")
    case True
    then have e: "bm_elts dst = orig" "d < length orig" "e_indx (orig ! d) = ix" using dst(3) by (auto simp: tracks_def)
    have m: "and_compl_match dst d a b changed = Inr (set_elt_bits dst d r, r \<noteq> e_bits (bm_elts dst ! d), ior_words r \<noteq> 0)"
      using True a by (auto simp: and_compl_match_def Let_def r_def)
    show ?thesis
    proof (cases "ior_words r \<noteq> 0")
      case ior: True
      have "wrote orig dst d (mk_elt ix r) (set_elt_bits dst d r) I (r \<noteq> e_bits (bm_elts dst ! d))"
        using write_slot [OF dst insertI1 subset_insertI, of True r] True by auto
      then show ?thesis using m ior by (simp add: matched_def r_def [symmetric])
    next
      case False
      have "\<exists>w \<in> set (e_bits (orig ! d)). w \<noteq> 0" using elt_ok_nth [OF orig e(2)] by (simp add: elt_ok_def)
      then have "r \<noteq> e_bits (orig ! d)" using False by (auto simp: ior_words_nonzero)
      moreover have "diverged orig (take d orig) I" using e I by (intro diverged_drop) auto
      ultimately have "tracks orig (set_elt_bits dst d r) d I (r \<noteq> e_bits (bm_elts dst ! d))"
        using e by (simp add: tracks_def set_elt_bits_def)
      moreover have "live (set_elt_bits dst d r)" using dst(1) by (simp add: live_def set_elt_bits_def)
      ultimately show ?thesis using m False dst(2) by (simp add: matched_def r_def [symmetric]) (simp add: set_elt_bits_def)
    qed
  next
    case False
    define new where "new = (\<not> present_at dst d \<or> e_indx (bm_elts dst ! d) > ix)"
    have "\<exists>dst1 c1. (case (if \<not> new then Inr (set_elt_indx dst d ix) else bitmap_elt_insert_after dst d ix) of
                     Inl e \<Rightarrow> Inl e | Inr dst \<Rightarrow> Inr (set_elt_bits dst d r, True)) = Inr (dst1, c1)
                   \<and> wrote orig dst d (mk_elt ix r) dst1 I c1"
    proof -
      have "(\<not> new) = (d < length (bm_elts dst)) \<or> (\<not> \<not> new \<and> (\<not> changed \<longrightarrow> d < length orig \<longrightarrow> e_indx (orig ! d) \<noteq> ix))"
        using dst(3) by (auto simp: new_def tracks_def)
      note w = write_slot [OF dst insertI1 subset_insertI this, of r]
      have "\<not> (\<not> changed \<and> \<not> new \<and> e_indx (bm_elts dst ! d) = ix)" using False by (auto simp: new_def)
      then show ?thesis using w by (simp only: if_False)
    qed
    then obtain dst0 where w: "(if new then bitmap_elt_insert_after dst d ix else Inr (set_elt_indx dst d ix)) = Inr dst0"
        "wrote orig dst d (mk_elt ix r) (set_elt_bits dst0 d r) I True"
      by (auto split: if_splits sum.splits)
    let ?s = "set_elt_bits dst0 d r"
    have m: "and_compl_match dst d a b changed =
       Inr (if ior_words r \<noteq> 0 then (?s, True, True) else (bitmap_element_free ?s d, changed \<or> \<not> new, False))"
      unfolding and_compl_match_def Let_def r_def [symmetric] a [symmetric] new_def [symmetric]
      using False by (simp only: w(1) if_False sum.case) (auto split: if_splits)
    show ?thesis
    proof (cases "ior_words r \<noteq> 0")
      case True
      then show ?thesis using m w(2) by (auto simp: matched_def r_def [symmetric])
    next
      case zero: False
      have s: "live ?s" "d < length (bm_elts ?s)" using w(2) by (auto simp: wrote_def)
      have t: "take d (bm_elts ?s) = take d (bm_elts dst)"
        using w(2) s(2) by (auto simp: wrote_def take_Suc_conv_app_nth)
      have rest: "drop (Suc d) (bm_elts ?s) = (if new then drop d (bm_elts dst) else drop (Suc d) (bm_elts dst))"
      proof (cases new)
        case True
        then show ?thesis using w(1) new_slot [OF dst(1,2), of ix r] by auto
      next
        case False
        then show ?thesis using w(1) by (auto simp: set_elt_bits_def set_elt_indx_def)
      qed
      let ?f = "bitmap_element_free ?s d"
      have f: "bm_elts ?f = take d (bm_elts dst) @ (if new then drop d (bm_elts dst) else drop (Suc d) (bm_elts dst))"
        by (simp add: free_elts t rest)
      have "tracks orig ?f d I (changed \<or> \<not> new)"
      proof (cases changed)
        case True
        then show ?thesis using dst(2,3) f by (auto simp: tracks_def intro: diverged_mono)
      next
        case unchanged: False
        then have o: "bm_elts dst = orig" using dst(3) by (simp add: tracks_def)
        show ?thesis
        proof (cases new)
          case True
          then show ?thesis using f unchanged o by (simp add: tracks_def)
        next
          case old: False
          then have "d < length orig" "e_indx (orig ! d) < ix" using False unchanged o by (auto simp: new_def)
          then have "diverged orig (take d orig) I" using I by (intro diverged_drop) auto
          then show ?thesis using f old dst(2) o by (simp add: tracks_def)
        qed
      qed
      then show ?thesis using m zero live_free [OF s] f dst(2) by (auto simp: matched_def r_def [symmetric])
    qed
  qed
qed


lemma and_compl_elts_skip:
  "and_compl_elts (a # as) bs =
     (case dropWhile (\<lambda>b. e_indx b < e_indx a) bs of
        [] \<Rightarrow> a # and_compl_elts as []
      | b # bs' \<Rightarrow> (if e_indx b > e_indx a then a # and_compl_elts as (b # bs')
                   else nonempty_elt (e_indx a) (word_op and_not a b) @ and_compl_elts as bs'))"
  by (induction bs) (auto split: list.splits)

lemma and_compl_loop_spec:
  "live dst \<Longrightarrow> d \<le> length (bm_elts dst) \<Longrightarrow> tracks orig dst d (e_indx ` set as) changed \<Longrightarrow> elts_ok as \<Longrightarrow> elts_ok orig \<Longrightarrow>
   \<exists>dst' d' c'. and_compl_loop dst d as bs changed = Inr (dst', d', c') \<and> d' \<le> length (bm_elts dst')
     \<and> take d' (bm_elts dst') = take d (bm_elts dst) @ and_compl_elts as bs \<and> tracks orig dst' d' {} c'"
proof (induction as arbitrary: dst d bs changed)
  case Nil
  then show ?case by simp
next
  case (Cons a as)
  have I: "tracks orig dst d (insert (e_indx a) (e_indx ` set as)) changed" using Cons.prems(3) by simp
  have gt: "\<forall>i \<in> e_indx ` set as. e_indx a < i" using Cons.prems(4) by auto
  have ok: "elts_ok as" using Cons.prems(4) by simp
  obtain dst1 c1 where copy: "bitmap_elt_copy dst (present_at dst d) d a changed = Inr (dst1, c1)"
      "wrote orig dst d a dst1 (e_indx ` set as) c1"
    using elt_copy_spec [OF Cons.prems(1,2) I insertI1 subset_insertI] by blast
  show ?case
  proof (cases "dropWhile (\<lambda>b. e_indx b < e_indx a) bs")
    case Nil
    obtain dst' d' c' where "and_compl_loop dst1 (Suc d) as [] c1 = Inr (dst', d', c')" "d' \<le> length (bm_elts dst')"
        "take d' (bm_elts dst') = take (Suc d) (bm_elts dst1) @ and_compl_elts as []" "tracks orig dst' d' {} c'"
      using Cons.IH [of dst1 "Suc d" c1 "[]"] copy(2) ok Cons.prems(5) by (auto simp: wrote_def)
    then show ?thesis using copy unfolding and_compl_elts_skip [of a as bs] and_compl_loop.simps(2) Nil
      by (simp add: wrote_def)
  next
    case drop: (Cons b bs')
    show ?thesis
    proof (cases "e_indx b > e_indx a")
      case True
      obtain dst' d' c' where "and_compl_loop dst1 (Suc d) as (b # bs') c1 = Inr (dst', d', c')" "d' \<le> length (bm_elts dst')"
          "take d' (bm_elts dst') = take (Suc d) (bm_elts dst1) @ and_compl_elts as (b # bs')" "tracks orig dst' d' {} c'"
        using Cons.IH [of dst1 "Suc d" c1 "b # bs'"] copy(2) ok Cons.prems(5) by (auto simp: wrote_def)
      then show ?thesis using copy drop True by (simp add: and_compl_elts_skip [of a as bs] wrote_def)
    next
      case False
      let ?r = "word_op and_not a b" and ?I = "e_indx ` set as"
      obtain dst2 c2 where m: "and_compl_match dst d a b changed = Inr (dst2, c2, ior_words ?r \<noteq> 0)"
          "matched orig dst d (e_indx a) ?r dst2 ?I c2"
        using and_compl_match_spec [OF Cons.prems(1,2) I Cons.prems(5) gt refl] by blast
      let ?d = "if ior_words ?r \<noteq> 0 then Suc d else d"
      have s: "live dst2" "?d \<le> length (bm_elts dst2)" "tracks orig dst2 ?d ?I c2"
          "take ?d (bm_elts dst2) = take d (bm_elts dst) @ nonempty_elt (e_indx a) ?r"
        using m(2) by (auto simp: matched_def wrote_def nonempty_elt_def split: if_splits)
      obtain dst' d' c' where "and_compl_loop dst2 ?d as bs' c2 = Inr (dst', d', c')" "d' \<le> length (bm_elts dst')"
          "take d' (bm_elts dst') = take ?d (bm_elts dst2) @ and_compl_elts as bs'" "tracks orig dst' d' {} c'"
        using Cons.IH [OF s(1-3) ok Cons.prems(5)] by blast
      then show ?thesis using m(1) s(4) drop False by (simp add: and_compl_elts_skip [of a as bs])
    qed
  qed
qed

lemma tracks_flag:
  "tracks orig dst d {} c \<Longrightarrow> d \<le> length (bm_elts dst) \<Longrightarrow> (c \<or> present_at dst d) \<longleftrightarrow> take d (bm_elts dst) \<noteq> orig"
  by (auto simp: tracks_def diverged_def split: if_splits)

lemma finish_first_changed:
  assumes "elts_ok (take d (bm_elts dst))" "d \<le> length (bm_elts dst)" "tracks orig dst d {} c"
  shows "\<exists>h. finish_dst (current_to_first dst) d c = Inr (h, bm_elts h \<noteq> orig) \<and> bitmap_wf h \<and> bm_elts h = take d (bm_elts dst)"
proof -
  obtain h h1 where h: "bitmap_elt_clear_from (current_to_first dst) d = Inr h1" "check_and_sync h1 = Inr h"
      "bitmap_wf h" "bm_elts h = take d (bm_elts dst)"
    using finish_first [OF assms(1,2)] by blast
  have "(if present_at (current_to_first dst) d then bitmap_elt_clear_from (current_to_first dst) d else Inr (current_to_first dst)) = Inr h1"
    using h(1) by (auto simp: bitmap_elt_clear_from_def Let_def)
  moreover have "bm_elts (current_to_first dst) = bm_elts dst" by (simp add: current_to_first_def)
  ultimately have "finish_dst (current_to_first dst) d c = Inr (h, c \<or> present_at dst d)"
    using h(2) unfolding finish_dst_def by simp
  then show ?thesis using h tracks_flag [OF assms(3,2)] by simp
qed

text \<open>
  C22: \<open>bitmap_and_compl\<close> stores the difference of two bitmaps in a third one and returns true
  exactly when this changes the third one's elements: the data-flow solvers rely on the flag to
  detect their fixed point, in both directions.
\<close>

theorem bitmap_and_compl_exact:
  assumes "bitmap_wf dst" "bitmap_wf a" "bitmap_wf b"
  shows "\<exists>h. bitmap_and_compl False False dst a b = Inr (h, bm_elts h \<noteq> bm_elts dst) \<and> bitmap_wf h
           \<and> bitmap_set h = bitmap_set a - bitmap_set b"
proof -
  have ok: "elts_ok (bm_elts dst)" "elts_ok (bm_elts a)" "elts_ok (bm_elts b)" using assms by (simp_all add: bitmap_wf_def)
  have "tracks (bm_elts dst) dst 0 (e_indx ` set (bm_elts a)) False" by (simp add: tracks_def)
  then obtain dst' d' c' where l: "and_compl_loop dst 0 (bm_elts a) (bm_elts b) False = Inr (dst', d', c')" "d' \<le> length (bm_elts dst')"
      "take d' (bm_elts dst') = and_compl_elts (bm_elts a) (bm_elts b)" "tracks (bm_elts dst) dst' d' {} c'"
    using and_compl_loop_spec [OF wf_live [OF assms(1)] _ _ ok(2,1), of 0 False "bm_elts b"] by auto
  have s: "elts_ok (take d' (bm_elts dst'))" "elts_set (take d' (bm_elts dst')) = bitmap_set a - bitmap_set b"
    using and_compl_elts_spec [OF ok(2,3)] l(3) by (simp_all add: bitmap_set_def)
  show ?thesis using finish_first_changed [OF s(1) l(2,4)] l(1) s(2) by (auto simp: bitmap_and_compl_def bitmap_set_def)
qed

theorem bitmap_and_compl_exact_witness:
  "\<exists>h. bitmap_and_compl False False (one_elt 3 2) (one_elt 3 6) (one_elt 3 4) = Inr (h, bm_elts h \<noteq> bm_elts (one_elt 3 2))
     \<and> bitmap_wf h \<and> bitmap_set h = bitmap_set (one_elt 3 6) - bitmap_set (one_elt 3 4)"
  by (rule bitmap_and_compl_exact) (simp_all add: one_elt_wf)


text \<open>The union loops: the element written next, and the rest of the merge.\<close>

lemma ior_elts_step:
  assumes "as \<noteq> [] \<or> bs \<noteq> []"
  shows "ior_elts as bs = hd (ior_elts as bs) # ior_elts (fst (ior_advance as bs)) (snd (ior_advance as bs))"
    and "e_indx (hd (ior_elts as bs)) \<in> e_indx ` set (as @ bs)"
    and "e_indx ` set (fst (ior_advance as bs) @ snd (ior_advance as bs)) \<subseteq> e_indx ` set (as @ bs)"
  using assms by (cases "(as, bs)" rule: ior_advance.cases; auto)+

definition placed :: "bitmap_head \<Rightarrow> bool" where
  "placed h \<longleftrightarrow> (case bm_current h of Null \<Rightarrow> bm_elts h = [] | At c \<Rightarrow> c < length (bm_elts h) | Freed _ \<Rightarrow> False)"

lemma placed_live: "placed h \<Longrightarrow> live h"
  by (auto simp: placed_def live_def)

lemma wf_placed: "bitmap_wf h \<Longrightarrow> placed h"
  by (auto simp: bitmap_wf_def cur_ok_def placed_def split: current_elt.splits)

lemma placed_set_elt [simp]: "placed (set_elt_bits h d r) = placed h" "placed (set_elt_indx h d ix) = placed h"
  by (simp_all add: placed_def set_elt_bits_def set_elt_indx_def split: current_elt.splits)

lemma placed_insert: "placed h \<Longrightarrow> bitmap_elt_insert_after h d ix = Inr h' \<Longrightarrow> placed h'"
  by (auto simp: bitmap_elt_insert_after_def placed_def Let_def split: current_elt.splits if_splits)

lemma placed_copy: "placed h \<Longrightarrow> bitmap_elt_copy h p d e c = Inr (h', c') \<Longrightarrow> placed h'"
  by (auto simp: bitmap_elt_copy_def split: if_splits sum.splits dest: placed_insert)

lemma placed_ior: "placed h \<Longrightarrow> bitmap_elt_ior h p d a b c = Inr (h', c') \<Longrightarrow> placed h'"
  by (cases a; cases b) (auto simp: bitmap_elt_ior_def Let_def split: if_splits sum.splits dest: placed_insert placed_copy)

lemma elt_ior_spec:
  assumes dst: "live dst" "d \<le> length (bm_elts dst)" "tracks orig dst d (e_indx ` set (as @ bs)) changed"
    and ne: "as \<noteq> [] \<or> bs \<noteq> []"
    and p: "present = (d < length (bm_elts dst))"
  shows "\<exists>dst' c'. bitmap_elt_ior dst present d (head_elt as) (head_elt bs) changed = Inr (dst', c')
           \<and> wrote orig dst d (hd (ior_elts as bs)) dst' (e_indx ` set (fst (ior_advance as bs) @ snd (ior_advance as bs))) c'"
proof -
  let ?J = "e_indx ` set (fst (ior_advance as bs) @ snd (ior_advance as bs))"
  have J: "?J \<subseteq> e_indx ` set (as @ bs)" by (rule ior_elts_step(3) [OF ne])
  have copy: "\<exists>dst' c'. bitmap_elt_copy dst present d e changed = Inr (dst', c') \<and> wrote orig dst d e dst' ?J c'"
    if "e_indx e \<in> e_indx ` set (as @ bs)" for e
    using elt_copy_spec [OF dst that J] p by blast
  consider a as' b bs' where "as = a # as'" "bs = b # bs'" "e_indx a = e_indx b"
    | a as' where "as = a # as'" "bs = [] \<or> e_indx a < e_indx (hd bs)"
    | b bs' where "bs = b # bs'" "as = [] \<or> e_indx b < e_indx (hd as)"
    using ne by (cases as; cases bs) (auto, meson linorder_neqE_nat)
  then show ?thesis
  proof cases
    case 1
    let ?r = "word_op (OR) a b"
    have "e_indx a \<in> e_indx ` set (as @ bs)" using 1 by simp
    then have "\<exists>dst' c'. (if \<not> changed \<and> present \<and> e_indx (bm_elts dst ! d) = e_indx a
                    then Inr (set_elt_bits dst d ?r, ?r \<noteq> e_bits (bm_elts dst ! d))
                    else case (if present then Inr (set_elt_indx dst d (e_indx a)) else bitmap_elt_insert_after dst d (e_indx a)) of
                           Inl e \<Rightarrow> Inl e | Inr dst \<Rightarrow> Inr (set_elt_bits dst d ?r, True)) = Inr (dst', c')
           \<and> wrote orig dst d (mk_elt (e_indx a) ?r) dst' ?J c'"
      using write_slot [OF dst _ J] p by blast
    moreover have "hd (ior_elts as bs) = mk_elt (e_indx a) ?r" using 1 by simp
    moreover have "bitmap_elt_ior dst present d (head_elt as) (head_elt bs) changed =
        (if \<not> changed \<and> present \<and> e_indx (bm_elts dst ! d) = e_indx a
                    then Inr (set_elt_bits dst d ?r, ?r \<noteq> e_bits (bm_elts dst ! d))
                    else case (if present then Inr (set_elt_indx dst d (e_indx a)) else bitmap_elt_insert_after dst d (e_indx a)) of
                           Inl e \<Rightarrow> Inl e | Inr dst \<Rightarrow> Inr (set_elt_bits dst d ?r, True))"
      using 1 by (simp only: bitmap_elt_ior_def head_elt_def list.case option.case prod.case Let_def if_True refl)
    ultimately show ?thesis by (simp only:)
  next
    case 2
    have "bitmap_elt_ior dst present d (head_elt as) (head_elt bs) changed = bitmap_elt_copy dst present d a changed"
        "hd (ior_elts as bs) = a"
      using 2 by (cases bs; simp add: bitmap_elt_ior_def head_elt_def)+
    then show ?thesis using copy [of a] 2 by simp
  next
    case 3
    have "bitmap_elt_ior dst present d (head_elt as) (head_elt bs) changed = bitmap_elt_copy dst present d b changed"
        "hd (ior_elts as bs) = b"
      using 3 by (cases as; simp add: bitmap_elt_ior_def head_elt_def)+
    then show ?thesis using copy [of b] 3 by simp
  qed
qed

lemma ior_loop_spec:
  "placed dst \<Longrightarrow> d \<le> length (bm_elts dst) \<Longrightarrow> tracks orig dst d (e_indx ` set (as @ bs)) changed \<Longrightarrow>
   \<exists>dst' d' c'. ior_loop dst d as bs changed = Inr (dst', d', c') \<and> placed dst' \<and> d' \<le> length (bm_elts dst')
     \<and> take d' (bm_elts dst') = take d (bm_elts dst) @ ior_elts as bs \<and> tracks orig dst' d' {} c'"
proof (induction dst d as bs changed rule: ior_loop.induct)
  case (1 dst d as bs changed)
  show ?case
  proof (cases "as = [] \<and> bs = []")
    case True
    then show ?thesis using "1.prems" by (subst ior_loop.simps) auto
  next
    case False
    then have ne: "as \<noteq> [] \<or> bs \<noteq> []" by blast
    let ?J = "e_indx ` set (fst (ior_advance as bs) @ snd (ior_advance as bs))"
    obtain dst1 c1 where s: "bitmap_elt_ior dst (present_at dst d) d (head_elt as) (head_elt bs) changed = Inr (dst1, c1)"
        "wrote orig dst d (hd (ior_elts as bs)) dst1 ?J c1"
      using elt_ior_spec [OF placed_live [OF "1.prems"(1)] "1.prems"(2,3) ne refl] by blast
    have w: "Suc d \<le> length (bm_elts dst1)" "take (Suc d) (bm_elts dst1) = take d (bm_elts dst) @ [hd (ior_elts as bs)]"
        "tracks orig dst1 (Suc d) ?J c1"
      using s(2) by (auto simp: wrote_def)
    obtain dst' d' c' where l: "ior_loop dst1 (Suc d) (fst (ior_advance as bs)) (snd (ior_advance as bs)) c1 = Inr (dst', d', c')"
        "placed dst'" "d' \<le> length (bm_elts dst')" "tracks orig dst' d' {} c'"
        "take d' (bm_elts dst') = take (Suc d) (bm_elts dst1) @ ior_elts (fst (ior_advance as bs)) (snd (ior_advance as bs))"
      using "1.IH" [OF False s(1) refl placed_ior [OF "1.prems"(1) s(1)] w(1,3)] by blast
    have "take d' (bm_elts dst') = take d (bm_elts dst) @ ior_elts as bs"
      unfolding l(5) w(2) using ior_elts_step(1) [OF ne] by simp
    moreover have "ior_loop dst d as bs changed = Inr (dst', d', c')"
      using False l(1) s(1) by (subst ior_loop.simps) (simp only: if_False sum.case prod.case)
    ultimately show ?thesis using l by blast
  qed
qed

text \<open>
  C23: \<open>bitmap_ior\<close> stores the union in the destination's element list and returns true exactly
  when the list changes. The cache is not reset, though: it ends up valid or on the free list.
\<close>

theorem bitmap_ior_exact:
  assumes "bitmap_wf dst" "bitmap_wf a" "bitmap_wf b"
  shows "\<exists>h. bitmap_ior False dst a b = Inr (h, bm_elts h \<noteq> bm_elts dst) \<and> elts_ok (bm_elts h)
           \<and> bitmap_set h = bitmap_set a \<union> bitmap_set b \<and> (bitmap_wf h \<or> (\<exists>k. bm_current h = Freed k))"
proof -
  have ok: "elts_ok (bm_elts a)" "elts_ok (bm_elts b)" using assms by (simp_all add: bitmap_wf_def)
  have "tracks (bm_elts dst) dst 0 (e_indx ` set (bm_elts a @ bm_elts b)) False" by (simp add: tracks_def)
  then obtain dst' d' c' where l: "ior_loop dst 0 (bm_elts a) (bm_elts b) False = Inr (dst', d', c')" "d' \<le> length (bm_elts dst')"
      "take d' (bm_elts dst') = ior_elts (bm_elts a) (bm_elts b)" "tracks (bm_elts dst) dst' d' {} c'" "placed dst'"
    using ior_loop_spec [OF wf_placed [OF assms(1)], of 0 "bm_elts dst" "bm_elts a" "bm_elts b" False] by auto
  have s: "elts_ok (take d' (bm_elts dst'))" "elts_set (take d' (bm_elts dst')) = bitmap_set a \<union> bitmap_set b"
    using ior_elts_spec [OF ok] l(3) by (simp_all add: bitmap_set_def)
  have "\<exists>h. finish_dst dst' d' c' = Inr (h, c' \<or> present_at dst' d') \<and> bm_elts h = take d' (bm_elts dst')
          \<and> (cur_ok h \<or> (\<exists>k. bm_current h = Freed k))"
  proof -
    consider "d' = length (bm_elts dst')" | "d' = 0" "bm_elts dst' \<noteq> []" | "0 < d'" "d' < length (bm_elts dst')"
      using l(2) by fastforce
    then show ?thesis
      using l(5)
      by cases (auto simp: finish_dst_def bitmap_elt_clear_from_def check_and_sync_def current_indx_def cur_ok_def placed_def
                     Let_def split: current_elt.splits)
  qed
  then obtain h where h: "finish_dst dst' d' c' = Inr (h, c' \<or> present_at dst' d')" "bm_elts h = take d' (bm_elts dst')"
      "cur_ok h \<or> (\<exists>k. bm_current h = Freed k)"
    by blast
  show ?thesis
    using h s l(1) tracks_flag [OF l(4,2)] by (auto simp: bitmap_ior_def bitmap_set_def bitmap_wf_def)
qed

theorem bitmap_ior_exact_witness:
  "\<exists>h. bitmap_ior False (one_elt 3 2) (one_elt 3 6) (one_elt 4 4) = Inr (h, bm_elts h \<noteq> bm_elts (one_elt 3 2))
     \<and> bitmap_set h = bitmap_set (one_elt 3 6) \<union> bitmap_set (one_elt 4 4)"
  using bitmap_ior_exact [of "one_elt 3 2" "one_elt 3 6" "one_elt 4 4"] one_elt_wf [of 2 3] one_elt_wf [of 6 3] one_elt_wf [of 4 4]
  by auto

text \<open>
  C25: The cache can really end up on the free list: three elements 1, 2, 3 with the cache on
  element 2, overwritten by the union of two bitmaps that only use element 5. The old second
  element is freed, and since its index is not above 5 the cache stays on it; the next search
  in the bitmap then uses a freed element. \<open>bitmap_and\<close>, \<open>bitmap_and_compl\<close> and \<open>bitmap_xor\<close>, which
  reset the cache first, leave a bitmap that can be searched.
\<close>

theorem bitmap_ior_stale_cache:
  "\<exists>dst a b h. bitmap_wf dst \<and> bitmap_wf a \<and> bitmap_wf b \<and> bitmap_ior False dst a b = Inr (h, True)
     \<and> bm_current h = Freed 2 \<and> bitmap_bit_p h 640 = Inl Undefined"
proof -
  let ?dst = "\<lparr>bm_elts = [mk_elt 1 [1, 0], mk_elt 2 [1, 0], mk_elt 3 [1, 0]], bm_current = At 1, bm_indx = 2\<rparr>"
  let ?h = "\<lparr>bm_elts = [mk_elt 5 [7, 0]], bm_current = Freed 2, bm_indx = 2\<rparr>"
  have "bitmap_ior False ?dst (one_elt 5 3) (one_elt 5 6) = Inr (?h, True)" by code_simp
  moreover have "bitmap_wf ?dst" by (simp add: bitmap_wf_def cur_ok_def elt_ok_def)
  moreover have "bitmap_bit_p ?h 640 = Inl Undefined" by (simp add: bitmap_bit_p_def bitmap_find_bit_def)
  moreover have "bm_current ?h = Freed 2" by simp
  moreover have "bitmap_wf (one_elt 5 3)" "bitmap_wf (one_elt 5 6)" by (simp_all add: one_elt_wf)
  ultimately show ?thesis by blast
qed


end
