(* ===== verification/Splay_Tree.thy ===== *)
theory Splay_Tree
  imports Gcc_Prelude "HOL-Library.Tree" "HOL-Library.Multiset"
begin

text \<open>
  Splay trees, \<open>src/libiberty/splay-tree.c\<close>. A node pointer is the subtree below it (no subtree is
  shared), a null pointer is the empty tree. The comparison function is a field of the record, as
  it is in the C structure. The callbacks that dispose of keys and values are flags (is the
  function pointer non-null?), and their calls, like those of the deallocator, are recorded as a
  list of events in the order of the calls; a node that is deallocated is named by the key and the
  value it held.
\<close>

section \<open>Data\<close>

datatype ('k, 'v) sp_event =
  Delete_Key 'k
| Delete_Value 'v
| Deallocate 'k 'v
| Deallocate_Tree

record ('k, 'v) splay_tree =
  sp_root :: "('k \<times> 'v) tree"
  sp_comp :: "'k \<Rightarrow> 'k \<Rightarrow> int"
  sp_delete_key :: bool
  sp_delete_value :: bool

definition splay_tree_new :: "('k \<Rightarrow> 'k \<Rightarrow> int) \<Rightarrow> bool \<Rightarrow> bool \<Rightarrow> ('k, 'v) splay_tree" where
  "splay_tree_new compare_fn delete_key_fn delete_value_fn =
     \<lparr>sp_root = Leaf, sp_comp = compare_fn, sp_delete_key = delete_key_fn,
      sp_delete_value = delete_value_fn\<rparr>"

section \<open>Rotations and splaying\<close>

text \<open>The edge to the left (right) child of the node is rotated.\<close>

fun rotate_left :: "'a tree \<Rightarrow> 'a tree" where
  "rotate_left (Node (Node a n b) p c) = Node a n (Node b p c)"
| "rotate_left t = t"

fun rotate_right :: "'a tree \<Rightarrow> 'a tree" where
  "rotate_right (Node a p (Node b n c)) = Node (Node a p b) n c"
| "rotate_right t = t"

text \<open>
  The \<open>do\<close> loop of \<open>splay_tree_splay\<close>: one round looks at the root \<open>n\<close> and its child \<open>c\<close> on the way to
  the key. Its termination is not obvious, since a double rotation in one direction may leave the
  path to the key as long as it was; but then the next round turns. The measure counts the nodes
  on the path twice and adds one when the first two steps go the same way.
\<close>

fun path_len :: "('k \<Rightarrow> 'k \<Rightarrow> int) \<Rightarrow> 'k \<Rightarrow> ('k \<times> 'v) tree \<Rightarrow> nat" where
  "path_len cmp key Leaf = 0"
| "path_len cmp key (Node l (k, v) r) =
     (if cmp key k = 0 then 1 else Suc (path_len cmp key (if cmp key k < 0 then l else r)))"

fun straight :: "('k \<Rightarrow> 'k \<Rightarrow> int) \<Rightarrow> 'k \<Rightarrow> ('k \<times> 'v) tree \<Rightarrow> bool" where
  "straight cmp key (Node (Node a (ck, cv) b) (k, v) r) =
     (if cmp key k < 0 then cmp key ck < 0
      else case r of Node _ (ck, cv) _ \<Rightarrow> cmp key k > 0 \<and> cmp key ck > 0 | Leaf \<Rightarrow> False)"
| "straight cmp key (Node Leaf (k, v) (Node a (ck, cv) b)) = (cmp key k > 0 \<and> cmp key ck > 0)"
| "straight cmp key t = False"

function (sequential) splay :: "('k \<Rightarrow> 'k \<Rightarrow> int) \<Rightarrow> 'k \<Rightarrow> ('k \<times> 'v) tree \<Rightarrow> ('k \<times> 'v) tree" where
  "splay cmp key Leaf = Leaf"
| "splay cmp key (Node l (k, v) r) =
     (let cmp1 = cmp key k
      in if cmp1 = 0 then Node l (k, v) r
         else
           (case (if cmp1 < 0 then l else r) of
              Leaf \<Rightarrow> Node l (k, v) r
            | Node cl (ck, cv) cr \<Rightarrow>
                (let cmp2 = cmp key ck
                 in if cmp2 = 0 \<or> cmp2 < 0 \<and> cl = Leaf \<or> cmp2 > 0 \<and> cr = Leaf then
                      (if cmp1 < 0 then rotate_left (Node l (k, v) r) else rotate_right (Node l (k, v) r))
                    else if cmp1 < 0 \<and> cmp2 < 0 then splay cmp key (rotate_left (Node (rotate_left l) (k, v) r))
                    else if cmp1 > 0 \<and> cmp2 > 0 then splay cmp key (rotate_right (Node l (k, v) (rotate_right r)))
                    else if cmp1 < 0 \<and> cmp2 > 0 then splay cmp key (rotate_left (Node (rotate_right l) (k, v) r))
                    else splay cmp key (rotate_right (Node l (k, v) (rotate_left r))))))"
  by pat_completeness auto

text \<open>One double rotation decreases the measure.\<close>

definition splay_measure :: "('k \<Rightarrow> 'k \<Rightarrow> int) \<Rightarrow> 'k \<Rightarrow> ('k \<times> 'v) tree \<Rightarrow> nat" where
  "splay_measure cmp key t = 2 * path_len cmp key t + of_bool (straight cmp key t)"

lemma splay_measure_left:
  assumes "cmp key k < 0"
  shows "cmp key ck < 0 \<Longrightarrow> cl \<noteq> Leaf \<Longrightarrow>
           splay_measure cmp key (rotate_left (Node (rotate_left (Node cl (ck, cv) cr)) (k, v) r))
             < splay_measure cmp key (Node (Node cl (ck, cv) cr) (k, v) r)"
    and "0 < cmp key ck \<Longrightarrow> cr \<noteq> Leaf \<Longrightarrow>
           splay_measure cmp key (rotate_left (Node (rotate_right (Node cl (ck, cv) cr)) (k, v) r))
             < splay_measure cmp key (Node (Node cl (ck, cv) cr) (k, v) r)"
proof -
  show "splay_measure cmp key (rotate_left (Node (rotate_left (Node cl (ck, cv) cr)) (k, v) r))
             < splay_measure cmp key (Node (Node cl (ck, cv) cr) (k, v) r)" if "cmp key ck < 0" "cl \<noteq> Leaf"
  proof -
    obtain gl gk gv gr where g: "cl = Node gl (gk, gv) gr" using \<open>cl \<noteq> Leaf\<close> by (metis neq_Leaf_iff surj_pair)
    show ?thesis
      using assms that(1) unfolding g splay_measure_def by (cases gl) (auto split: if_splits)
  qed
  show "splay_measure cmp key (rotate_left (Node (rotate_right (Node cl (ck, cv) cr)) (k, v) r))
             < splay_measure cmp key (Node (Node cl (ck, cv) cr) (k, v) r)" if "0 < cmp key ck" "cr \<noteq> Leaf"
  proof -
    obtain gl gk gv gr where g: "cr = Node gl (gk, gv) gr" using \<open>cr \<noteq> Leaf\<close> by (metis neq_Leaf_iff surj_pair)
    show ?thesis using assms that(1) unfolding g splay_measure_def by (auto split: if_splits)
  qed
qed

lemma splay_measure_right:
  assumes "0 < cmp key k"
  shows "0 < cmp key ck \<Longrightarrow> cr \<noteq> Leaf \<Longrightarrow>
           splay_measure cmp key (rotate_right (Node l (k, v) (rotate_right (Node cl (ck, cv) cr))))
             < splay_measure cmp key (Node l (k, v) (Node cl (ck, cv) cr))"
    and "cmp key ck < 0 \<Longrightarrow> cl \<noteq> Leaf \<Longrightarrow>
           splay_measure cmp key (rotate_right (Node l (k, v) (rotate_left (Node cl (ck, cv) cr))))
             < splay_measure cmp key (Node l (k, v) (Node cl (ck, cv) cr))"
proof -
  show "splay_measure cmp key (rotate_right (Node l (k, v) (rotate_right (Node cl (ck, cv) cr))))
             < splay_measure cmp key (Node l (k, v) (Node cl (ck, cv) cr))" if "0 < cmp key ck" "cr \<noteq> Leaf"
  proof -
    obtain gl gk gv gr where g: "cr = Node gl (gk, gv) gr" using \<open>cr \<noteq> Leaf\<close> by (metis neq_Leaf_iff surj_pair)
    show ?thesis using assms that(1) unfolding g splay_measure_def by (cases l) (auto split: if_splits)
  qed
  show "splay_measure cmp key (rotate_right (Node l (k, v) (rotate_left (Node cl (ck, cv) cr))))
             < splay_measure cmp key (Node l (k, v) (Node cl (ck, cv) cr))" if "cmp key ck < 0" "cl \<noteq> Leaf"
  proof -
    obtain gl gk gv gr where g: "cl = Node gl (gk, gv) gr" using \<open>cl \<noteq> Leaf\<close> by (metis neq_Leaf_iff surj_pair)
    show ?thesis using assms that(1) unfolding g splay_measure_def by (cases l) (auto split: if_splits)
  qed
qed

termination splay
  by (relation "measure (\<lambda>(cmp, key, t). splay_measure cmp key t)")
     (auto simp del: rotate_left.simps rotate_right.simps simp: linorder_neq_iff
        intro!: splay_measure_left splay_measure_right split: if_splits)


definition splay_tree_splay :: "('k, 'v) splay_tree \<Rightarrow> 'k \<Rightarrow> ('k, 'v) splay_tree" where
  "splay_tree_splay sp key = sp\<lparr>sp_root := splay (sp_comp sp) key (sp_root sp)\<rparr>"

section \<open>The operations\<close>

definition splay_tree_insert ::
  "('k, 'v) splay_tree \<Rightarrow> 'k \<Rightarrow> 'v \<Rightarrow> ('k, 'v) splay_tree \<times> ('k, 'v) sp_event list" where
  "splay_tree_insert sp key val =
     (let sp = splay_tree_splay sp key
      in case sp_root sp of
           Leaf \<Rightarrow> (sp\<lparr>sp_root := Node Leaf (key, val) Leaf\<rparr>, [])
         | Node l (k, v) r \<Rightarrow>
             (let comparison = sp_comp sp k key
              in if comparison = 0 then
                   (sp\<lparr>sp_root := Node l (k, val) r\<rparr>,
                    if sp_delete_value sp then [Delete_Value v] else [])
                 else if comparison < 0 then
                   (sp\<lparr>sp_root := Node (Node l (k, v) Leaf) (key, val) r\<rparr>, [])
                 else (sp\<lparr>sp_root := Node l (key, val) (Node Leaf (k, v) r)\<rparr>, [])))"

text \<open>\<open>hang t rt\<close> makes \<open>rt\<close> the right child of the right-most node of \<open>t\<close>.\<close>

fun hang :: "'a tree \<Rightarrow> 'a tree \<Rightarrow> 'a tree" where
  "hang Leaf rt = rt"
| "hang (Node l x Leaf) rt = Node l x rt"
| "hang (Node l x r) rt = Node l x (hang r rt)"

definition splay_tree_remove ::
  "('k, 'v) splay_tree \<Rightarrow> 'k \<Rightarrow> ('k, 'v) splay_tree \<times> ('k, 'v) sp_event list" where
  "splay_tree_remove sp key =
     (let sp = splay_tree_splay sp key
      in case sp_root sp of
           Leaf \<Rightarrow> (sp, [])
         | Node lt (k, v) rt \<Rightarrow>
             (if sp_comp sp k key = 0 then
                (sp\<lparr>sp_root := (if lt \<noteq> Leaf then if rt \<noteq> Leaf then hang lt rt else lt else rt)\<rparr>,
                 (if sp_delete_value sp then [Delete_Value v] else []) @ [Deallocate k v])
              else (sp, [])))"

definition splay_tree_lookup ::
  "('k, 'v) splay_tree \<Rightarrow> 'k \<Rightarrow> ('k, 'v) splay_tree \<times> ('k \<times> 'v) option" where
  "splay_tree_lookup sp key =
     (let sp = splay_tree_splay sp key
      in case sp_root sp of
           Leaf \<Rightarrow> (sp, None)
         | Node l (k, v) r \<Rightarrow> (sp, if sp_comp sp k key = 0 then Some (k, v) else None))"

fun rightmost :: "'a tree \<Rightarrow> 'a option" where
  "rightmost Leaf = None"
| "rightmost (Node l x Leaf) = Some x"
| "rightmost (Node l x r) = rightmost r"

fun leftmost :: "'a tree \<Rightarrow> 'a option" where
  "leftmost Leaf = None"
| "leftmost (Node Leaf x r) = Some x"
| "leftmost (Node l x r) = leftmost l"

definition splay_tree_max :: "('k, 'v) splay_tree \<Rightarrow> ('k \<times> 'v) option" where
  "splay_tree_max sp = rightmost (sp_root sp)"

definition splay_tree_min :: "('k, 'v) splay_tree \<Rightarrow> ('k \<times> 'v) option" where
  "splay_tree_min sp = leftmost (sp_root sp)"

definition splay_tree_predecessor ::
  "('k, 'v) splay_tree \<Rightarrow> 'k \<Rightarrow> ('k, 'v) splay_tree \<times> ('k \<times> 'v) option" where
  "splay_tree_predecessor sp key =
     (if sp_root sp = Leaf then (sp, None)
      else let sp = splay_tree_splay sp key
           in case sp_root sp of
                Node l (k, v) r \<Rightarrow> (sp, if sp_comp sp k key < 0 then Some (k, v) else rightmost l)
              | Leaf \<Rightarrow> (sp, None))"

definition splay_tree_successor ::
  "('k, 'v) splay_tree \<Rightarrow> 'k \<Rightarrow> ('k, 'v) splay_tree \<times> ('k \<times> 'v) option" where
  "splay_tree_successor sp key =
     (if sp_root sp = Leaf then (sp, None)
      else let sp = splay_tree_splay sp key
           in case sp_root sp of
                Node l (k, v) r \<Rightarrow> (sp, if sp_comp sp k key > 0 then Some (k, v) else leftmost r)
              | Leaf \<Rightarrow> (sp, None))"

text \<open>The callback of the traversal reads a node and updates the data it is passed.\<close>

fun splay_tree_foreach_helper ::
  "('k \<times> 'v) tree \<Rightarrow> ('k \<Rightarrow> 'v \<Rightarrow> 'd \<Rightarrow> int \<times> 'd) \<Rightarrow> 'd \<Rightarrow> int \<times> 'd" where
  "splay_tree_foreach_helper Leaf fn data = (0, data)"
| "splay_tree_foreach_helper (Node l (k, v) r) fn data =
     (let (val, data) = splay_tree_foreach_helper l fn data
      in if val \<noteq> 0 then (val, data)
         else let (val, data) = fn k v data
              in if val \<noteq> 0 then (val, data) else splay_tree_foreach_helper r fn data)"

definition splay_tree_foreach ::
  "('k, 'v) splay_tree \<Rightarrow> ('k \<Rightarrow> 'v \<Rightarrow> 'd \<Rightarrow> int \<times> 'd) \<Rightarrow> 'd \<Rightarrow> int \<times> 'd" where
  "splay_tree_foreach sp fn data = splay_tree_foreach_helper (sp_root sp) fn data"

text \<open>
  Deallocation. The lists \<open>pending\<close> and \<open>active\<close> are linked through the key fields of their nodes,
  whose keys and values have been disposed of when they enter a list.
\<close>

definition kv_del :: "('k, 'v) splay_tree \<Rightarrow> 'k \<Rightarrow> 'v \<Rightarrow> ('k, 'v) sp_event list" where
  "kv_del sp k v =
     (if sp_delete_key sp then [Delete_Key k] else []) @ (if sp_delete_value sp then [Delete_Value v] else [])"

fun push_pending :: "('k, 'v) splay_tree \<Rightarrow> ('k \<times> 'v) tree \<Rightarrow> ('k \<times> 'v) tree list
    \<Rightarrow> ('k, 'v) sp_event list \<times> ('k \<times> 'v) tree list" where
  "push_pending sp Leaf pending = ([], pending)"
| "push_pending sp (Node l (k, v) r) pending = (kv_del sp k v, Node l (k, v) r # pending)"

fun active_loop :: "('k, 'v) splay_tree \<Rightarrow> ('k \<times> 'v) tree list \<Rightarrow> ('k \<times> 'v) tree list
    \<Rightarrow> ('k, 'v) sp_event list \<times> ('k \<times> 'v) tree list" where
  "active_loop sp [] pending = ([], pending)"
| "active_loop sp (Leaf # active) pending = active_loop sp active pending"
| "active_loop sp (Node l (k, v) r # active) pending =
     (let (e1, pending) = push_pending sp l pending;
          (e2, pending) = push_pending sp r pending;
          (es, pending) = active_loop sp active pending
      in (e1 @ e2 @ [Deallocate k v] @ es, pending))"

abbreviation forest_size :: "'a tree list \<Rightarrow> nat" where
  "forest_size ts \<equiv> sum_list (List.map (\<lambda>t. size t) ts)"

lemma forest_size_push [simp]:
  "push_pending sp t pending = (es, pending') \<Longrightarrow> forest_size pending' = size t + forest_size pending"
  by (cases "(sp, t, pending)" rule: push_pending.cases) auto

lemma forest_size_active_loop:
  "active_loop sp active pending = (es, pending') \<Longrightarrow>
     forest_size pending' + length (List.filter (\<lambda>t. t \<noteq> Leaf) active) = forest_size active + forest_size pending"
  by (induction sp active pending arbitrary: es pending' rule: active_loop.induct)
     (force split: prod.splits)+


text \<open>The outer loop; only nodes are ever pending, so every round frees at least one of them.\<close>

function pending_loop :: "('k, 'v) splay_tree \<Rightarrow> ('k \<times> 'v) tree list \<Rightarrow> ('k, 'v) sp_event list" where
  "pending_loop sp pending =
     (if List.filter (\<lambda>t. t \<noteq> Leaf) pending = [] then []
      else let (es, pending') = active_loop sp pending [] in es @ pending_loop sp pending')"
  by pat_completeness auto

termination pending_loop
proof (relation "measure (\<lambda>(sp, pending). forest_size pending)")
  fix sp :: "('k, 'v) splay_tree" and pending :: "('k \<times> 'v) tree list" and x es pending'
  assume "List.filter (\<lambda>t. t \<noteq> Leaf) pending \<noteq> []" "x = active_loop sp pending []" "(es, pending') = x"
  then show "((sp, pending'), (sp, pending)) \<in> measure (\<lambda>(sp, pending). forest_size pending)"
    using forest_size_active_loop [of sp pending "[]" es pending'] by (cases "List.filter (\<lambda>t. t \<noteq> Leaf) pending") auto
qed simp

definition splay_tree_delete_helper ::
  "('k, 'v) splay_tree \<Rightarrow> ('k \<times> 'v) tree \<Rightarrow> ('k, 'v) sp_event list" where
  "splay_tree_delete_helper sp node =
     (if node = Leaf then []
      else let (es, pending) = push_pending sp node [] in es @ pending_loop sp pending)"

definition splay_tree_delete :: "('k, 'v) splay_tree \<Rightarrow> ('k, 'v) sp_event list" where
  "splay_tree_delete sp = splay_tree_delete_helper sp (sp_root sp) @ [Deallocate_Tree]"

text \<open>The comparison functions of the library, on keys as wide as a pointer.\<close>

definition splay_tree_compare_ints :: "64 word \<Rightarrow> 64 word \<Rightarrow> int" where
  "splay_tree_compare_ints k1 k2 =
     (if sint (ucast k1 :: 32 word) < sint (ucast k2 :: 32 word) then -1
      else if sint (ucast k1 :: 32 word) > sint (ucast k2 :: 32 word) then 1
      else 0)"

definition splay_tree_compare_pointers :: "64 word \<Rightarrow> 64 word \<Rightarrow> int" where
  "splay_tree_compare_pointers k1 k2 = (if k1 < k2 then -1 else if k1 > k2 then 1 else 0)"

section \<open>The inorder sequence\<close>

lemma inorder_rotate [simp]:
  "inorder (rotate_left t) = inorder t" "inorder (rotate_right t) = inorder t"
  by (cases t rule: rotate_left.cases; simp) (cases t rule: rotate_right.cases; simp)

lemma inorder_rotate_child:
  "inorder (Node (rotate_left l) x r) = inorder (Node l x r)"
  "inorder (Node (rotate_right l) x r) = inorder (Node l x r)"
  "inorder (Node l x (rotate_right r)) = inorder (Node l x r)"
  "inorder (Node l x (rotate_left r)) = inorder (Node l x r)"
  by simp_all

text \<open>What one round of the loop does: it stops, stops after a rotation, or goes on with a smaller measure.\<close>

lemma splay_cases:
  obtains (empty) "t = Leaf" "splay cmp key t = Leaf"
  | (stop) l k v r where "t = Node l (k, v) r" "splay cmp key t = t"
      "cmp key k = 0 \<or> cmp key k < 0 \<and> l = Leaf \<or> 0 < cmp key k \<and> r = Leaf"
  | (left) cl ck cv cr k v r where "t = Node (Node cl (ck, cv) cr) (k, v) r" "cmp key k < 0"
      "cmp key ck = 0 \<or> cmp key ck < 0 \<and> cl = Leaf \<or> 0 < cmp key ck \<and> cr = Leaf"
      "splay cmp key t = Node cl (ck, cv) (Node cr (k, v) r)"
  | (right) l k v cl ck cv cr where "t = Node l (k, v) (Node cl (ck, cv) cr)" "0 < cmp key k"
      "cmp key ck = 0 \<or> cmp key ck < 0 \<and> cl = Leaf \<or> 0 < cmp key ck \<and> cr = Leaf"
      "splay cmp key t = Node (Node l (k, v) cl) (ck, cv) cr"
  | (double) t' where "splay cmp key t = splay cmp key t'" "inorder t' = inorder t"
      "splay_measure cmp key t' < splay_measure cmp key t"
proof (cases t)
  case Leaf
  then show ?thesis using empty by simp
next
  case (Node l kv r)
  obtain k v where t: "t = Node l (k, v) r" using Node by (cases kv) simp
  define c where "c = (if cmp key k < 0 then l else r)"
  show ?thesis
  proof (cases "cmp key k = 0 \<or> c = Leaf")
    case True
    then have "splay cmp key t = t" using t by (auto simp: c_def Let_def)
    moreover have "cmp key k = 0 \<or> cmp key k < 0 \<and> l = Leaf \<or> 0 < cmp key k \<and> r = Leaf"
      using True unfolding c_def by (auto split: if_splits)
    ultimately show ?thesis using t stop by blast
  next
    case False
    then obtain cl ck cv cr where c: "c = Node cl (ck, cv) cr" by (metis neq_Leaf_iff surj_pair)
    define halt where "halt \<longleftrightarrow> cmp key ck = 0 \<or> cmp key ck < 0 \<and> cl = Leaf \<or> 0 < cmp key ck \<and> cr = Leaf"
    note halt = halt_def [symmetric]
    have go: "cl \<noteq> Leaf" if "\<not> halt" "cmp key ck < 0" using that by (simp add: halt_def)
    have go': "cr \<noteq> Leaf" "cmp key ck > 0" if "\<not> halt" "\<not> cmp key ck < 0" using that by (auto simp: halt_def)
    show ?thesis
    proof (cases "cmp key k < 0")
      case True
      then have l: "l = Node cl (ck, cv) cr" using c by (simp add: c_def)
      show ?thesis
      proof (cases halt)
        case True
        then show ?thesis
          using t \<open>cmp key k < 0\<close> left [of cl ck cv cr k v r] by (simp add: l Let_def halt)
      next
        case False
        then show ?thesis
          using t \<open>cmp key k < 0\<close> go go' splay_measure_left [where cmp = cmp and key = key and k = k and v = v and r = r
              and ck = ck and cv = cv and cl = cl and cr = cr]
            double [of "rotate_left (Node ((if cmp key ck < 0 then rotate_left else rotate_right) l) (k, v) r)"]
          by (cases "cmp key ck < 0") (simp_all add: l Let_def halt inorder_rotate_child del: rotate_left.simps rotate_right.simps inorder.simps)
      qed
    next
      case False
      then have k: "0 < cmp key k" "r = Node cl (ck, cv) cr"
        using c \<open>\<not> (cmp key k = 0 \<or> c = Leaf)\<close> by (auto simp: c_def)
      show ?thesis
      proof (cases halt)
        case True
        then show ?thesis
          using t k(1) right [of l k v cl ck cv cr] by (simp add: k(2) Let_def halt)
      next
        case False
        then show ?thesis
          using t k(1) go go' splay_measure_right [where cmp = cmp and key = key and k = k and v = v and l = l
              and ck = ck and cv = cv and cl = cl and cr = cr]
            double [of "rotate_right (Node l (k, v) ((if cmp key ck < 0 then rotate_left else rotate_right) r))"]
          by (cases "cmp key ck < 0") (simp_all add: k(2) Let_def halt inorder_rotate_child del: rotate_left.simps rotate_right.simps inorder.simps)
      qed
    qed
  qed
qed

lemma inorder_splay [simp]: "inorder (splay cmp key t) = inorder t"
proof (induction "splay_measure cmp key t" arbitrary: t rule: less_induct)
  case less
  show ?case by (rule splay_cases [of t cmp key]) (auto simp: less)
qed

text \<open>
  The sequence of the tree is sorted strictly by the comparison function, and then splaying leaves
  the key or a neighbour of the key at the root.
\<close>

definition sp_sorted :: "('k \<Rightarrow> 'k \<Rightarrow> int) \<Rightarrow> ('k \<times> 'v) list \<Rightarrow> bool" where
  "sp_sorted cmp kvs \<longleftrightarrow> sorted_wrt (\<lambda>a b. cmp (fst a) (fst b) < 0) kvs"

definition sp_get :: "('k, 'v) splay_tree \<Rightarrow> 'k \<Rightarrow> ('k \<times> 'v) option" where
  "sp_get sp key = List.find (\<lambda>kv. sp_comp sp key (fst kv) = 0) (inorder (sp_root sp))"

fun root_near :: "('k \<Rightarrow> 'k \<Rightarrow> int) \<Rightarrow> 'k \<Rightarrow> ('k \<times> 'v) tree \<Rightarrow> bool" where
  "root_near cmp key Leaf = True"
| "root_near cmp key (Node l (k, v) r) =
     ((cmp key k < 0 \<longrightarrow> (\<forall>x\<in>set_tree l. 0 < cmp key (fst x))) \<and>
      (0 < cmp key k \<longrightarrow> (\<forall>x\<in>set_tree r. cmp key (fst x) < 0)))"

locale comparator =
  fixes cmp :: "'k \<Rightarrow> 'k \<Rightarrow> int"
  assumes cmp_sym: "0 < cmp a b \<longleftrightarrow> cmp b a < 0"
    and cmp_trans: "cmp a b < 0 \<Longrightarrow> cmp b c < 0 \<Longrightarrow> cmp a c < 0"
    and cmp_cong: "cmp a b = 0 \<Longrightarrow> cmp b c < 0 \<Longrightarrow> cmp a c < 0"
begin

lemma cmp_zero_sym: "cmp a b = 0 \<longleftrightarrow> cmp b a = 0"
  using cmp_sym [of a b] cmp_sym [of b a] by linarith

lemma cmp_neg_pos: "cmp a b < 0 \<longleftrightarrow> 0 < cmp b a"
  by (simp add: cmp_sym)

lemma cmp_pos_trans: "0 < cmp a b \<Longrightarrow> cmp c b < 0 \<Longrightarrow> 0 < cmp a c"
  using cmp_trans [of c b a] by (simp add: cmp_sym)

lemma cmp_refl [simp]: "cmp a a = 0"
  using cmp_sym [of a a] by linarith

lemma cmp_cong_right:
  assumes "cmp a b = 0" "cmp c b < 0"
  shows "cmp c a < 0"
proof (rule ccontr)
  assume "\<not> cmp c a < 0"
  then consider "cmp a c = 0" | "cmp a c < 0"
    using cmp_sym [of c a] cmp_zero_sym [of c a] by linarith
  then show False
    using assms cmp_cong [of a c b] cmp_trans [of a c b] by cases auto
qed

lemma cmp_zero_trans:
  assumes "cmp a b = 0" "cmp b c = 0"
  shows "cmp a c = 0"
proof (rule ccontr)
  assume "cmp a c \<noteq> 0"
  then consider "cmp a c < 0" | "cmp c a < 0"
    using cmp_sym [of a c] by linarith
  then show False
    using assms cmp_cong [of b a c] cmp_cong [of b c a] cmp_zero_sym by cases force+
qed

lemma sp_sorted_simps [simp]:
  "sp_sorted cmp []"
  "sp_sorted cmp (x # xs) \<longleftrightarrow> (\<forall>y\<in>set xs. cmp (fst x) (fst y) < 0) \<and> sp_sorted cmp xs"
  "sp_sorted cmp (xs @ ys) \<longleftrightarrow>
     sp_sorted cmp xs \<and> sp_sorted cmp ys \<and> (\<forall>x\<in>set xs. \<forall>y\<in>set ys. cmp (fst x) (fst y) < 0)"
  by (auto simp: sp_sorted_def sorted_wrt_append)

lemma root_near_splay:
  "sp_sorted cmp (inorder t) \<Longrightarrow> root_near cmp key (splay cmp key t)"
proof (induction "splay_measure cmp key t" arbitrary: t rule: less_induct)
  case less
  show ?case
  proof (cases rule: splay_cases [of t cmp key])
    case (double t')
    then show ?thesis using less by simp
  next
    case (left cl ck cv cr k v r)
    then show ?thesis using less.prems by (auto dest: cmp_trans)
  next
    case (right l k v cl ck cv cr)
    then show ?thesis using less.prems by (auto dest: cmp_pos_trans)
  qed (auto)
qed

end


section \<open>The operations on the sequence\<close>

lemma sp_comp_splay [simp]: "sp_comp (splay_tree_splay sp key) = sp_comp sp"
  by (simp add: splay_tree_splay_def)

lemma inorder_splay_tree_splay [simp]: "inorder (sp_root (splay_tree_splay sp key)) = inorder (sp_root sp)"
  by (simp add: splay_tree_splay_def)

lemma hang_inorder [simp]: "inorder (hang t rt) = inorder t @ inorder rt"
  by (induction t rt rule: hang.induct) auto

lemma rightmost_inorder: "rightmost t = (if t = Leaf then None else Some (last (inorder t)))"
  by (induction t rule: rightmost.induct) auto

lemma leftmost_inorder: "leftmost t = (if t = Leaf then None else Some (hd (inorder t)))"
  by (induction t rule: leftmost.induct) (auto simp: hd_append)

definition sp_store :: "('k \<Rightarrow> 'k \<Rightarrow> int) \<Rightarrow> ('k, 'v) splay_tree \<Rightarrow> bool" where
  "sp_store cmp sp \<longleftrightarrow> sp_comp sp = cmp \<and> sp_sorted cmp (inorder (sp_root sp))"

context comparator
begin

lemma sp_find_iff:
  "sp_sorted cmp kvs \<Longrightarrow>
     List.find (\<lambda>kv. cmp key (fst kv) = 0) kvs = Some x \<longleftrightarrow> x \<in> set kvs \<and> cmp key (fst x) = 0"
proof (induction kvs)
  case (Cons y ys)
  have "x \<notin> set ys" if "cmp key (fst x) = 0" "cmp key (fst y) = 0"
    using that Cons.prems cmp_zero_trans [of "fst y" key "fst x"] cmp_zero_sym by force
  then show ?case using Cons by auto
qed simp

lemma sp_get_iff:
  "sp_store cmp sp \<Longrightarrow> sp_get sp key = Some x \<longleftrightarrow> x \<in> set_tree (sp_root sp) \<and> cmp key (fst x) = 0"
  by (auto simp: sp_get_def sp_store_def sp_find_iff)

lemma sp_get_None_iff:
  "sp_store cmp sp \<Longrightarrow> sp_get sp key = None \<longleftrightarrow> (\<forall>x\<in>set_tree (sp_root sp). cmp key (fst x) \<noteq> 0)"
  by (auto simp: sp_get_def sp_store_def find_None_iff)

text \<open>After splaying, everything left of the root is below the key, everything right of it above.\<close>

lemma splay_root:
  assumes "sp_store cmp sp" "sp_root (splay_tree_splay sp key) = Node l (k, v) r"
  shows "inorder (sp_root sp) = inorder l @ (k, v) # inorder r"
    and "x \<in> set_tree l \<Longrightarrow> cmp (fst x) key < 0"
    and "x \<in> set_tree r \<Longrightarrow> cmp key (fst x) < 0"
proof -
  have sp: "splay cmp key (sp_root sp) = Node l (k, v) r"
    using assms by (simp add: splay_tree_splay_def sp_store_def)
  show inord: "inorder (sp_root sp) = inorder l @ (k, v) # inorder r"
    using inorder_splay [of cmp key "sp_root sp"] by (simp add: sp)
  have near: "root_near cmp key (Node l (k, v) r)"
    using assms root_near_splay [of "sp_root sp" key] by (auto simp: sp sp_store_def)
  have sorted: "sp_sorted cmp (inorder l @ (k, v) # inorder r)"
    using assms by (simp add: sp_store_def flip: inord)
  show "cmp (fst x) key < 0" if "x \<in> set_tree l"
  proof -
    have "cmp (fst x) k < 0" using sorted that by auto
    then show ?thesis
      using near that cmp_trans [of "fst x" k key] cmp_cong_right [of key k "fst x"]
      by (cases "cmp key k" "0 :: int" rule: linorder_cases) (auto simp: cmp_neg_pos)
  qed
  show "cmp key (fst x) < 0" if "x \<in> set_tree r"
  proof -
    have "cmp k (fst x) < 0" using sorted that by auto
    then show ?thesis
      using near that cmp_trans [of key k "fst x"] cmp_cong [of key k "fst x"]
      by (cases "cmp key k" "0 :: int" rule: linorder_cases) auto
  qed
qed

end


text \<open>
  A store of values under keys: keys are compared up to an equivalence, and finding a key may
  reorganise the store.
\<close>

datatype ('k, 'v) store_op = Put 'k 'v | Del 'k | Find 'k

fun store_spec :: "('k \<Rightarrow> 'k \<Rightarrow> bool) \<Rightarrow> ('k, 'v) store_op \<Rightarrow> ('k \<rightharpoonup> 'v) \<Rightarrow> ('k \<rightharpoonup> 'v)" where
  "store_spec eqv (Put k v) m = (\<lambda>k'. if eqv k k' then Some v else m k')"
| "store_spec eqv (Del k) m = (\<lambda>k'. if eqv k k' then None else m k')"
| "store_spec eqv (Find k) m = m"

fun store_run :: "('s \<Rightarrow> 'k \<Rightarrow> 'v \<Rightarrow> 's) \<Rightarrow> ('s \<Rightarrow> 'k \<Rightarrow> 's) \<Rightarrow> ('s \<Rightarrow> 'k \<Rightarrow> 's \<times> 'r)
    \<Rightarrow> ('k, 'v) store_op \<Rightarrow> 's \<Rightarrow> 's" where
  "store_run put del look (Put k v) s = put s k v"
| "store_run put del look (Del k) s = del s k"
| "store_run put del look (Find k) s = fst (look s k)"

locale keyed_store =
  fixes eqv :: "'k \<Rightarrow> 'k \<Rightarrow> bool"
    and valid :: "'s \<Rightarrow> bool"
    and get :: "'s \<Rightarrow> 'k \<rightharpoonup> 'k \<times> 'v"
    and put :: "'s \<Rightarrow> 'k \<Rightarrow> 'v \<Rightarrow> 's"
    and del :: "'s \<Rightarrow> 'k \<Rightarrow> 's"
    and look :: "'s \<Rightarrow> 'k \<Rightarrow> 's \<times> ('k \<times> 'v) option"
  assumes put_valid: "valid s \<Longrightarrow> valid (put s k v)"
    and del_valid: "valid s \<Longrightarrow> valid (del s k)"
    and look_valid: "valid s \<Longrightarrow> valid (fst (look s k))"
    and get_put: "valid s \<Longrightarrow> map_option snd (get (put s k v) k') =
          (if eqv k k' then Some v else map_option snd (get s k'))"
    and get_del: "valid s \<Longrightarrow> get (del s k) k' = (if eqv k k' then None else get s k')"
    and get_look: "valid s \<Longrightarrow> get (fst (look s k)) k' = get s k'"
    and look_result: "valid s \<Longrightarrow> snd (look s k) = get s k"
begin

lemma run_valid: "valid s \<Longrightarrow> valid (store_run put del look op s)"
  by (cases op) (simp_all add: put_valid del_valid look_valid)

lemma run_spec:
  "valid s \<Longrightarrow> (\<lambda>k. map_option snd (get (store_run put del look op s) k)) =
     store_spec eqv op (\<lambda>k. map_option snd (get s k))"
  by (cases op) (auto simp: get_put get_del get_look)

lemma runs_spec:
  "valid s \<Longrightarrow> valid (fold (store_run put del look) ops s) \<and>
     (\<lambda>k. map_option snd (get (fold (store_run put del look) ops s) k)) =
       fold (store_spec eqv) ops (\<lambda>k. map_option snd (get s k))"
  by (induction ops arbitrary: s) (simp_all add: run_valid run_spec)

text \<open>What a search answers after any sequence of operations.\<close>

lemma look_after_runs:
  "valid s \<Longrightarrow> map_option snd (snd (look (fold (store_run put del look) ops s) k)) =
     fold (store_spec eqv) ops (\<lambda>k. map_option snd (get s k)) k"
  using runs_spec [of s ops] by (auto simp: look_result fun_eq_iff)

end

context comparator
begin

lemma store_splay:
  "sp_store cmp (splay_tree_splay sp key) \<longleftrightarrow> sp_store cmp sp"
  "sp_get (splay_tree_splay sp key) k = sp_get sp k"
  by (simp_all add: sp_store_def sp_get_def)

lemma splay_Leaf:
  "sp_root (splay_tree_splay sp key) = Leaf \<longleftrightarrow> sp_root sp = Leaf"
  using inorder_splay_tree_splay [of sp key] by (metis eq_inorder_Nil)

lemma splay_set:
  assumes "sp_store cmp sp" "sp_root (splay_tree_splay sp key) = Node l (k, v) r"
  shows "set_tree (sp_root sp) = insert (k, v) (set_tree l \<union> set_tree r)"
  using arg_cong [OF splay_root(1) [OF assms], of set] by auto

lemma splay_get:
  assumes "sp_store cmp sp" "sp_root (splay_tree_splay sp key) = Node l (k, v) r"
  shows "sp_get sp key = (if cmp k key = 0 then Some (k, v) else None)"
proof (cases "cmp k key = 0")
  case True
  then show ?thesis using assms by (simp add: sp_get_iff splay_set cmp_zero_sym)
next
  case False
  moreover have "cmp key (fst x) \<noteq> 0" if "x \<in> set_tree l \<union> set_tree r" for x
    using that splay_root(2,3) [OF assms, of x] cmp_zero_sym [of key "fst x"] by fastforce
  ultimately show ?thesis
    using assms by (auto simp: sp_get_None_iff splay_set cmp_zero_sym)
qed

lemma store_insert:
  assumes "sp_store cmp sp"
  shows "sp_store cmp (fst (splay_tree_insert sp key val)) \<and>
    set_tree (sp_root (fst (splay_tree_insert sp key val))) =
      insert (case sp_get sp key of None \<Rightarrow> key | Some (k, v) \<Rightarrow> k, val)
        {x \<in> set_tree (sp_root sp). cmp key (fst x) \<noteq> 0}"
proof (cases "sp_root (splay_tree_splay sp key)")
  case Leaf
  moreover have "sp_root sp = Leaf" using Leaf by (simp add: splay_Leaf)
  ultimately show ?thesis
    using assms by (simp add: splay_tree_insert_def Let_def sp_store_def sp_get_def)
next
  case (Node l kv r)
  obtain k v where root: "sp_root (splay_tree_splay sp key) = Node l (k, v) r" using Node by (cases kv) simp
  note facts = splay_root [OF assms root] splay_set [OF assms root] splay_get [OF assms root]
  have sorted: "sp_sorted cmp (inorder l @ (k, v) # inorder r)"
    using assms by (simp add: sp_store_def flip: facts(1))
  have comp: "sp_comp sp = cmp" using assms by (simp add: sp_store_def)
  have far: "cmp key (fst x) \<noteq> 0" if "x \<in> set_tree l \<union> set_tree r" for x
    using that facts(2,3) [of x] cmp_zero_sym [of key "fst x"] by fastforce
  consider "cmp k key = 0" | "cmp k key < 0" | "0 < cmp k key" by linarith
  then show ?thesis
  proof cases
    case 1
    then have "fst (splay_tree_insert sp key val) =
          (splay_tree_splay sp key)\<lparr>sp_root := Node l (k, val) r\<rparr>"
      by (simp add: splay_tree_insert_def Let_def root comp)
    then show ?thesis
      using 1 sorted far by (auto simp: sp_store_def comp facts(4,5) cmp_zero_sym)
  next
    case 2
    then have "fst (splay_tree_insert sp key val) =
          (splay_tree_splay sp key)\<lparr>sp_root := Node (Node l (k, v) Leaf) (key, val) r\<rparr>"
      by (simp add: splay_tree_insert_def Let_def root comp)
    then show ?thesis
      using 2 sorted far facts(2,3) by (auto simp: sp_store_def comp facts(4,5) cmp_zero_sym)
  next
    case 3
    then have "fst (splay_tree_insert sp key val) =
          (splay_tree_splay sp key)\<lparr>sp_root := Node l (key, val) (Node Leaf (k, v) r)\<rparr>"
      by (simp add: splay_tree_insert_def Let_def root comp)
    then show ?thesis
      using 3 sorted far facts(2,3) by (auto simp: sp_store_def comp facts(4,5) cmp_zero_sym cmp_neg_pos)
  qed
qed

lemma store_remove:
  assumes "sp_store cmp sp"
  shows "sp_store cmp (fst (splay_tree_remove sp key)) \<and>
    set_tree (sp_root (fst (splay_tree_remove sp key))) =
      {x \<in> set_tree (sp_root sp). cmp key (fst x) \<noteq> 0}"
proof (cases "sp_root (splay_tree_splay sp key)")
  case Leaf
  moreover have "sp_root sp = Leaf" using Leaf by (simp add: splay_Leaf)
  ultimately show ?thesis
    using assms by (simp add: splay_tree_remove_def Let_def sp_store_def)
next
  case (Node l kv r)
  obtain k v where root: "sp_root (splay_tree_splay sp key) = Node l (k, v) r" using Node by (cases kv) simp
  note facts = splay_root [OF assms root] splay_set [OF assms root] splay_get [OF assms root]
  have comp: "sp_comp sp = cmp" using assms by (simp add: sp_store_def)
  have far: "cmp key (fst x) \<noteq> 0" if "x \<in> set_tree l \<union> set_tree r" for x
    using that facts(2,3) [of x] cmp_zero_sym [of key "fst x"] by fastforce
  show ?thesis
  proof (cases "cmp k key = 0")
    case True
    define t where "t = (if l \<noteq> Leaf then if r \<noteq> Leaf then hang l r else l else r)"
    have "fst (splay_tree_remove sp key) = (splay_tree_splay sp key)\<lparr>sp_root := t\<rparr>"
      using True by (simp add: splay_tree_remove_def Let_def root comp t_def)
    moreover have t: "inorder t = inorder l @ inorder r" by (simp add: t_def)
    moreover have "set_tree t = set_tree l \<union> set_tree r"
      using arg_cong [OF t, of set] by simp
    moreover have "sp_sorted cmp (inorder l @ inorder r)"
      using assms by (simp add: sp_store_def facts(1))
    ultimately show ?thesis
      using True far by (auto simp: sp_store_def comp facts(4) cmp_zero_sym)
  next
    case False
    then have "fst (splay_tree_remove sp key) = splay_tree_splay sp key"
      by (simp add: splay_tree_remove_def Let_def root comp)
    then show ?thesis
      using False far assms facts(4) root by (auto simp: store_splay cmp_zero_sym)
  qed
qed

lemma store_lookup:
  assumes "sp_store cmp sp"
  shows "splay_tree_lookup sp key = (splay_tree_splay sp key, sp_get sp key)"
proof (cases "sp_root (splay_tree_splay sp key)")
  case Leaf
  then show ?thesis
    using splay_Leaf [of sp key] by (simp add: splay_tree_lookup_def Let_def sp_get_def)
next
  case (Node l kv r)
  then show ?thesis
    using splay_get [OF assms, of key l "fst kv" "snd kv" r] assms
    by (simp add: splay_tree_lookup_def Let_def sp_store_def split: prod.splits)
qed

lemma get_insert:
  assumes "sp_store cmp sp"
  shows "sp_get (fst (splay_tree_insert sp key val)) k =
    (if cmp key k = 0 then Some (case sp_get sp key of None \<Rightarrow> key | Some (k0, v) \<Rightarrow> k0, val) else sp_get sp k)"
proof -
  define k0 where "k0 = (case sp_get sp key of None \<Rightarrow> key | Some (k0, v) \<Rightarrow> k0)"
  note ins = store_insert [OF assms, of key val, folded k0_def]
  have k0: "cmp key k0 = 0"
    using assms sp_get_iff [of sp key] by (auto simp: k0_def split: option.splits)
  have k: "cmp k k0 = 0 \<longleftrightarrow> cmp key k = 0"
    using k0 cmp_zero_trans cmp_zero_sym by metis
  show ?thesis
  proof (cases "cmp key k = 0")
    case True
    then show ?thesis using ins k by (simp add: sp_get_iff k0_def)
  next
    case False
    have "sp_get (fst (splay_tree_insert sp key val)) k = Some x \<longleftrightarrow> sp_get sp k = Some x" for x
      using False ins k assms cmp_zero_trans [of key "fst x" k] cmp_zero_sym [of k "fst x"]
      by (auto simp: sp_get_iff)
    then show ?thesis using False by (metis option.exhaust)
  qed
qed

lemma get_remove:
  assumes "sp_store cmp sp"
  shows "sp_get (fst (splay_tree_remove sp key)) k = (if cmp key k = 0 then None else sp_get sp k)"
proof -
  have "sp_get (fst (splay_tree_remove sp key)) k = Some x \<longleftrightarrow>
      sp_get sp k = Some x \<and> cmp key k \<noteq> 0" for x
    using store_remove [OF assms, of key] assms cmp_zero_trans [of key "fst x" k] cmp_zero_trans [of key k "fst x"]
      cmp_zero_sym [of k "fst x"]
    by (auto simp: sp_get_iff)
  then show ?thesis by (metis (full_types) option.exhaust)
qed

end

sublocale comparator \<subseteq> splay: keyed_store "\<lambda>a b. cmp a b = 0" "sp_store cmp" sp_get
  "\<lambda>sp k v. fst (splay_tree_insert sp k v)" "\<lambda>sp k. fst (splay_tree_remove sp k)" splay_tree_lookup
  by unfold_locales
     (simp_all add: store_insert store_remove store_lookup store_splay get_insert get_remove)

text \<open>The comparison functions of the library satisfy the contract.\<close>

interpretation ints: comparator splay_tree_compare_ints
  by unfold_locales (auto simp: splay_tree_compare_ints_def split: if_splits)

interpretation pointers: comparator splay_tree_compare_pointers
  by unfold_locales (auto simp: splay_tree_compare_pointers_def split: if_splits)


section \<open>Neighbours of a key\<close>

definition sp_below :: "('k, 'v) splay_tree \<Rightarrow> 'k \<Rightarrow> ('k \<times> 'v) list" where
  "sp_below sp key = List.filter (\<lambda>kv. sp_comp sp (fst kv) key < 0) (inorder (sp_root sp))"

definition sp_above :: "('k, 'v) splay_tree \<Rightarrow> 'k \<Rightarrow> ('k \<times> 'v) list" where
  "sp_above sp key = List.filter (\<lambda>kv. 0 < sp_comp sp (fst kv) key) (inorder (sp_root sp))"

context comparator
begin

lemma splay_below_above:
  assumes "sp_store cmp sp" "sp_root (splay_tree_splay sp key) = Node l (k, v) r"
  shows "sp_below sp key = inorder l @ (if cmp k key < 0 then [(k, v)] else [])"
    and "sp_above sp key = (if 0 < cmp k key then [(k, v)] else []) @ inorder r"
proof -
  note facts = splay_root [OF assms]
  have comp: "sp_comp sp = cmp" using assms by (simp add: sp_store_def)
  have l: "cmp (fst x) key < 0" "\<not> 0 < cmp (fst x) key" if "x \<in> set_tree l" for x
    using facts(2) [OF that] by simp_all
  have r: "\<not> cmp (fst x) key < 0" "0 < cmp (fst x) key" if "x \<in> set_tree r" for x
    using facts(3) [OF that] cmp_sym [of "fst x" key] by simp_all
  show "sp_below sp key = inorder l @ (if cmp k key < 0 then [(k, v)] else [])"
    "sp_above sp key = (if 0 < cmp k key then [(k, v)] else []) @ inorder r"
    using l r by (simp_all add: sp_below_def sp_above_def comp facts(1) filter_empty_conv filter_id_conv)
qed

lemma predecessor_below:
  assumes "sp_store cmp sp"
  shows "snd (splay_tree_predecessor sp key) =
           (if sp_below sp key = [] then None else Some (last (sp_below sp key)))"
    and "snd (splay_tree_successor sp key) =
           (if sp_above sp key = [] then None else Some (hd (sp_above sp key)))"
proof -
  have comp: "sp_comp sp = cmp" using assms by (simp add: sp_store_def)
  have "snd (splay_tree_predecessor sp key) =
           (if sp_below sp key = [] then None else Some (last (sp_below sp key))) \<and>
        snd (splay_tree_successor sp key) =
           (if sp_above sp key = [] then None else Some (hd (sp_above sp key)))"
  proof (cases "sp_root (splay_tree_splay sp key)")
    case Leaf
    then have "sp_root sp = Leaf" by (simp add: splay_Leaf)
    then show ?thesis
      by (simp add: splay_tree_predecessor_def splay_tree_successor_def sp_below_def sp_above_def)
  next
    case (Node l kv r)
    obtain k v where root: "sp_root (splay_tree_splay sp key) = Node l (k, v) r" using Node by (cases kv) simp
    moreover have "sp_root sp \<noteq> Leaf" using root splay_Leaf [of sp key] by auto
    ultimately show ?thesis
      by (simp add: splay_tree_predecessor_def splay_tree_successor_def Let_def root comp
          splay_below_above [OF assms root] rightmost_inorder leftmost_inorder)
  qed
  then show "snd (splay_tree_predecessor sp key) =
           (if sp_below sp key = [] then None else Some (last (sp_below sp key)))"
    "snd (splay_tree_successor sp key) =
           (if sp_above sp key = [] then None else Some (hd (sp_above sp key)))"
    by blast+
qed

end

section \<open>Traversal and deallocation\<close>

fun foreach_list :: "('k \<Rightarrow> 'v \<Rightarrow> 'd \<Rightarrow> int \<times> 'd) \<Rightarrow> ('k \<times> 'v) list \<Rightarrow> 'd \<Rightarrow> int \<times> 'd" where
  "foreach_list fn [] data = (0, data)"
| "foreach_list fn ((k, v) # kvs) data =
     (let (val, data) = fn k v data in if val \<noteq> 0 then (val, data) else foreach_list fn kvs data)"

lemma foreach_list_append:
  "foreach_list fn (xs @ ys) data =
     (let (val, data) = foreach_list fn xs data in if val \<noteq> 0 then (val, data) else foreach_list fn ys data)"
  by (induction fn xs data rule: foreach_list.induct) (auto split: prod.splits)

lemma foreach_helper_inorder: "splay_tree_foreach_helper t fn data = foreach_list fn (inorder t) data"
  by (induction t fn data rule: splay_tree_foreach_helper.induct)
     (auto simp: foreach_list_append split: prod.splits)

text \<open>The keys and values disposed of and the nodes freed by a list of events.\<close>

fun keys_of :: "('k, 'v) sp_event list \<Rightarrow> 'k multiset" where
  "keys_of [] = {#}"
| "keys_of (Delete_Key k # es) = add_mset k (keys_of es)"
| "keys_of (_ # es) = keys_of es"

fun values_of :: "('k, 'v) sp_event list \<Rightarrow> 'v multiset" where
  "values_of [] = {#}"
| "values_of (Delete_Value v # es) = add_mset v (values_of es)"
| "values_of (_ # es) = values_of es"

fun nodes_of :: "('k, 'v) sp_event list \<Rightarrow> ('k \<times> 'v) multiset" where
  "nodes_of [] = {#}"
| "nodes_of (Deallocate k v # es) = add_mset (k, v) (nodes_of es)"
| "nodes_of (_ # es) = nodes_of es"

lemma events_append [simp]:
  "keys_of (es @ fs) = keys_of es + keys_of fs"
  "values_of (es @ fs) = values_of es + values_of fs"
  "nodes_of (es @ fs) = nodes_of es + nodes_of fs"
  subgoal by (induction es rule: keys_of.induct) simp_all
  subgoal by (induction es rule: values_of.induct) simp_all
  subgoal by (induction es rule: nodes_of.induct) simp_all
  done

text \<open>The nodes of a list of trees, and the nodes strictly below the roots.\<close>

fun forest :: "'a tree list \<Rightarrow> 'a multiset" where
  "forest [] = {#}"
| "forest (t # ts) = mset (inorder t) + forest ts"

fun inner :: "'a tree list \<Rightarrow> 'a multiset" where
  "inner [] = {#}"
| "inner (Leaf # ts) = inner ts"
| "inner (Node l x r # ts) = mset (inorder l) + mset (inorder r) + inner ts"

text \<open>What the callbacks have to be called for.\<close>

definition keys_due :: "('k, 'v) splay_tree \<Rightarrow> ('k \<times> 'v) multiset \<Rightarrow> 'k multiset" where
  "keys_due sp M = (if sp_delete_key sp then image_mset fst M else {#})"

definition values_due :: "('k, 'v) splay_tree \<Rightarrow> ('k \<times> 'v) multiset \<Rightarrow> 'v multiset" where
  "values_due sp M = (if sp_delete_value sp then image_mset snd M else {#})"

lemma due_add [simp]:
  "keys_due sp {#} = {#}" "keys_due sp (M + N) = keys_due sp M + keys_due sp N"
  "values_due sp {#} = {#}" "values_due sp (M + N) = values_due sp M + values_due sp N"
  by (simp_all add: keys_due_def values_due_def)

lemma kv_del_events [simp]:
  "keys_of (kv_del sp k v) = keys_due sp {#(k, v)#}"
  "values_of (kv_del sp k v) = values_due sp {#(k, v)#}"
  "nodes_of (kv_del sp k v) = {#}"
  by (simp_all add: kv_del_def keys_due_def values_due_def)

lemma push_pending_events:
  assumes "push_pending sp t pending = (es, pending')"
  shows "nodes_of es = {#}" "forest pending' = mset (inorder t) + forest pending"
    and "keys_of es + keys_due sp (inner pending') = keys_due sp (mset (inorder t)) + keys_due sp (inner pending)"
    and "values_of es + values_due sp (inner pending') =
      values_due sp (mset (inorder t)) + values_due sp (inner pending)"
  using assms by (cases "(sp, t, pending)" rule: push_pending.cases;
      auto simp: keys_due_def values_due_def)+

lemma mset_chain:
  fixes i0 i1 i2 i3 :: "'a multiset"
  assumes "k1 + i1 = l + i0" "k2 + i2 = r + i1" "k3 + i3 = a + i2"
  shows "k1 + (k2 + (k3 + i3)) = l + r + a + i0"
proof (rule multiset_eqI)
  fix x
  show "count (k1 + (k2 + (k3 + i3))) x = count (l + r + a + i0) x"
    using arg_cong [OF assms(1), of "\<lambda>M. count M x"] arg_cong [OF assms(2), of "\<lambda>M. count M x"]
      arg_cong [OF assms(3), of "\<lambda>M. count M x"] by simp
qed

lemma active_loop_events:
  "active_loop sp active pending = (es, pending') \<Longrightarrow>
     nodes_of es + forest pending' = forest active + forest pending \<and>
     keys_of es + keys_due sp (inner pending') = keys_due sp (inner active) + keys_due sp (inner pending) \<and>
     values_of es + values_due sp (inner pending') = values_due sp (inner active) + values_due sp (inner pending)"
proof (induction sp active pending arbitrary: es pending' rule: active_loop.induct)
  case (3 sp l k v r active pending)
  obtain e1 p1 where 1: "push_pending sp l pending = (e1, p1)" by fastforce
  obtain e2 p2 where 2: "push_pending sp r p1 = (e2, p2)" by fastforce
  obtain e3 p3 where 3: "active_loop sp active p2 = (e3, p3)" by fastforce
  have es: "es = e1 @ e2 @ [Deallocate k v] @ e3" "pending' = p3"
    using "3.prems" by (simp_all add: 1 2 3)
  note ev = push_pending_events [OF 1] push_pending_events [OF 2]
    "3.IH" [OF 1 [symmetric] refl 2 [symmetric] refl 3]
  have "nodes_of es + forest pending' = forest (Node l (k, v) r # active) + forest pending"
    using conjunct1 [OF ev(9)] by (simp add: es ev)
  moreover have "keys_of es + keys_due sp (inner pending') =
      keys_due sp (inner (Node l (k, v) r # active)) + keys_due sp (inner pending)"
    using mset_chain [OF ev(3,7) conjunct1 [OF conjunct2 [OF ev(9)]]] by (simp add: es add.assoc)
  moreover have "values_of es + values_due sp (inner pending') =
      values_due sp (inner (Node l (k, v) r # active)) + values_due sp (inner pending)"
    using mset_chain [OF ev(4,8) conjunct2 [OF conjunct2 [OF ev(9)]]] by (simp add: es add.assoc)
  ultimately show ?case by blast
qed auto

declare pending_loop.simps [simp del]

lemma no_nodes: "List.filter (\<lambda>t. t \<noteq> Leaf) ts = [] \<Longrightarrow> forest ts = {#} \<and> inner ts = {#}"
  by (induction ts rule: inner.induct) auto

lemma pending_loop_events:
  "nodes_of (pending_loop sp pending) = forest pending \<and>
   keys_of (pending_loop sp pending) = keys_due sp (inner pending) \<and>
   values_of (pending_loop sp pending) = values_due sp (inner pending)"
proof (induction sp pending rule: pending_loop.induct)
  case (1 sp pending)
  obtain es pending' where loop: "active_loop sp pending [] = (es, pending')" by fastforce
  show ?case
  proof (cases "List.filter (\<lambda>t. t \<noteq> Leaf) pending = []")
    case True
    then show ?thesis by (simp add: no_nodes pending_loop.simps)
  next
    case False
    have "pending_loop sp pending = es @ pending_loop sp pending'"
      using False by (subst pending_loop.simps) (simp add: loop)
    then show ?thesis
      using "1.IH" [OF False loop [symmetric] refl] active_loop_events [OF loop] by simp
  qed
qed

lemma delete_events:
  "nodes_of (splay_tree_delete_helper sp t) = mset (inorder t)"
  "keys_of (splay_tree_delete_helper sp t) = keys_due sp (mset (inorder t))"
  "values_of (splay_tree_delete_helper sp t) = values_due sp (mset (inorder t))"
proof -
  obtain es pending where push: "push_pending sp t [] = (es, pending)" by fastforce
  note ev = push_pending_events [OF push] pending_loop_events [of sp pending]
  show "nodes_of (splay_tree_delete_helper sp t) = mset (inorder t)"
    "keys_of (splay_tree_delete_helper sp t) = keys_due sp (mset (inorder t))"
    "values_of (splay_tree_delete_helper sp t) = values_due sp (mset (inorder t))"
    using ev by (simp_all add: splay_tree_delete_helper_def push)
qed

text \<open>
  No node is freed before its key has been disposed of: \<open>credit\<close> runs through the events with the
  keys that have been disposed of and whose nodes are still there.
\<close>

fun credit :: "'k multiset \<Rightarrow> ('k, 'v) sp_event list \<Rightarrow> 'k multiset option" where
  "credit K [] = Some K"
| "credit K (Delete_Key k # es) = credit (add_mset k K) es"
| "credit K (Deallocate k v # es) = (if k \<in># K then credit (K - {#k#}) es else None)"
| "credit K (_ # es) = credit K es"

fun root_keys :: "('k \<times> 'v) tree list \<Rightarrow> 'k multiset" where
  "root_keys [] = {#}"
| "root_keys (Leaf # ts) = root_keys ts"
| "root_keys (Node l (k, v) r # ts) = add_mset k (root_keys ts)"

lemma credit_append:
  "credit K (es @ fs) = (case credit K es of None \<Rightarrow> None | Some K' \<Rightarrow> credit K' fs)"
  by (induction K es rule: credit.induct) auto

lemma credit_push:
  "sp_delete_key sp \<Longrightarrow> push_pending sp t pending = (es, pending') \<Longrightarrow>
     credit (root_keys pending + K) es = Some (root_keys pending' + K)"
  by (cases "(sp, t, pending)" rule: push_pending.cases) (auto simp: kv_del_def)

lemma credit_active_loop:
  "sp_delete_key sp \<Longrightarrow> active_loop sp active pending = (es, pending') \<Longrightarrow>
     credit (root_keys pending + (root_keys active + K)) es = Some (root_keys pending' + K)"
proof (induction sp active pending arbitrary: es pending' rule: active_loop.induct)
  case (3 sp l k v r active pending)
  obtain e1 p1 where 1: "push_pending sp l pending = (e1, p1)" by fastforce
  obtain e2 p2 where 2: "push_pending sp r p1 = (e2, p2)" by fastforce
  obtain e3 p3 where 3: "active_loop sp active p2 = (e3, p3)" by fastforce
  have es: "es = e1 @ e2 @ [Deallocate k v] @ e3" "pending' = p3"
    using "3.prems" by (simp_all add: 1 2 3)
  note IH = "3.IH" [OF 1 [symmetric] refl 2 [symmetric] refl "3.prems"(1) 3]
  show ?case
    using credit_push [OF "3.prems"(1) 1, of "root_keys (Node l (k, v) r # active) + K"]
      credit_push [OF "3.prems"(1) 2, of "root_keys (Node l (k, v) r # active) + K"] IH
    by (simp add: es credit_append)
qed simp_all

lemma credit_pending_loop:
  "sp_delete_key sp \<Longrightarrow> credit (root_keys pending) (pending_loop sp pending) = Some {#}"
proof (induction sp pending rule: pending_loop.induct)
  case (1 sp pending)
  obtain es pending' where loop: "active_loop sp pending [] = (es, pending')" by fastforce
  show ?case
  proof (cases "List.filter (\<lambda>t. t \<noteq> Leaf) pending = []")
    case True
    then have "root_keys pending = {#}" by (induction pending rule: root_keys.induct) auto
    then show ?thesis using True by (simp add: pending_loop.simps)
  next
    case False
    have "pending_loop sp pending = es @ pending_loop sp pending'"
      using False by (subst pending_loop.simps) (simp add: loop)
    then show ?thesis
      using "1.IH" [OF False loop [symmetric] refl 1(2)] credit_active_loop [OF 1(2) loop, of "{#}"]
      by (simp add: credit_append)
  qed
qed

lemma credit_delete:
  assumes "sp_delete_key sp"
  shows "credit {#} (splay_tree_delete_helper sp t) = Some {#}"
proof -
  obtain es pending where push: "push_pending sp t [] = (es, pending)" by fastforce
  show ?thesis
    using credit_push [OF assms push, of "{#}"] credit_pending_loop [OF assms, of pending]
    by (simp add: splay_tree_delete_helper_def push credit_append)
qed


lemma inorder_neighbour_splay [simp]:
  "inorder (sp_root (fst (splay_tree_predecessor sp key))) = inorder (sp_root sp)"
  "inorder (sp_root (fst (splay_tree_successor sp key))) = inorder (sp_root sp)"
  by (cases "sp_root (splay_tree_splay sp key)"; use inorder_splay_tree_splay [of sp key] in
      \<open>auto simp: splay_tree_predecessor_def splay_tree_successor_def Let_def split: prod.splits\<close>)+

context comparator
begin

lemmas splay_runs = splay.runs_spec and splay_look_after_runs = splay.look_after_runs

end

section \<open>Properties\<close>

text \<open>
  C16: \<open>splay_tree_splay\<close> ends for every tree and every comparison function that orders the keys,
  keeps the sequence of the nodes, and leaves at the root a node with the key, or a neighbour of
  it: what stands left of the root is below the key, and what stands right of it is above.
\<close>

theorem splay_tree_splay_correct:
  assumes "comparator cmp" "sp_store cmp sp"
  shows "inorder (sp_root (splay_tree_splay sp key)) = inorder (sp_root sp) \<and>
    (case sp_root (splay_tree_splay sp key) of
       Leaf \<Rightarrow> sp_root sp = Leaf
     | Node l (k, v) r \<Rightarrow>
         (\<forall>x\<in>set_tree l. cmp (fst x) key < 0) \<and> (\<forall>x\<in>set_tree r. cmp key (fst x) < 0) \<and>
         (cmp key k = 0 \<longleftrightarrow> (\<exists>x\<in>set_tree (sp_root sp). cmp key (fst x) = 0)))"
proof (intro conjI)
  show "inorder (sp_root (splay_tree_splay sp key)) = inorder (sp_root sp)" by simp
  show "case sp_root (splay_tree_splay sp key) of
           Leaf \<Rightarrow> sp_root sp = Leaf
         | Node l (k, v) r \<Rightarrow>
             (\<forall>x\<in>set_tree l. cmp (fst x) key < 0) \<and> (\<forall>x\<in>set_tree r. cmp key (fst x) < 0) \<and>
             (cmp key k = 0 \<longleftrightarrow> (\<exists>x\<in>set_tree (sp_root sp). cmp key (fst x) = 0))"
  proof (cases "sp_root (splay_tree_splay sp key)")
    case Leaf
    then show ?thesis using comparator.splay_Leaf [OF assms(1), of sp key] by simp
  next
    case (Node l kv r)
    obtain k v where root: "sp_root (splay_tree_splay sp key) = Node l (k, v) r" using Node by (cases kv) simp
    note facts = comparator.splay_root [OF assms root]
    have "cmp key k = 0 \<longleftrightarrow> sp_get sp key \<noteq> None"
      using comparator.splay_get [OF assms root] comparator.cmp_zero_sym [OF assms(1), of key k] by simp
    then show ?thesis
      using root facts(2,3) comparator.sp_get_None_iff [OF assms, of key] by simp
  qed
qed

theorem splay_tree_splay_correct_witness:
  "let sp = splay_tree_splay \<lparr>sp_root = Node (Node (Node Leaf (1, 10) Leaf) (2, 20) Leaf) (3, 30 :: nat) Leaf,
              sp_comp = splay_tree_compare_ints, sp_delete_key = False, sp_delete_value = False\<rparr> 1
   in inorder (sp_root sp) = [(1, 10), (2, 20), (3, 30)]"
proof -
  have "sp_store splay_tree_compare_ints \<lparr>sp_root = Node (Node (Node Leaf (1, 10) Leaf) (2, 20) Leaf) (3, 30 :: nat) Leaf,
              sp_comp = splay_tree_compare_ints, sp_delete_key = False, sp_delete_value = False\<rparr>"
    by (simp add: sp_store_def splay_tree_compare_ints_def)
  from splay_tree_splay_correct [OF ints.comparator_axioms this, of 1] show ?thesis by simp
qed

text \<open>
  C14: Refinement of a finite map: after any sequence of insertions, removals and lookups on a new
  tree, a lookup returns the value that the map built by the same updates holds under the key,
  where keys that compare as equal are one key. The order of the nodes is kept throughout.
\<close>

theorem splay_tree_refines_map:
  fixes ops :: "('k, 'v) store_op list"
  assumes "comparator cmp"
  defines "run \<equiv> store_run (\<lambda>sp k v. fst (splay_tree_insert sp k v)) (\<lambda>sp k. fst (splay_tree_remove sp k))
      splay_tree_lookup"
  shows "sp_store cmp (fold run ops (splay_tree_new cmp dk dv)) \<and>
    map_option snd (snd (splay_tree_lookup (fold run ops (splay_tree_new cmp dk dv)) key)) =
      fold (store_spec (\<lambda>a b. cmp a b = 0)) ops Map.empty key"
proof -
  have new: "sp_store cmp (splay_tree_new cmp dk dv :: ('k, 'v) splay_tree)"
    by (simp add: sp_store_def splay_tree_new_def sp_sorted_def)
  have empty: "(\<lambda>k. map_option snd (sp_get (splay_tree_new cmp dk dv :: ('k, 'v) splay_tree) k)) = Map.empty"
    by (simp add: sp_get_def splay_tree_new_def)
  show ?thesis
    using comparator.splay_runs [OF assms(1) new, of ops]
      comparator.splay_look_after_runs [OF assms(1) new, of ops key] by (simp add: run_def empty)
qed

theorem splay_tree_refines_map_witness:
  "map_option snd (snd (splay_tree_lookup
     (fold (store_run (\<lambda>sp k v. fst (splay_tree_insert sp k v)) (\<lambda>sp k. fst (splay_tree_remove sp k))
        splay_tree_lookup) [Put 3 30, Put 5 50, Put 4294967299 31, Del 5, Find 5]
       (splay_tree_new splay_tree_compare_ints False False)) 3)) = Some (31 :: nat)"
  using conjunct2 [OF splay_tree_refines_map, OF ints.comparator_axioms, of
      "[Put 3 30, Put 5 50, Put 4294967299 31, Del 5, Find 5]" False False 3]
  by (simp add: splay_tree_compare_ints_def)

text \<open>
  C26: The neighbours of a key, which need not be in the tree: \<open>splay_tree_predecessor\<close> returns the
  greatest node below it and \<open>splay_tree_successor\<close> the least node above it, or null when there is
  none; \<open>splay_tree_min\<close> and \<open>splay_tree_max\<close> return the two ends. The sequence is kept.
\<close>

theorem splay_tree_neighbours:
  assumes "comparator cmp" "sp_store cmp sp"
  shows "snd (splay_tree_predecessor sp key) =
      (let below = List.filter (\<lambda>x. cmp (fst x) key < 0) (inorder (sp_root sp))
       in if below = [] then None else Some (last below)) \<and>
    snd (splay_tree_successor sp key) =
      (let above = List.filter (\<lambda>x. 0 < cmp (fst x) key) (inorder (sp_root sp))
       in if above = [] then None else Some (hd above)) \<and>
    splay_tree_min sp = (if sp_root sp = Leaf then None else Some (hd (inorder (sp_root sp)))) \<and>
    splay_tree_max sp = (if sp_root sp = Leaf then None else Some (last (inorder (sp_root sp)))) \<and>
    inorder (sp_root (fst (splay_tree_predecessor sp key))) = inorder (sp_root sp) \<and>
    inorder (sp_root (fst (splay_tree_successor sp key))) = inorder (sp_root sp)"
  using comparator.predecessor_below [OF assms, of key] assms(2)
  by (simp add: sp_below_def sp_above_def sp_store_def Let_def splay_tree_min_def splay_tree_max_def
      rightmost_inorder leftmost_inorder)

theorem splay_tree_neighbours_witness:
  "snd (splay_tree_predecessor \<lparr>sp_root = Node (Node (Node Leaf (1, 10) Leaf) (3, 20) Leaf) (7, 30 :: nat) Leaf,
      sp_comp = splay_tree_compare_pointers, sp_delete_key = False, sp_delete_value = False\<rparr> 5) = Some (3, 20)"
proof -
  have "sp_store splay_tree_compare_pointers \<lparr>sp_root = Node (Node (Node Leaf (1, 10) Leaf) (3, 20) Leaf) (7, 30 :: nat) Leaf,
      sp_comp = splay_tree_compare_pointers, sp_delete_key = False, sp_delete_value = False\<rparr>"
    by (simp add: sp_store_def splay_tree_compare_pointers_def)
  from splay_tree_neighbours [OF pointers.comparator_axioms this, of 5] show ?thesis
    by (simp add: splay_tree_compare_pointers_def)
qed

text \<open>
  C27: \<open>splay_tree_delete\<close> frees every node exactly once and the tree last; it calls the callbacks that
  are set exactly once for every key and every value; and a node is freed only after its key has
  been disposed of, although the lists of nodes to free are linked through the key fields.
\<close>

theorem splay_tree_delete_once:
  defines "nodes \<equiv> \<lambda>sp. mset (inorder (sp_root sp))"
  shows "nodes_of (splay_tree_delete sp) = nodes sp \<and>
    keys_of (splay_tree_delete sp) = (if sp_delete_key sp then image_mset fst (nodes sp) else {#}) \<and>
    values_of (splay_tree_delete sp) = (if sp_delete_value sp then image_mset snd (nodes sp) else {#}) \<and>
    (sp_delete_key sp \<longrightarrow> credit {#} (splay_tree_delete sp) = Some {#}) \<and>
    last (splay_tree_delete sp) = Deallocate_Tree"
  unfolding nodes_def
  by (simp add: splay_tree_delete_def delete_events keys_due_def values_due_def credit_append credit_delete)

theorem splay_tree_delete_once_witness:
  "credit {#} (splay_tree_delete \<lparr>sp_root = Node (Node Leaf (1, 10) Leaf) (7, 30 :: nat) Leaf,
      sp_comp = splay_tree_compare_pointers, sp_delete_key = True, sp_delete_value = False\<rparr>) = Some {#}"
  using splay_tree_delete_once [of "\<lparr>sp_root = Node (Node Leaf (1, 10) Leaf) (7, 30 :: nat) Leaf,
      sp_comp = splay_tree_compare_pointers, sp_delete_key = True, sp_delete_value = False\<rparr>"] by simp

text \<open>
  \<open>splay_tree_foreach\<close> calls the function on the nodes in the order of their keys, passing on the
  data, until a call returns a non-zero value, which is then the result; otherwise the result is 0.
\<close>

theorem splay_tree_foreach_inorder:
  "splay_tree_foreach sp fn data = foreach_list fn (inorder (sp_root sp)) data"
  by (simp add: splay_tree_foreach_def foreach_helper_inorder)

text \<open>
  The callback that disposes of keys is never called by \<open>splay_tree_remove\<close> and
  \<open>splay_tree_insert\<close>, although the former frees the node with the key (the value is disposed of):
  a key removed from a tree with such a callback is leaked.
\<close>

theorem splay_tree_remove_leaks_key:
  assumes "comparator cmp" "sp_store cmp sp" "sp_get sp key = Some (k, v)"
  shows "snd (splay_tree_remove sp key) = (if sp_delete_value sp then [Delete_Value v] else []) @ [Deallocate k v]"
    and "keys_of (snd (splay_tree_remove sp key)) = {#}"
    and "keys_of (snd (splay_tree_insert sp key val)) = {#}"
proof -
  obtain l k0 v0 r where root: "sp_root (splay_tree_splay sp key) = Node l (k0, v0) r"
    using assms(3) comparator.splay_Leaf [OF assms(1), of sp key]
    by (cases "sp_root (splay_tree_splay sp key)") (auto simp: sp_get_def)
  moreover have "sp_comp sp = cmp" using assms(2) by (simp add: sp_store_def)
  moreover have "cmp k0 key = 0" "k0 = k" "v0 = v"
    using assms(3) comparator.splay_get [OF assms(1,2) root] by (auto split: if_splits)
  moreover have "sp_delete_value (splay_tree_splay sp key) = sp_delete_value sp"
    by (simp add: splay_tree_splay_def)
  ultimately show "snd (splay_tree_remove sp key) = (if sp_delete_value sp then [Delete_Value v] else []) @ [Deallocate k v]"
    "keys_of (snd (splay_tree_remove sp key)) = {#}" "keys_of (snd (splay_tree_insert sp key val)) = {#}"
    by (simp_all add: splay_tree_remove_def splay_tree_insert_def Let_def)
qed

theorem splay_tree_remove_leaks_key_witness:
  "keys_of (snd (splay_tree_remove \<lparr>sp_root = Node Leaf (7, 30 :: nat) Leaf,
      sp_comp = splay_tree_compare_pointers, sp_delete_key = True, sp_delete_value = False\<rparr> 7)) = {#}"
  by (rule splay_tree_remove_leaks_key(2) [OF pointers.comparator_axioms, of _ _ 7 30])
     (simp_all add: sp_store_def sp_get_def splay_tree_compare_pointers_def)

end
