(* ===== verification/Expmed_Div.thy ===== *)
theory Expmed_Div
  imports Double_Div
begin

text \<open>
  Division by constants, \<open>src/gcc/expmed.c\<close>: \<open>choose_multiplier\<close>, which finds the multiplier and the
  shift that replace a division, \<open>invert_mod2n\<close>, which inverts an odd divisor modulo a power of two,
  the logarithms they use (\<open>src/gcc/toplev.c\<close>), and the instruction sequences that \<open>expand_divmod\<close>
  emits with them, as expressions with a value on every operand.
\<close>

section \<open>Logarithms\<close>

text \<open>
  The binary search of \<open>floor_log2\<close>. (With \<open>CLZ_HWI\<close> the same number is computed by a builtin.)
\<close>

definition log2_step :: "hwi \<Rightarrow> nat \<Rightarrow> nat \<Rightarrow> nat" where
  "log2_step x k t = (if push_bit (t + k) 1 \<le> x then t + k else t)"

definition floor_log2 :: "hwi \<Rightarrow> int" where
  "floor_log2 x =
     (if x = 0 then -1
      else int (log2_step x 1 (log2_step x 2 (log2_step x 4 (log2_step x 8 (log2_step x 16 (log2_step x 32 0)))))))"

definition exact_log2 :: "hwi \<Rightarrow> int" where
  "exact_log2 x = (if x \<noteq> x AND - x then -1 else floor_log2 x)"

definition ceil_log2 :: "hwi \<Rightarrow> int" where
  "ceil_log2 x = floor_log2 (x - 1) + 1"

section \<open>The multiplier\<close>

text \<open>
  The loop that reduces the two multipliers to lowest terms; a multiplier is its low and its high
  word.
\<close>

fun reduce_terms :: "nat \<Rightarrow> hwi \<times> hwi \<Rightarrow> hwi \<times> hwi \<Rightarrow> nat \<times> (hwi \<times> hwi)" where
  "reduce_terms 0 mlow mhigh = (0, mhigh)"
| "reduce_terms (Suc post_shift) (mlow_lo, mlow_hi) (mhigh_lo, mhigh_hi) =
     (let ml_lo = push_bit 63 mlow_hi OR drop_bit 1 mlow_lo;
          mh_lo = push_bit 63 mhigh_hi OR drop_bit 1 mhigh_lo
      in if ml_lo \<ge> mh_lo then (Suc post_shift, (mhigh_lo, mhigh_hi))
         else reduce_terms post_shift (ml_lo, 0) (mh_lo, 0))"

text \<open>The numerators \<open>nh:nl\<close>: one bit, and then a second bit.\<close>

definition two_word_bit :: "nat \<Rightarrow> hwi \<times> hwi" where
  "two_word_bit k = (if 64 \<le> k then (0, push_bit (k - 64) 1) else (push_bit k 1, 0))"

definition or_two_word_bit :: "hwi \<times> hwi \<Rightarrow> nat \<Rightarrow> hwi \<times> hwi" where
  "or_two_word_bit w k =
     (if 64 \<le> k then (fst w, snd w OR push_bit (k - 64) 1) else (fst w OR push_bit k 1, snd w))"

text \<open>
  \<open>choose_multiplier\<close> returns the most significant bit of the multiplier, its other bits, the shift
  and the rounded-up logarithm of the divisor. A shift count outside the two words is undefined.
\<close>

definition multiplier_result :: "int \<Rightarrow> int \<Rightarrow> nat \<times> (hwi \<times> hwi) \<Rightarrow> hwi \<times> hwi \<times> nat \<times> int" where
  "multiplier_result n lgup = (\<lambda>(post_shift, (mhigh_lo, mhigh_hi)).
     if n < 64 then
       (let msk = push_bit (nat n) 1 - 1 in (of_bool (mhigh_lo \<ge> msk), mhigh_lo AND msk, post_shift, lgup))
     else (mhigh_hi, mhigh_lo, post_shift, lgup))"

definition choose_multiplier :: "hwi \<Rightarrow> int \<Rightarrow> int \<Rightarrow> (hwi \<times> hwi \<times> nat \<times> int) outcome" where
  "choose_multiplier d n precision =
     (let lgup = ceil_log2 d;
          pw = n + lgup;
          pw2 = n + lgup - precision
      in if \<not> lgup \<le> n then Inl Ice
         else if pw = 128 then Inl Ice
         else if pw < 0 \<or> 128 < pw \<or> pw2 < 0 \<or> 128 \<le> pw2 then Inl Undefined
         else
           (let (nl, nh) = two_word_bit (nat pw)
            in case div_and_round_double TRUNC_DIV_EXPR True nl nh d 0 of
                 Inl e \<Rightarrow> Inl e
               | Inr (_, (mlow_lo, mlow_hi), _) \<Rightarrow>
                   (let (nl, nh) = or_two_word_bit (nl, nh) (nat pw2)
                    in case div_and_round_double TRUNC_DIV_EXPR True nl nh d 0 of
                         Inl e \<Rightarrow> Inl e
                       | Inr (_, (mhigh_lo, mhigh_hi), _) \<Rightarrow>
                           (if \<not> (mhigh_hi = 0 \<or> nh - d < d) then Inl Ice
                            else if \<not> (sint mhigh_hi \<le> 1 \<and> sint mlow_hi \<le> 1) then Inl Ice
                            else if \<not> (sint mlow_hi < sint mhigh_hi \<or> mlow_hi = mhigh_hi \<and> mlow_lo < mhigh_lo)
                            then Inl Ice
                            else Inr (multiplier_result n lgup
                                   (reduce_terms (nat lgup) (mlow_lo, mlow_hi) (mhigh_lo, mhigh_hi)))))))"

text \<open>Newton's iteration for the inverse of an odd number; it doubles the number of correct bits.\<close>

function invert_loop :: "hwi \<Rightarrow> nat \<Rightarrow> hwi \<Rightarrow> nat \<Rightarrow> hwi \<Rightarrow> hwi" where
  "invert_loop x n msk nbit y =
     (if nbit < n \<and> 0 < nbit then invert_loop x n msk (nbit * 2) (y * (2 - x * y) AND msk) else y)"
  by pat_completeness auto

termination invert_loop
  by (relation "measure (\<lambda>(x, n, msk, nbit, y). n - nbit)") auto

definition invert_mod2n :: "hwi \<Rightarrow> nat \<Rightarrow> hwi" where
  "invert_mod2n x n = invert_loop x n (if n = 64 then NOT 0 else push_bit n 1 - 1) 3 x"

section \<open>Values of the logarithms\<close>

lemma uint_push_bit_1: "k < 64 \<Longrightarrow> uint (push_bit k 1 :: hwi) = 2 ^ k"
  using power_strict_increasing [of k 64 "2 :: int"]
  by transfer (simp add: take_bit_eq_mod push_bit_eq_mult)

lemma log2_step:
  assumes "2 ^ t \<le> uint x" "uint x < 2 ^ (t + 2 * k)" "t + 2 * k \<le> 64" "0 < k"
  shows "2 ^ log2_step x k t \<le> uint x \<and> uint x < 2 ^ (log2_step x k t + k) \<and> log2_step x k t + k \<le> 64"
proof -
  have "push_bit (t + k) 1 \<le> x \<longleftrightarrow> 2 ^ (t + k) \<le> uint x"
    using assms by (simp add: word_le_def uint_push_bit_1 del: push_bit_of_1)
  then show ?thesis using assms by (auto simp: log2_step_def add.assoc mult_2)
qed

lemma floor_log2_spec:
  assumes "x \<noteq> 0"
  shows "\<exists>t. floor_log2 x = int t \<and> t < 64 \<and> 2 ^ t \<le> uint x \<and> uint x < 2 ^ Suc t"
proof -
  have "uint x \<noteq> 0" using assms by (simp add: uint_0_iff)
  then have "1 \<le> uint x" using uint64_range(1) [of x] by linarith
  then have "2 ^ 0 \<le> uint x" "uint x < 2 ^ (0 + 2 * 32)"
    using uint64_range [of x] by simp_all
  from log2_step [OF this] have 32: "2 ^ log2_step x 32 0 \<le> uint x \<and> uint x < 2 ^ (log2_step x 32 0 + 32)
    \<and> log2_step x 32 0 + 32 \<le> 64" by simp
  define t32 where "t32 = log2_step x 32 0"
  define t16 where "t16 = log2_step x 16 t32"
  define t8 where "t8 = log2_step x 8 t16"
  define t4 where "t4 = log2_step x 4 t8"
  define t2 where "t2 = log2_step x 2 t4"
  define t1 where "t1 = log2_step x 1 t2"
  have "2 ^ t16 \<le> uint x \<and> uint x < 2 ^ (t16 + 16) \<and> t16 + 16 \<le> 64"
    using log2_step [of t32 x 16] 32 by (simp add: t32_def t16_def)
  then have "2 ^ t8 \<le> uint x \<and> uint x < 2 ^ (t8 + 8) \<and> t8 + 8 \<le> 64"
    using log2_step [of t16 x 8] by (simp add: t8_def)
  then have "2 ^ t4 \<le> uint x \<and> uint x < 2 ^ (t4 + 4) \<and> t4 + 4 \<le> 64"
    using log2_step [of t8 x 4] by (simp add: t4_def)
  then have "2 ^ t2 \<le> uint x \<and> uint x < 2 ^ (t2 + 2) \<and> t2 + 2 \<le> 64"
    using log2_step [of t4 x 2] by (simp add: t2_def)
  then have "2 ^ t1 \<le> uint x \<and> uint x < 2 ^ (t1 + 1) \<and> t1 + 1 \<le> 64"
    using log2_step [of t2 x 1] by (simp add: t1_def)
  moreover have "floor_log2 x = int t1"
    using assms by (simp add: floor_log2_def t1_def t2_def t4_def t8_def t16_def t32_def)
  ultimately show ?thesis by (intro exI [of _ t1]) simp
qed


lemma ceil_log2_spec:
  assumes "d \<noteq> 0"
  shows "\<exists>l. ceil_log2 d = int l \<and> l \<le> 64 \<and> uint d \<le> 2 ^ l \<and> (0 < l \<longrightarrow> 2 ^ (l - 1) < uint d)"
proof (cases "d = 1")
  case True
  then show ?thesis by (intro exI [of _ 0]) (simp add: ceil_log2_def floor_log2_def)
next
  case False
  then have "d - 1 \<noteq> 0" by simp
  from floor_log2_spec [OF this] obtain t
    where t: "floor_log2 (d - 1) = int t" "t < 64" "2 ^ t \<le> uint (d - 1)" "uint (d - 1) < 2 ^ Suc t" by blast
  have "uint d \<noteq> 0" using assms by (simp add: uint_0_iff)
  then have "1 \<le> uint d" using uint64_range(1) [of d] by linarith
  then have "uint (d - 1) = uint d - 1" using uint64_sub [of d 1] by simp
  then have "2 ^ t < uint d" "uint d \<le> 2 ^ Suc t" using t by simp_all
  then show ?thesis using t by (intro exI [of _ "Suc t"]) (simp add: ceil_log2_def)
qed

lemma halve_two_words:
  assumes "uint hi \<le> 1"
  shows "uint (push_bit 63 hi OR drop_bit 1 lo :: hwi) = udval lo hi div 2"
proof -
  have dis: "\<not> bit (push_bit 63 hi :: hwi) n \<or> \<not> bit (drop_bit 1 lo :: hwi) n" for n
    by (auto simp: bit_push_bit_iff bit_drop_bit_eq dest: bit_imp_le_length)
  have lo: "uint (drop_bit 1 lo :: hwi) = uint lo div 2"
    unfolding unsigned_drop_bit_eq by (simp add: drop_bit_eq_div take_bit_int_eq_self uint64_range)
  have hi: "uint (push_bit 63 hi :: hwi) = 2 ^ 63 * uint hi"
  proof -
    have "hi = 0 \<or> hi = 1" using assms uint64_range(1) [of hi] by (metis int_one_le_iff_zero_less linorder_not_less order_le_less uint_0_iff uint_1_eq word_uint_eq_iff)
    then show ?thesis using uint_push_bit_1 [of 63] by auto
  qed
  have "uint (push_bit 63 hi + drop_bit 1 lo :: hwi) = 2 ^ 63 * uint hi + uint lo div 2"
    using assms uint64_range [of lo] unfolding uint64_add lo hi by simp
  also have "\<dots> = udval lo hi div 2" by (simp add: udval_def)
  finally show ?thesis using disjunctive_add [OF dis] by simp
qed

lemma div_half:
  assumes "0 < D"
  shows "2 * a div D div 2 = a div (D :: int)"
proof -
  have "2 * a div D div 2 = 2 * a div (2 * D)"
    using assms by (simp add: zdiv_zmult2_eq [symmetric] mult.commute)
  then show ?thesis by simp
qed

lemma reduce_terms_spec:
  assumes "0 < D" "p \<le> n" "udval ll lh = 2 ^ (n + s) div D" "udval hl hh = (2 ^ (n + s) + 2 ^ (n + s - p)) div D"
    and "udval ll lh < udval hl hh" "uint lh \<le> 1" "uint hh \<le> 1"
  shows "\<exists>s' ml mh. reduce_terms s (ll, lh) (hl, hh) = (s', (ml, mh)) \<and> s' \<le> s
    \<and> udval ml mh = (2 ^ (n + s') + 2 ^ (n + s' - p)) div D \<and> 2 ^ (n + s') div D < udval ml mh
    \<and> uint mh \<le> 1
    \<and> (0 < s' \<longrightarrow> (2 ^ (n + s' - 1) + 2 ^ (n + s' - 1 - p)) div D \<le> 2 ^ (n + s' - 1) div D)"
  using assms
proof (induction s arbitrary: ll lh hl hh)
  case 0
  then show ?case by simp
next
  case (Suc s)
  define ml_lo mh_lo where "ml_lo = (push_bit 63 lh OR drop_bit 1 ll :: hwi)"
    and "mh_lo = (push_bit 63 hh OR drop_bit 1 hl :: hwi)"
  have pw: "(2 :: int) ^ (n + Suc s - p) = 2 * 2 ^ (n + s - p)"
    using \<open>p \<le> n\<close> by (simp add: Suc_diff_le)
  have ml: "uint ml_lo = 2 ^ (n + s) div D"
    using halve_two_words [OF Suc.prems(6), of ll] Suc.prems(3) div_half [OF \<open>0 < D\<close>, of "2 ^ (n + s)"]
    by (simp add: ml_lo_def)
  have "(2 :: int) ^ (n + Suc s) + 2 ^ (n + Suc s - p) = 2 * (2 ^ (n + s) + 2 ^ (n + s - p))"
    unfolding pw by simp
  then have mh: "uint mh_lo = (2 ^ (n + s) + 2 ^ (n + s - p)) div D"
    unfolding mh_lo_def halve_two_words [OF Suc.prems(7), of hl] Suc.prems(4)
    by (simp only: div_half [OF \<open>0 < D\<close>])
  show ?case
  proof (cases "mh_lo \<le> ml_lo")
    case True
    then have "(2 ^ (n + s) + 2 ^ (n + s - p)) div D \<le> 2 ^ (n + s) div D"
      by (simp add: word_le_def ml mh)
    moreover have "reduce_terms (Suc s) (ll, lh) (hl, hh) = (Suc s, (hl, hh))"
      using True by (simp add: ml_lo_def mh_lo_def)
    ultimately show ?thesis using Suc.prems by simp
  next
    case False
    then have "uint ml_lo < uint mh_lo" by (simp add: word_le_def)
    then have "\<exists>s' ml mh. reduce_terms s (ml_lo, 0) (mh_lo, 0) = (s', (ml, mh)) \<and> s' \<le> s
      \<and> udval ml mh = (2 ^ (n + s') + 2 ^ (n + s' - p)) div D \<and> 2 ^ (n + s') div D < udval ml mh
      \<and> uint mh \<le> 1
      \<and> (0 < s' \<longrightarrow> (2 ^ (n + s' - 1) + 2 ^ (n + s' - 1 - p)) div D \<le> 2 ^ (n + s' - 1) div D)"
      using Suc.prems(1,2) ml mh by (intro Suc.IH) (simp_all add: udval_def)
    moreover have "reduce_terms (Suc s) (ll, lh) (hl, hh) = reduce_terms s (ml_lo, 0) (mh_lo, 0)"
      using False by (simp add: ml_lo_def mh_lo_def)
    ultimately show ?thesis by (auto simp: le_Suc_eq)
  qed
qed


section \<open>The chosen multiplier\<close>

lemma high_power: "64 \<le> k \<Longrightarrow> (2 :: int) ^ k = 2 ^ (k - 64) * 2 ^ 64"
  using power_add [of "2 :: int" "k - 64" 64] by (simp only: le_add_diff_inverse2)

lemma uint_two_bits:
  assumes "b < a" "a < 64"
  shows "uint (push_bit a 1 OR push_bit b 1 :: hwi) = 2 ^ a + 2 ^ b"
proof -
  have dis: "\<not> bit (push_bit a 1 :: hwi) n \<or> \<not> bit (push_bit b 1 :: hwi) n" for n
    using assms by (auto simp: bit_simps)
  have "(2 :: int) ^ b < 2 ^ a" using assms by simp
  moreover have "(2 :: int) ^ Suc a \<le> 2 ^ 64" using assms by (intro power_increasing) simp_all
  ultimately have "(2 :: int) ^ a + 2 ^ b < 2 ^ 64" unfolding power_Suc by linarith
  then have "uint (push_bit a 1 + push_bit b 1 :: hwi) = 2 ^ a + 2 ^ b"
    using assms by (simp only: uint64_add uint_push_bit_1) simp
  then show ?thesis using disjunctive_add [OF dis] by simp
qed

lemma two_word_bit_value:
  assumes "k < 128"
  shows "udval (fst (two_word_bit k)) (snd (two_word_bit k)) = 2 ^ k"
proof (cases "64 \<le> k")
  case True
  show ?thesis
    using high_power [OF True] True assms unfolding two_word_bit_def udval_def by (simp only: if_True fst_conv snd_conv uint_push_bit_1) simp
next
  case False
  then show ?thesis unfolding two_word_bit_def udval_def
    using uint_push_bit_1 [of k] by (simp del: push_bit_of_1)
qed

lemma or_two_word_bit_value:
  assumes "j < k" "k < 128"
  defines "w \<equiv> or_two_word_bit (two_word_bit k) j"
  shows "udval (fst w) (snd w) = 2 ^ k + 2 ^ j"
proof -
  consider "64 \<le> j" | "j < 64" "64 \<le> k" | "k < 64" by linarith
  then show ?thesis
  proof cases
    case 1
    then have "64 \<le> k" using assms by simp
    have "uint (push_bit (k - 64) 1 OR push_bit (j - 64) 1 :: hwi) = 2 ^ (k - 64) + 2 ^ (j - 64)"
      using 1 assms by (intro uint_two_bits) simp_all
    then show ?thesis
      using 1 \<open>64 \<le> k\<close> unfolding w_def or_two_word_bit_def two_word_bit_def udval_def
      by (simp only: if_True fst_conv snd_conv high_power [of k] high_power [of j]) simp
  next
    case 2
    then show ?thesis
      using assms uint_push_bit_1 [of "k - 64"] uint_push_bit_1 [of j]
      unfolding w_def or_two_word_bit_def two_word_bit_def udval_def high_power [of k, OF 2(2)]
      by (simp del: push_bit_of_1)
  next
    case 3
    then show ?thesis
      using assms uint_two_bits [of j k]
      unfolding w_def or_two_word_bit_def two_word_bit_def udval_def by (simp del: push_bit_of_1)
  qed
qed

lemma trunc_div_one_word:
  assumes "d \<noteq> 0"
  shows "\<exists>lq hq r. div_and_round_double TRUNC_DIV_EXPR True nl nh d 0 = Inr (False, (lq, hq), r)
    \<and> udval lq hq = udval nl nh div uint d"
proof -
  have "0 < uint d" using assms uint64_range(1) [of d] by (simp add: uint_0_iff order_less_le)
  have D: "udval d 0 = uint d" by (simp add: udval_def)
  have N: "dval True nl nh = udval nl nh" by (simp add: dval_def)
  have q: "rounded_quotient TRUNC_DIV_EXPR (udval nl nh) (uint d) = udval nl nh div uint d"
    using \<open>0 < uint d\<close> udval_range(1) [of nl nh] by (simp add: rounded_quotient_def c_div_def sgn_if)
  have "udval nl nh div uint d \<le> udval nl nh"
    using \<open>0 < uint d\<close> udval_range(1) [of nl nh] zdiv_mono2 [of "udval nl nh" 1 "uint d"] by simp
  then have "dwrap True (udval nl nh div uint d) = udval nl nh div uint d"
    using udval_range [of nl nh] \<open>0 < uint d\<close> by (simp add: dwrap_def pos_imp_zdiv_nonneg_iff)
  then show ?thesis
    using div_and_round_directed [OF disjI1 [OF assms] refl refl, of TRUNC_DIV_EXPR True nl nh 0]
    by (auto simp: D N q dval_def)
qed


lemma high_multiplier_bound:
  fixes D :: int
  assumes "0 < D" "0 < l \<longrightarrow> 2 ^ (l - 1) < D" "l \<le> p" "0 < p" "p \<le> n"
  shows "2 ^ (n + l) + 2 ^ (n + l - p) < 2 ^ Suc n * D"
proof (cases l)
  case 0
  have "(2 :: int) ^ (n - p) < 2 ^ n" using assms by simp
  also have "\<dots> \<le> 2 ^ n * D" using assms by simp
  finally have "(2 :: int) ^ (n - p) < 2 ^ n * D" .
  moreover have "(2 :: int) ^ n \<le> 2 ^ n * D" using assms by simp
  ultimately have "(2 :: int) ^ n + 2 ^ (n - p) < 2 * (2 ^ n * D)" by linarith
  then show ?thesis by (simp add: 0 mult.assoc)
next
  case (Suc k)
  have "(2 :: int) ^ (n + l - p) < 2 ^ Suc n" using assms by (intro power_strict_increasing) simp_all
  moreover have "2 ^ Suc n * (2 ^ k + 1) \<le> 2 ^ Suc n * D"
    using assms Suc by (intro mult_left_mono) simp_all
  moreover have "(2 :: int) ^ Suc n * (2 ^ k + 1) = 2 ^ (n + l) + 2 ^ Suc n"
    by (simp add: Suc distrib_left power_add)
  ultimately show ?thesis by linarith
qed

lemma low_high_multiplier:
  fixes D :: int
  assumes "0 < D" "D \<le> 2 ^ l" "p \<le> n"
  shows "2 ^ (n + l) div D < (2 ^ (n + l) + 2 ^ (n + l - p)) div D"
proof -
  have "(2 :: int) ^ l \<le> 2 ^ (n + l - p)" using assms by (intro power_increasing) simp_all
  then have "(2 ^ (n + l) + D) div D \<le> (2 ^ (n + l) + 2 ^ (n + l - p)) div D"
    using assms(1,2) by (intro zdiv_mono1 add_left_mono) (rule order_trans)
  moreover have "(2 ^ (n + l) + D) div D = 2 ^ (n + l) div D + 1" using assms(1) by (intro div_add_self2) simp
  ultimately show ?thesis by linarith
qed

text \<open>What makes a number \<open>m\<close> a multiplier for the shift \<open>n + s\<close>.\<close>

definition good_multiplier :: "int \<Rightarrow> nat \<Rightarrow> nat \<Rightarrow> nat \<Rightarrow> int \<Rightarrow> bool" where
  "good_multiplier D n p s m \<longleftrightarrow> 2 ^ (n + s) < m * D \<and> m * D \<le> 2 ^ (n + s) + 2 ^ (n + s - p)"

lemma good_multiplierI:
  fixes D :: int
  assumes "0 < D" "m = (2 ^ (n + s) + 2 ^ (n + s - p)) div D" "2 ^ (n + s) div D < m"
  shows "good_multiplier D n p s m"
proof -
  have "(2 ^ (n + s) div D + 1) * D \<le> m * D" using assms by (intro mult_right_mono) simp_all
  moreover have "2 ^ (n + s) < (2 ^ (n + s) div D + 1) * D"
    using pos_mod_bound [OF assms(1), of "2 ^ (n + s)"] div_mult_mod_eq [of "2 ^ (n + s)" D]
    unfolding distrib_right by linarith
  moreover have "m * D \<le> 2 ^ (n + s) + 2 ^ (n + s - p)"
    using pos_mod_sign [OF assms(1), of "2 ^ (n + s) + 2 ^ (n + s - p)"]
      div_mult_mod_eq [of "2 ^ (n + s) + 2 ^ (n + s - p)" D] unfolding assms(2) by linarith
  ultimately show ?thesis unfolding good_multiplier_def by linarith
qed

lemma good_multiplier_divides:
  assumes "good_multiplier D n p s m" "0 < D" "p \<le> n" "0 \<le> x" "x < 2 ^ p"
  shows "(m * x) div 2 ^ (n + s) = x div D"
proof (rule multiply_shift_divides [where e = "2 ^ (n + s - p)"])
  have "(2 :: int) ^ (n + s - p) * x < 2 ^ (n + s - p) * 2 ^ p" using assms by simp
  also have "\<dots> = 2 ^ (n + s)" using assms by (simp flip: power_add)
  finally show "2 ^ (n + s - p) * x < (2 :: int) ^ (n + s)" .
qed (use assms in \<open>simp_all add: good_multiplier_def\<close>)

text \<open>
  The returned bit is \<open>mhigh_lo \<ge> mask\<close>, not \<open>mhigh_lo > mask\<close>; no multiplier equals the mask when
  the divisor leaves the top bit of the operation clear.
\<close>

lemma good_multiplier_not_mask:
  assumes "good_multiplier D n p s m" "0 < D" "D \<le> 2 ^ (n - 1)" "D \<le> 2 ^ p" "p \<le> n" "3 \<le> n"
  shows "m \<noteq> 2 ^ n - 1"
proof
  assume m: "m = 2 ^ n - 1"
  have low: "2 ^ (n + s) < m * D" and high: "m * D \<le> 2 ^ (n + s) + 2 ^ (n + s - p)"
    using assms(1) by (simp_all add: good_multiplier_def)
  have "m * D < 2 ^ n * D" using m assms(2) by simp
  with low have "(2 :: int) ^ n * 2 ^ s < 2 ^ n * D" unfolding power_add by (rule less_trans)
  then have D: "2 ^ s < D" by simp
  have s: "s < n - 1" "s < p"
    using D assms(3,4) by (metis less_le_trans power_less_imp_less_exp one_less_numeral_iff semiring_norm(76))+
  have "m * (2 ^ s + 1) \<le> m * D"
    using D m assms(2) by (intro mult_left_mono) simp_all
  moreover have "m * (2 ^ s + 1) = 2 ^ (n + s) + 2 ^ n - 2 ^ s - 1"
    by (simp add: m algebra_simps power_add)
  ultimately have "(2 :: int) ^ n - 2 ^ s - 1 \<le> 2 ^ (n + s - p)" using high by linarith
  also have "\<dots> \<le> 2 ^ (n - 1)" using s assms(5) by (intro power_increasing) simp_all
  finally have "(2 :: int) ^ n - 2 ^ s - 1 \<le> 2 ^ (n - 1)" .
  moreover have "(2 :: int) ^ s \<le> 2 ^ (n - 2)" using s by (intro power_increasing) simp_all
  moreover have "(2 :: int) ^ n = 4 * 2 ^ (n - 2)" "(2 :: int) ^ (n - 1) = 2 * 2 ^ (n - 2)"
  proof -
    obtain k where "n = Suc (Suc k)" using assms(6) by (metis Suc_le_D numeral_3_eq_3 Suc_le_mono)
    then show "(2 :: int) ^ n = 4 * 2 ^ (n - 2)" "(2 :: int) ^ (n - 1) = 2 * 2 ^ (n - 2)" by simp_all
  qed
  moreover have "(2 :: int) \<le> 2 ^ (n - 2)" using assms(6) power_increasing [of 1 "n - 2" "2 :: int"] by simp
  ultimately show False by linarith
qed

lemma wide_powers:
  "(2 :: int) ^ 64 = 18446744073709551616" "(2 :: int) ^ 65 = 36893488147419103232"
  by simp_all

lemma uint_half_words: "udval l h < 2 ^ 65 \<Longrightarrow> uint h \<le> 1"
  using uint64_range(1) [of l] unfolding udval_def wide_powers by linarith

lemma choose_multiplier_bound_check:
  assumes "0 < uint d" "udval nl nh < 2 ^ 65 * uint d" "2 ^ 64 \<le> udval nl nh div uint d"
  shows "nh - d < d"
proof -
  have "2 ^ 64 * uint d \<le> udval nl nh div uint d * uint d" using assms by simp
  also have "\<dots> \<le> udval nl nh"
    using pos_mod_sign [OF assms(1), of "udval nl nh"] div_mult_mod_eq [of "udval nl nh" "uint d"] by linarith
  finally have "uint d \<le> uint nh" "uint nh < 2 * uint d"
    using assms(2) uint64_range [of nl] unfolding udval_def wide_powers by linarith+
  then show ?thesis by (simp add: word_less_def uint64_sub)
qed

lemma multiplier_result_value:
  fixes d :: hwi
  assumes "good_multiplier (uint d) n p s (udval ml mh)" "d \<noteq> 0" "uint d \<le> 2 ^ p" "uint d \<le> 2 ^ (n - 1)"
    and "p \<le> n" "n \<le> 64" "3 \<le> n" "udval ml mh < 2 ^ Suc n"
  shows "\<exists>b m. multiplier_result (int n) (int l) (s, (ml, mh)) = (b, m, s, int l)
    \<and> uint b \<le> 1 \<and> uint m < 2 ^ n \<and> uint b * 2 ^ n + uint m = udval ml mh"
proof (cases "n = 64")
  case True
  then show ?thesis
    using assms(8) uint64_range [of ml] uint_half_words [of ml mh] by (simp add: multiplier_result_def udval_def)
next
  case False
  then have n: "n < 64" using assms(6) by simp
  have "(2 :: int) ^ Suc n \<le> 2 ^ 64" using n by (intro power_increasing) simp_all
  then have "udval ml mh < 2 ^ 64" using assms(8) by (rule less_le_trans [rotated])
  then have "uint mh < 1" using uint64_range(1) [of ml] unfolding udval_def wide_powers by linarith
  then have "uint mh = 0" using uint64_range(1) [of mh] by linarith
  then have mh: "udval ml mh = uint ml" by (simp add: udval_def)
  have msk: "push_bit n 1 - 1 = (mask n :: hwi)" by (simp add: mask_eq_exp_minus_1)
  have uint_msk: "uint (mask n :: hwi) = 2 ^ n - 1"
    using uint_push_bit_1 [OF n] uint64_sub [of "push_bit n 1" 1] unfolding msk by simp
  have m: "uint ml \<noteq> 2 ^ n - 1" "uint ml < 2 * 2 ^ n"
    using good_multiplier_not_mask [OF assms(1)] assms uint64_range(1) [of d] mh
    by (auto simp: uint_0_iff order_less_le)
  have "uint (ml AND mask n) = uint ml mod 2 ^ n"
    by (simp only: take_bit_eq_mask [symmetric] unsigned_take_bit_eq) (simp only: take_bit_eq_mod)
  also have "\<dots> = uint ml - (if mask n \<le> ml then 2 ^ n else 0)"
  proof (cases "mask n \<le> ml")
    case True
    then have "2 ^ n \<le> uint ml" using m by (simp add: word_le_def uint_msk)
    then have "uint ml mod 2 ^ n = (uint ml - 2 ^ n) mod 2 ^ n" by simp
    also have "\<dots> = uint ml - 2 ^ n" using m \<open>2 ^ n \<le> uint ml\<close> by (intro mod_pos_pos_trivial) simp_all
    finally show ?thesis using True by simp
  next
    case False
    then have "uint ml < 2 ^ n" by (simp add: word_le_def uint_msk)
    then show ?thesis using False uint64_range(1) [of ml] by simp
  qed
  finally have low: "uint (ml AND mask n) = uint ml - (if mask n \<le> ml then 2 ^ n else 0)" .
  have "uint (ml AND mask n) < 2 ^ n" by (rule and_mask_lt_2p)
  moreover have "multiplier_result (int n) (int l) (s, (ml, mh)) = (of_bool (mask n \<le> ml), ml AND mask n, s, int l)"
    using n by (simp add: multiplier_result_def Let_def msk del: push_bit_of_1)
  ultimately show ?thesis using low mh by auto
qed

lemma div_less_bound: "0 < D \<Longrightarrow> a < c * D \<Longrightarrow> a div D < c" for a c D :: int
  using pos_mod_sign [of D a] div_mult_mod_eq [of a D] mult_less_cancel_right_pos [of D "a div D" c] by linarith

lemma log_le_bound:
  fixes D :: int
  assumes "0 < l \<longrightarrow> 2 ^ (l - 1) < D" "D \<le> 2 ^ k"
  shows "l \<le> k"
proof (cases "0 < l")
  case True
  with assms have "2 ^ (l - 1) < D" by blast
  then have "(2 :: int) ^ (l - 1) < 2 ^ k" using assms(2) by (rule less_le_trans)
  then have "l - 1 < k" by simp
  then show ?thesis by simp
qed simp

lemma choose_multiplier_good:
  assumes "d \<noteq> 0" "uint d \<le> 2 ^ p" "uint d \<le> 2 ^ (n - 1)" "0 < p" "p \<le> n" "n \<le> 64" "3 \<le> n"
  shows "\<exists>b m s l. choose_multiplier d (int n) (int p) = Inr (b, m, s, int l)
    \<and> ceil_log2 d = int l \<and> s \<le> l \<and> uint b \<le> 1 \<and> uint m < 2 ^ n
    \<and> good_multiplier (uint d) n p s (uint b * 2 ^ n + uint m)
    \<and> (0 < s \<longrightarrow> (2 ^ (n + s - 1) + 2 ^ (n + s - 1 - p)) div uint d \<le> 2 ^ (n + s - 1) div uint d)"
proof -
  define D where "D = uint d"
  obtain l where l: "ceil_log2 d = int l" "D \<le> 2 ^ l" "0 < l \<longrightarrow> 2 ^ (l - 1) < D"
    using ceil_log2_spec [OF assms(1)] by (auto simp: D_def)
  have D: "0 < D" using assms(1) uint64_range(1) [of d] by (simp add: D_def uint_0_iff order_less_le)
  have exps: "l \<le> p" "l \<le> n - 1"
    using l(3) assms(2,3) log_le_bound [of l D] by (simp_all add: D_def)
  define w where "w = two_word_bit (n + l)"
  define w2 where "w2 = or_two_word_bit w (n + l - p)"
  have w: "udval (fst w) (snd w) = 2 ^ (n + l)"
    using exps assms unfolding w_def by (intro two_word_bit_value) simp
  have w2: "udval (fst w2) (snd w2) = 2 ^ (n + l) + 2 ^ (n + l - p)"
    using exps assms unfolding w2_def w_def by (intro or_two_word_bit_value) simp_all
  obtain ll lh r where lo: "div_and_round_double TRUNC_DIV_EXPR True (fst w) (snd w) d 0 = Inr (False, (ll, lh), r)"
      "udval ll lh = 2 ^ (n + l) div D"
    using trunc_div_one_word [OF assms(1), of "fst w" "snd w"] by (auto simp: w D_def)
  obtain hl hh r' where hi: "div_and_round_double TRUNC_DIV_EXPR True (fst w2) (snd w2) d 0 = Inr (False, (hl, hh), r')"
      "udval hl hh = (2 ^ (n + l) + 2 ^ (n + l - p)) div D"
    using trunc_div_one_word [OF assms(1), of "fst w2" "snd w2"] by (auto simp: w2 D_def)
  have less: "udval ll lh < udval hl hh" unfolding lo hi by (intro low_high_multiplier) (use D l assms in simp_all)
  have top: "2 ^ (n + l) + 2 ^ (n + l - p) < 2 ^ Suc n * D"
    using D l exps assms by (intro high_multiplier_bound) simp_all
  then have bound: "udval hl hh < 2 ^ Suc n"
    unfolding hi using D by (intro div_less_bound) simp_all
  moreover have "(2 :: int) ^ Suc n \<le> 2 ^ 65" using assms by (intro power_increasing) simp_all
  ultimately have wide: "udval hl hh < 2 ^ 65" by (rule less_le_trans)
  then have words: "uint hh \<le> 1" "uint lh \<le> 1"
    using uint_half_words less_trans [OF less wide] by blast+
  have check: "hh = 0 \<or> snd w2 - d < d"
  proof (rule disjCI)
    assume "\<not> snd w2 - d < d"
    moreover have "udval (fst w2) (snd w2) < 2 ^ 65 * uint d"
      using top mult_right_mono [OF \<open>(2 :: int) ^ Suc n \<le> 2 ^ 65\<close>, of D] D unfolding w2 D_def by linarith
    ultimately have "\<not> 2 ^ 64 \<le> udval hl hh"
      using choose_multiplier_bound_check [of d "fst w2" "snd w2"] D by (auto simp: hi(2) w2 D_def)
    then have "uint hh < 1" using uint64_range(1) [of hl] unfolding udval_def wide_powers by linarith
    then show "hh = 0" using uint64_range(1) [of hh] uint_0_iff [of hh] by linarith
  qed
  obtain s ml mh where red: "reduce_terms l (ll, lh) (hl, hh) = (s, (ml, mh))" "s \<le> l"
      "udval ml mh = (2 ^ (n + s) + 2 ^ (n + s - p)) div D" "2 ^ (n + s) div D < udval ml mh"
      "0 < s \<longrightarrow> (2 ^ (n + s - 1) + 2 ^ (n + s - 1 - p)) div D \<le> 2 ^ (n + s - 1) div D"
    using reduce_terms_spec [OF D assms(5) lo(2) hi(2) less words(2,1)] by blast
  have good: "good_multiplier (uint d) n p s (udval ml mh)"
    using red D by (intro good_multiplierI) (simp_all add: D_def)
  have "udval ml mh \<le> udval hl hh"
    unfolding red hi using D red(2) by (intro zdiv_mono1 add_mono power_increasing) simp_all
  then obtain b m where res: "multiplier_result (int n) (int l) (s, (ml, mh)) = (b, m, s, int l)"
      "uint b \<le> 1" "uint m < 2 ^ n" "uint b * 2 ^ n + uint m = udval ml mh"
    using multiplier_result_value [OF good assms(1,2,3,5,6,7), of l] bound by auto
  have sints: "sint hh = uint hh" "sint lh = uint lh" using words by (simp_all add: sint64_uint)
  have order: "sint lh < sint hh \<or> lh = hh \<and> ll < hl"
  proof -
    have "lh \<le> hh" using less uint64_range [of ll] uint64_range [of hl]
      unfolding word_le_def udval_def wide_powers by linarith
    moreover have "ll < hl" if "lh = hh" using less that by (simp add: udval_def word_less_def)
    ultimately show ?thesis by (cases "lh = hh") (auto simp: sints order_less_le word_le_def word_uint_eq_iff)
  qed
  have guards: "int l \<le> int n" "int n + int l \<noteq> 128"
      "\<not> (int n + int l < 0 \<or> 128 < int n + int l \<or> int n + int l - int p < 0 \<or> 128 \<le> int n + int l - int p)"
      "nat (int n + int l) = n + l" "nat (int n + int l - int p) = n + l - p"
      "sint hh \<le> 1 \<and> sint lh \<le> 1"
    using exps assms(4,5,6,7) words sints by auto
  have "choose_multiplier d (int n) (int p) =
      Inr (multiplier_result (int n) (int l) (reduce_terms l (ll, lh) (hl, hh)))"
    unfolding choose_multiplier_def Let_def l(1) guards(4,5) case_prod_unfold w_def [symmetric] prod.collapse
      w2_def [symmetric] lo(1) hi(1) sum.case
    by (simp only: guards check order not_False_eq_True if_True if_False fst_conv snd_conv nat_int simp_thms)
  then show ?thesis using red res good l(1) by (simp add: D_def)
qed


section \<open>The inverse modulo a power of two\<close>

declare invert_loop.simps [simp del]

lemma odd_square: "odd X \<Longrightarrow> 2 ^ 3 dvd X * X - (1 :: int)"
proof -
  assume "odd X"
  then obtain k where X: "X = 2 * k + 1" by (rule oddE)
  have "even (k * (k + 1))" by simp
  then obtain j where "k * (k + 1) = 2 * j" by (rule evenE)
  then have "X * X - 1 = 8 * j" by (simp add: X algebra_simps)
  then show ?thesis by simp
qed

lemma newton_step:
  fixes X Y Y' :: int
  assumes "2 ^ k dvd X * Y - 1" "2 ^ n dvd Y' - Y * (2 - X * Y)"
  shows "2 ^ min (k * 2) n dvd X * Y' - 1"
proof -
  have "(2 :: int) ^ min (k * 2) n dvd 2 ^ (k * 2)" "(2 :: int) ^ min (k * 2) n dvd 2 ^ n"
    by (simp_all add: le_imp_power_dvd)
  moreover have "(2 :: int) ^ (k * 2) dvd (X * Y - 1) * (X * Y - 1)"
    using mult_dvd_mono [OF assms(1,1)] by (simp only: mult_2_right power_add)
  ultimately have "2 ^ min (k * 2) n dvd X * (Y' - Y * (2 - X * Y)) - (X * Y - 1) * (X * Y - 1)"
    using assms(2) by (meson dvd_diff dvd_mult dvd_trans)
  moreover have "X * (Y' - Y * (2 - X * Y)) - (X * Y - 1) * (X * Y - 1) = X * Y' - 1"
    by (simp add: algebra_simps)
  ultimately show ?thesis by simp
qed

lemma masked_step:
  assumes "n \<le> 64"
  shows "2 ^ n dvd uint ((y * (2 - x * y)) AND mask n :: hwi) - uint y * (2 - uint x * uint y)"
proof -
  have "uint ((y * (2 - x * y)) AND mask n :: hwi) = uint (y * (2 - x * y)) mod 2 ^ n"
    by (simp only: take_bit_eq_mask [symmetric] unsigned_take_bit_eq) (simp only: take_bit_eq_mod)
  also have "\<dots> = (uint y * (2 - uint x * uint y)) mod 2 ^ 64 mod 2 ^ n"
    by (simp add: uint_word_ariths mod_simps)
  also have "\<dots> = (uint y * (2 - uint x * uint y)) mod 2 ^ n"
    using assms by (intro mod_mod_cancel le_imp_power_dvd)
  finally show ?thesis by (simp only: mod_eq_dvd_iff [symmetric] mod_mod_trivial)
qed

lemma invert_loop_inverse:
  "n \<le> 64 \<Longrightarrow> 0 < nbit \<Longrightarrow> msk = mask n \<Longrightarrow> 2 ^ min nbit n dvd uint x * uint y - 1 \<Longrightarrow>
     2 ^ n dvd uint x * uint (invert_loop x n msk nbit y) - 1"
proof (induction x n msk nbit y rule: invert_loop.induct)
  case (1 x n msk nbit y)
  show ?case
  proof (cases "nbit < n")
    case True
    then have "2 ^ min (nbit * 2) n dvd uint x * uint (y * (2 - x * y) AND msk) - 1"
      using newton_step [of nbit "uint x" "uint y" n, OF _ masked_step] "1.prems" by simp
    then show ?thesis
      using "1.IH" True "1.prems" by (subst invert_loop.simps) simp
  next
    case False
    then show ?thesis using "1.prems" by (subst invert_loop.simps) simp
  qed
qed

lemma invert_mod2n_dvd:
  assumes "odd (uint x)" "n \<le> 64"
  shows "2 ^ n dvd uint x * uint (invert_mod2n x n) - 1"
proof -
  have msk: "(if n = 64 then NOT 0 else push_bit n 1 - 1 :: hwi) = mask n"
    by (simp add: mask_eq_exp_minus_1)
  have "(2 :: int) ^ min 3 n dvd 2 ^ 3" by (intro le_imp_power_dvd) simp
  then have "2 ^ min 3 n dvd uint x * uint x - 1"
    using odd_square [OF assms(1)] by (rule dvd_trans)
  then show ?thesis
    unfolding invert_mod2n_def msk using assms(2) by (intro invert_loop_inverse) simp_all
qed


section \<open>The lowest bit\<close>

lemma lowest_bit_split:
  fixes x :: hwi
  assumes "x \<noteq> 0"
  shows "\<exists>k m. k < 64 \<and> x = push_bit k m \<and> odd m \<and> m = drop_bit k x"
proof -
  define k where "k = (LEAST n. bit x n)"
  have ex: "\<exists>n. bit x n" using assms by (auto simp: bit_eq_iff)
  have k: "bit x k" unfolding k_def by (rule LeastI_ex [OF ex])
  have below: "\<not> bit x n" if "n < k" for n using that unfolding k_def by (rule not_less_Least)
  have "x = push_bit k (drop_bit k x)"
  proof (rule bit_word_eqI)
    fix n assume "n < LENGTH(64)"
    then show "bit x n \<longleftrightarrow> bit (push_bit k (drop_bit k x)) n"
      using below [of n] by (cases "n < k") (simp_all add: bit_push_bit_iff bit_drop_bit_eq)
  qed
  moreover have "odd (drop_bit k x)" using k by (simp add: bit_iff_odd_drop_bit)
  moreover have "k < 64" using bit_imp_le_length [OF k] by simp
  ultimately show ?thesis by blast
qed

lemma odd_minus_1: "odd m \<Longrightarrow> m - 1 = (m AND NOT 1 :: hwi)"
proof -
  assume "odd m"
  have "m = (m AND NOT 1) OR 1"
    by (rule bit_word_eqI) (use \<open>odd m\<close> in \<open>auto simp: bit_simps bit_0\<close>)
  also have "\<dots> = (m AND NOT 1) + 1"
    by (rule disjunctive_add [symmetric]) (auto simp: bit_simps)
  finally have "m = (m AND NOT 1) + 1" .
  then show ?thesis by (metis add_diff_cancel_right')
qed

lemma odd_and_minus: "odd m \<Longrightarrow> m AND - m = (1 :: hwi)"
  unfolding minus_eq_not_minus_1 odd_minus_1
  by (rule bit_word_eqI) (auto simp: bit_simps bit_0)

lemma lowest_bit: "odd m \<Longrightarrow> push_bit k m AND - push_bit k m = (push_bit k 1 :: hwi)"
proof -
  assume "odd m"
  have "- push_bit k m = push_bit k (- m)" by (simp add: push_bit_eq_mult)
  then show ?thesis using odd_and_minus [OF \<open>odd m\<close>] by (simp flip: push_bit_and)
qed

text \<open>The two tests for a power of two.\<close>

lemma power_of_two_tests:
  fixes x :: hwi
  assumes "x \<noteq> 0"
  shows "x = x AND - x \<longleftrightarrow> (\<exists>k<64. x = push_bit k 1)"
    and "x AND (x - 1) = 0 \<longleftrightarrow> (\<exists>k<64. x = push_bit k 1)"
proof -
  obtain k m where k: "k < 64" "x = push_bit k m" "odd m" "m = drop_bit k x"
    using lowest_bit_split [OF assms] by blast
  have low: "x AND - x = push_bit k 1" unfolding k(2) by (rule lowest_bit [OF k(3)])
  have self: "push_bit j 1 AND - push_bit j 1 = (push_bit j 1 :: hwi)" for j by (rule lowest_bit) simp
  show *: "x = x AND - x \<longleftrightarrow> (\<exists>k<64. x = push_bit k 1)"
    using low k(1) self by metis
  have "x AND (x - 1) = x AND NOT (- x)" by (simp add: not_eq_complement)
  also have "\<dots> = 0 \<longleftrightarrow> x = x AND - x"
    by (auto simp: bit_eq_iff bit_and_iff bit_not_iff)
  finally show "x AND (x - 1) = 0 \<longleftrightarrow> (\<exists>k<64. x = push_bit k 1)" using * by simp
qed

section \<open>Properties\<close>

text \<open>
  C6: \<open>choose_multiplier\<close> succeeds for every divisor that fits the precision and leaves the top bit of
  the operation clear, none of its assertions fails, and the multiplier \<open>m = mh * 2^n + ml\<close> and the
  shift it returns compute the quotient of every operand of the precision: \<open>x div d\<close> is
  \<open>(m * x) div 2^(n + post_shift)\<close>.
\<close>

theorem choose_multiplier_divides:
  assumes "3 \<le> n" "n \<le> 64" "0 < p" "p \<le> n" "d \<noteq> 0" "uint d \<le> 2 ^ p" "uint d \<le> 2 ^ (n - 1)"
  shows "\<exists>mh ml post_shift lgup. choose_multiplier d (int n) (int p) = Inr (mh, ml, post_shift, lgup)
    \<and> uint mh \<le> 1 \<and> uint ml < 2 ^ n \<and> int post_shift \<le> lgup \<and> lgup = ceil_log2 d
    \<and> (\<forall>x. 0 \<le> x \<and> x < 2 ^ p \<longrightarrow>
          ((uint mh * 2 ^ n + uint ml) * x) div 2 ^ (n + post_shift) = x div uint d)"
proof -
  have "0 < uint d" using assms(5) uint64_range(1) [of d] by (simp add: uint_0_iff order_less_le)
  moreover obtain b m s l where r: "choose_multiplier d (int n) (int p) = Inr (b, m, s, int l)" "ceil_log2 d = int l"
      "s \<le> l" "uint b \<le> 1" "uint m < 2 ^ n" "good_multiplier (uint d) n p s (uint b * 2 ^ n + uint m)"
    using choose_multiplier_good [OF assms(5,6,7,3,4,2,1)] by blast
  ultimately have "\<forall>x. 0 \<le> x \<and> x < 2 ^ p \<longrightarrow> ((uint b * 2 ^ n + uint m) * x) div 2 ^ (n + s) = x div uint d"
    using good_multiplier_divides assms(4) by blast
  then show ?thesis using r by (intro exI [of _ b] exI [of _ m] exI [of _ s] exI [of _ "int l"]) simp
qed

theorem choose_multiplier_divides_witness:
  "\<exists>mh ml post_shift lgup. choose_multiplier 7 32 32 = Inr (mh, ml, post_shift, lgup)
    \<and> ((uint mh * 2 ^ 32 + uint ml) * 4294967295) div 2 ^ (32 + post_shift) = 4294967295 div 7"
proof -
  obtain mh ml s l where r: "choose_multiplier 7 (int 32) (int 32) = Inr (mh, ml, s, l)"
      "\<forall>x. 0 \<le> x \<and> x < 2 ^ 32 \<longrightarrow> ((uint mh * 2 ^ 32 + uint ml) * x) div 2 ^ (32 + s) = x div uint (7 :: hwi)"
    using choose_multiplier_divides [of 32 32 7] by auto
  then show ?thesis using r(2) [rule_format, of 4294967295] by simp
qed

text \<open>
  \<open>invert_mod2n\<close> returns an inverse of every odd number modulo \<open>2^n\<close>, for every width up to that
  of the host.
\<close>

theorem invert_mod2n_inverse:
  assumes "odd (uint x)" "0 < n" "n \<le> 64"
  shows "(uint x * uint (invert_mod2n x n)) mod 2 ^ n = 1"
proof -
  have "(uint x * uint (invert_mod2n x n)) mod 2 ^ n = 1 mod 2 ^ n"
    using invert_mod2n_dvd [OF assms(1,3)] by (simp only: mod_eq_dvd_iff)
  then show ?thesis using assms(2) by simp
qed

theorem invert_mod2n_inverse_witness: "(7 * uint (invert_mod2n 7 64)) mod 2 ^ 64 = 1"
  using invert_mod2n_inverse [of 7 64] by simp

text \<open>
  The logarithms: \<open>floor_log2\<close> is \<open>-1\<close> for 0 and otherwise the position of the highest bit, in
  0..63; \<open>exact_log2\<close> is the logarithm of a power of two and \<open>-1\<close> for every other number;
  \<open>ceil_log2\<close> of a number above 0 is the least exponent of a power of two that is not below it.
\<close>

theorem log2_bounds:
  "floor_log2 0 = -1 \<and> exact_log2 0 = -1 \<and>
   (x \<noteq> 0 \<longrightarrow>
      0 \<le> floor_log2 x \<and> floor_log2 x \<le> 63 \<and>
      2 ^ nat (floor_log2 x) \<le> uint x \<and> uint x < 2 ^ Suc (nat (floor_log2 x)) \<and>
      exact_log2 x = (if \<exists>k<64. x = push_bit k 1 then floor_log2 x else -1) \<and>
      0 \<le> ceil_log2 x \<and> ceil_log2 x \<le> 64 \<and> uint x \<le> 2 ^ nat (ceil_log2 x) \<and>
      (\<forall>k. uint x \<le> 2 ^ k \<longrightarrow> nat (ceil_log2 x) \<le> k))"
proof -
  have zero: "floor_log2 0 = -1" "exact_log2 0 = -1" by (simp_all add: floor_log2_def exact_log2_def)
  have floor: "0 \<le> floor_log2 x \<and> floor_log2 x \<le> 63 \<and>
     2 ^ nat (floor_log2 x) \<le> uint x \<and> uint x < 2 ^ Suc (nat (floor_log2 x))" if "x \<noteq> 0"
    using floor_log2_spec [OF that] by auto
  have exact: "exact_log2 x = (if \<exists>k<64. x = push_bit k 1 then floor_log2 x else -1)" if "x \<noteq> 0"
    unfolding exact_log2_def power_of_two_tests(1) [OF that, symmetric] by simp
  have ceil: "0 \<le> ceil_log2 x \<and> ceil_log2 x \<le> 64 \<and> uint x \<le> 2 ^ nat (ceil_log2 x) \<and>
     (\<forall>k. uint x \<le> 2 ^ k \<longrightarrow> nat (ceil_log2 x) \<le> k)" if nz: "x \<noteq> 0"
  proof -
    obtain l where l: "ceil_log2 x = int l" "l \<le> 64" "uint x \<le> 2 ^ l" "0 < l \<longrightarrow> 2 ^ (l - 1) < uint x"
      using ceil_log2_spec [OF nz] by blast
    then show ?thesis using log_le_bound [OF l(4)] by simp
  qed
  show ?thesis using zero floor exact ceil by blast
qed

theorem log2_bounds_witness: "2 ^ nat (floor_log2 1000) \<le> (1000 :: int) \<and> 0 \<le> floor_log2 1000"
  using log2_bounds [of 1000] by simp

end
