(* ===== verification/Expand_Divmod.thy ===== *)
theory Expand_Divmod
  imports Expmed_Div
begin

text \<open>
  The division by constants of \<open>expand_divmod\<close>, \<open>src/gcc/expmed.c\<close>: which instructions are emitted
  for a constant divisor of a mode with \<open>sz\<close> bits. An emitted sequence is the expression of its
  result over the operand, and \<open>rtx_val\<close> is what the instructions compute on \<open>sz\<close>-bit registers.
  The costs and the capabilities of the target only decide whether a sequence is used; they are
  the fields of \<open>div_target\<close>. A sequence that is given up (\<open>goto fail1\<close>) is \<open>None\<close>.
\<close>

section \<open>Emitted instructions and their values\<close>

datatype div_rtx =
  Op0
| Const_int hwi
| Lshiftrt div_rtx nat
| Ashiftrt div_rtx nat
| Umul_highpart div_rtx hwi
| Smul_highpart div_rtx hwi
| Mult div_rtx hwi
| Sdiv div_rtx hwi
| Plus div_rtx div_rtx
| Minus div_rtx div_rtx
| Xor div_rtx div_rtx
| Ior div_rtx div_rtx
| And div_rtx div_rtx
| Not div_rtx
| Neg div_rtx
| Geu div_rtx hwi
| Eq div_rtx hwi
| Lt_zero div_rtx int
| If_neg div_rtx div_rtx div_rtx

text \<open>
  Values are the unsigned readings of \<open>sz\<close>-bit registers. \<open>Lt_zero e v\<close> stores \<open>v\<close> when the sign bit
  of \<open>e\<close> is set and 0 otherwise; \<open>If_neg e a b\<close> is the conditional move, or the branch around \<open>a\<close>.
\<close>

definition sval :: "nat \<Rightarrow> int \<Rightarrow> int" where
  "sval sz v = (if v < 2 ^ (sz - 1) then v else v - 2 ^ sz)"

fun rtx_val :: "nat \<Rightarrow> int \<Rightarrow> div_rtx \<Rightarrow> int" where
  "rtx_val sz x Op0 = x mod 2 ^ sz"
| "rtx_val sz x (Const_int c) = uint c mod 2 ^ sz"
| "rtx_val sz x (Lshiftrt e k) = rtx_val sz x e div 2 ^ k"
| "rtx_val sz x (Ashiftrt e k) = (sval sz (rtx_val sz x e) div 2 ^ k) mod 2 ^ sz"
| "rtx_val sz x (Umul_highpart e c) = (rtx_val sz x e * (uint c mod 2 ^ sz)) div 2 ^ sz"
| "rtx_val sz x (Smul_highpart e c) =
     ((sval sz (rtx_val sz x e) * sval sz (uint c mod 2 ^ sz)) div 2 ^ sz) mod 2 ^ sz"
| "rtx_val sz x (Mult e c) = (rtx_val sz x e * uint c) mod 2 ^ sz"
| "rtx_val sz x (Sdiv e c) = c_div (sval sz (rtx_val sz x e)) (sval sz (uint c mod 2 ^ sz)) mod 2 ^ sz"
| "rtx_val sz x (Plus a b) = (rtx_val sz x a + rtx_val sz x b) mod 2 ^ sz"
| "rtx_val sz x (Minus a b) = (rtx_val sz x a - rtx_val sz x b) mod 2 ^ sz"
| "rtx_val sz x (Xor a b) = rtx_val sz x a XOR rtx_val sz x b"
| "rtx_val sz x (Ior a b) = rtx_val sz x a OR rtx_val sz x b"
| "rtx_val sz x (And a b) = rtx_val sz x a AND rtx_val sz x b"
| "rtx_val sz x (Not a) = 2 ^ sz - 1 - rtx_val sz x a"
| "rtx_val sz x (Neg a) = (- rtx_val sz x a) mod 2 ^ sz"
| "rtx_val sz x (Geu a c) = of_bool (rtx_val sz x a \<ge> uint c mod 2 ^ sz)"
| "rtx_val sz x (Eq a c) = of_bool (rtx_val sz x a = uint c mod 2 ^ sz)"
| "rtx_val sz x (Lt_zero a v) = (if sval sz (rtx_val sz x a) < 0 then v mod 2 ^ sz else 0)"
| "rtx_val sz x (If_neg a b c) = (if sval sz (rtx_val sz x a) < 0 then rtx_val sz x b else rtx_val sz x c)"

record div_target =
  BITS_PER_WORD :: nat
  highpart_ok :: bool
  store_flag_ok :: bool
  branch_cost :: nat
  have_conditional_move :: bool
  shift_expensive :: bool

section \<open>The expansions\<close>

text \<open>Unsigned truncating division.\<close>

definition udiv_even_divisor :: "nat \<Rightarrow> hwi \<Rightarrow> hwi \<times> hwi \<times> nat \<Rightarrow> (nat \<times> hwi \<times> hwi \<times> nat) outcome" where
  "udiv_even_divisor sz d = (\<lambda>(mh, ml, post_shift).
     if mh \<noteq> 0 \<and> d AND 1 = 0 then
       (let pre_shift = nat (floor_log2 (d AND - d))
        in case choose_multiplier (drop_bit pre_shift d) (int sz) (int sz - int pre_shift) of
             Inl e \<Rightarrow> Inl e
           | Inr (mh, ml, post_shift, _) \<Rightarrow>
               (if mh \<noteq> 0 then Inl Ice else Inr (pre_shift, mh, ml, post_shift)))
     else Inr (0, mh, ml, post_shift))"

definition udiv_multiply :: "div_target \<Rightarrow> div_rtx \<Rightarrow> nat \<times> hwi \<times> hwi \<times> nat \<Rightarrow> div_rtx option outcome" where
  "udiv_multiply t op0 = (\<lambda>(pre_shift, mh, ml, post_shift).
     if mh \<noteq> 0 then
       (if post_shift = 0 then Inl Undefined
        else if post_shift - 1 \<ge> BITS_PER_WORD t \<or> \<not> highpart_ok t then Inr None
        else let t1 = Umul_highpart op0 ml;
                 t2 = Minus op0 t1;
                 t3 = Lshiftrt t2 1;
                 t4 = Plus t1 t3
             in Inr (Some (Lshiftrt t4 (post_shift - 1))))
     else
       (if pre_shift \<ge> BITS_PER_WORD t \<or> post_shift \<ge> BITS_PER_WORD t \<or> \<not> highpart_ok t then Inr None
        else let t1 = Lshiftrt op0 pre_shift;
                 t2 = Umul_highpart t1 ml
             in Inr (Some (Lshiftrt t2 post_shift))))"

definition expand_udiv :: "div_target \<Rightarrow> nat \<Rightarrow> div_rtx \<Rightarrow> hwi \<Rightarrow> div_rtx option outcome" where
  "expand_udiv t sz op0 op1 =
     (let d = op1 AND mask sz
      in if d AND (d - 1) = 0 then
           (if d = 0 then Inl Undefined else Inr (Some (Lshiftrt op0 (nat (floor_log2 d)))))
         else if sz \<le> 64 then
           (if push_bit (sz - 1) 1 \<le> d then Inr (if store_flag_ok t then Some (Geu op0 op1) else None)
            else case choose_multiplier d (int sz) (int sz) of
                   Inl e \<Rightarrow> Inl e
                 | Inr (mh, ml, post_shift, _) \<Rightarrow>
                     (case udiv_even_divisor sz d (mh, ml, post_shift) of
                        Inl e \<Rightarrow> Inl e
                      | Inr r \<Rightarrow> udiv_multiply t op0 r))
         else Inr None)"

text \<open>Signed division by a power of two; the divisor is positive.\<close>

definition expand_sdiv_pow2 :: "div_target \<Rightarrow> nat \<Rightarrow> div_rtx \<Rightarrow> hwi \<Rightarrow> div_rtx" where
  "expand_sdiv_pow2 t sz op0 d =
     (let logd = nat (floor_log2 d)
      in if d = 2 \<and> branch_cost t \<ge> 1 then Ashiftrt (Plus (Lt_zero op0 1) op0) logd
         else if have_conditional_move t \<and> branch_cost t \<ge> 2 then
           Ashiftrt (If_neg op0 (Plus op0 (Const_int (d - 1))) op0) logd
         else if branch_cost t \<ge> 2 then
           (let temp = Lt_zero op0 (-1);
                temp = (if shift_expensive t then And temp (Const_int (d - 1)) else Lshiftrt temp (sz - logd))
            in Ashiftrt (Plus temp op0) logd)
         else Ashiftrt (If_neg op0 (Plus op0 (Const_int (d - 1))) op0) logd)"

text \<open>
  Signed truncating division (\<open>sdiv_pow2_cheap\<close> is taken to be false: otherwise the division
  instruction itself is used for powers of two).
\<close>

definition expand_sdiv :: "div_target \<Rightarrow> nat \<Rightarrow> div_rtx \<Rightarrow> hwi \<Rightarrow> div_rtx option outcome" where
  "expand_sdiv t sz op0 d =
     (let abs_d = (if sint d \<ge> 0 then d else - d)
      in if d = 1 then Inr (Some op0)
         else if d = -1 then Inr (Some (Neg op0))
         else if abs_d = push_bit (sz - 1) 1 then Inr (if store_flag_ok t then Some (Eq op0 d) else None)
         else if abs_d AND (abs_d - 1) = 0 then
           (let quotient = expand_sdiv_pow2 t sz op0 abs_d
            in Inr (Some (if sint d < 0 then Neg quotient else quotient)))
         else if sz \<le> 64 then
           (case choose_multiplier abs_d (int sz) (int sz - 1) of
              Inl e \<Rightarrow> Inl e
            | Inr (_, ml, post_shift, _) \<Rightarrow>
                (if post_shift \<ge> BITS_PER_WORD t \<or> sz - 1 \<ge> BITS_PER_WORD t \<or> \<not> highpart_ok t then Inr None
                 else
                   (let t2 = (if ml < push_bit (sz - 1) 1 then Smul_highpart op0 ml
                              else Plus (Smul_highpart op0 (ml OR push_bit (sz - 1) (NOT 0))) op0);
                        t3 = Ashiftrt t2 post_shift;
                        t4 = Ashiftrt op0 (sz - 1)
                    in Inr (Some (if sint d < 0 then Minus t4 t3 else Minus t3 t4)))))
         else Inr None)"

text \<open>
  Signed division that rounds down. A negative divisor is left to the truncating division, which
  uses the division instruction when it gives up its own sequences.
\<close>

definition expand_floor_sdiv :: "div_target \<Rightarrow> nat \<Rightarrow> div_rtx \<Rightarrow> hwi \<Rightarrow> div_rtx option outcome" where
  "expand_floor_sdiv t sz op0 d =
     (if \<not> sz \<le> 64 then Inr None
      else if sint d > 0 then
        (if d AND (d - 1) = 0 then Inr (Some (Ashiftrt op0 (nat (floor_log2 d))))
         else
           (case choose_multiplier d (int sz) (int sz - 1) of
              Inl e \<Rightarrow> Inl e
            | Inr (mh, ml, post_shift, _) \<Rightarrow>
                (if mh \<noteq> 0 then Inl Ice
                 else if post_shift < BITS_PER_WORD t \<and> sz - 1 < BITS_PER_WORD t \<and> highpart_ok t then
                   (let t1 = Ashiftrt op0 (sz - 1);
                        t2 = Xor op0 t1;
                        t3 = Umul_highpart t2 ml;
                        t4 = Lshiftrt t3 post_shift
                    in Inr (Some (Xor t4 t1)))
                 else Inr None)))
      else
        (let t1 = Plus op0 (Const_int (- 1));
             t2 = Ior op0 t1;
             nsign = Ashiftrt t2 (sz - 1);
             t3 = Minus t1 nsign
         in case expand_sdiv t sz t3 d of
              Inl e \<Rightarrow> Inl e
            | Inr r \<Rightarrow>
                (let t4 = (case r of None \<Rightarrow> Sdiv t3 d | Some t4 \<Rightarrow> t4)
                 in Inr (Some (Plus t4 (Not nsign))))))"

text \<open>Exact division, by the inverse of the odd part of the divisor.\<close>

definition expand_exact_div :: "bool \<Rightarrow> nat \<Rightarrow> div_rtx \<Rightarrow> hwi \<Rightarrow> div_rtx" where
  "expand_exact_div unsignedp sz op0 d =
     (let pre_shift = nat (floor_log2 (d AND - d));
          ml = invert_mod2n (signed_drop_bit pre_shift d) sz;
          t1 = (if unsignedp then Lshiftrt op0 pre_shift else Ashiftrt op0 pre_shift)
      in Mult t1 ml)"


section \<open>Registers\<close>

lemma sval_bounds:
  assumes "0 < sz" "0 \<le> v" "v < 2 ^ sz"
  shows "- (2 ^ (sz - 1)) \<le> sval sz v" "sval sz v < 2 ^ (sz - 1)" "sval sz v mod 2 ^ sz = v"
proof -
  have p: "(2 :: int) ^ sz = 2 * 2 ^ (sz - 1)" using assms(1) by (simp flip: power_Suc)
  show "- (2 ^ (sz - 1)) \<le> sval sz v" "sval sz v < 2 ^ (sz - 1)"
    using assms(2,3) unfolding sval_def p by simp_all
  show "sval sz v mod 2 ^ sz = v" using assms(2,3) by (simp add: sval_def)
qed

lemma sval_mod:
  assumes "0 < sz" "- (2 ^ (sz - 1)) \<le> y" "y < 2 ^ (sz - 1)"
  shows "sval sz (y mod 2 ^ sz) = y"
proof -
  have p: "(2 :: int) ^ sz = 2 * 2 ^ (sz - 1)" using assms(1) by (simp flip: power_Suc)
  show ?thesis
  proof (cases "0 \<le> y")
    case True
    then have "y mod 2 ^ sz = y" using assms(3) unfolding p by simp
    then show ?thesis using assms(3) by (simp add: sval_def)
  next
    case False
    have "y mod 2 ^ sz = (y + 2 ^ sz) mod 2 ^ sz" by simp
    also have "\<dots> = y + 2 ^ sz" using False assms(2) unfolding p by (intro mod_pos_pos_trivial) simp_all
    finally have "y mod 2 ^ sz = y + 2 ^ sz" .
    then show ?thesis using False assms(2) unfolding sval_def p by simp
  qed
qed

lemma rtx_val_range:
  assumes "0 < sz"
  shows "0 \<le> rtx_val sz x e" "rtx_val sz x e < 2 ^ sz"
proof -
  have "0 \<le> rtx_val sz x e \<and> rtx_val sz x e < 2 ^ sz"
  proof (induction e)
    case (Lshiftrt e k)
    then show ?case
      using zdiv_mono2 [of "rtx_val sz x e" 1 "2 ^ k"] by (simp add: pos_imp_zdiv_nonneg_iff)
  next
    case (Umul_highpart e c)
    have "rtx_val sz x e * (uint c mod 2 ^ sz) < 2 ^ sz * 2 ^ sz"
      using Umul_highpart by (intro mult_strict_mono) simp_all
    then show ?case using Umul_highpart by (auto simp: pos_imp_zdiv_nonneg_iff intro!: div_less_bound)
  next
    case (Geu e c)
    then show ?case using one_less_power [of "2 :: int" sz] assms by simp
  next
    case (Eq e c)
    then show ?case using one_less_power [of "2 :: int" sz] assms by simp
  qed (auto simp: OR_upper XOR_upper AND_upper1 intro: order_le_less_trans [OF AND_upper1])
  then show "0 \<le> rtx_val sz x e" "rtx_val sz x e < 2 ^ sz" by blast+
qed

section \<open>Unsigned division\<close>

lemma uint_mask_and: "uint (c AND mask sz :: hwi) = uint c mod 2 ^ sz"
  by (simp only: take_bit_eq_mask [symmetric] unsigned_take_bit_eq) (simp only: take_bit_eq_mod)

text \<open>The sequence for a multiplier with one bit more than the registers have.\<close>

lemma long_multiplier_sequence:
  fixes x ml :: int
  assumes "0 \<le> x" "x < 2 ^ sz" "0 \<le> ml" "ml < 2 ^ sz" "0 < s"
  defines "t1 \<equiv> (x * ml) div 2 ^ sz"
  shows "((t1 + ((x - t1) mod 2 ^ sz) div 2) mod 2 ^ sz) div 2 ^ (s - 1) = ((2 ^ sz + ml) * x) div 2 ^ (sz + s)"
proof -
  have t1: "0 \<le> t1" "t1 \<le> x"
  proof -
    show "0 \<le> t1" using assms by (simp add: t1_def pos_imp_zdiv_nonneg_iff)
    have "x * ml \<le> x * 2 ^ sz" using assms by (intro mult_left_mono) simp_all
    then have "t1 \<le> (x * 2 ^ sz) div 2 ^ sz" unfolding t1_def by (intro zdiv_mono1) simp_all
    then show "t1 \<le> x" by simp
  qed
  have sub: "(x - t1) mod 2 ^ sz = x - t1" using t1 assms(2) by (intro mod_pos_pos_trivial) simp_all
  have half: "t1 + (x - t1) div 2 = (x + t1) div 2" by presburger
  have "t1 + (x - t1) div 2 \<le> x" using t1 by presburger
  then have add: "(t1 + (x - t1) div 2) mod 2 ^ sz = (x + t1) div 2"
    using t1 assms(2) unfolding half [symmetric] by (intro mod_pos_pos_trivial) simp_all
  have "((2 ^ sz + ml) * x) div 2 ^ (sz + s) = ((2 ^ sz + ml) * x) div 2 ^ sz div 2 ^ s"
    unfolding power_add by (rule zdiv_zmult2_eq) simp
  also have "((2 ^ sz + ml) * x) div 2 ^ sz = (x * 2 ^ sz + x * ml) div 2 ^ sz" by (simp add: algebra_simps)
  also have "\<dots> = x + t1" by (simp add: t1_def)
  also have "(x + t1) div 2 ^ s = (x + t1) div 2 div 2 ^ (s - 1)"
    using assms(5) by (simp add: zdiv_zmult2_eq [symmetric] flip: power_Suc)
  finally show ?thesis by (simp only: sub add)
qed

lemma short_multiplier_sequence: "(x * ml) div 2 ^ sz div 2 ^ s = (ml * x) div 2 ^ (sz + s)" for x ml :: int
  by (simp add: power_add zdiv_zmult2_eq [symmetric] mult.commute)

text \<open>Fewer bits of precision than the registers have: the multiplier fits into a register.\<close>

lemma multiplier_fits:
  fixes D :: int
  assumes good: "good_multiplier D n p s m" and D: "0 < D" "D \<le> 2 ^ l" "0 < l \<longrightarrow> 2 ^ (l - 1) < D" "D < 2 ^ p"
    and p: "p < n" and s: "s \<le> l"
    and stop: "0 < s \<longrightarrow> (2 ^ (n + s - 1) + 2 ^ (n + s - 1 - p)) div D \<le> 2 ^ (n + s - 1) div D"
    and not_one: "D \<noteq> 1"
  shows "m < 2 ^ n"
proof (rule ccontr)
  assume "\<not> m < 2 ^ n"
  have "0 < l" using D not_one by (cases l) simp_all
  have "s \<noteq> l"
  proof
    assume "s = l"
    have "(2 :: int) ^ l \<le> 2 ^ (n + s - 1 - p)" using \<open>0 < l\<close> \<open>s = l\<close> p by (intro power_increasing) simp_all
    then have "(2 ^ (n + s - 1) + D) div D \<le> (2 ^ (n + s - 1) + 2 ^ (n + s - 1 - p)) div D"
      using D(1,2) by (intro zdiv_mono1 add_left_mono) (rule order_trans)
    moreover have "(2 ^ (n + s - 1) + D) div D = 2 ^ (n + s - 1) div D + 1" using D(1) by (intro div_add_self2) simp
    ultimately show False using stop \<open>0 < l\<close> \<open>s = l\<close> by simp
  qed
  then have "s \<le> l - 1" using s by simp
  then have "(2 :: int) ^ s \<le> 2 ^ (l - 1)" by (intro power_increasing) simp_all
  moreover have "2 ^ (l - 1) < D" using D(3) \<open>0 < l\<close> by blast
  ultimately have sD: "2 ^ s + 1 \<le> D" by linarith
  have "2 ^ n * (2 ^ s + 1) \<le> m * D"
  proof (rule mult_mono)
    show "0 \<le> m" using \<open>\<not> m < 2 ^ n\<close> zero_le_power [of "2 :: int" n] by linarith
  qed (use sD \<open>\<not> m < 2 ^ n\<close> in simp_all)
  then have "(2 :: int) ^ n \<le> 2 ^ (n + s - p)"
    using good unfolding good_multiplier_def power_add distrib_left by linarith
  then have "n \<le> n + s - p" by simp
  moreover have "(2 :: int) ^ s < 2 ^ p" using sD D(4) by linarith
  then have "s < p" by simp
  ultimately show False using p by simp
qed

lemma udiv_sequence:
  fixes mh ml :: hwi
  assumes good: "good_multiplier D sz sz s (uint mh * 2 ^ sz + uint ml)" and D: "0 < D" "D \<noteq> 1" "D < 2 ^ sz"
    and m: "uint mh \<le> 1" "uint ml < 2 ^ sz" and "1 < sz"
  shows "mh \<noteq> 0 \<Longrightarrow> 0 < s \<and>
      rtx_val sz x (Lshiftrt (Plus (Umul_highpart e ml) (Lshiftrt (Minus e (Umul_highpart e ml)) 1)) (s - 1))
        = rtx_val sz x e div D"
    and "mh = 0 \<Longrightarrow> rtx_val sz x (Lshiftrt (Umul_highpart (Lshiftrt e 0) ml) s) = rtx_val sz x e div D"
proof -
  let ?x = "rtx_val sz x e"
  have x: "0 \<le> ?x" "?x < 2 ^ sz" using rtx_val_range [of sz x e] \<open>1 < sz\<close> by simp_all
  have div: "((uint mh * 2 ^ sz + uint ml) * ?x) div 2 ^ (sz + s) = ?x div D"
    using good_multiplier_divides [OF good D(1) order_refl x] .
  have ml: "uint ml mod 2 ^ sz = uint ml" using m uint64_range(1) [of ml] by simp
  show "0 < s \<and>
      rtx_val sz x (Lshiftrt (Plus (Umul_highpart e ml) (Lshiftrt (Minus e (Umul_highpart e ml)) 1)) (s - 1))
        = ?x div D" if "mh \<noteq> 0"
  proof -
    have mh: "uint mh = 1" using that m uint64_range(1) [of mh] uint_0_iff [of mh] by linarith
    have "0 < s"
    proof (rule ccontr)
      assume "\<not> 0 < s"
      then have "(2 ^ sz + uint ml) * D \<le> 2 ^ sz + 1" using good by (simp add: good_multiplier_def mh)
      moreover have "(2 ^ sz + uint ml) * 2 \<le> (2 ^ sz + uint ml) * D"
        using D uint64_range(1) [of ml] by (intro mult_left_mono) simp_all
      moreover have "(2 :: int) ^ 1 < 2 ^ sz" using \<open>1 < sz\<close> by (intro power_strict_increasing) simp_all
      ultimately show False using uint64_range(1) [of ml] by simp
    qed
    then show ?thesis
      using long_multiplier_sequence [OF x uint64_range(1) m(2), of s] div mh by (simp add: ml)
  qed
  show "rtx_val sz x (Lshiftrt (Umul_highpart (Lshiftrt e 0) ml) s) = ?x div D" if "mh = 0"
    using short_multiplier_sequence [of ?x "uint ml" sz s] div that by (simp add: ml)
qed

lemma floor_log2_push_bit:
  assumes "k < 64"
  shows "floor_log2 (push_bit k 1) = int k"
proof -
  have nz: "push_bit k 1 \<noteq> (0 :: hwi)" using uint_push_bit_1 [OF assms] uint_0_iff [of "push_bit k 1 :: hwi"] by auto
  obtain t where t: "floor_log2 (push_bit k 1) = int t" "2 ^ t \<le> uint (push_bit k 1 :: hwi)"
      "uint (push_bit k 1 :: hwi) < 2 ^ Suc t"
    using floor_log2_spec [OF nz] by blast
  have "(2 :: int) ^ t \<le> 2 ^ k" "(2 :: int) ^ k < 2 ^ Suc t"
    using t(2,3) unfolding uint_push_bit_1 [OF assms] by blast+
  then have "t \<le> k" "k < Suc t" using power_strict_increasing_iff [of "2 :: int" k "Suc t"] by simp_all
  then show ?thesis using t(1) by simp
qed

lemma uint_split_low:
  assumes "x = push_bit k (drop_bit k x :: hwi)"
  shows "uint x = 2 ^ k * uint (drop_bit k x)"
proof -
  have m: "uint (drop_bit k x) = uint x div 2 ^ k"
    unfolding unsigned_drop_bit_eq by (simp add: drop_bit_eq_div take_bit_int_eq_self uint64_range)
  have push: "uint (push_bit k w :: hwi) = (2 ^ k * uint w) mod 2 ^ 64" for w
    by transfer (simp add: take_bit_eq_mod push_bit_eq_mult mod_simps mult.commute)
  have "2 ^ k * uint (drop_bit k x) \<le> uint x"
    using mult_div_mod_eq [of "2 ^ k" "uint x"] pos_mod_sign [of "2 ^ k" "uint x", OF zero_less_power]
    unfolding m by linarith
  then have "(2 ^ k * uint (drop_bit k x)) mod 2 ^ 64 = 2 ^ k * uint (drop_bit k x)"
    using uint64_range [of x] uint64_range(1) [of "drop_bit k x"] by (intro mod_pos_pos_trivial) simp_all
  then show ?thesis using arg_cong [OF assms, of uint] by (simp only: push)
qed

lemma choose_multiplier_fits:
  fixes d :: hwi
  assumes d: "d \<noteq> 0" "uint d < 2 ^ p" "uint d \<noteq> 1" and n: "0 < p" "p < n" "n \<le> 64" "3 \<le> n"
  shows "\<exists>m s l. choose_multiplier d (int n) (int p) = Inr (0, m, s, l) \<and> s < n \<and> uint m < 2 ^ n
    \<and> good_multiplier (uint d) n p s (uint m)"
proof -
  have "(2 :: int) ^ p \<le> 2 ^ (n - 1)" using n by (intro power_increasing) simp_all
  then have le: "uint d \<le> 2 ^ (n - 1)" using d(2) by linarith
  obtain b m s l where c: "choose_multiplier d (int n) (int p) = Inr (b, m, s, int l)" "ceil_log2 d = int l"
      "s \<le> l" "uint b \<le> 1" "uint m < 2 ^ n" "good_multiplier (uint d) n p s (uint b * 2 ^ n + uint m)"
      "0 < s \<longrightarrow> (2 ^ (n + s - 1) + 2 ^ (n + s - 1 - p)) div uint d \<le> 2 ^ (n + s - 1) div uint d"
    using choose_multiplier_good [OF d(1) less_imp_le [OF d(2)] le n(1) less_imp_le [OF n(2)] n(3,4)] by blast
  have l: "uint d \<le> 2 ^ l" "0 < l \<longrightarrow> 2 ^ (l - 1) < uint d" using ceil_log2_spec [OF d(1)] c(2) by auto
  have pos: "0 < uint d" using d(1) uint64_range(1) [of d] by (simp add: uint_0_iff order_less_le)
  have "uint b * 2 ^ n + uint m < 2 ^ n"
    by (rule multiplier_fits [OF c(6) pos l d(2) n(2) c(3,7) d(3)])
  then have "uint b * 2 ^ n < 1 * 2 ^ n" using uint64_range(1) [of m] by linarith
  then have "uint b < 1" by (rule mult_right_less_imp_less) simp
  then have b: "b = 0" using uint64_range(1) [of b] uint_0_iff [of b] by linarith
  have "l \<le> n - 1" by (rule log_le_bound [OF l(2) le])
  then have "s < n" using c(3) n(4) by simp
  then show ?thesis using c(1,5,6) unfolding b by (intro exI [of _ m] exI [of _ s] exI [of _ "int l"]) simp
qed

text \<open>An even divisor: shifting out its low zero bits makes room for the multiplier.\<close>

lemma udiv_even_divisor_spec:
  assumes sz: "3 \<le> sz" "sz \<le> 64" and "uint d < 2 ^ (sz - 1)" "d \<noteq> 0" "\<not> (\<exists>k<64. d = push_bit k 1)" "d AND 1 = 0" "mh \<noteq> 0"
  shows "\<exists>k ml s. udiv_even_divisor sz d (mh, ml0, s0) = Inr (k, 0, ml, s)
    \<and> k < sz \<and> s < sz \<and> (\<forall>x e. rtx_val sz x (Lshiftrt (Umul_highpart (Lshiftrt e k) ml) s) = rtx_val sz x e div uint d)"
proof -
  obtain k d' where k: "k < 64" "d = push_bit k d'" "odd d'" "d' = drop_bit k d"
    using lowest_bit_split [OF assms(4)] by blast
  have "0 < k" using assms(6) k(2,3) by (cases k) (auto simp: and_one_eq)
  have low: "floor_log2 (d AND - d) = int k"
    using lowest_bit [OF k(3), of k] floor_log2_push_bit [OF k(1)] k(2) by simp
  have D: "uint d = 2 ^ k * uint d'" unfolding k(4) by (rule uint_split_low [OF k(2) [unfolded k(4)]])
  have "d' \<noteq> 0" using k(3) by auto
  have "d' \<noteq> 1" using assms(5) k(1,2) by auto
  then have not_one: "uint d' \<noteq> 1" by (simp add: word_uint_eq_iff)
  have pos: "0 < uint d'" using \<open>d' \<noteq> 0\<close> uint64_range(1) [of d'] by (simp add: uint_0_iff order_less_le)
  have "(2 :: int) ^ k * 1 \<le> 2 ^ k * uint d'" using pos by (intro mult_left_mono) simp_all
  then have "(2 :: int) ^ k < 2 ^ (sz - 1)" using assms(3) D by linarith
  then have ksz: "k < sz - 1" by simp
  then have "(2 :: int) ^ (sz - 1) = 2 ^ k * 2 ^ (sz - 1 - k)" by (simp flip: power_add)
  then have d'_bound: "uint d' < 2 ^ (sz - 1 - k)" using assms(3) D by simp
  also have "(2 :: int) ^ (sz - 1 - k) < 2 ^ (sz - k)" using ksz by simp
  finally have d'_fits: "uint d' < 2 ^ (sz - k)" .
  have prec: "0 < sz - k" "sz - k < sz" using ksz \<open>0 < k\<close> by simp_all
  obtain m s l where c: "choose_multiplier d' (int sz) (int (sz - k)) = Inr (0, m, s, l)" "s < sz" "uint m < 2 ^ sz"
      "good_multiplier (uint d') sz (sz - k) s (uint m)"
    using choose_multiplier_fits [OF \<open>d' \<noteq> 0\<close> d'_fits not_one prec sz(2,1)] by blast
  have "k < sz" using ksz by simp
  moreover have "udiv_even_divisor sz d (mh, ml0, s0) = Inr (k, 0, m, s)"
    using assms(6,7) ksz c(1) by (simp add: udiv_even_divisor_def Let_def low flip: k(4))
  moreover have "rtx_val sz x (Lshiftrt (Umul_highpart (Lshiftrt e k) m) s) = rtx_val sz x e div uint d" for x e
  proof -
    define y where "y = rtx_val sz x e div 2 ^ k"
    have e: "0 \<le> rtx_val sz x e" "rtx_val sz x e < 2 ^ sz" using rtx_val_range [of sz x e] assms(1) by simp_all
    have "(2 :: int) ^ sz = 2 ^ (sz - k) * 2 ^ k" using ksz by (simp flip: power_add)
    then have y: "0 \<le> y" "y < 2 ^ (sz - k)"
      using e by (auto simp: y_def pos_imp_zdiv_nonneg_iff intro!: div_less_bound)
    have "uint m mod 2 ^ sz = uint m" using c(3) uint64_range(1) [of m] by simp
    then have "rtx_val sz x (Lshiftrt (Umul_highpart (Lshiftrt e k) m) s) = (y * uint m) div 2 ^ sz div 2 ^ s"
      by (simp add: y_def)
    also have "\<dots> = (uint m * y) div 2 ^ (sz + s)" by (rule short_multiplier_sequence)
    also have "\<dots> = y div uint d'"
      using good_multiplier_divides [OF c(4) pos _ y] ksz by simp
    also have "\<dots> = rtx_val sz x e div uint d" unfolding y_def D by (simp add: zdiv_zmult2_eq)
    finally show ?thesis .
  qed
  ultimately show ?thesis using c(2) by blast
qed



lemma expand_udiv_value:
  assumes sz: "3 \<le> sz" "sz \<le> 64" and d: "op1 AND mask sz \<noteq> 0"
  shows "\<exists>r. expand_udiv t sz op0 op1 = Inr r
    \<and> (highpart_ok t \<and> store_flag_ok t \<and> sz \<le> BITS_PER_WORD t \<longrightarrow> r \<noteq> None)
    \<and> (\<forall>q x. r = Some q \<longrightarrow> rtx_val sz x q = rtx_val sz x op0 div (uint op1 mod 2 ^ sz))"
proof -
  define D where "D = uint op1 mod 2 ^ sz"
  define dw where "dw = op1 AND mask sz"
  have D: "uint dw = D" unfolding D_def dw_def by (rule uint_mask_and)
  have "dw \<noteq> 0" using d by (simp add: dw_def)
  have "D \<noteq> 0" using \<open>dw \<noteq> 0\<close> uint_0_iff [of dw] unfolding D by blast
  moreover have "0 \<le> D" unfolding D_def by simp
  ultimately have D_range: "0 < D" by linarith
  have D_top: "D < 2 ^ sz" unfolding D_def by simp
  have sz1: "sz - 1 < 64" "0 < sz" using sz by simp_all
  have half: "(2 :: int) ^ sz = 2 * 2 ^ (sz - 1)" using sz1(2) by (simp flip: power_Suc)
  have top: "push_bit (sz - 1) 1 \<le> dw \<longleftrightarrow> 2 ^ (sz - 1) \<le> D"
    unfolding word_le_def uint_push_bit_1 [OF sz1(1)] D ..
  consider (pow2) k where "k < 64" "dw = push_bit k 1"
    | (scc) "\<not> (\<exists>k<64. dw = push_bit k 1)" "2 ^ (sz - 1) \<le> D"
    | (mult) "\<not> (\<exists>k<64. dw = push_bit k 1)" "D < 2 ^ (sz - 1)"
    by (meson not_le)
  then show ?thesis
  proof cases
    case pow2
    have "expand_udiv t sz op0 op1 = Inr (Some (Lshiftrt op0 k))"
      using power_of_two_tests(2) [OF \<open>dw \<noteq> 0\<close>] \<open>dw \<noteq> 0\<close> pow2 floor_log2_push_bit [OF pow2(1)]
      unfolding expand_udiv_def Let_def dw_def [symmetric] by (auto simp del: push_bit_of_1)
    moreover have "D = 2 ^ k" using D pow2 uint_push_bit_1 by simp
    ultimately show ?thesis by (simp add: D_def)
  next
    case scc
    have "expand_udiv t sz op0 op1 = Inr (if store_flag_ok t then Some (Geu op0 op1) else None)"
      using power_of_two_tests(2) [OF \<open>dw \<noteq> 0\<close>] scc sz top
      unfolding expand_udiv_def Let_def dw_def [symmetric] by (simp del: push_bit_of_1)
    moreover have "of_bool (D \<le> rtx_val sz x op0) = rtx_val sz x op0 div D" for x
    proof (cases "D \<le> rtx_val sz x op0")
      case True
      moreover have "rtx_val sz x op0 - D < D"
        using rtx_val_range(2) [OF sz1(2), of x op0] scc(2) half by linarith
      ultimately show ?thesis by (simp add: int_div_pos_eq [of _ D 1 "rtx_val sz x op0 - D"])
    next
      case False
      then show ?thesis using rtx_val_range(1) [OF sz1(2), of x op0] by simp
    qed
    ultimately show ?thesis by (auto simp: D_def)
  next
    case mult
    have "D \<le> 2 ^ sz" "D \<le> 2 ^ (sz - 1)" using mult(2) D_top by simp_all
    then obtain mh ml s l where c: "choose_multiplier dw (int sz) (int sz) = Inr (mh, ml, s, int l)"
        "ceil_log2 dw = int l" "s \<le> l" "uint mh \<le> 1" "uint ml < 2 ^ sz"
        "good_multiplier D sz sz s (uint mh * 2 ^ sz + uint ml)"
      using choose_multiplier_good [OF \<open>dw \<noteq> 0\<close>, of sz sz] sz sz1(2) unfolding D by blast
    have "l \<le> sz - 1"
      using ceil_log2_spec [OF \<open>dw \<noteq> 0\<close>] c(2) log_le_bound [of l D "sz - 1"] mult(2) unfolding D by auto
    then have s: "s < sz" using c(3) sz by simp
    have "dw \<noteq> 1" using mult(1) by (auto dest: spec [of _ 0])
    then have "D \<noteq> 1" using D by (simp add: word_uint_eq_iff)
    note seq = udiv_sequence [OF c(6) D_range \<open>D \<noteq> 1\<close> D_top c(4,5)]
    have start: "expand_udiv t sz op0 op1 =
        (case udiv_even_divisor sz dw (mh, ml, s) of Inl e \<Rightarrow> Inl e | Inr r \<Rightarrow> udiv_multiply t op0 r)"
      using power_of_two_tests(2) [OF \<open>dw \<noteq> 0\<close>] mult sz top c(1)
      unfolding expand_udiv_def Let_def dw_def [symmetric] by (simp del: push_bit_of_1)
    show ?thesis
    proof (cases "mh \<noteq> 0 \<and> dw AND 1 = 0")
      case True
      then obtain k ml' s' where e: "udiv_even_divisor sz dw (mh, ml, s) = Inr (k, 0, ml', s')" "k < sz" "s' < sz"
          "rtx_val sz x (Lshiftrt (Umul_highpart (Lshiftrt e k) ml') s') = rtx_val sz x e div D" for x e
        using udiv_even_divisor_spec [OF sz _ \<open>dw \<noteq> 0\<close> mult(1), of mh ml s] mult(2) unfolding D by blast
      then show ?thesis unfolding start D_def [symmetric] by (auto simp: udiv_multiply_def Let_def)
    next
      case False
      then have "udiv_even_divisor sz dw (mh, ml, s) = Inr (0, mh, ml, s)"
        by (auto simp: udiv_even_divisor_def)
      then show ?thesis
        using seq s sz unfolding start D_def [symmetric]
        by (cases "mh = 0") (auto simp: udiv_multiply_def Let_def simp del: rtx_val.simps)
    qed
  qed
qed


section \<open>Signed division\<close>

lemma signed_multiply_shift:
  fixes x D m :: int
  assumes good: "good_multiplier D n p s m" and D: "0 < D" and p: "p \<le> n" and x: "- (2 ^ p) \<le> x" "x < 2 ^ p"
  shows "(m * x) div 2 ^ (n + s) = (if x < 0 then - ((- x) div D) - 1 else x div D)"
proof (cases "x < 0")
  case False
  then show ?thesis using good_multiplier_divides [OF good D p _ x(2)] by simp
next
  case True
  define K :: int where "K = 2 ^ (n + s)"
  define e :: int where "e = 2 ^ (n + s - p)"
  define y where "y = - x"
  define q where "q = y div D"
  have y: "0 < y" "y \<le> 2 ^ p" using True x by (simp_all add: y_def)
  have m: "K < m * D" "m * D \<le> K + e" using good by (simp_all add: good_multiplier_def K_def e_def)
  have "0 < K" by (simp add: K_def)
  have "e * y \<le> e * 2 ^ p" using y by (intro mult_left_mono) (simp_all add: e_def)
  also have "\<dots> = K" using p by (simp add: e_def K_def flip: power_add)
  finally have ey: "e * y \<le> K" .
  have "q * D \<le> y" and y_top: "y < (q + 1) * D"
    using div_mult_mod_eq [of y D] pos_mod_sign [OF D, of y] pos_mod_bound [OF D, of y]
    unfolding q_def distrib_right by linarith+
  have "D * (K * q) \<le> K * y" using mult_left_mono [OF \<open>q * D \<le> y\<close>, of K] \<open>0 < K\<close> by (simp add: ac_simps)
  also have "\<dots> < (m * D) * y" using m(1) y(1) by (rule mult_strict_right_mono)
  finally have "D * (K * q) < D * (m * y)" by (simp add: ac_simps)
  then have low: "K * q < m * y" using D by simp
  have "(m * D) * y \<le> (K + e) * y" using m(2) y(1) by (intro mult_right_mono) simp_all
  also have "\<dots> \<le> K * (y + 1)" using ey by (simp add: algebra_simps)
  also have "\<dots> \<le> K * ((q + 1) * D)" using y_top \<open>0 < K\<close> by (intro mult_left_mono) simp_all
  finally have "D * (m * y) \<le> D * (K * (q + 1))" by (simp add: ac_simps)
  then have high: "m * y \<le> K * (q + 1)" using D by simp
  have "(m * x) div K = - q - 1"
    by (rule int_div_pos_eq [where r = "m * x - K * (- q - 1)"]) (use low high in \<open>simp_all add: y_def algebra_simps\<close>)
  then show ?thesis using True by (simp add: K_def q_def y_def)
qed

lemma c_div_pos: "0 < D \<Longrightarrow> c_div x D = (if x < 0 then - ((- x) div D) else x div D)"
  by (simp add: c_div_def sgn_if)

lemma c_div_neg_divisor: "c_div x (- D) = - c_div x D"
  by (simp add: c_div_def sgn_if)

lemma sval_sign_shift:
  fixes y :: int
  assumes "0 < sz" "- (2 ^ (sz - 1)) \<le> y" "y < 2 ^ (sz - 1)"
  shows "y div 2 ^ (sz - 1) = (if y < 0 then -1 else 0)"
proof (cases "y < 0")
  case True
  then show ?thesis using assms(2) by (simp add: int_div_pos_eq [of y _ "-1" "y + 2 ^ (sz - 1)"])
next
  case False
  then show ?thesis using assms(3) by simp
qed

lemma signed_product_range:
  fixes y c :: int
  assumes "- (2 ^ (sz - 1)) \<le> y" "y < 2 ^ (sz - 1)" "0 \<le> c" "c < 2 ^ sz"
  shows "- (2 ^ (sz - 1)) \<le> (y * c) div 2 ^ sz" "(y * c) div 2 ^ sz < 2 ^ (sz - 1)"
proof -
  have "- (2 ^ (sz - 1)) * 2 ^ sz \<le> - (2 ^ (sz - 1)) * c" using assms by (intro mult_left_mono_neg) simp_all
  also have "\<dots> \<le> y * c" using assms by (intro mult_right_mono)
  finally have "(- (2 ^ (sz - 1)) * 2 ^ sz) div 2 ^ sz \<le> (y * c) div 2 ^ sz" by (rule zdiv_mono1) simp
  moreover have "(- (2 ^ (sz - 1)) * 2 ^ sz) div 2 ^ sz = (- (2 ^ (sz - 1)) :: int)"
    by (rule nonzero_mult_div_cancel_right) simp
  ultimately show "- (2 ^ (sz - 1)) \<le> (y * c) div 2 ^ sz" by linarith
  have "y * c \<le> 2 ^ (sz - 1) * c" using assms by (intro mult_right_mono) simp_all
  also have "\<dots> < 2 ^ (sz - 1) * 2 ^ sz" using assms by simp
  finally show "(y * c) div 2 ^ sz < 2 ^ (sz - 1)" by (intro div_less_bound) simp_all
qed

lemma sign_extended_multiplier:
  fixes ml :: hwi
  assumes "0 < sz" "sz \<le> 64" "2 ^ (sz - 1) \<le> uint ml" "uint ml < 2 ^ sz"
  shows "uint (ml OR push_bit (sz - 1) (NOT 0)) mod 2 ^ sz = uint ml"
proof -
  have "uint ml div 2 ^ (sz - 1) = 1"
    using assms by (intro int_div_pos_eq [where r = "uint ml - 2 ^ (sz - 1)"]) (simp_all flip: power_Suc)
  then have "bit (uint ml) (sz - 1)" unfolding bit_iff_odd [of "uint ml"] by simp
  then have top: "bit ml (sz - 1)" by (simp only: bit_uint_iff)
  have low: "ml AND mask sz = ml" using assms(4) by (simp add: mask_eq_iff)
  have "(ml OR push_bit (sz - 1) (NOT 0)) AND mask sz = ml"
  proof (rule bit_word_eqI)
    fix n assume "n < LENGTH(64)"
    consider "n < sz - 1" | "n = sz - 1" | "sz \<le> n" by linarith
    then show "bit ((ml OR push_bit (sz - 1) (NOT 0)) AND mask sz) n \<longleftrightarrow> bit ml n"
      using top arg_cong [OF low, of "\<lambda>w. bit w n"] \<open>0 < sz\<close> \<open>n < LENGTH(64)\<close>
      by cases (auto simp: bit_and_iff bit_or_iff bit_push_bit_iff bit_mask_iff bit_not_iff)
  qed
  then show ?thesis using uint_mask_and by metis
qed

text \<open>Both forms of the signed multiplication give the high part of the product with the multiplier.\<close>

lemma signed_highpart:
  fixes ml :: hwi and x :: int and e :: div_rtx
  assumes sz: "1 < sz" "sz \<le> 64" and ml: "uint ml < 2 ^ sz"
  defines "y \<equiv> sval sz (rtx_val sz x e)"
  defines "t \<equiv> (if ml < push_bit (sz - 1) 1 then Smul_highpart e ml
                else Plus (Smul_highpart e (ml OR push_bit (sz - 1) (NOT 0))) e)"
  shows "sval sz (rtx_val sz x t) = (y * uint ml) div 2 ^ sz"
proof -
  have "0 < sz" "sz - 1 < 64" using sz by simp_all
  have y: "- (2 ^ (sz - 1)) \<le> y" "y < 2 ^ (sz - 1)" "y mod 2 ^ sz = rtx_val sz x e"
    using sval_bounds [OF \<open>0 < sz\<close> rtx_val_range [OF \<open>0 < sz\<close>, of x e]] by (simp_all add: y_def)
  have small: "ml < push_bit (sz - 1) 1 \<longleftrightarrow> uint ml < 2 ^ (sz - 1)"
    by (simp only: word_less_def uint_push_bit_1 [OF \<open>sz - 1 < 64\<close>])
  have fits: "sval sz (((y * uint ml) div 2 ^ sz) mod 2 ^ sz) = (y * uint ml) div 2 ^ sz"
    using signed_product_range [OF y(1,2) uint64_range(1) ml] by (intro sval_mod [OF \<open>0 < sz\<close>])
  show ?thesis
  proof (cases "uint ml < 2 ^ (sz - 1)")
    case True
    then have "sval sz (uint ml mod 2 ^ sz) = uint ml" using ml uint64_range(1) [of ml] by (simp add: sval_def)
    then show ?thesis using True small fits by (simp add: t_def y_def)
  next
    case False
    have c: "sval sz (uint (ml OR push_bit (sz - 1) (NOT 0)) mod 2 ^ sz) = uint ml - 2 ^ sz"
      using sign_extended_multiplier [OF \<open>0 < sz\<close> sz(2) _ ml] False by (simp add: sval_def)
    have "(y * (uint ml - 2 ^ sz)) div 2 ^ sz + y = (y * uint ml) div 2 ^ sz"
    proof -
      have e: "y * (uint ml - 2 ^ sz) = y * uint ml + (- y) * 2 ^ sz" by (simp add: algebra_simps)
      have "(y * uint ml + (- y) * 2 ^ sz) div 2 ^ sz = - y + (y * uint ml) div 2 ^ sz"
        by (rule div_mult_self1) simp
      then show ?thesis unfolding e by linarith
    qed
    then have "((y * (uint ml - 2 ^ sz)) div 2 ^ sz mod 2 ^ sz + rtx_val sz x e) mod 2 ^ sz =
        ((y * uint ml) div 2 ^ sz) mod 2 ^ sz"
      unfolding y(3) [symmetric] by (simp add: mod_add_eq)
    moreover have "rtx_val sz x t = ((y * (uint ml - 2 ^ sz)) div 2 ^ sz mod 2 ^ sz + rtx_val sz x e) mod 2 ^ sz"
      using False small c by (simp only: t_def if_False rtx_val.simps y_def [symmetric])
    ultimately show ?thesis using fits by simp
  qed
qed


text \<open>The sequence for a signed division by a positive number that is not a power of two.\<close>

lemma sdiv_sequence:
  fixes ml :: hwi and D :: int and e :: div_rtx
  assumes sz: "1 < sz" "sz \<le> 64" and ml: "uint ml < 2 ^ sz" and D: "0 < D"
    and good: "good_multiplier D sz (sz - 1) s (uint ml)"
  defines "t3 \<equiv> Ashiftrt (if ml < push_bit (sz - 1) 1 then Smul_highpart e ml
                else Plus (Smul_highpart e (ml OR push_bit (sz - 1) (NOT 0))) e) s"
    and "t4 \<equiv> Ashiftrt e (sz - 1)"
  shows "rtx_val sz x (Minus t3 t4) = c_div (sval sz (rtx_val sz x e)) D mod 2 ^ sz"
    and "rtx_val sz x (Minus t4 t3) = c_div (sval sz (rtx_val sz x e)) (- D) mod 2 ^ sz"
proof -
  define y where "y = sval sz (rtx_val sz x e)"
  have "0 < sz" using sz by simp
  have y: "- (2 ^ (sz - 1)) \<le> y" "y < 2 ^ (sz - 1)"
    using sval_bounds [OF \<open>0 < sz\<close> rtx_val_range [OF \<open>0 < sz\<close>, of x e]] by (simp_all add: y_def)
  have "(y * uint ml) div 2 ^ sz div 2 ^ s = (uint ml * y) div 2 ^ (sz + s)" by (rule short_multiplier_sequence)
  also have "\<dots> = (if y < 0 then - ((- y) div D) - 1 else y div D)"
    using signed_multiply_shift [OF good D _ y] by simp
  also have "\<dots> = c_div y D + y div 2 ^ (sz - 1)"
    unfolding c_div_pos [OF D] sval_sign_shift [OF \<open>0 < sz\<close> y] by simp
  finally have t3: "rtx_val sz x t3 = (c_div y D + y div 2 ^ (sz - 1)) mod 2 ^ sz"
    unfolding t3_def rtx_val.simps(4) signed_highpart [OF sz ml] y_def [symmetric] by (rule arg_cong)
  have t4: "rtx_val sz x t4 = (y div 2 ^ (sz - 1)) mod 2 ^ sz" by (simp add: t4_def y_def)
  show "rtx_val sz x (Minus t3 t4) = c_div (sval sz (rtx_val sz x e)) D mod 2 ^ sz"
    unfolding rtx_val.simps t3 t4 y_def [symmetric] by (simp add: mod_diff_eq)
  show "rtx_val sz x (Minus t4 t3) = c_div (sval sz (rtx_val sz x e)) (- D) mod 2 ^ sz"
    unfolding rtx_val.simps t3 t4 y_def [symmetric] c_div_neg_divisor by (simp add: mod_diff_eq)
qed

lemma c_div_power_of_two:
  "c_div y (2 ^ k) = (y + (if y < 0 then 2 ^ k - 1 else 0)) div 2 ^ k"
proof (cases "y < 0")
  case True
  define K :: int where "K = 2 ^ k"
  have "0 < K" by (simp add: K_def)
  have "y + (K - 1) = K * (- ((- y) div K)) + (K - 1 - (- y) mod K)"
    using mult_div_mod_eq [of K "- y"] unfolding mult_minus_right by linarith
  moreover have "0 \<le> (- y) mod K" "(- y) mod K < K" using \<open>0 < K\<close> by simp_all
  ultimately have "(y + (K - 1)) div K = - ((- y) div K)"
    by (intro int_div_pos_eq [where r = "K - 1 - (- y) mod K"]) simp_all
  then show ?thesis using True c_div_pos [OF \<open>0 < K\<close>, of y] by (simp add: K_def)
next
  case False
  then show ?thesis using c_div_pos [of "2 ^ k" y] by simp
qed

lemma sdiv_pow2_value:
  assumes sz: "1 < sz" "sz \<le> 64" and k: "0 < k" "k < sz - 1"
  shows "rtx_val sz x (expand_sdiv_pow2 t sz e (push_bit k 1)) = c_div (sval sz (rtx_val sz x e)) (2 ^ k) mod 2 ^ sz"
proof -
  define y where "y = sval sz (rtx_val sz x e)"
  have "0 < sz" "k < 64" using sz k by simp_all
  have y: "- (2 ^ (sz - 1)) \<le> y" "y < 2 ^ (sz - 1)" "y mod 2 ^ sz = rtx_val sz x e"
    using sval_bounds [OF \<open>0 < sz\<close> rtx_val_range [OF \<open>0 < sz\<close>, of x e]] by (simp_all add: y_def)
  define a :: int where "a = (if y < 0 then 2 ^ k - 1 else 0)"
  have kk: "(2 :: int) ^ k \<le> 2 ^ (sz - 1)" "(2 :: int) ^ k < 2 ^ sz" using k by simp_all
  have sum: "sval sz ((y + a) mod 2 ^ sz) = y + a"
  proof (rule sval_mod [OF \<open>0 < sz\<close>])
    show "- (2 ^ (sz - 1)) \<le> y + a" using y(1) one_le_power [of "2 :: int" k, OF one_le_numeral] unfolding a_def by (split if_split) linarith
    show "y + a < 2 ^ (sz - 1)" using y(2) kk(1) unfolding a_def by (split if_split) linarith
  qed
  have shift: "rtx_val sz x (Ashiftrt s k) = c_div y (2 ^ k) mod 2 ^ sz"
    if "rtx_val sz x s = (y + a) mod 2 ^ sz" for s
    unfolding rtx_val.simps that sum by (simp only: c_div_power_of_two a_def)
  have cst: "uint (push_bit k 1 - 1 :: hwi) = 2 ^ k - 1"
    using uint_push_bit_1 [OF \<open>k < 64\<close>] one_le_power [of "2 :: int" k] by (simp only: uint64_sub) simp
  have log: "nat (floor_log2 (push_bit k 1)) = k" using floor_log2_push_bit [OF \<open>k < 64\<close>] by simp
  have yE: "sval sz (rtx_val sz x e) = y" by (simp add: y_def)
  have c: "(2 ^ k - 1 :: int) mod 2 ^ sz = 2 ^ k - 1"
    using kk(2) one_le_power [of "2 :: int" k, OF one_le_numeral] by (intro mod_pos_pos_trivial) linarith+
  have ones: "(-1 :: int) mod 2 ^ sz = 2 ^ sz - 1" by (rule zmod_minus1) simp
  have and_ones: "(2 ^ sz - 1) AND (2 ^ k - 1) = (2 ^ k - 1 :: int)"
    using k by (simp add: and.commute [of "2 ^ sz - 1"] flip: mask_eq_exp_minus_1 take_bit_eq_mask)
  have shift_ones: "(2 ^ sz - 1) div 2 ^ (sz - k) = (2 ^ k - 1 :: int)"
  proof (rule int_div_pos_eq [where r = "2 ^ (sz - k) - 1"])
    show "(2 ^ sz - 1 :: int) = 2 ^ (sz - k) * (2 ^ k - 1) + (2 ^ (sz - k) - 1)"
      using k by (simp add: algebra_simps flip: power_add)
  qed simp_all
  have add: "((if y < 0 then 2 ^ k - 1 else 0) + rtx_val sz x e) mod 2 ^ sz = (y + a) mod 2 ^ sz"
    unfolding y(3) [symmetric] a_def by (simp add: mod_simps add.commute)
  have v1: "rtx_val sz x (Plus (Lt_zero e 1) e) = (y + a) mod 2 ^ sz" if "push_bit k 1 = (2 :: hwi)"
  proof -
    have "(2 :: int) ^ k = 2" using uint_push_bit_1 [OF \<open>k < 64\<close>] unfolding that by simp
    then show ?thesis using add c unfolding rtx_val.simps yE by (simp cong: if_cong)
  qed
  have v2: "rtx_val sz x (If_neg e (Plus e (Const_int (push_bit k 1 - 1))) e) = (y + a) mod 2 ^ sz"
    using add y(3) unfolding rtx_val.simps yE cst c by (simp add: add.commute a_def split: if_splits)
  have v3: "rtx_val sz x (Plus (And (Lt_zero e (-1)) (Const_int (push_bit k 1 - 1))) e) = (y + a) mod 2 ^ sz"
    using add unfolding rtx_val.simps yE cst c ones by (simp add: and_ones split: if_splits)
  have v4: "rtx_val sz x (Plus (Lshiftrt (Lt_zero e (-1)) (sz - k)) e) = (y + a) mod 2 ^ sz"
    using add unfolding rtx_val.simps yE ones by (simp add: shift_ones split: if_splits)
  show ?thesis
    unfolding expand_sdiv_pow2_def Let_def log y_def [symmetric]
    using shift [OF v1] shift [OF v2] shift [OF v3] shift [OF v4] by (simp del: rtx_val.simps push_bit_of_1)
qed


lemma abs_divisor:
  fixes d :: hwi
  defines "abs_d \<equiv> if sint d \<ge> 0 then d else - d"
  shows "uint abs_d = \<bar>sint d\<bar>"
proof -
  have "- d = 0 \<longleftrightarrow> d = 0" by simp
  then show ?thesis
    using uint64_range [of d] unfolding abs_d_def
    by (cases "uint d < 2 ^ 63") (auto simp: sint64_uint uint64_neg)
qed

lemma uint_mod_sint: "sz \<le> 64 \<Longrightarrow> uint (d :: hwi) mod 2 ^ sz = sint d mod 2 ^ sz"
proof -
  assume "sz \<le> 64"
  then have "(2 :: int) ^ sz dvd 2 ^ 64" by (rule le_imp_power_dvd)
  then have "(uint d - 2 ^ 64) mod 2 ^ sz = uint d mod 2 ^ sz"
    unfolding mod_eq_dvd_iff by (simp only: diff_diff_eq2 diff_add_cancel dvd_minus_iff diff_self minus_diff_eq
        add_diff_cancel_left' diff_right_commute) simp
  then show ?thesis by (simp only: sint64_uint split: if_split) simp
qed

lemma c_div_signed: "c_div y (sint d) = (if sint d < 0 then - c_div y \<bar>sint d\<bar> else c_div y \<bar>sint d\<bar>)"
  by (simp add: c_div_def sgn_if)

lemma sdiv_by_minimum:
  assumes "0 < sz" "0 \<le> X" "X < 2 ^ sz"
  shows "of_bool (X = 2 ^ (sz - 1)) = c_div (sval sz X) (- (2 ^ (sz - 1))) mod 2 ^ sz"
proof -
  define M :: int where "M = 2 ^ (sz - 1)"
  have M: "0 < M" "2 ^ sz = 2 * M" using assms(1) by (simp_all add: M_def flip: power_Suc)
  have sv: "sval sz X = (if X < M then X else X - 2 * M)" unfolding sval_def M_def [symmetric] M(2) ..
  consider "X < M" | "X = M" | "M < X" by linarith
  then have "c_div (sval sz X) (- M) = of_bool (X = M)"
  proof cases
    case 1
    then show ?thesis using assms(2) M by (simp add: sv c_div_neg_divisor c_div_pos)
  next
    case 2
    then have "sval sz X = - M" using sv by simp
    then show ?thesis using 2 M(1) by (simp add: c_div_def)
  next
    case 3
    then show ?thesis using assms(3) M by (simp add: sv c_div_neg_divisor c_div_pos)
  qed
  then show ?thesis using M unfolding M_def [symmetric] by (auto simp: mod_pos_pos_trivial)
qed

lemma unit_divisor:
  fixes d :: hwi
  assumes "\<bar>sint d\<bar> = 1"
  shows "d = 1 \<or> d = - 1"
proof (cases "sint d \<ge> 0")
  case True
  then show ?thesis using abs_divisor [of d] assms by (simp add: word_uint_eq_iff)
next
  case False
  then have "- d = 1" using abs_divisor [of d] assms by (simp add: word_uint_eq_iff)
  then have "d = - 1" using minus_minus [of d] by simp
  then show ?thesis ..
qed

lemma expand_sdiv_value:
  assumes sz: "3 \<le> sz" "sz \<le> 64" and d: "sint d \<noteq> 0" "- (2 ^ (sz - 1)) \<le> sint d" "sint d < 2 ^ (sz - 1)"
  shows "\<exists>r. expand_sdiv t sz op0 d = Inr r
    \<and> (highpart_ok t \<and> store_flag_ok t \<and> sz \<le> BITS_PER_WORD t \<longrightarrow> r \<noteq> None)
    \<and> (\<forall>q x. r = Some q \<longrightarrow> rtx_val sz x q = c_div (sval sz (rtx_val sz x op0)) (sint d) mod 2 ^ sz)"
proof -
  define D where "D = \<bar>sint d\<bar>"
  define a where "a = (if sint d \<ge> 0 then d else - d)"
  have a: "uint a = D" unfolding a_def D_def by (rule abs_divisor)
  have "0 < sz" "1 < sz" "sz - 1 < 64" using sz by simp_all
  have D: "0 < D" "D \<le> 2 ^ (sz - 1)" using d by (auto simp: D_def)
  have "a \<noteq> 0" using a D(1) uint_0_iff [of a] by auto
  have val: "0 \<le> rtx_val sz x op0" "rtx_val sz x op0 < 2 ^ sz" for x using rtx_val_range [OF \<open>0 < sz\<close>] by blast+
  have restore: "sval sz (rtx_val sz x op0) mod 2 ^ sz = rtx_val sz x op0" for x
    by (rule sval_bounds(3) [OF \<open>0 < sz\<close> val])
  have at_top: "a = push_bit (sz - 1) 1 \<longleftrightarrow> D = 2 ^ (sz - 1)"
    by (simp only: word_uint_eq_iff a uint_push_bit_1 [OF \<open>sz - 1 < 64\<close>])
  consider (one) "d = 1" | (minus_one) "d = - 1" | (top) "D = 2 ^ (sz - 1)" "d \<noteq> 1" "d \<noteq> - 1"
    | (pow2) k where "k < 64" "a = push_bit k 1" "D \<noteq> 2 ^ (sz - 1)" "d \<noteq> 1" "d \<noteq> - 1"
    | (mult) "\<not> (\<exists>k<64. a = push_bit k 1)" "D \<noteq> 2 ^ (sz - 1)" "d \<noteq> 1" "d \<noteq> - 1" by blast
  then show ?thesis
  proof cases
    case one
    then show ?thesis using restore by (simp add: expand_sdiv_def c_div_def sgn_mult_abs)
  next
    case minus_one
    have "rtx_val sz x (Neg op0) = c_div (sval sz (rtx_val sz x op0)) (- 1) mod 2 ^ sz" for x
      using restore [of x] by (simp add: c_div_def sgn_mult_abs) (metis mod_minus_eq)
    then show ?thesis using minus_one by (simp add: expand_sdiv_def del: rtx_val.simps)
  next
    case top
    have sd: "sint d = - (2 ^ (sz - 1))" using top d(3) by (auto simp: D_def)
    have "uint d mod 2 ^ sz = 2 ^ (sz - 1)"
      unfolding uint_mod_sint [OF sz(2)] sd using \<open>0 < sz\<close>
      by (intro int_mod_pos_eq [where q = "-1"]) (simp_all flip: power_Suc)
    moreover have "of_bool (rtx_val sz x op0 = 2 ^ (sz - 1)) = c_div (sval sz (rtx_val sz x op0)) (- (2 ^ (sz - 1))) mod 2 ^ sz" for x
      by (rule sdiv_by_minimum [OF \<open>0 < sz\<close> val])
    moreover have "expand_sdiv t sz op0 d = Inr (if store_flag_ok t then Some (Eq op0 d) else None)"
      using top at_top
      unfolding expand_sdiv_def Let_def a_def [symmetric] by simp
    ultimately show ?thesis by (simp add: sd)
  next
    case pow2
    have Dk: "D = 2 ^ k" using a pow2(1,2) uint_push_bit_1 by simp
    have "k < sz - 1" using D(2) pow2(3) unfolding Dk by (simp add: order_less_le)
    have "D \<noteq> 1" using unit_divisor pow2(4,5) unfolding D_def by blast
    then have "0 < k" using Dk by (cases k) simp_all
    define q where "q = expand_sdiv_pow2 t sz op0 a"
    have q: "rtx_val sz x q = c_div (sval sz (rtx_val sz x op0)) D mod 2 ^ sz" for x
      unfolding q_def pow2(2) Dk by (rule sdiv_pow2_value [OF \<open>1 < sz\<close> sz(2) \<open>0 < k\<close> \<open>k < sz - 1\<close>])
    have "expand_sdiv t sz op0 d = Inr (Some (if sint d < 0 then Neg q else q))"
      using pow2 at_top power_of_two_tests(2) [OF \<open>a \<noteq> 0\<close>]
      unfolding expand_sdiv_def Let_def a_def [symmetric] q_def by auto
    then show ?thesis using q by (auto simp: c_div_signed D_def [symmetric] mod_minus_eq)
  next
    case mult
    have "D < 2 ^ (sz - 1)" using D(2) mult(2) by simp
    moreover have "D \<noteq> 1" using unit_divisor mult(3,4) unfolding D_def by blast
    moreover have p: "0 < sz - 1" "sz - 1 < sz" using sz by simp_all
    ultimately obtain m s l where c: "choose_multiplier a (int sz) (int (sz - 1)) = Inr (0, m, s, l)" "s < sz"
        "uint m < 2 ^ sz" "good_multiplier D sz (sz - 1) s (uint m)"
      using choose_multiplier_fits [OF \<open>a \<noteq> 0\<close>, of "sz - 1" sz] sz unfolding a by blast
    define t3 where "t3 = Ashiftrt (if m < push_bit (sz - 1) 1 then Smul_highpart op0 m
                else Plus (Smul_highpart op0 (m OR push_bit (sz - 1) (NOT 0))) op0) s"
    define t4 where "t4 = Ashiftrt op0 (sz - 1)"
    have "expand_sdiv t sz op0 d =
        (if s \<ge> BITS_PER_WORD t \<or> sz - 1 \<ge> BITS_PER_WORD t \<or> \<not> highpart_ok t then Inr None
         else Inr (Some (if sint d < 0 then Minus t4 t3 else Minus t3 t4)))"
    proof -
      have "a AND (a - 1) \<noteq> 0" using power_of_two_tests(2) [OF \<open>a \<noteq> 0\<close>] mult(1) by blast
      moreover have "a \<noteq> push_bit (sz - 1) 1" using at_top mult(2) by blast
      moreover have "choose_multiplier a (int sz) (int sz - 1) = Inr (0, m, s, l)" using c(1) sz by (simp add: of_nat_diff)
      ultimately show ?thesis
        unfolding expand_sdiv_def Let_def a_def [symmetric]
        by (simp only: mult(3,4) sz(2) if_False if_True sum.case prod.case t3_def t4_def)
    qed
    moreover have "rtx_val sz x (if sint d < 0 then Minus t4 t3 else Minus t3 t4) =
        c_div (sval sz (rtx_val sz x op0)) (sint d) mod 2 ^ sz" for x
      using sdiv_sequence [OF \<open>1 < sz\<close> sz(2) c(3) D(1) c(4), where e = op0 and x = x]
      unfolding t3_def [symmetric] t4_def [symmetric] c_div_neg_divisor c_div_signed [of _ d] D_def [symmetric] by simp
    ultimately show ?thesis using c(2) sz by (auto simp del: rtx_val.simps)
  qed
qed


section \<open>Division that rounds down\<close>

lemma floor_div_complement: "0 < D \<Longrightarrow> (- w - 1) div D = - (w div D) - 1" for w D :: int
proof -
  assume D: "0 < D"
  have "- w - 1 = D * (- (w div D) - 1) + (D - 1 - w mod D)"
    using mult_div_mod_eq [of D w] unfolding mult_minus_right right_diff_distrib by linarith
  moreover have "0 \<le> D - 1 - w mod D" "D - 1 - w mod D < D"
    using pos_mod_sign [OF D, of w] pos_mod_bound [OF D, of w] by linarith+
  ultimately show ?thesis by (rule int_div_pos_eq)
qed

lemma xor_ones:
  fixes X :: int
  assumes "0 \<le> X" "X < 2 ^ sz"
  shows "X XOR (2 ^ sz - 1) = 2 ^ sz - 1 - X"
proof -
  have X: "take_bit sz X = X" using assms by (simp add: take_bit_int_eq_self)
  have "X XOR (2 ^ sz - 1) = take_bit sz (NOT X)"
    by (rule bit_eqI) (use arg_cong [OF X, of "\<lambda>v. bit v n" for n] in
        \<open>auto simp: bit_xor_iff bit_take_bit_iff bit_not_iff bit_mask_iff simp flip: mask_eq_exp_minus_1\<close>)
  also have "\<dots> = (- X - 1) mod 2 ^ sz" by (simp add: take_bit_eq_mod not_int_def)
  also have "\<dots> = (2 ^ sz - 1 - X) mod 2 ^ sz"
    using mod_add_self2 [of "- X - 1" "2 ^ sz"] by (simp add: algebra_simps)
  also have "\<dots> = 2 ^ sz - 1 - X" using assms by (intro mod_pos_pos_trivial) simp_all
  finally show ?thesis .
qed

lemma floor_sequence:
  fixes ml :: hwi and D :: int and e :: div_rtx
  assumes sz: "1 < sz" and ml: "uint ml < 2 ^ sz" and D: "0 < D"
    and good: "good_multiplier D sz (sz - 1) s (uint ml)"
  defines "t1 \<equiv> Ashiftrt e (sz - 1)"
  shows "rtx_val sz x (Xor (Lshiftrt (Umul_highpart (Xor e t1) ml) s) t1) =
           (sval sz (rtx_val sz x e) div D) mod 2 ^ sz"
proof -
  define y where "y = sval sz (rtx_val sz x e)"
  have "0 < sz" using sz by simp
  have X: "0 \<le> rtx_val sz x e" "rtx_val sz x e < 2 ^ sz" using rtx_val_range [OF \<open>0 < sz\<close>] by blast+
  have y: "- (2 ^ (sz - 1)) \<le> y" "y < 2 ^ (sz - 1)" "y mod 2 ^ sz = rtx_val sz x e"
    using sval_bounds [OF \<open>0 < sz\<close> X] by (simp_all add: y_def)
  define w where "w = (if y < 0 then - y - 1 else y)"
  have w: "0 \<le> w" "w < 2 ^ (sz - 1)" using y by (auto simp: w_def)
  have t1: "rtx_val sz x t1 = (if y < 0 then 2 ^ sz - 1 else 0)"
    using sval_sign_shift [OF \<open>0 < sz\<close> y(1,2)] by (simp add: t1_def y_def zmod_minus1)
  have "rtx_val sz x e = (if y < 0 then y + 2 ^ sz else y)" using X by (auto simp: y_def sval_def)
  then have t2: "rtx_val sz x (Xor e t1) = w"
    using X by (auto simp: t1 w_def xor_ones)
  have ml': "uint ml mod 2 ^ sz = uint ml" using ml uint64_range(1) [of ml] by simp
  have t4: "rtx_val sz x (Lshiftrt (Umul_highpart (Xor e t1) ml) s) = w div D"
    using short_multiplier_sequence [of w "uint ml" sz s] good_multiplier_divides [OF good D _ w]
    unfolding rtx_val.simps(3,5) t2 ml' by simp
  have "w div D \<le> w" using w D zdiv_mono2 [of w 1 D] by simp
  moreover have "(2 :: int) ^ (sz - 1) \<le> 2 ^ sz" by (rule power_increasing) simp_all
  ultimately have q: "w div D < 2 ^ sz" "0 \<le> w div D" using w D by (linarith, simp add: pos_imp_zdiv_nonneg_iff)
  have "rtx_val sz x (Xor (Lshiftrt (Umul_highpart (Xor e t1) ml) s) t1) =
      (if y < 0 then 2 ^ sz - 1 - w div D else w div D)"
    using xor_ones [OF q(2,1)] unfolding rtx_val.simps(11) t4 t1 by simp
  also have "\<dots> = (y div D) mod 2 ^ sz"
  proof (cases "y < 0")
    case True
    then have "y div D = - (w div D) - 1" using floor_div_complement [OF D, of w] by (simp add: w_def)
    moreover have "(- (w div D) - 1) mod 2 ^ sz = 2 ^ sz - 1 - w div D"
      using q by (intro int_mod_pos_eq [where q = "-1"]) simp_all
    ultimately show ?thesis using True by simp
  next
    case False
    then show ?thesis using q by (simp add: w_def)
  qed
  finally show ?thesis by (simp add: y_def)
qed

text \<open>A negative divisor: the operand is adjusted so that truncation rounds down.\<close>

lemma or_sign:
  fixes a b :: int
  assumes "0 < sz" "0 \<le> a" "a < 2 ^ sz" "0 \<le> b" "b < 2 ^ sz"
  shows "2 ^ (sz - 1) \<le> a OR b \<longleftrightarrow> 2 ^ (sz - 1) \<le> a \<or> 2 ^ (sz - 1) \<le> b"
proof -
  have half: "(2 :: int) ^ sz = 2 * 2 ^ (sz - 1)" using assms(1) by (simp flip: power_Suc)
  have top: "2 ^ (sz - 1) \<le> v \<longleftrightarrow> bit v (sz - 1)" if "0 \<le> v" "v < 2 ^ sz" for v :: int
  proof (cases "2 ^ (sz - 1) \<le> v")
    case True
    then have "v div 2 ^ (sz - 1) = 1"
      using that half by (intro int_div_pos_eq [where r = "v - 2 ^ (sz - 1)"]) simp_all
    then show ?thesis using True by (simp add: bit_iff_odd)
  next
    case False
    then show ?thesis using that by (simp add: bit_iff_odd)
  qed
  show ?thesis
    using assms top [of a] top [of b] top [of "a OR b"] by (simp add: OR_upper bit_or_iff)
qed

lemma floor_negative_sequence:
  fixes e :: div_rtx and x :: int
  assumes sz: "1 < sz" "sz \<le> 64"
  defines "t1 \<equiv> Plus e (Const_int (- 1))"
  defines "nsign \<equiv> Ashiftrt (Ior e t1) (sz - 1)"
  defines "y \<equiv> sval sz (rtx_val sz x e)"
  shows "sval sz (rtx_val sz x (Minus t1 nsign)) = (if y \<le> 0 then y else y - 1)"
    and "rtx_val sz x (Not nsign) = (if y \<le> 0 then 0 else 2 ^ sz - 1)"
proof -
  have "0 < sz" using sz by simp
  have half: "(2 :: int) ^ sz = 2 * 2 ^ (sz - 1)" using \<open>0 < sz\<close> by (simp flip: power_Suc)
  have pos: "1 < (2 :: int) ^ (sz - 1)" using sz(1) by simp
  have X: "0 \<le> rtx_val sz x e" "rtx_val sz x e < 2 ^ sz" using rtx_val_range [OF \<open>0 < sz\<close>] by blast+
  have y: "- (2 ^ (sz - 1)) \<le> y" "y < 2 ^ (sz - 1)" "y mod 2 ^ sz = rtx_val sz x e"
    using sval_bounds [OF \<open>0 < sz\<close> X] by (simp_all add: y_def)
  have Xy: "rtx_val sz x e = (if y < 0 then y + 2 ^ sz else y)" using X by (auto simp: y_def sval_def)
  have m1: "uint (- 1 :: hwi) mod 2 ^ sz = (- 1) mod 2 ^ sz"
    unfolding uint_mod_sint [OF sz(2)] by simp
  have t1: "rtx_val sz x t1 = (y - 1) mod 2 ^ sz"
    unfolding t1_def rtx_val.simps m1 y(3) [symmetric] by (simp add: mod_add_eq)
  have t1': "rtx_val sz x t1 = (if y \<le> 0 then y - 1 + 2 ^ sz else y - 1)"
  proof (cases "y \<le> 0")
    case True
    have "(y - 1) mod 2 ^ sz = (y - 1 + 2 ^ sz) mod 2 ^ sz" by simp
    also have "\<dots> = y - 1 + 2 ^ sz" using True y(1) half pos by (intro mod_pos_pos_trivial) linarith+
    finally show ?thesis using True t1 by simp
  next
    case False
    then have "(y - 1) mod 2 ^ sz = y - 1" using y(2) half by (intro mod_pos_pos_trivial) linarith+
    then show ?thesis using False t1 by simp
  qed
  have t2: "0 \<le> rtx_val sz x (Ior e t1)" "rtx_val sz x (Ior e t1) < 2 ^ sz"
    using rtx_val_range [OF \<open>0 < sz\<close>] by blast+
  have "2 ^ (sz - 1) \<le> rtx_val sz x (Ior e t1) \<longleftrightarrow> 2 ^ (sz - 1) \<le> rtx_val sz x e \<or> 2 ^ (sz - 1) \<le> rtx_val sz x t1"
    using or_sign [OF \<open>0 < sz\<close> X rtx_val_range [OF \<open>0 < sz\<close>, of x t1]] by (simp only: rtx_val.simps(12))
  also have "\<dots> \<longleftrightarrow> y \<le> 0" unfolding t1' Xy using y(1,2) half pos by (auto split: if_splits)
  finally have "sval sz (rtx_val sz x (Ior e t1)) < 0 \<longleftrightarrow> y \<le> 0"
    using t2 unfolding sval_def by auto
  then have nsign: "rtx_val sz x nsign = (if y \<le> 0 then - 1 else 0) mod 2 ^ sz"
    using sval_sign_shift [OF \<open>0 < sz\<close> sval_bounds(1,2) [OF \<open>0 < sz\<close> t2]]
    unfolding nsign_def rtx_val.simps(4) by simp
  show "rtx_val sz x (Not nsign) = (if y \<le> 0 then 0 else 2 ^ sz - 1)"
    by (simp add: nsign zmod_minus1)
  have "rtx_val sz x (Minus t1 nsign) = (if y \<le> 0 then y else y - 1) mod 2 ^ sz"
    unfolding rtx_val.simps(10) t1 nsign by (simp add: mod_diff_eq)
  then show "sval sz (rtx_val sz x (Minus t1 nsign)) = (if y \<le> 0 then y else y - 1)"
    using sval_mod [OF \<open>0 < sz\<close>, of "if y \<le> 0 then y else y - 1"] y(1,2) pos by simp
qed


lemma floor_div_negative:
  fixes y d :: int
  assumes "d < 0"
  shows "c_div (if y \<le> 0 then y else y - 1) d + (if y \<le> 0 then 0 else - 1) = y div d"
proof -
  have neg: "y div d = (- y) div (- d)" by simp
  have c: "c_div z d = - c_div z (- d)" for z using c_div_neg_divisor [of z "- d"] by simp
  show ?thesis
  proof (cases "y \<le> 0")
    case True
    then show ?thesis using assms c_div_pos [of "- d" y] unfolding neg c by auto
  next
    case False
    have "(- y) div (- d) = - ((y - 1) div (- d)) - 1"
      using floor_div_complement [of "- d" "y - 1"] assms by simp
    then show ?thesis using False assms c_div_pos [of "- d" "y - 1"] unfolding neg c by simp
  qed
qed

lemma expand_floor_sdiv_negative:
  assumes sz: "3 \<le> sz" "sz \<le> 64" and d: "sint d \<noteq> 0" "- (2 ^ (sz - 1)) \<le> sint d" "sint d < 2 ^ (sz - 1)"
    and neg: "sint d < 0"
  shows "\<exists>q. expand_floor_sdiv t sz op0 d = Inr (Some q)
    \<and> (\<forall>x. rtx_val sz x q = (sval sz (rtx_val sz x op0) div sint d) mod 2 ^ sz)"
proof -
  have "0 < sz" "1 < sz" using sz by simp_all
  define t1 nsign where "t1 = Plus op0 (Const_int (- 1))" and "nsign = Ashiftrt (Ior op0 t1) (sz - 1)"
  define t3 where "t3 = Minus t1 nsign"
  obtain r where r: "expand_sdiv t sz t3 d = Inr r"
      "r = Some q \<Longrightarrow> rtx_val sz x q = c_div (sval sz (rtx_val sz x t3)) (sint d) mod 2 ^ sz" for q x
    using expand_sdiv_value [OF sz d, of t t3] by blast
  define t4 where "t4 = (case r of None \<Rightarrow> Sdiv t3 d | Some t4 \<Rightarrow> t4)"
  have "sval sz (uint d mod 2 ^ sz) = sint d"
    unfolding uint_mod_sint [OF sz(2)] by (rule sval_mod [OF \<open>0 < sz\<close> d(2,3)])
  then have t4: "rtx_val sz x t4 = c_div (sval sz (rtx_val sz x t3)) (sint d) mod 2 ^ sz" for x
    using r(2) [of _ x] by (cases r) (simp_all add: t4_def)
  have "expand_floor_sdiv t sz op0 d = Inr (Some (Plus t4 (Not nsign)))"
    using neg sz r(1) unfolding expand_floor_sdiv_def Let_def t1_def [symmetric] nsign_def [symmetric] t3_def [symmetric]
    by (simp add: t4_def)
  moreover have "rtx_val sz x (Plus t4 (Not nsign)) = (sval sz (rtx_val sz x op0) div sint d) mod 2 ^ sz" for x
  proof -
    define y where "y = sval sz (rtx_val sz x op0)"
    note seq = floor_negative_sequence [OF \<open>1 < sz\<close> sz(2), of x op0, folded t1_def nsign_def t3_def y_def,
        folded nsign_def, folded t3_def]
    have ones: "(a + (2 ^ sz - 1)) mod 2 ^ sz = (a + - 1) mod (2 ^ sz :: int)" for a
      using mod_add_self2 [of "a - 1" "2 ^ sz"] by (simp add: algebra_simps)
    have "rtx_val sz x (Plus t4 (Not nsign)) =
        (c_div (if y \<le> 0 then y else y - 1) (sint d) + (if y \<le> 0 then 0 else 2 ^ sz - 1)) mod 2 ^ sz"
      unfolding rtx_val.simps(9) t4 seq by (rule mod_add_left_eq)
    also have "\<dots> = (c_div (if y \<le> 0 then y else y - 1) (sint d) + (if y \<le> 0 then 0 else - 1)) mod 2 ^ sz"
      by (simp only: ones split: if_split) simp
    finally have "rtx_val sz x (Plus t4 (Not nsign)) =
        (c_div (if y \<le> 0 then y else y - 1) (sint d) + (if y \<le> 0 then 0 else - 1)) mod 2 ^ sz" .
    then show ?thesis unfolding floor_div_negative [OF neg] y_def .
  qed
  ultimately show ?thesis by simp
qed

lemma expand_floor_sdiv_value:
  assumes sz: "3 \<le> sz" "sz \<le> 64" and d: "sint d \<noteq> 0" "- (2 ^ (sz - 1)) \<le> sint d" "sint d < 2 ^ (sz - 1)"
  shows "\<exists>r. expand_floor_sdiv t sz op0 d = Inr r
    \<and> (highpart_ok t \<and> sz \<le> BITS_PER_WORD t \<longrightarrow> r \<noteq> None)
    \<and> (\<forall>q x. r = Some q \<longrightarrow> rtx_val sz x q = (sval sz (rtx_val sz x op0) div sint d) mod 2 ^ sz)"
proof -
  have "0 < sz" "1 < sz" using sz by simp_all
  have "d \<noteq> 0" using d(1) by auto
  have "0 < sint d \<or> sint d < 0" using d(1) by linarith
  then consider (pow2) k where "0 < sint d" "k < 64" "d = push_bit k 1"
    | (mult) "0 < sint d" "\<not> (\<exists>k<64. d = push_bit k 1)" | (neg) "sint d < 0" by blast
  then show ?thesis
  proof cases
    case pow2
    have "uint d = sint d" using pow2(1) uint64_range [of d] by (auto simp: sint64_uint split: if_splits)
    then have "sint d = 2 ^ k" using pow2 uint_push_bit_1 by simp
    moreover have "expand_floor_sdiv t sz op0 d = Inr (Some (Ashiftrt op0 k))"
      using pow2 sz power_of_two_tests(2) [OF \<open>d \<noteq> 0\<close>] floor_log2_push_bit [OF pow2(2)]
      unfolding expand_floor_sdiv_def by (auto simp del: push_bit_of_1)
    ultimately show ?thesis by simp
  next
    case mult
    have D: "uint d = sint d" using mult(1) uint64_range [of d] by (auto simp: sint64_uint split: if_splits)
    have "sint d \<noteq> 1" using mult(2) D by (auto simp: word_uint_eq_iff dest: spec [of _ 0])
    moreover have "0 < sz - 1" "sz - 1 < sz" using sz by simp_all
    ultimately obtain m s l where c: "choose_multiplier d (int sz) (int (sz - 1)) = Inr (0, m, s, l)" "s < sz"
        "uint m < 2 ^ sz" "good_multiplier (sint d) sz (sz - 1) s (uint m)"
      using choose_multiplier_fits [OF \<open>d \<noteq> 0\<close>, of "sz - 1" sz] sz d(3) unfolding D by blast
    define q where "q = Xor (Lshiftrt (Umul_highpart (Xor op0 (Ashiftrt op0 (sz - 1))) m) s) (Ashiftrt op0 (sz - 1))"
    have "expand_floor_sdiv t sz op0 d =
        Inr (if s < BITS_PER_WORD t \<and> sz - 1 < BITS_PER_WORD t \<and> highpart_ok t then Some q else None)"
    proof -
      have "d AND (d - 1) \<noteq> 0" using power_of_two_tests(2) [OF \<open>d \<noteq> 0\<close>] mult(2) by blast
      moreover have "choose_multiplier d (int sz) (int sz - 1) = Inr (0, m, s, l)" using c(1) sz by (simp add: of_nat_diff)
      ultimately show ?thesis using mult(1) sz(2) unfolding expand_floor_sdiv_def Let_def q_def by simp
    qed
    moreover have "rtx_val sz x q = (sval sz (rtx_val sz x op0) div sint d) mod 2 ^ sz" for x
      unfolding q_def by (rule floor_sequence [OF \<open>1 < sz\<close> c(3) mult(1) c(4)])
    ultimately show ?thesis using c(2) sz by auto
  next
    case neg
    then show ?thesis using expand_floor_sdiv_negative [OF sz d neg, of t op0] by auto
  qed
qed


section \<open>Exact division\<close>

text \<open>The divisor is \<open>2^k\<close> times an odd number, and the multiplier inverts the odd number.\<close>

lemma exact_divisor:
  fixes d :: hwi
  assumes "d \<noteq> 0" "sz \<le> 64"
  defines "k \<equiv> nat (floor_log2 (d AND - d))"
  shows "sint d = 2 ^ k * (sint d div 2 ^ k)" "k < 64"
    and "2 ^ sz dvd (sint d div 2 ^ k) * uint (invert_mod2n (signed_drop_bit k d) sz) - 1"
proof -
  obtain j m where j: "j < 64" "d = push_bit j m" "odd m" "m = drop_bit j d" using lowest_bit_split [OF assms(1)] by blast
  have kj: "k = j" using lowest_bit [OF j(3), of j] floor_log2_push_bit [OF j(1)] j(2) by (simp add: k_def)
  then show "k < 64" using j(1) by simp
  have u: "uint d = 2 ^ k * uint m" unfolding kj j(4) by (rule uint_split_low [OF j(2) [unfolded j(4)]])
  define E where "E = (if uint d < 2 ^ 63 then uint m else uint m - 2 ^ (64 - k))"
  have "(2 :: int) ^ 64 = 2 ^ k * 2 ^ (64 - k)" using \<open>k < 64\<close> by (simp flip: power_add)
  then have E: "sint d = 2 ^ k * E" unfolding sint64_uint u E_def by (simp add: algebra_simps)
  then have div: "sint d div 2 ^ k = E" by simp
  then show "sint d = 2 ^ k * (sint d div 2 ^ k)" using E by simp
  have "odd (uint m)" using j(3) by (simp add: bit_uint_iff flip: bit_0)
  then have "odd E" using \<open>k < 64\<close> by (simp add: E_def)
  define c where "c = signed_drop_bit k d"
  have c: "sint c = E" unfolding c_def sint_signed_drop_bit_eq drop_bit_eq_div div ..
  have "uint c mod 2 = E mod 2" using uint_mod_sint [of 1 c] c by simp
  then have "odd (uint c)" using \<open>odd E\<close> by (simp add: odd_iff_mod_2_eq_one)
  then have inv: "2 ^ sz dvd uint c * uint (invert_mod2n c sz) - 1" by (rule invert_mod2n_dvd [OF _ assms(2)])
  have "2 ^ sz dvd uint c - E" using uint_mod_sint [OF assms(2), of c] unfolding c mod_eq_dvd_iff .
  then have "2 ^ sz dvd (uint c * uint (invert_mod2n c sz) - 1) - (uint c - E) * uint (invert_mod2n c sz)"
    by (rule dvd_diff [OF inv dvd_mult2])
  moreover have "(uint c * uint (invert_mod2n c sz) - 1) - (uint c - E) * uint (invert_mod2n c sz)
      = E * uint (invert_mod2n c sz) - 1" by (simp add: algebra_simps)
  ultimately show "2 ^ sz dvd (sint d div 2 ^ k) * uint (invert_mod2n (signed_drop_bit k d) sz) - 1"
    unfolding div c_def by simp
qed

lemma expand_exact_div_value:
  assumes d: "d \<noteq> 0" and sz: "0 < sz" "sz \<le> 64" and shifted: "z = (sint d div 2 ^ nat (floor_log2 (d AND - d))) * q"
    and op: "rtx_val sz x (if unsignedp then Lshiftrt op0 (nat (floor_log2 (d AND - d)))
                else Ashiftrt op0 (nat (floor_log2 (d AND - d)))) = z mod 2 ^ sz"
  shows "rtx_val sz x (expand_exact_div unsignedp sz op0 d) = q mod 2 ^ sz"
proof -
  define k where "k = nat (floor_log2 (d AND - d))"
  define m where "m = uint (invert_mod2n (signed_drop_bit k d) sz)"
  have "rtx_val sz x (expand_exact_div unsignedp sz op0 d) = (z * m) mod 2 ^ sz"
    using op unfolding expand_exact_div_def Let_def k_def [symmetric] m_def by (simp add: mod_mult_left_eq)
  moreover have "2 ^ sz dvd z * m - q"
  proof -
    have "z * m - q = q * ((sint d div 2 ^ k) * m - 1)" unfolding shifted k_def [symmetric] by (simp add: algebra_simps)
    then show ?thesis using exact_divisor(3) [OF d sz(2), folded k_def, folded m_def] by (simp add: dvd_mult)
  qed
  ultimately show ?thesis by (simp only: mod_eq_dvd_iff)
qed


section \<open>Properties\<close>

text \<open>
  In a mode wider than \<open>HOST_WIDE_INT\<close> the mask of the mode keeps all 64 bits of the constant and not
  those of its sign extension: the negative constant \<open>- (2^63)\<close> looks like the power of two \<open>2^63\<close>, and a shift
  is emitted. The divisor of a 128-bit mode is \<open>2^128 - 2^63\<close>.
\<close>

lemma expand_udiv_wide_mode:
  "expand_udiv t 128 Op0 (push_bit 63 1) = Inr (Some (Lshiftrt Op0 63))"
  "rtx_val 128 (2 ^ 127) (Lshiftrt Op0 63) = 2 ^ 64"
  "sint (push_bit 63 1 :: hwi) mod 2 ^ 128 = 2 ^ 128 - 2 ^ 63"
  "2 ^ 127 div (sint (push_bit 63 1 :: hwi) mod 2 ^ 128) = 0"
proof -
  have f: "floor_log2 (push_bit 63 1) = 63" using floor_log2_push_bit [of 63] by simp
  show "expand_udiv t 128 Op0 (push_bit 63 1) = Inr (Some (Lshiftrt Op0 63))"
    using f by (simp add: expand_udiv_def mask_eq_exp_minus_1)
qed (simp_all)

text \<open>
  C4: The unsigned division by a constant in every mode of 3 to 64 bits: \<open>expand_divmod\<close> never
  fails an assertion for a divisor that is not 0 in the mode, and whatever it emits - a shift, a
  comparison, a multiplication with the high part, with the correction for a long multiplier or the
  shift for an even divisor - computes the quotient for every operand. It emits one of these when the
  target can multiply and compare and the mode fits a word. For wider modes it does not hold, see
  \<open>expand_udiv_wide_mode\<close>.
\<close>

theorem expand_udiv_correct:
  assumes "3 \<le> sz" "sz \<le> 64" "op1 AND mask sz \<noteq> 0"
  shows "\<exists>r. expand_udiv t sz op0 op1 = Inr r
    \<and> (highpart_ok t \<and> store_flag_ok t \<and> sz \<le> BITS_PER_WORD t \<longrightarrow> r \<noteq> None)
    \<and> (\<forall>q x. r = Some q \<longrightarrow> rtx_val sz x q = rtx_val sz x op0 div (uint op1 mod 2 ^ sz))"
  by (rule expand_udiv_value [OF assms])

theorem expand_udiv_correct_witness:
  "\<exists>q. expand_udiv \<lparr>BITS_PER_WORD = 64, highpart_ok = True, store_flag_ok = True, branch_cost = 1,
      have_conditional_move = False, shift_expensive = False\<rparr> 32 Op0 7 = Inr (Some q)
    \<and> rtx_val 32 4294967295 q = 613566756"
proof -
  have "(7 :: hwi) AND mask 32 \<noteq> 0" by (simp add: mask_eq_exp_minus_1)
  from expand_udiv_correct [OF _ _ this, of "\<lparr>BITS_PER_WORD = 64, highpart_ok = True, store_flag_ok = True,
      branch_cost = 1, have_conditional_move = False, shift_expensive = False\<rparr>" Op0]
  show ?thesis by force
qed

text \<open>
  C5: The signed divisions by a constant that the mode can hold: the emitted sequences (negation,
  comparison with the most negative number, the sequences for powers of two, multiplication with the
  signed or unsigned high part and correction by the sign) compute the quotient rounded to zero for
  \<open>TRUNC_DIV_EXPR\<close> and rounded down for \<open>FLOOR_DIV_EXPR\<close>, for every operand and divisors of either sign.
\<close>

theorem expand_signed_div_correct:
  assumes "3 \<le> sz" "sz \<le> 64" "sint d \<noteq> 0" "- (2 ^ (sz - 1)) \<le> sint d" "sint d < 2 ^ (sz - 1)"
  shows "(\<exists>r. expand_sdiv t sz op0 d = Inr r
    \<and> (highpart_ok t \<and> store_flag_ok t \<and> sz \<le> BITS_PER_WORD t \<longrightarrow> r \<noteq> None)
    \<and> (\<forall>q x. r = Some q \<longrightarrow> rtx_val sz x q = c_div (sval sz (rtx_val sz x op0)) (sint d) mod 2 ^ sz)) \<and>
    (\<exists>r. expand_floor_sdiv t sz op0 d = Inr r
    \<and> (highpart_ok t \<and> sz \<le> BITS_PER_WORD t \<longrightarrow> r \<noteq> None)
    \<and> (\<forall>q x. r = Some q \<longrightarrow> rtx_val sz x q = (sval sz (rtx_val sz x op0) div sint d) mod 2 ^ sz))"
  using expand_sdiv_value [OF assms, of t op0] expand_floor_sdiv_value [OF assms, of t op0] by (rule conjI)

theorem expand_signed_div_correct_witness:
  "\<exists>q. expand_floor_sdiv \<lparr>BITS_PER_WORD = 64, highpart_ok = True, store_flag_ok = True, branch_cost = 1,
      have_conditional_move = False, shift_expensive = False\<rparr> 32 Op0 7 = Inr (Some q)
    \<and> rtx_val 32 (- 1) q = 4294967295"
  using conjunct2 [OF expand_signed_div_correct, of 32 7 "\<lparr>BITS_PER_WORD = 64, highpart_ok = True, store_flag_ok = True,
      branch_cost = 1, have_conditional_move = False, shift_expensive = False\<rparr>" Op0]
  by (force simp: sval_def)

text \<open>
  The exact division by the inverse of the odd part of the divisor: it returns the quotient when
  the operand is a multiple of the divisor, read as signed numbers, and for unsigned operands when
  the divisor has its sign bit clear.
\<close>

theorem expand_exact_div_correct:
  assumes "d \<noteq> 0" "0 < sz" "sz \<le> 64"
  shows "(sval sz (rtx_val sz x op0) = sint d * q \<longrightarrow> rtx_val sz x (expand_exact_div False sz op0 d) = q mod 2 ^ sz) \<and>
    (rtx_val sz x op0 = sint d * q \<longrightarrow> rtx_val sz x (expand_exact_div True sz op0 d) = q mod 2 ^ sz)"
proof (intro conjI impI)
  define k where "k = nat (floor_log2 (d AND - d))"
  note split = exact_divisor(1) [OF assms(1,3), folded k_def]
  have cancel: "(sint d * q) div 2 ^ k = (sint d div 2 ^ k) * q" by (subst split) (simp add: mult.assoc)
  show "rtx_val sz x (expand_exact_div False sz op0 d) = q mod 2 ^ sz" if that: "sval sz (rtx_val sz x op0) = sint d * q"
    by (rule expand_exact_div_value [OF assms, folded k_def, OF refl]) (simp add: that cancel)
  show "rtx_val sz x (expand_exact_div True sz op0 d) = q mod 2 ^ sz" if "rtx_val sz x op0 = sint d * q"
  proof (rule expand_exact_div_value [OF assms, folded k_def, OF refl])
    have "rtx_val sz x (Lshiftrt op0 k) = (sint d div 2 ^ k) * q" by (simp add: that cancel)
    then show "rtx_val sz x (if True then Lshiftrt op0 k else Ashiftrt op0 k) = (sint d div 2 ^ k) * q mod 2 ^ sz"
      using rtx_val_range [OF assms(2), of x "Lshiftrt op0 k"] by (simp del: rtx_val.simps)
  qed
qed

theorem expand_exact_div_correct_witness:
  "rtx_val 32 (- 84) (expand_exact_div False 32 Op0 12) = (- 7) mod 2 ^ 32"
  using expand_exact_div_correct [of 12 32 "- 84" Op0 "- 7"] by (simp add: sval_def)

text \<open>
  The exact unsigned division goes wrong for an even divisor whose sign bit is set: the divisor is
  shifted as a signed number, and the inverse is that of another odd number. In an 8-bit mode,
  254 divided by 254 (the constant \<open>-2\<close> in the compiler) gives 129.
\<close>

theorem expand_exact_div_unsigned_wrong:
  "uint (- 2 :: hwi) mod 2 ^ 8 = 254" "rtx_val 8 254 (expand_exact_div True 8 Op0 (- 2)) = 129"
proof -
  show "uint (- 2 :: hwi) mod 2 ^ 8 = 254" by simp
  show "rtx_val 8 254 (expand_exact_div True 8 Op0 (- 2)) = 129" by code_simp
qed

end
