(* ===== verification/Synth_Mult.thy ===== *)
theory Synth_Mult
  imports Expand_Divmod
begin

text \<open>
  Multiplication by constants, \<open>src/gcc/expmed.c\<close>: \<open>synth_mult\<close> searches a cheap sequence of shifts,
  additions and subtractions for a multiplier, \<open>choose_mult_variant\<close> compares the sequences for the
  number, its negation and its predecessor, and \<open>expand_mult_const\<close> emits the chosen one. The costs of
  the target are in tables (\<open>mult_params\<close>, for one mode and one setting of \<open>speed\<close>) that \<open>init_expmed\<close> fills; a
  \<open>struct mult_cost\<close> keeps them in a \<open>short\<close>, with the conversion written out. The search is
  recursive and remembers its results in a hash table; its depth is bounded by fuel, and \<open>None\<close> is a
  search that needs more. \<open>synth_mult_total\<close> shows how much is enough.
\<close>

section \<open>Data\<close>

datatype alg_code =
  alg_unknown | alg_zero | alg_m | alg_shift | alg_add_t_m2 | alg_sub_t_m2
| alg_add_factor | alg_sub_factor | alg_add_t2_m | alg_sub_t2_m | alg_impossible

text \<open>The conversion of an \<open>int\<close> to a 16-bit \<open>short\<close>.\<close>

definition to_short :: "int \<Rightarrow> int" where
  "to_short x = (x + 2 ^ 15) mod 2 ^ 16 - 2 ^ 15"

record mult_cost =
  mc_cost :: int
  mc_latency :: int

definition MULT_COST_LESS :: "mult_cost \<Rightarrow> int \<Rightarrow> bool" where
  "MULT_COST_LESS x y \<longleftrightarrow> mc_cost x < y \<or> mc_cost x = y \<and> mc_latency x < y"

definition CHEAPER_MULT_COST :: "mult_cost \<Rightarrow> mult_cost \<Rightarrow> bool" where
  "CHEAPER_MULT_COST x y \<longleftrightarrow> mc_cost x < mc_cost y \<or> mc_cost x = mc_cost y \<and> mc_latency x < mc_latency y"

text \<open>The operations with their logarithms; after a search that failed they are not used.\<close>

record algorithm =
  al_cost :: mult_cost
  al_ops :: "(alg_code \<times> nat) list"

record alg_hash_entry =
  ah_t :: hwi
  ah_mode :: nat
  ah_alg :: alg_code
  ah_cost :: mult_cost
  ah_speed :: bool

type_synonym alg_hash = "nat \<Rightarrow> alg_hash_entry"

definition NUM_ALG_HASH_ENTRIES :: nat where
  "NUM_ALG_HASH_ENTRIES = 1031"

record mult_params =
  mp_mode :: nat
  mp_speed :: bool
  mp_bitsize :: nat
  mp_bits_per_word :: nat
  mp_max_bits_per_word :: nat
  add_cost :: int
  neg_cost :: int
  zero_cost :: int
  shift_cost :: "nat \<Rightarrow> int"
  shiftadd_cost :: "nat \<Rightarrow> int"
  shiftsub_cost :: "nat \<Rightarrow> int"

definition maxm :: "mult_params \<Rightarrow> nat" where
  "maxm P = min (mp_bits_per_word P) (mp_bitsize P)"

record synth_state =
  ss_hash :: alg_hash
  ss_best_cost :: mult_cost
  ss_best_ops :: "(alg_code \<times> nat) list"

type_synonym synth_rec = "alg_hash \<Rightarrow> mult_cost \<Rightarrow> hwi \<Rightarrow> (algorithm \<times> alg_hash) search"

section \<open>The search\<close>

text \<open>
  One candidate: multiply by \<open>q\<close> first, within what is left of the best cost, and then do the
  operation. For the factors the latency of the last step may differ from its cost. The arrays \<open>op\<close> and
  \<open>log\<close> have \<open>MAX_BITS_PER_WORD\<close> elements, and the step is stored before the length is looked at.
\<close>

definition try_candidate ::
  "mult_params \<Rightarrow> synth_rec \<Rightarrow> hwi \<Rightarrow> int \<Rightarrow> int \<Rightarrow> bool \<Rightarrow> alg_code \<Rightarrow> nat \<Rightarrow> synth_state \<Rightarrow> synth_state search" where
  "try_candidate P rec q op_cost op_latency factor code m st =
     and_then (rec (ss_hash st) \<lparr>mc_cost = to_short (mc_cost (ss_best_cost st) - op_cost),
                                 mc_latency = to_short (mc_latency (ss_best_cost st) - op_latency)\<rparr> q)
       (\<lambda>(alg_in, hash).
          let cost = to_short (mc_cost (al_cost alg_in) + op_cost);
              latency = to_short (mc_latency (al_cost alg_in) + op_latency);
              latency = (if factor \<and> latency < op_cost then to_short op_cost else latency);
              new_cost = \<lparr>mc_cost = cost, mc_latency = latency\<rparr>;
              st = st\<lparr>ss_hash := hash\<rparr>
          in Some (if CHEAPER_MULT_COST new_cost (ss_best_cost st)
                   then if length (al_ops alg_in) < mp_max_bits_per_word P
                        then Inr (st\<lparr>ss_best_cost := new_cost, ss_best_ops := al_ops alg_in @ [(code, m)]\<rparr>)
                        else Inl Undefined
                   else Inr st))"

definition do_alg_shift :: "mult_params \<Rightarrow> synth_rec \<Rightarrow> hwi \<Rightarrow> synth_state \<Rightarrow> synth_state search" where
  "do_alg_shift P rec t st =
     (let m = nat (floor_log2 (t AND - t))
      in if m < maxm P then
           (let op_cost = int m * add_cost P;
                op_cost = (if shift_cost P m < op_cost then shift_cost P m else op_cost)
            in try_candidate P rec (drop_bit m t) op_cost op_cost False alg_shift m st)
         else Some (Inr st))"

fun trailing_ones :: "nat \<Rightarrow> hwi \<Rightarrow> hwi \<Rightarrow> hwi" where
  "trailing_ones 0 w t = w"
| "trailing_ones (Suc n) w t = (if w AND t \<noteq> 0 then trailing_ones n (push_bit 1 w) t else w)"

definition do_alg_addsub_t_m2 :: "mult_params \<Rightarrow> synth_rec \<Rightarrow> hwi \<Rightarrow> synth_state \<Rightarrow> synth_state search" where
  "do_alg_addsub_t_m2 P rec t st =
     (let w = trailing_ones 64 1 t;
          op_cost = add_cost P
      in if w = 0 \<or> w > 2 \<and> t \<noteq> 3 then try_candidate P rec (t + 1) op_cost op_cost False alg_sub_t_m2 0 st
         else try_candidate P rec (t - 1) op_cost op_cost False alg_add_t_m2 0 st)"

text \<open>The loop over the factors \<open>2^m + 1\<close> and \<open>2^m - 1\<close>, from large to small.\<close>

definition factor_costs :: "mult_params \<Rightarrow> (nat \<Rightarrow> int) \<Rightarrow> nat \<Rightarrow> int \<times> int" where
  "factor_costs P shiftop_cost m =
     (let op_cost = add_cost P + shift_cost P m
      in if shiftop_cost m < op_cost then (shiftop_cost m, shiftop_cost m) else (op_cost, add_cost P))"

fun do_alg_addsub_factor ::
  "mult_params \<Rightarrow> synth_rec \<Rightarrow> hwi \<Rightarrow> bool \<Rightarrow> bool \<Rightarrow> nat \<Rightarrow> synth_state \<Rightarrow> synth_state search" where
  "do_alg_addsub_factor P rec t add_ok sub_ok 0 st = Some (Inr st)"
| "do_alg_addsub_factor P rec t add_ok sub_ok (Suc m') st =
     (let m = Suc m'
      in if m < 2 then Some (Inr st)
         else
           (let d = push_bit m 1 + 1;
                d' = push_bit m 1 - 1
            in if t mod d = 0 \<and> t > d \<and> m < maxm P \<and> add_ok then
                 (let (op_cost, op_latency) = factor_costs P (shiftadd_cost P) m
                  in try_candidate P rec (t div d) op_cost op_latency True alg_add_factor m st)
               else if t mod d' = 0 \<and> t > d' \<and> m < maxm P \<and> sub_ok then
                 (let (op_cost, op_latency) = factor_costs P (shiftsub_cost P) m
                  in try_candidate P rec (t div d') op_cost op_latency True alg_sub_factor m st)
               else do_alg_addsub_factor P rec t add_ok sub_ok m' st))"

definition do_alg_add_t2_m :: "mult_params \<Rightarrow> synth_rec \<Rightarrow> hwi \<Rightarrow> synth_state \<Rightarrow> synth_state search" where
  "do_alg_add_t2_m P rec t st =
     (let q = (t - 1) AND - (t - 1);
          m = exact_log2 q
      in if 0 \<le> m \<and> m < int (maxm P) then
           (let op_cost = shiftadd_cost P (nat m)
            in try_candidate P rec (drop_bit (nat m) (t - 1)) op_cost op_cost False alg_add_t2_m (nat m) st)
         else Some (Inr st))"

definition do_alg_sub_t2_m :: "mult_params \<Rightarrow> synth_rec \<Rightarrow> hwi \<Rightarrow> synth_state \<Rightarrow> synth_state search" where
  "do_alg_sub_t2_m P rec t st =
     (let q = (t + 1) AND - (t + 1);
          m = exact_log2 q
      in if 0 \<le> m \<and> m < int (maxm P) then
           (let op_cost = shiftsub_cost P (nat m)
            in try_candidate P rec (drop_bit (nat m) (t + 1)) op_cost op_cost False alg_sub_t2_m (nat m) st)
         else Some (Inr st))"

text \<open>All candidates in the order of the code, without a hit in the cache.\<close>

definition all_candidates :: "mult_params \<Rightarrow> synth_rec \<Rightarrow> hwi \<Rightarrow> synth_state \<Rightarrow> synth_state search" where
  "all_candidates P rec t st =
     and_then (if t AND 1 = 0 then do_alg_shift P rec t st else Some (Inr st)) (\<lambda>st.
     and_then (if t AND 1 \<noteq> 0 then do_alg_addsub_t_m2 P rec t st else Some (Inr st)) (\<lambda>st.
     and_then (do_alg_addsub_factor P rec t True True (nat (floor_log2 (t - 1))) st) (\<lambda>st.
     if t AND 1 \<noteq> 0 then and_then (do_alg_add_t2_m P rec t st) (do_alg_sub_t2_m P rec t)
     else Some (Inr st))))"

text \<open>A hit in the cache: only the remembered step is tried.\<close>

definition cached_candidate :: "mult_params \<Rightarrow> synth_rec \<Rightarrow> hwi \<Rightarrow> alg_code \<Rightarrow> synth_state \<Rightarrow> synth_state search" where
  "cached_candidate P rec t cache_alg st =
     (case cache_alg of
        alg_shift \<Rightarrow> do_alg_shift P rec t st
      | alg_add_t_m2 \<Rightarrow> do_alg_addsub_t_m2 P rec t st
      | alg_sub_t_m2 \<Rightarrow> do_alg_addsub_t_m2 P rec t st
      | alg_add_factor \<Rightarrow> do_alg_addsub_factor P rec t True False (nat (floor_log2 (t - 1))) st
      | alg_sub_factor \<Rightarrow> do_alg_addsub_factor P rec t False True (nat (floor_log2 (t - 1))) st
      | alg_add_t2_m \<Rightarrow> do_alg_add_t2_m P rec t st
      | alg_sub_t2_m \<Rightarrow> do_alg_sub_t2_m P rec t st
      | _ \<Rightarrow> Some (Inl Ice))"

text \<open>
  The whole of \<open>synth_mult\<close>. The search has not found anything while no candidate is cheaper than the
  limit; then \<open>best_ops\<close> is empty. The test for a sequence that is too long comes after the step has
  been stored behind the end of the arrays.
\<close>

definition hash_index :: "mult_params \<Rightarrow> hwi \<Rightarrow> nat" where
  "hash_index P t =
     unat ((t XOR of_nat (mp_mode P) XOR (if mp_speed P then 256 else 0)) mod of_nat NUM_ALG_HASH_ENTRIES)"

definition alg_failed :: "mult_cost \<Rightarrow> algorithm" where
  "alg_failed cost_limit =
     \<lparr>al_cost = \<lparr>mc_cost = to_short (mc_cost cost_limit + 1), mc_latency = to_short (mc_latency cost_limit + 1)\<rparr>,
      al_ops = []\<rparr>"

definition synth_done ::
  "mult_params \<Rightarrow> mult_cost \<Rightarrow> hwi \<Rightarrow> bool \<Rightarrow> synth_state \<Rightarrow> (algorithm \<times> alg_hash) search" where
  "synth_done P cost_limit t cache_hit st =
     (let entry = (\<lambda>alg cost. \<lparr>ah_t = t, ah_mode = mp_mode P, ah_alg = alg, ah_cost = cost, ah_speed = mp_speed P\<rparr>);
          hash = ss_hash st
      in if \<not> CHEAPER_MULT_COST (ss_best_cost st) cost_limit then
           Some (Inr (alg_failed cost_limit, hash(hash_index P t := entry alg_impossible cost_limit)))
         else
           (let hash = (if cache_hit then hash
                        else hash(hash_index P t := entry (fst (last (ss_best_ops st))) (ss_best_cost st)))
            in if length (ss_best_ops st) - 1 = mp_max_bits_per_word P then Some (Inr (alg_failed cost_limit, hash))
               else Some (Inr (\<lparr>al_cost = ss_best_cost st, al_ops = ss_best_ops st\<rparr>, hash))))"

definition synth_search :: "mult_params \<Rightarrow> synth_rec \<Rightarrow> synth_rec" where
  "synth_search P rec hash cost_limit t =
     (let st = \<lparr>ss_hash = hash, ss_best_cost = cost_limit, ss_best_ops = []\<rparr>;
          e = hash (hash_index P t);
          search = and_then (all_candidates P rec t st) (synth_done P cost_limit t False)
      in if ah_t e = t \<and> ah_mode e = mp_mode P \<and> ah_speed e = mp_speed P \<and> ah_alg e \<noteq> alg_unknown then
           (if ah_alg e = alg_impossible then
              (if \<not> CHEAPER_MULT_COST (ah_cost e) cost_limit then Some (Inr (alg_failed cost_limit, hash)) else search)
            else if CHEAPER_MULT_COST cost_limit (ah_cost e) then Some (Inr (alg_failed cost_limit, hash))
            else and_then (cached_candidate P rec t (ah_alg e) st) (synth_done P cost_limit t True))
         else search)"

definition synth_body :: "mult_params \<Rightarrow> synth_rec \<Rightarrow> synth_rec" where
  "synth_body P rec hash cost_limit t =
     (if mc_cost cost_limit < 0 \<or> mc_cost cost_limit = 0 \<and> mc_latency cost_limit \<le> 0
      then Some (Inr (alg_failed cost_limit, hash))
      else
        (let t = t AND mask (mp_bitsize P)
         in if t = 1 then
              Some (Inr (\<lparr>al_cost = \<lparr>mc_cost = 0, mc_latency = 0\<rparr>, al_ops = [(alg_m, 0)]\<rparr>, hash))
            else if t = 0 then
              (if MULT_COST_LESS cost_limit (zero_cost P) then Some (Inr (alg_failed cost_limit, hash))
               else Some (Inr (\<lparr>al_cost = \<lparr>mc_cost = to_short (zero_cost P), mc_latency = to_short (zero_cost P)\<rparr>,
                                al_ops = [(alg_zero, 0)]\<rparr>, hash)))
            else synth_search P rec hash cost_limit t))"

fun synth_mult :: "mult_params \<Rightarrow> nat \<Rightarrow> synth_rec" where
  "synth_mult P 0 = (\<lambda>hash cost_limit t. None)"
| "synth_mult P (Suc fuel) = synth_body P (synth_mult P fuel)"

section \<open>The choice of a variant\<close>

datatype mult_variant = basic_variant | negate_variant | add_variant

text \<open>
  Try \<open>-val\<close> or \<open>val - 1\<close>, with the fixup's cost, within the cost of what has been found.
\<close>

definition try_variant ::
  "mult_params \<Rightarrow> nat \<Rightarrow> int \<Rightarrow> hwi \<Rightarrow> int \<Rightarrow> mult_variant \<Rightarrow>
   algorithm \<times> mult_variant \<times> alg_hash \<Rightarrow> (algorithm \<times> mult_variant \<times> alg_hash) search" where
  "try_variant P fuel mult_cost v op_cost new_variant = (\<lambda>(alg, variant, hash).
     (let limit = (if MULT_COST_LESS (al_cost alg) mult_cost
                   then \<lparr>mc_cost = to_short (mc_cost (al_cost alg) - op_cost),
                         mc_latency = to_short (mc_latency (al_cost alg) - op_cost)\<rparr>
                   else \<lparr>mc_cost = to_short (mult_cost - op_cost), mc_latency = to_short (mult_cost - op_cost)\<rparr>)
      in and_then (synth_mult P fuel hash limit v) (\<lambda>(alg2, hash).
           let cost2 = \<lparr>mc_cost = to_short (mc_cost (al_cost alg2) + op_cost),
                        mc_latency = to_short (mc_latency (al_cost alg2) + op_cost)\<rparr>
           in Some (Inr (if CHEAPER_MULT_COST cost2 (al_cost alg) then (alg2\<lparr>al_cost := cost2\<rparr>, new_variant, hash)
                         else (alg, variant, hash))))))"

text \<open>\<open>None\<close> is the answer \<open>false\<close>; \<open>HOST_BITS_PER_INT\<close> is 32.\<close>

definition choose_mult_variant ::
  "mult_params \<Rightarrow> nat \<Rightarrow> alg_hash \<Rightarrow> hwi \<Rightarrow> int \<Rightarrow> ((algorithm \<times> mult_variant) option \<times> alg_hash) search" where
  "choose_mult_variant P fuel hash val mult_cost =
     (if mult_cost < 0 then Some (Inr (None, hash))
      else
        (let op_cost = 2 * int (mp_bitsize P) * add_cost P;
             mult_cost = (if mult_cost > op_cost then op_cost else mult_cost);
             limit = \<lparr>mc_cost = to_short mult_cost, mc_latency = to_short mult_cost\<rparr>
         in and_then (synth_mult P fuel hash limit val) (\<lambda>(alg, hash).
            and_then (if 32 \<ge> mp_bitsize P
                      then try_variant P fuel mult_cost (- val) (neg_cost P) negate_variant (alg, basic_variant, hash)
                      else Some (Inr (alg, basic_variant, hash))) (\<lambda>r.
            and_then (try_variant P fuel mult_cost (val - 1) (add_cost P) add_variant r) (\<lambda>(alg, variant, hash).
              Some (Inr (if MULT_COST_LESS (al_cost alg) mult_cost then Some (alg, variant) else None, hash)))))))"

section \<open>The instructions\<close>

text \<open>
  \<open>expand_mult_const\<close> on the value of the operand: a register of the mode holds an integer modulo
  \<open>2 ^ bitsize\<close>. The state is the accumulator and \<open>val_so_far\<close>.
\<close>

definition in_mode :: "mult_params \<Rightarrow> int \<Rightarrow> int" where
  "in_mode P x = x mod 2 ^ mp_bitsize P"

fun expand_step :: "mult_params \<Rightarrow> int \<Rightarrow> alg_code \<times> nat \<Rightarrow> int \<times> hwi \<Rightarrow> (int \<times> hwi) outcome" where
  "expand_step P op0 (alg_shift, log) (accum, val) =
     Inr (in_mode P (push_bit log accum), push_bit log val)"
| "expand_step P op0 (alg_add_t_m2, log) (accum, val) =
     (let tem = in_mode P (push_bit log op0) in Inr (in_mode P (accum + tem), val + push_bit log 1))"
| "expand_step P op0 (alg_sub_t_m2, log) (accum, val) =
     (let tem = in_mode P (push_bit log op0) in Inr (in_mode P (accum - tem), val - push_bit log 1))"
| "expand_step P op0 (alg_add_t2_m, log) (accum, val) =
     (let accum = in_mode P (push_bit log accum) in Inr (in_mode P (accum + op0), push_bit log val + 1))"
| "expand_step P op0 (alg_sub_t2_m, log) (accum, val) =
     (let accum = in_mode P (push_bit log accum) in Inr (in_mode P (accum - op0), push_bit log val - 1))"
| "expand_step P op0 (alg_add_factor, log) (accum, val) =
     (let tem = in_mode P (push_bit log accum) in Inr (in_mode P (accum + tem), val + push_bit log val))"
| "expand_step P op0 (alg_sub_factor, log) (accum, val) =
     (let tem = in_mode P (push_bit log accum) in Inr (in_mode P (tem - accum), push_bit log val - val))"
| "expand_step P op0 (_, log) (accum, val) = Inl Ice"

fun expand_steps :: "mult_params \<Rightarrow> int \<Rightarrow> (alg_code \<times> nat) list \<Rightarrow> int \<times> hwi \<Rightarrow> (int \<times> hwi) outcome" where
  "expand_steps P op0 [] s = Inr s"
| "expand_steps P op0 (op # ops) s =
     (case expand_step P op0 op s of Inl e \<Rightarrow> Inl e | Inr s \<Rightarrow> expand_steps P op0 ops s)"

fun expand_start :: "int \<Rightarrow> (alg_code \<times> nat) list \<Rightarrow> (int \<times> hwi) outcome" where
  "expand_start op0 [] = Inl Undefined"
| "expand_start op0 ((code, log) # ops) =
     (if code = alg_zero then Inr (0, 0) else if code = alg_m then Inr (op0, 1) else Inl Ice)"

definition expand_fixup :: "mult_params \<Rightarrow> int \<Rightarrow> mult_variant \<Rightarrow> int \<times> hwi \<Rightarrow> int \<times> hwi" where
  "expand_fixup P op0 variant = (\<lambda>(accum, val_so_far).
     case variant of
       basic_variant \<Rightarrow> (accum, val_so_far)
     | negate_variant \<Rightarrow> (in_mode P (- accum), - val_so_far)
     | add_variant \<Rightarrow> (in_mode P (accum + op0), val_so_far + 1))"

definition expand_mult_const :: "mult_params \<Rightarrow> int \<Rightarrow> hwi \<Rightarrow> algorithm \<Rightarrow> mult_variant \<Rightarrow> int outcome" where
  "expand_mult_const P op0 val alg variant =
     (case expand_start op0 (al_ops alg) of Inl e \<Rightarrow> Inl e
      | Inr s \<Rightarrow>
          (case expand_steps P op0 (tl (al_ops alg)) s of Inl e \<Rightarrow> Inl e
           | Inr s \<Rightarrow>
               (let (accum, val_so_far) = expand_fixup P op0 variant s
                in if val AND mask (mp_bitsize P) = val_so_far AND mask (mp_bitsize P) then Inr accum else Inl Ice)))"


section \<open>Sequences and their values\<close>

lemma to_short_id [simp]: "- 32768 \<le> x \<Longrightarrow> x \<le> 32767 \<Longrightarrow> to_short x = x"
  by (simp add: to_short_def)

text \<open>Arithmetic in the mode.\<close>

lemma in_mode_idem [simp]: "in_mode P (in_mode P x) = in_mode P x"
  by (simp add: in_mode_def)

lemma in_mode_cong:
  assumes "in_mode P x = in_mode P x'" "in_mode P y = in_mode P y'"
  shows in_mode_cong_add: "in_mode P (x + y) = in_mode P (x' + y')"
    and in_mode_cong_diff: "in_mode P (x - y) = in_mode P (x' - y')"
    and in_mode_cong_mult: "in_mode P (x * y) = in_mode P (x' * y')"
  using assms unfolding in_mode_def by (blast intro: mod_add_cong mod_diff_cong mod_mult_cong)+

lemma in_mode_uint:
  assumes "mp_bitsize P \<le> 64"
  shows "in_mode P (uint (word_of_int x :: hwi)) = in_mode P x"
proof -
  have "(2 :: int) ^ mp_bitsize P dvd 2 ^ 64" by (rule le_imp_power_dvd [OF assms])
  then show ?thesis by (simp add: in_mode_def uint_word_of_int mod_mod_cancel)
qed

text \<open>
  The accumulator and the number after a sequence, for an operand; \<open>multiplies P ops t\<close>: the sequence
  multiplies by \<open>t\<close> in the mode.
\<close>

definition expand_ops :: "mult_params \<Rightarrow> int \<Rightarrow> (alg_code \<times> nat) list \<Rightarrow> (int \<times> hwi) outcome" where
  "expand_ops P op0 ops =
     (case expand_start op0 ops of Inl e \<Rightarrow> Inl e | Inr s \<Rightarrow> expand_steps P op0 (tl ops) s)"

definition is_product :: "mult_params \<Rightarrow> int \<Rightarrow> hwi \<Rightarrow> int \<times> hwi \<Rightarrow> bool" where
  "is_product P op0 t s \<longleftrightarrow>
     in_mode P (fst s) = in_mode P (op0 * uint t) \<and> in_mode P (uint (snd s)) = in_mode P (uint t)"

definition multiplies :: "mult_params \<Rightarrow> (alg_code \<times> nat) list \<Rightarrow> hwi \<Rightarrow> bool" where
  "multiplies P ops t \<longleftrightarrow> (\<forall>op0. \<exists>s. expand_ops P op0 ops = Inr s \<and> is_product P op0 t s)"

lemma expand_steps_snoc:
  "expand_steps P op0 (ops @ [x]) s =
     (case expand_steps P op0 ops s of Inl e \<Rightarrow> Inl e | Inr s \<Rightarrow> expand_step P op0 x s)"
  by (induction ops arbitrary: s) (auto split: sum.splits)

lemma expand_ops_snoc:
  "expand_ops P op0 ops = Inr s \<Longrightarrow> expand_ops P op0 (ops @ [x]) = expand_step P op0 x s"
  by (cases ops) (auto simp: expand_ops_def expand_steps_snoc split: sum.splits if_splits)

lemma in_mode_words:
  assumes "mp_bitsize P \<le> 64"
  shows "in_mode P (uint (a + b :: hwi)) = in_mode P (uint a + uint b)"
    and "in_mode P (uint (a - b)) = in_mode P (uint a - uint b)"
    and "in_mode P (uint (push_bit m a)) = in_mode P (uint a * 2 ^ m)"
proof -
  have "a + b = word_of_int (uint a + uint b)" "a - b = word_of_int (uint a - uint b)"
    "push_bit m a = word_of_int (uint a * 2 ^ m)"
    by (simp_all add: push_bit_eq_mult)
  then show "in_mode P (uint (a + b)) = in_mode P (uint a + uint b)"
    "in_mode P (uint (a - b)) = in_mode P (uint a - uint b)"
    "in_mode P (uint (push_bit m a)) = in_mode P (uint a * 2 ^ m)"
    using in_mode_uint [OF assms] by metis+
qed

text \<open>Every step is linear in the accumulator and the operand.\<close>

fun step_coeffs :: "alg_code \<times> nat \<Rightarrow> (int \<times> int) option" where
  "step_coeffs (alg_shift, m) = Some (2 ^ m, 0)"
| "step_coeffs (alg_add_t_m2, m) = Some (1, 2 ^ m)"
| "step_coeffs (alg_sub_t_m2, m) = Some (1, - (2 ^ m))"
| "step_coeffs (alg_add_t2_m, m) = Some (2 ^ m, 1)"
| "step_coeffs (alg_sub_t2_m, m) = Some (2 ^ m, - 1)"
| "step_coeffs (alg_add_factor, m) = Some (1 + 2 ^ m, 0)"
| "step_coeffs (alg_sub_factor, m) = Some (2 ^ m - 1, 0)"
| "step_coeffs _ = None"

lemma in_mode_nested:
  "in_mode P (in_mode P x + y) = in_mode P (x + y)" "in_mode P (x + in_mode P y) = in_mode P (x + y)"
  "in_mode P (in_mode P x - y) = in_mode P (x - y)" "in_mode P (x - in_mode P y) = in_mode P (x - y)"
  by (simp_all add: in_mode_def mod_simps)

lemma expand_step_linear:
  assumes P: "mp_bitsize P \<le> 64" and "step_coeffs x = Some (a, b)"
  shows "\<exists>s. expand_step P op0 x (accum, v) = Inr s \<and> in_mode P (fst s) = in_mode P (a * accum + b * op0)
    \<and> in_mode P (uint (snd s)) = in_mode P (a * uint v + b)"
proof -
  have n: "in_mode P (uint (c + d :: hwi)) = in_mode P (in_mode P (uint c) + in_mode P (uint d))"
    "in_mode P (uint (c - d :: hwi)) = in_mode P (in_mode P (uint c) - in_mode P (uint d))" for c d
    by (simp_all only: in_mode_words [OF P] in_mode_nested)
  obtain code m where x: "x = (code, m)" by (cases x)
  show ?thesis
    using assms(2) unfolding x
    by (cases code)
      (auto simp: n in_mode_words(3) [OF P] in_mode_nested algebra_simps push_bit_eq_mult [where 'a = int] Let_def
        simp del: push_bit_of_1)
qed

lemma is_product_linear:
  assumes P: "mp_bitsize P \<le> 64" and "is_product P op0 q (accum, v)" and t: "t = of_int a * q + of_int b"
    and "in_mode P (fst s) = in_mode P (a * accum + b * op0)"
    and "in_mode P (uint (snd s)) = in_mode P (a * uint v + b)"
  shows "is_product P op0 t s"
proof -
  have q: "in_mode P accum = in_mode P (op0 * uint q)" "in_mode P (uint v) = in_mode P (uint q)"
    using assms(2) by (simp_all add: is_product_def)
  have "t = word_of_int (a * uint q + b)" by (simp add: t)
  then have ut: "in_mode P (uint t) = in_mode P (a * uint q + b)" using in_mode_uint [OF P] by metis
  have "in_mode P (a * accum + b * op0) = in_mode P (a * (op0 * uint q) + b * op0)"
    by (intro in_mode_cong_add in_mode_cong_mult q refl)
  also have "\<dots> = in_mode P (op0 * (a * uint q + b))" by (simp add: algebra_simps)
  also have "\<dots> = in_mode P (op0 * uint t)" by (intro in_mode_cong_mult ut [symmetric] refl)
  finally have "in_mode P (fst s) = in_mode P (op0 * uint t)" using assms(4) by simp
  moreover have "in_mode P (uint (snd s)) = in_mode P (uint t)"
    unfolding assms(5) ut by (intro in_mode_cong_add in_mode_cong_mult q refl)
  ultimately show ?thesis by (simp add: is_product_def)
qed

lemma multiplies_snoc:
  assumes P: "mp_bitsize P \<le> 64" and "multiplies P ops q" and c: "step_coeffs x = Some (a, b)"
    and t: "t = of_int a * q + of_int b"
  shows "multiplies P (ops @ [x]) t"
  unfolding multiplies_def
proof
  fix op0
  obtain accum v where s: "expand_ops P op0 ops = Inr (accum, v)" "is_product P op0 q (accum, v)"
    using assms(2) [unfolded multiplies_def, rule_format, of op0] by auto
  obtain s' where "expand_step P op0 x (accum, v) = Inr s'"
    "in_mode P (fst s') = in_mode P (a * accum + b * op0)" "in_mode P (uint (snd s')) = in_mode P (a * uint v + b)"
    using expand_step_linear [OF P c] by blast
  then show "\<exists>s. expand_ops P op0 (ops @ [x]) = Inr s \<and> is_product P op0 t s"
    using expand_ops_snoc [OF s(1)] is_product_linear [OF P s(2) t] by simp
qed

lemma multiplies_start:
  "multiplies P [(alg_m, n)] 1" "multiplies P [(alg_zero, n)] 0"
  by (simp_all add: multiplies_def expand_ops_def is_product_def)

text \<open>Only the bits of the mode matter.\<close>

lemma in_mode_mask: "in_mode P (uint (t AND mask (mp_bitsize P) :: hwi)) = in_mode P (uint t)"
  by (simp add: in_mode_def unsigned_take_bit_eq flip: take_bit_eq_mask take_bit_eq_mod)

lemma multiplies_cong:
  assumes "in_mode P (uint t) = in_mode P (uint t')" "multiplies P ops t"
  shows "multiplies P ops t'"
proof -
  have "in_mode P (op0 * uint t) = in_mode P (op0 * uint t')" for op0
    by (intro in_mode_cong_mult assms(1) refl)
  with assms show ?thesis by (simp add: multiplies_def is_product_def)
qed

section \<open>The contract of the search\<close>

text \<open>
  Costs that the code's \<open>short\<close>s hold without wrap-around; every operation costs at least \<open>lc\<close>, which
  bounds the depth of the search and the length of the sequences. Of the tables only the entries
  below \<open>maxm\<close> count, and of the shifts only those by at least one. Of a cached step the search needs
  that it is a step, and that a shift belongs to an even number: a shift by zero would start the same
  search again.
\<close>

definition cost_ok :: "int \<Rightarrow> int \<Rightarrow> bool" where
  "cost_ok lc c \<longleftrightarrow> 1 \<le> lc \<and> lc \<le> c \<and> c \<le> 16383"

definition params_ok :: "int \<Rightarrow> mult_params \<Rightarrow> bool" where
  "params_ok lc P \<longleftrightarrow> mp_bitsize P \<le> 64 \<and> cost_ok lc (add_cost P) \<and> cost_ok lc (neg_cost P)
     \<and> 0 \<le> zero_cost P \<and> zero_cost P \<le> 16383
     \<and> (\<forall>m < maxm P. (0 < m \<longrightarrow> cost_ok lc (shift_cost P m)) \<and> cost_ok lc (shiftadd_cost P m) \<and> cost_ok lc (shiftsub_cost P m))"

definition step_recorded :: "hwi \<Rightarrow> alg_code \<Rightarrow> bool" where
  "step_recorded t code \<longleftrightarrow> code \<noteq> alg_zero \<and> code \<noteq> alg_m \<and> (code = alg_shift \<longrightarrow> even t)"

definition hash_ok :: "alg_hash \<Rightarrow> bool" where
  "hash_ok hash \<longleftrightarrow> (\<forall>i. step_recorded (ah_t (hash i)) (ah_alg (hash i)))"

definition result_ok :: "int \<Rightarrow> mult_params \<Rightarrow> mult_cost \<Rightarrow> hwi \<Rightarrow> algorithm \<Rightarrow> bool" where
  "result_ok lc P limit t alg \<longleftrightarrow>
     mc_cost (al_cost alg) = mc_cost limit + 1
     \<or> multiplies P (al_ops alg) t \<and> 0 \<le> mc_cost (al_cost alg) \<and> mc_cost (al_cost alg) \<le> mc_cost limit
       \<and> lc * (int (length (al_ops alg)) - 1) \<le> mc_cost (al_cost alg)"

definition search_ok :: "int \<Rightarrow> mult_params \<Rightarrow> int \<Rightarrow> synth_rec \<Rightarrow> bool" where
  "search_ok lc P n rec \<longleftrightarrow>
     (\<forall>hash limit t. hash_ok hash \<longrightarrow> - 16384 \<le> mc_cost limit \<longrightarrow> mc_cost limit \<le> n \<longrightarrow>
        (\<exists>alg hash'. rec hash limit t = Some (Inr (alg, hash')) \<and> hash_ok hash' \<and> result_ok lc P limit t alg))"

definition state_ok :: "int \<Rightarrow> mult_params \<Rightarrow> mult_cost \<Rightarrow> hwi \<Rightarrow> synth_state \<Rightarrow> bool" where
  "state_ok lc P limit t st \<longleftrightarrow>
     hash_ok (ss_hash st) \<and> 0 \<le> mc_cost (ss_best_cost st) \<and> mc_cost (ss_best_cost st) \<le> mc_cost limit
     \<and> (ss_best_cost st = limit
        \<or> multiplies P (ss_best_ops st) t \<and> step_recorded t (fst (last (ss_best_ops st)))
          \<and> lc * (int (length (ss_best_ops st)) - 1) \<le> mc_cost (ss_best_cost st))"

text \<open>What a part of the search does: it ends, and keeps the state.\<close>

definition part_ok :: "int \<Rightarrow> mult_params \<Rightarrow> mult_cost \<Rightarrow> hwi \<Rightarrow> synth_state search \<Rightarrow> bool" where
  "part_ok lc P limit t r \<longleftrightarrow> (\<exists>st. r = Some (Inr st) \<and> state_ok lc P limit t st)"

lemma part_ok_skip: "state_ok lc P limit t st \<Longrightarrow> part_ok lc P limit t (Some (Inr st))"
  by (simp add: part_ok_def)

lemma part_ok_and_then:
  "part_ok lc P limit t r \<Longrightarrow> (\<And>st. state_ok lc P limit t st \<Longrightarrow> part_ok lc P limit t (f st)) \<Longrightarrow>
   part_ok lc P limit t (and_then r f)"
  by (auto simp: part_ok_def)

lemma try_candidate_ok:
  assumes P: "mp_bitsize P \<le> 64" and st: "state_ok lc P limit t st" and rec: "search_ok lc P (mc_cost limit - 1) rec"
    and limit: "mc_cost limit \<le> 16383" "mc_cost limit < lc * int (mp_max_bits_per_word P)" and op: "cost_ok lc op_cost"
    and step: "step_coeffs (code, m) = Some (a, b)" "t = of_int a * q + of_int b" "code = alg_shift \<longrightarrow> even t"
  shows "part_ok lc P limit t (try_candidate P rec q op_cost op_latency factor code m st)"
proof -
  define best where "best = ss_best_cost st"
  define l where "l = \<lparr>mc_cost = to_short (mc_cost best - op_cost), mc_latency = to_short (mc_latency best - op_latency)\<rparr>"
  have best: "0 \<le> mc_cost best" "mc_cost best \<le> mc_cost limit" "hash_ok (ss_hash st)"
    using st by (simp_all add: state_ok_def best_def)
  then have l: "mc_cost l = mc_cost best - op_cost" using limit op by (simp add: l_def cost_ok_def)
  then have range: "- 16384 \<le> mc_cost l" "mc_cost l \<le> mc_cost limit - 1"
    using best limit op by (simp_all add: cost_ok_def)
  obtain alg hash where r: "rec (ss_hash st) l q = Some (Inr (alg, hash))" "hash_ok hash" "result_ok lc P l q alg"
    using rec [unfolded search_ok_def, rule_format, OF best(3) range] by blast
  have code: "step_recorded t code" using step(1,3) by (cases code) (auto simp: step_recorded_def)
  have "- 16384 \<le> mc_cost (al_cost alg)" "mc_cost (al_cost alg) \<le> mc_cost best"
    using r(3) l op best by (auto simp: result_ok_def cost_ok_def)
  then have short: "to_short (mc_cost (al_cost alg) + op_cost) = mc_cost (al_cost alg) + op_cost"
    using op best limit by (simp add: cost_ok_def)
  show ?thesis
  proof (cases "mc_cost (al_cost alg) = mc_cost l + 1")
    case True
    then have "\<not> CHEAPER_MULT_COST \<lparr>mc_cost = mc_cost (al_cost alg) + op_cost, mc_latency = x\<rparr> best" for x
      by (simp add: CHEAPER_MULT_COST_def l)
    then show ?thesis using r(1,2) st short
      by (simp add: try_candidate_def part_ok_def state_ok_def Let_def best_def l_def)
  next
    case False
    then have ok: "multiplies P (al_ops alg) q" "0 \<le> mc_cost (al_cost alg)" "mc_cost (al_cost alg) \<le> mc_cost l"
        "lc * (int (length (al_ops alg)) - 1) \<le> mc_cost (al_cost alg)"
      using r(3) by (auto simp: result_ok_def)
    have "lc * int (length (al_ops alg)) \<le> mc_cost (al_cost alg) + op_cost"
      using ok(4) op by (simp add: cost_ok_def right_diff_distrib)
    moreover from this have "lc * int (length (al_ops alg)) < lc * int (mp_max_bits_per_word P)"
      using ok(3) l best(2) limit(2) by linarith
    ultimately have len: "lc * int (length (al_ops alg)) \<le> mc_cost (al_cost alg) + op_cost"
        "length (al_ops alg) < mp_max_bits_per_word P"
      using op by (simp_all add: cost_ok_def mult_less_cancel_left)
    have "multiplies P (al_ops alg @ [(code, m)]) t" by (rule multiplies_snoc [OF P ok(1) step(1,2)])
    then show ?thesis using r(1,2) st short ok(2,3) l op best(2) code len
      by (auto simp: try_candidate_def part_ok_def state_ok_def Let_def best_def l_def cost_ok_def)
  qed
qed

section \<open>The candidates\<close>

definition search_context :: "int \<Rightarrow> mult_params \<Rightarrow> mult_cost \<Rightarrow> synth_rec \<Rightarrow> bool" where
  "search_context lc P limit rec \<longleftrightarrow>
     params_ok lc P \<and> search_ok lc P (mc_cost limit - 1) rec \<and> 0 \<le> mc_cost limit \<and> mc_cost limit \<le> 16383
     \<and> mc_cost limit < lc * int (mp_max_bits_per_word P)"

lemma candidate_ok:
  assumes "search_context lc P limit rec" "state_ok lc P limit t st" "cost_ok lc op_cost"
    "step_coeffs (code, m) = Some (a, b)" "t = of_int a * q + of_int b" "code = alg_shift \<longrightarrow> even t"
  shows "part_ok lc P limit t (try_candidate P rec q op_cost op_latency factor code m st)"
  using assms by (intro try_candidate_ok) (auto simp: search_context_def params_ok_def)

lemma low_zeros:
  fixes t :: hwi
  assumes "t \<noteq> 0"
  shows "\<exists>k<64. floor_log2 (t AND - t) = int k \<and> exact_log2 (t AND - t) = int k
    \<and> t = of_int (2 ^ k) * drop_bit k t \<and> (even t \<longrightarrow> 0 < k)"
proof -
  obtain k m where k: "k < 64" "t = push_bit k m" "odd m" "m = drop_bit k t"
    using lowest_bit_split [OF assms] by blast
  have low: "t AND - t = push_bit k 1" using lowest_bit [OF k(3), of k] k(2) by simp
  have log: "floor_log2 (t AND - t) = int k" unfolding low by (rule floor_log2_push_bit [OF k(1)])
  have "push_bit k 1 = push_bit k 1 AND - push_bit k (1 :: hwi)" by (rule lowest_bit [symmetric]) simp
  then have "exact_log2 (t AND - t) = int k"
    using log unfolding low exact_log2_def by metis
  moreover have "t = of_int (2 ^ k) * drop_bit k t"
    unfolding k(4) [symmetric] using k(2) by (simp add: push_bit_eq_mult mult.commute)
  moreover have "even t \<longrightarrow> 0 < k" using k(2,3) by (cases k) auto
  ultimately show ?thesis using log k(1) by (intro exI [of _ k]) simp
qed

lemma do_alg_shift_ok:
  assumes ctx: "search_context lc P limit rec" "state_ok lc P limit t st" and "t \<noteq> 0" "even t"
  shows "part_ok lc P limit t (do_alg_shift P rec t st)"
proof -
  obtain k where k: "k < 64" "floor_log2 (t AND - t) = int k" "t = of_int (2 ^ k) * drop_bit k t" "0 < k"
    using low_zeros [OF assms(3)] assms(4) by blast
  have "part_ok lc P limit t (try_candidate P rec (drop_bit k t)
      (if shift_cost P k < int k * add_cost P then shift_cost P k else int k * add_cost P) l False alg_shift k st)"
    if "k < maxm P" for l
  proof -
    have c: "cost_ok lc (add_cost P)" "cost_ok lc (shift_cost P k)"
      using ctx(1) that k(4) by (auto simp: search_context_def params_ok_def)
    have "1 * add_cost P \<le> int k * add_cost P" using c(1) k(4) by (intro mult_right_mono) (simp_all add: cost_ok_def)
    then have "lc \<le> int k * add_cost P" using c(1) unfolding cost_ok_def by linarith
    then have "cost_ok lc (if shift_cost P k < int k * add_cost P then shift_cost P k else int k * add_cost P)"
      using c by (auto simp: cost_ok_def)
    then show ?thesis using k(3) assms(4) by (intro candidate_ok [where a = "2 ^ k" and b = 0] ctx) simp_all
  qed
  then show ?thesis using k(2) part_ok_skip [OF ctx(2)] by (simp add: do_alg_shift_def Let_def)
qed

lemma do_alg_addsub_t_m2_ok:
  assumes ctx: "search_context lc P limit rec" "state_ok lc P limit t st"
  shows "part_ok lc P limit t (do_alg_addsub_t_m2 P rec t st)"
proof -
  have c: "cost_ok lc (add_cost P)" using ctx(1) by (simp add: search_context_def params_ok_def)
  have "part_ok lc P limit t (try_candidate P rec (t + 1) (add_cost P) (add_cost P) False alg_sub_t_m2 0 st)"
    by (intro candidate_ok [where a = 1 and b = "- 1"] ctx c) simp_all
  moreover have "part_ok lc P limit t (try_candidate P rec (t - 1) (add_cost P) (add_cost P) False alg_add_t_m2 0 st)"
    by (intro candidate_ok [where a = 1 and b = 1] ctx c) simp_all
  ultimately show ?thesis by (simp add: do_alg_addsub_t_m2_def Let_def)
qed

lemma factor_costs_ok:
  assumes "cost_ok lc (add_cost P)" "cost_ok lc (shift_cost P m)" "cost_ok lc (f m)"
  shows "cost_ok lc (fst (factor_costs P f m))"
  using assms by (auto simp: factor_costs_def cost_ok_def Let_def)


lemma do_alg_addsub_factor_ok:
  assumes ctx: "search_context lc P limit rec" "state_ok lc P limit t st"
  shows "part_ok lc P limit t (do_alg_addsub_factor P rec t add_ok sub_ok m st)"
proof (induction m)
  case 0
  then show ?case using part_ok_skip [OF ctx(2)] by simp
next
  case (Suc m')
  define m where "m = Suc m'"
  have costs: "cost_ok lc (fst (factor_costs P (shiftadd_cost P) m))" "cost_ok lc (fst (factor_costs P (shiftsub_cost P) m))"
    if "m < maxm P"
    using ctx(1) that by (auto simp: search_context_def params_ok_def m_def intro!: factor_costs_ok)
  have q: "t = of_int (1 + 2 ^ m) * (t div d)" if "t mod d = 0" "d = push_bit m 1 + 1" for d
    using div_mult_mod_eq [of t d] that by (simp add: mult.commute add.commute)
  have q': "t = of_int (2 ^ m - 1) * (t div d)" if "t mod d = 0" "d = push_bit m 1 - 1" for d
    using div_mult_mod_eq [of t d] that by (simp add: mult.commute)
  have add: "part_ok lc P limit t (try_candidate P rec (t div (push_bit m 1 + 1))
      (fst (factor_costs P (shiftadd_cost P) m)) l True alg_add_factor m st)"
    if "t mod (push_bit m 1 + 1) = 0" "m < maxm P" for l
    using q [OF that(1) refl] that(2) by (intro candidate_ok [where a = "1 + 2 ^ m" and b = 0] ctx costs) simp_all
  have sub: "part_ok lc P limit t (try_candidate P rec (t div (push_bit m 1 - 1))
      (fst (factor_costs P (shiftsub_cost P) m)) l True alg_sub_factor m st)"
    if "t mod (push_bit m 1 - 1) = 0" "m < maxm P" for l
    using q' [OF that(1) refl] that(2) by (intro candidate_ok [where a = "2 ^ m - 1" and b = 0] ctx costs) simp_all
  show ?case
    unfolding do_alg_addsub_factor.simps Let_def case_prod_beta unfolding m_def [symmetric]
    using part_ok_skip [OF ctx(2)] add sub Suc by (simp only: if_split) simp
qed

lemma do_alg_t2_m_ok:
  assumes ctx: "search_context lc P limit rec" "state_ok lc P limit t st"
  shows do_alg_add_t2_m_ok: "part_ok lc P limit t (do_alg_add_t2_m P rec t st)"
    and do_alg_sub_t2_m_ok: "part_ok lc P limit t (do_alg_sub_t2_m P rec t st)"
proof -
  have c: "cost_ok lc (shiftadd_cost P k)" "cost_ok lc (shiftsub_cost P k)" if "int k < int (maxm P)" for k
    using ctx(1) that by (auto simp: search_context_def params_ok_def)
  have none: "exact_log2 (0 AND - 0) = - 1" by (simp add: exact_log2_def floor_log2_def)
  show "part_ok lc P limit t (do_alg_add_t2_m P rec t st)"
  proof (cases "t - 1 = 0")
    case True
    then show ?thesis using none part_ok_skip [OF ctx(2)] by (simp add: do_alg_add_t2_m_def)
  next
    case False
    obtain k where k: "exact_log2 ((t - 1) AND - (t - 1)) = int k"
        "t - 1 = of_int (2 ^ k) * drop_bit k (t - 1)"
      using low_zeros [OF False] by blast
    have "part_ok lc P limit t (try_candidate P rec (drop_bit k (t - 1)) (shiftadd_cost P k) l False alg_add_t2_m k st)"
      if "int k < int (maxm P)" for l
      using k(2) by (intro candidate_ok [where a = "2 ^ k" and b = 1] ctx c that) (simp_all add: algebra_simps)
    then show ?thesis using k(1) part_ok_skip [OF ctx(2)]
      unfolding do_alg_add_t2_m_def Let_def by (simp only: nat_int if_split) blast
  qed
  show "part_ok lc P limit t (do_alg_sub_t2_m P rec t st)"
  proof (cases "t + 1 = 0")
    case True
    then show ?thesis using none part_ok_skip [OF ctx(2)] by (simp add: do_alg_sub_t2_m_def)
  next
    case False
    obtain k where k: "exact_log2 ((t + 1) AND - (t + 1)) = int k"
        "t + 1 = of_int (2 ^ k) * drop_bit k (t + 1)"
      using low_zeros [OF False] by blast
    have "part_ok lc P limit t (try_candidate P rec (drop_bit k (t + 1)) (shiftsub_cost P k) l False alg_sub_t2_m k st)"
      if "int k < int (maxm P)" for l
      using k(2) by (intro candidate_ok [where a = "2 ^ k" and b = "- 1"] ctx c that) (simp_all add: algebra_simps)
    then show ?thesis using k(1) part_ok_skip [OF ctx(2)]
      unfolding do_alg_sub_t2_m_def Let_def by (simp only: nat_int if_split) blast
  qed
qed

section \<open>The search as a whole\<close>

lemma all_candidates_ok:
  assumes ctx: "search_context lc P limit rec" "state_ok lc P limit t st" and "t \<noteq> 0"
  shows "part_ok lc P limit t (all_candidates P rec t st)"
proof -
  have even: "t AND 1 = 0 \<longleftrightarrow> even t" by (simp add: and_one_eq even_iff_mod_2_eq_zero)
  show ?thesis
    unfolding all_candidates_def
    using assms by (auto simp: even intro!: part_ok_and_then part_ok_skip do_alg_shift_ok do_alg_addsub_t_m2_ok
        do_alg_addsub_factor_ok do_alg_add_t2_m_ok do_alg_sub_t2_m_ok)
qed

lemma cached_candidate_ok:
  assumes "search_context lc P limit rec" "state_ok lc P limit t st" "t \<noteq> 0"
    and "step_recorded t alg" "alg \<noteq> alg_unknown" "alg \<noteq> alg_impossible"
  shows "part_ok lc P limit t (cached_candidate P rec t alg st)"
  using assms by (cases alg) (auto simp: cached_candidate_def step_recorded_def
      intro!: do_alg_shift_ok do_alg_addsub_t_m2_ok do_alg_addsub_factor_ok do_alg_add_t2_m_ok do_alg_sub_t2_m_ok)

definition synth_ok :: "int \<Rightarrow> mult_params \<Rightarrow> mult_cost \<Rightarrow> hwi \<Rightarrow> (algorithm \<times> alg_hash) search \<Rightarrow> bool" where
  "synth_ok lc P limit t r \<longleftrightarrow> (\<exists>alg hash. r = Some (Inr (alg, hash)) \<and> hash_ok hash \<and> result_ok lc P limit t alg)"

lemma hash_ok_upd: "hash_ok hash \<Longrightarrow> step_recorded (ah_t e) (ah_alg e) \<Longrightarrow> hash_ok (hash(i := e))"
  by (simp add: hash_ok_def)

lemma failed_ok:
  "hash_ok hash \<Longrightarrow> - 16384 \<le> mc_cost limit \<Longrightarrow> mc_cost limit \<le> 16383 \<Longrightarrow>
   synth_ok lc P limit t (Some (Inr (alg_failed limit, hash)))"
  by (simp add: synth_ok_def result_ok_def alg_failed_def)

lemma synth_done_ok:
  assumes "part_ok lc P limit t r" "0 \<le> mc_cost limit" "mc_cost limit \<le> 16383"
  shows "synth_ok lc P limit t (and_then r (synth_done P limit t cache_hit))"
proof -
  obtain st where st: "r = Some (Inr st)" "state_ok lc P limit t st" using assms(1) by (auto simp: part_ok_def)
  have hash: "hash_ok (ss_hash st)" using st(2) by (simp add: state_ok_def)
  show ?thesis
  proof (cases "CHEAPER_MULT_COST (ss_best_cost st) limit")
    case False
    have "step_recorded t alg_impossible" by (simp add: step_recorded_def)
    with False show ?thesis using st(1) assms(2,3) by (simp add: synth_done_def Let_def failed_ok hash_ok_upd hash)
  next
    case True
    then have "ss_best_cost st \<noteq> limit" by (auto simp: CHEAPER_MULT_COST_def)
    then have "multiplies P (ss_best_ops st) t" "step_recorded t (fst (last (ss_best_ops st)))"
        "lc * (int (length (ss_best_ops st)) - 1) \<le> mc_cost (ss_best_cost st)"
      using st(2) by (simp_all add: state_ok_def)
    with True show ?thesis using st assms(2,3)
      by (simp add: synth_done_def Let_def failed_ok hash_ok_upd hash)
        (simp add: synth_ok_def result_ok_def state_ok_def hash_ok_upd hash)
  qed
qed

lemma synth_search_ok:
  assumes ctx: "search_context lc P limit rec" "t \<noteq> 0" and hash: "hash_ok hash"
  shows "synth_ok lc P limit t (synth_search P rec hash limit t)"
proof -
  define e where "e = hash (hash_index P t)"
  define st where "st = \<lparr>ss_hash = hash, ss_best_cost = limit, ss_best_ops = []\<rparr>"
  have limit: "0 \<le> mc_cost limit" "mc_cost limit \<le> 16383" using ctx by (simp_all add: search_context_def)
  have st: "state_ok lc P limit t st" using hash limit by (simp add: state_ok_def st_def)
  have failed: "synth_ok lc P limit t (Some (Inr (alg_failed limit, hash)))"
    using limit hash by (simp add: failed_ok)
  have search: "synth_ok lc P limit t (and_then (all_candidates P rec t st) (synth_done P limit t False))"
    by (intro synth_done_ok all_candidates_ok ctx st limit)
  have "synth_ok lc P limit t (and_then (cached_candidate P rec t (ah_alg e) st) (synth_done P limit t True))"
    if "ah_t e = t" "ah_alg e \<noteq> alg_unknown" "ah_alg e \<noteq> alg_impossible"
  proof -
    have "step_recorded t (ah_alg e)" using hash that(1) unfolding hash_ok_def e_def by metis
    then show ?thesis by (intro synth_done_ok cached_candidate_ok ctx st limit that(2,3))
  qed
  then show ?thesis using failed search
    unfolding synth_search_def e_def [symmetric] st_def [symmetric] Let_def by simp
qed

lemma synth_body_ok:
  assumes P: "params_ok lc P" and rec: "0 \<le> n \<Longrightarrow> search_ok lc P (n - 1) rec"
    and n: "n \<le> 16383" "n < lc * int (mp_max_bits_per_word P)"
  shows "search_ok lc P n (synth_body P rec)"
  unfolding search_ok_def synth_ok_def [symmetric]
proof (intro allI impI)
  fix hash and limit :: mult_cost and t :: hwi
  assume hash: "hash_ok hash" and limit: "- 16384 \<le> mc_cost limit" "mc_cost limit \<le> n"
  define t' where "t' = t AND mask (mp_bitsize P)"
  have failed: "synth_ok lc P limit u (Some (Inr (alg_failed limit, hash)))" for u
    using limit hash n by (simp add: failed_ok)
  have "synth_ok lc P limit t' (synth_body P rec hash limit t)"
  proof (cases "mc_cost limit < 0 \<or> mc_cost limit = 0 \<and> mc_latency limit \<le> 0")
    case True
    then show ?thesis using failed by (simp add: synth_body_def)
  next
    case False
    then have "0 \<le> n" "0 \<le> mc_cost limit" using limit by auto
    have "search_ok lc P (mc_cost limit - 1) rec" using rec [OF \<open>0 \<le> n\<close>] limit(2) by (auto simp: search_ok_def)
    then have ctx: "search_context lc P limit rec" using P \<open>0 \<le> mc_cost limit\<close> limit(2) n by (simp add: search_context_def)
    consider "t' = 1" | "t' = 0" | "t' \<noteq> 0" "t' \<noteq> 1" by blast
    then show ?thesis
    proof cases
      case 1
      with False show ?thesis using hash \<open>0 \<le> mc_cost limit\<close>
        by (auto simp: synth_body_def t'_def [symmetric] synth_ok_def result_ok_def multiplies_start)
    next
      case 2
      have z: "0 \<le> zero_cost P" "zero_cost P \<le> 16383" using P by (simp_all add: params_ok_def)
      show ?thesis
      proof (cases "MULT_COST_LESS limit (zero_cost P)")
        case True
        with False 2 show ?thesis using failed by (simp add: synth_body_def t'_def [symmetric])
      next
        case dear: False
        then have "zero_cost P \<le> mc_cost limit" by (simp add: MULT_COST_LESS_def)
        with False 2 dear show ?thesis using hash z
          by (auto simp: synth_body_def t'_def [symmetric] synth_ok_def result_ok_def multiplies_start)
      qed
    next
      case 3
      with False show ?thesis using synth_search_ok [OF ctx 3(1) hash]
        by (auto simp: synth_body_def t'_def [symmetric] Let_def)
    qed
  qed
  then show "synth_ok lc P limit t (synth_body P rec hash limit t)"
    using multiplies_cong [OF in_mode_mask [of P t]] by (fastforce simp: synth_ok_def result_ok_def t'_def)
qed

lemma synth_mult_ok:
  "params_ok lc P \<Longrightarrow> n \<le> 16383 \<Longrightarrow> n < lc * int (mp_max_bits_per_word P) \<Longrightarrow> n + 2 \<le> int fuel \<Longrightarrow> 0 < fuel \<Longrightarrow>
   search_ok lc P n (synth_mult P fuel)"
proof (induction fuel arbitrary: n)
  case (Suc fuel)
  have "search_ok lc P (n - 1) (synth_mult P fuel)" if "0 \<le> n" using that Suc.prems by (intro Suc.IH) auto
  then show ?case using Suc.prems by (simp add: synth_body_ok)
qed simp

section \<open>The variants\<close>

primrec variant_arg :: "mult_variant \<Rightarrow> hwi \<Rightarrow> hwi" where
  "variant_arg basic_variant val = val"
| "variant_arg negate_variant val = - val"
| "variant_arg add_variant val = val - 1"

definition choice_ok :: "int \<Rightarrow> mult_params \<Rightarrow> int \<Rightarrow> hwi \<Rightarrow> algorithm \<times> mult_variant \<times> alg_hash \<Rightarrow> bool" where
  "choice_ok lc P mult_cost val = (\<lambda>(alg, variant, hash).
     hash_ok hash \<and> 0 \<le> mc_cost (al_cost alg) \<and> mc_cost (al_cost alg) \<le> mult_cost + 1
     \<and> (mc_cost (al_cost alg) \<le> mult_cost \<longrightarrow> multiplies P (al_ops alg) (variant_arg variant val)))"

lemma MULT_COST_LESS_le: "MULT_COST_LESS c n \<Longrightarrow> mc_cost c \<le> n"
  by (auto simp: MULT_COST_LESS_def)

lemma search_okE:
  assumes "search_ok lc P n rec" "hash_ok hash" "- 16384 \<le> mc_cost limit" "mc_cost limit \<le> n"
  obtains alg hash' where "rec hash limit t = Some (Inr (alg, hash'))" "hash_ok hash'" "result_ok lc P limit t alg"
  using assms unfolding search_ok_def by meson

lemma try_variant_ok:
  assumes P: "params_ok lc P" and n: "0 \<le> mult_cost" "mult_cost \<le> 16383"
      "mult_cost < lc * int (mp_max_bits_per_word P)" "mult_cost + 2 \<le> int fuel"
    and op: "cost_ok lc op_cost" and r: "choice_ok lc P mult_cost val r"
  shows "\<exists>r'. try_variant P fuel mult_cost (variant_arg v val) op_cost v r = Some (Inr r')
    \<and> choice_ok lc P mult_cost val r'"
proof -
  obtain alg variant hash where req: "r = (alg, variant, hash)" by (cases r)
  have alg: "hash_ok hash" "0 \<le> mc_cost (al_cost alg)" "mc_cost (al_cost alg) \<le> mult_cost + 1"
    using r by (simp_all add: choice_ok_def req)
  define base where "base = (if MULT_COST_LESS (al_cost alg) mult_cost then al_cost alg
    else \<lparr>mc_cost = mult_cost, mc_latency = mult_cost\<rparr>)"
  define limit where "limit = \<lparr>mc_cost = to_short (mc_cost base - op_cost),
    mc_latency = to_short (mc_latency base - op_cost)\<rparr>"
  have base: "0 \<le> mc_cost base" "mc_cost base \<le> mult_cost" "mc_cost base = mc_cost (al_cost alg) \<or> mc_cost base = mult_cost"
    using alg n MULT_COST_LESS_le [of "al_cost alg" mult_cost] by (auto simp: base_def)
  have limit: "mc_cost limit = mc_cost base - op_cost"
    using base n op by (simp add: limit_def cost_ok_def)
  then have range: "- 16384 \<le> mc_cost limit" "mc_cost limit \<le> mult_cost"
    using base op n by (simp_all add: cost_ok_def)
  have "search_ok lc P mult_cost (synth_mult P fuel)" using n by (intro synth_mult_ok P) linarith+
  then obtain alg2 hash2 where s: "synth_mult P fuel hash limit (variant_arg v val) = Some (Inr (alg2, hash2))"
      "hash_ok hash2" "result_ok lc P limit (variant_arg v val) alg2"
    by (rule search_okE [OF _ alg(1) range])
  define cost2 where "cost2 = \<lparr>mc_cost = to_short (mc_cost (al_cost alg2) + op_cost),
    mc_latency = to_short (mc_latency (al_cost alg2) + op_cost)\<rparr>"
  have "- 16384 \<le> mc_cost (al_cost alg2)" "mc_cost (al_cost alg2) \<le> mult_cost + 1"
    using s(3) range by (auto simp: result_ok_def)
  then have cost2: "mc_cost cost2 = mc_cost (al_cost alg2) + op_cost"
    using op n by (simp add: cost2_def cost_ok_def)
  have eq: "try_variant P fuel mult_cost (variant_arg v val) op_cost v r =
      Some (Inr (if CHEAPER_MULT_COST cost2 (al_cost alg) then (alg2\<lparr>al_cost := cost2\<rparr>, v, hash2)
                 else (alg, variant, hash2)))"
  proof -
    have "(if MULT_COST_LESS (al_cost alg) mult_cost
           then \<lparr>mc_cost = to_short (mc_cost (al_cost alg) - op_cost),
                 mc_latency = to_short (mc_latency (al_cost alg) - op_cost)\<rparr>
           else \<lparr>mc_cost = to_short (mult_cost - op_cost), mc_latency = to_short (mult_cost - op_cost)\<rparr>) = limit"
      by (simp add: limit_def base_def)
    then show ?thesis by (simp add: try_variant_def req Let_def s(1) cost2_def)
  qed
  have keep: "choice_ok lc P mult_cost val (alg, variant, hash2)" using r s(2) by (simp add: choice_ok_def req)
  have "choice_ok lc P mult_cost val (alg2\<lparr>al_cost := cost2\<rparr>, v, hash2)" if "CHEAPER_MULT_COST cost2 (al_cost alg)"
  proof (cases "mc_cost (al_cost alg2) = mc_cost limit + 1")
    case True
    then have "mc_cost cost2 = mc_cost base + 1" using limit cost2 by simp
    moreover have "mc_cost cost2 \<le> mc_cost (al_cost alg)" using that by (auto simp: CHEAPER_MULT_COST_def)
    ultimately have "mc_cost cost2 = mult_cost + 1" using base(3) by auto
    then show ?thesis using s(2) n by (simp add: choice_ok_def)
  next
    case False
    then show ?thesis using s(2,3) limit cost2 base op by (auto simp: choice_ok_def result_ok_def cost_ok_def)
  qed
  with eq keep show ?thesis by auto
qed

definition capped_cost :: "mult_params \<Rightarrow> int \<Rightarrow> int" where
  "capped_cost P mult_cost = min mult_cost (2 * int (mp_bitsize P) * add_cost P)"

lemma choose_mult_variant_ok:
  assumes P: "params_ok lc P" and n: "capped_cost P mult_cost \<le> 16383"
      "capped_cost P mult_cost < lc * int (mp_max_bits_per_word P)" "capped_cost P mult_cost + 2 \<le> int fuel"
    and hash: "hash_ok hash"
  shows "\<exists>r hash'. choose_mult_variant P fuel hash val mult_cost = Some (Inr (r, hash')) \<and> hash_ok hash'
    \<and> (\<forall>alg variant. r = Some (alg, variant) \<longrightarrow> multiplies P (al_ops alg) (variant_arg variant val))"
proof (cases "mult_cost < 0")
  case True
  then show ?thesis using hash by (simp add: choose_mult_variant_def)
next
  case False
  have costs: "cost_ok lc (add_cost P)" "cost_ok lc (neg_cost P)" using P by (simp_all add: params_ok_def)
  define c where "c = (if mult_cost > 2 * int (mp_bitsize P) * add_cost P then 2 * int (mp_bitsize P) * add_cost P
    else mult_cost)"
  have "c = capped_cost P mult_cost" by (simp add: c_def capped_cost_def)
  moreover have "0 \<le> c" using costs False by (simp add: c_def cost_ok_def)
  ultimately have c: "0 \<le> c" "c \<le> 16383" "c < lc * int (mp_max_bits_per_word P)" "c + 2 \<le> int fuel" using n by simp_all
  define limit where "limit = \<lparr>mc_cost = to_short c, mc_latency = to_short c\<rparr>"
  have limit: "mc_cost limit = c" using c by (simp add: limit_def)
  have "search_ok lc P c (synth_mult P fuel)" using c by (intro synth_mult_ok P) linarith+
  then obtain alg hash1 where s: "synth_mult P fuel hash limit val = Some (Inr (alg, hash1))" "hash_ok hash1"
      "result_ok lc P limit val alg"
    using limit c(1) by (elim search_okE [OF _ hash, of _ _ _ _ limit]) simp_all
  have basic: "choice_ok lc P c val (alg, basic_variant, hash1)"
    using s c limit by (auto simp: choice_ok_def result_ok_def)
  obtain r1 where r1: "(if 32 \<ge> mp_bitsize P
      then try_variant P fuel c (- val) (neg_cost P) negate_variant (alg, basic_variant, hash1)
      else Some (Inr (alg, basic_variant, hash1))) = Some (Inr r1)" "choice_ok lc P c val r1"
    using basic try_variant_ok [OF P c costs(2) basic, where v = negate_variant] that
    by (cases "32 \<ge> mp_bitsize P") auto
  obtain alg2 variant hash2 where r2: "try_variant P fuel c (val - 1) (add_cost P) add_variant r1
      = Some (Inr (alg2, variant, hash2))" "choice_ok lc P c val (alg2, variant, hash2)"
    using try_variant_ok [OF P c costs(1) r1(2), where v = add_variant] by auto
  have "choose_mult_variant P fuel hash val mult_cost =
      Some (Inr (if MULT_COST_LESS (al_cost alg2) c then Some (alg2, variant) else None, hash2))"
    unfolding choose_mult_variant_def Let_def c_def [symmetric] limit_def [symmetric]
    using False s(1) r1(1) r2(1) by simp
  then show ?thesis using r2(2) MULT_COST_LESS_le [of "al_cost alg2" c] by (auto simp: choice_ok_def)
qed

section \<open>The instructions\<close>

lemma expand_steps_reduced:
  "expand_steps P op0 ops s = Inr s' \<Longrightarrow> in_mode P (fst s) = fst s \<Longrightarrow> in_mode P (fst s') = fst s'"
proof (induction ops arbitrary: s)
  case (Cons x ops)
  obtain s1 where s1: "expand_step P op0 x s = Inr s1" "expand_steps P op0 ops s1 = Inr s'"
    using Cons.prems(1) by (auto split: sum.splits)
  have "in_mode P (fst s1) = fst s1"
    using s1(1) by (cases "(P, op0, x, s)" rule: expand_step.cases) (auto simp: Let_def)
  then show ?case using Cons.IH [OF s1(2)] by simp
qed simp

lemma expand_ops_reduced:
  "expand_ops P op0 ops = Inr s \<Longrightarrow> in_mode P op0 = op0 \<Longrightarrow> in_mode P (fst s) = fst s"
proof -
  assume *: "expand_ops P op0 ops = Inr s" "in_mode P op0 = op0"
  then obtain s0 where s0: "expand_start op0 ops = Inr s0" "expand_steps P op0 (tl ops) s0 = Inr s"
    by (auto simp: expand_ops_def split: sum.splits)
  have "in_mode P 0 = 0" by (simp add: in_mode_def)
  then have "in_mode P (fst s0) = fst s0" using s0(1) *(2) by (cases ops) (auto split: if_splits)
  then show ?thesis by (rule expand_steps_reduced [OF s0(2)])
qed

lemma in_mode_eq_mask:
  "in_mode P (uint a) = in_mode P (uint b) \<longleftrightarrow> a AND mask (mp_bitsize P) = (b AND mask (mp_bitsize P) :: hwi)"
  by (simp add: in_mode_def word_uint_eq_iff unsigned_take_bit_eq flip: take_bit_eq_mask take_bit_eq_mod)

lemma in_mode_sint: "mp_bitsize P \<le> 64 \<Longrightarrow> in_mode P (op0 * uint (v :: hwi)) = in_mode P (op0 * sint v)"
  using in_mode_uint [of P "sint v"] by (intro in_mode_cong_mult) simp_all

lemma expand_fixup_product:
  assumes P: "mp_bitsize P \<le> 64" and s: "is_product P op0 (variant_arg variant val) s" "in_mode P (fst s) = fst s"
  shows "is_product P op0 val (expand_fixup P op0 variant s) \<and>
    in_mode P (fst (expand_fixup P op0 variant s)) = fst (expand_fixup P op0 variant s)"
proof (cases variant)
  case basic_variant
  then show ?thesis using s by (simp add: expand_fixup_def case_prod_beta)
next
  case negate_variant
  have "is_product P op0 (- val) (fst s, snd s)" using s(1) negate_variant by simp
  moreover have "val = of_int (- 1) * - val + of_int 0" by simp
  moreover have "in_mode P (fst (in_mode P (- fst s), - snd s)) = in_mode P (- 1 * fst s + 0 * op0)" by simp
  moreover have "in_mode P (uint (snd (in_mode P (- fst s), - snd s))) = in_mode P (- 1 * uint (snd s) + 0)"
    using in_mode_words(2) [OF P, of 0 "snd s"] by simp
  ultimately have "is_product P op0 val (in_mode P (- fst s), - snd s)"
    by (rule is_product_linear [OF P])
  with negate_variant show ?thesis by (simp add: expand_fixup_def case_prod_beta)
next
  case add_variant
  have "is_product P op0 (val - 1) (fst s, snd s)" using s(1) add_variant by simp
  moreover have "val = of_int 1 * (val - 1) + of_int 1" by simp
  moreover have "in_mode P (fst (in_mode P (fst s + op0), snd s + 1)) = in_mode P (1 * fst s + 1 * op0)" by simp
  moreover have "in_mode P (uint (snd (in_mode P (fst s + op0), snd s + 1))) = in_mode P (1 * uint (snd s) + 1)"
    using in_mode_words(1) [OF P, of "snd s" 1] by simp
  ultimately have "is_product P op0 val (in_mode P (fst s + op0), snd s + 1)"
    by (rule is_product_linear [OF P])
  with add_variant show ?thesis by (simp add: expand_fixup_def case_prod_beta)
qed

lemma expand_mult_const_correct:
  assumes P: "mp_bitsize P \<le> 64" and "multiplies P (al_ops alg) (variant_arg variant val)" and op0: "in_mode P op0 = op0"
  shows "expand_mult_const P op0 val alg variant = Inr (in_mode P (op0 * sint val))"
proof -
  obtain s where s: "expand_ops P op0 (al_ops alg) = Inr s" "is_product P op0 (variant_arg variant val) s"
    using assms(2) [unfolded multiplies_def, rule_format, of op0] by auto
  obtain accum v where e: "expand_fixup P op0 variant s = (accum, v)" by fastforce
  have "is_product P op0 val (accum, v)" "in_mode P accum = accum"
    using expand_fixup_product [OF P s(2) expand_ops_reduced [OF s(1) op0]] by (simp_all add: e)
  then have "accum = in_mode P (op0 * sint val)" "val AND mask (mp_bitsize P) = v AND mask (mp_bitsize P)"
    using in_mode_sint [OF P, of op0 val] in_mode_eq_mask [of P v val] by (simp_all add: is_product_def)
  moreover obtain s0 where "expand_start op0 (al_ops alg) = Inr s0" "expand_steps P op0 (tl (al_ops alg)) s0 = Inr s"
    using s(1) by (auto simp: expand_ops_def split: sum.splits)
  ultimately show ?thesis using e by (simp add: expand_mult_const_def)
qed

section \<open>The cost tables\<close>

text \<open>
  \<open>rtx_cost\<close> (\<open>src/gcc/rtlanal.c\<close>) on the expressions that \<open>init_expmed\<close> builds for these tables. The
  target's hook \<open>targetm.rtx_costs\<close> is a parameter: it sees the expression and the default total, and
  gives its answer together with the total it leaves. The costs are the hook's, so their
  \<open>int\<close>s are not wrapped. \<open>COSTS_N_INSNS (n)\<close> is \<open>n * 4\<close>.
\<close>

datatype cost_rtx_code = RC_UNKNOWN | RC_SET | RC_REG | RC_CONST_INT | RC_PLUS | RC_MINUS | RC_NEG | RC_MULT | RC_ASHIFT

datatype cost_rtx =
  cr_reg nat | cr_const_int int | cr_op cost_rtx_code nat "cost_rtx list"

definition COSTS_N_INSNS :: "int \<Rightarrow> int" where
  "COSTS_N_INSNS n = n * 4"

type_synonym rtx_costs_hook = "cost_rtx \<Rightarrow> cost_rtx_code \<Rightarrow> cost_rtx_code \<Rightarrow> int \<Rightarrow> bool \<Rightarrow> bool \<times> int"

definition default_total :: "cost_rtx_code \<Rightarrow> int" where
  "default_total code = (if code = RC_MULT then COSTS_N_INSNS 5 else COSTS_N_INSNS 1)"

fun rtx_cost :: "rtx_costs_hook \<Rightarrow> cost_rtx_code \<Rightarrow> bool \<Rightarrow> cost_rtx \<Rightarrow> int" where
  "rtx_cost hook outer_code speed (cr_reg mode) = 0"
| "rtx_cost hook outer_code speed (cr_const_int n) =
     snd (hook (cr_const_int n) RC_CONST_INT outer_code (default_total RC_CONST_INT) speed)"
| "rtx_cost hook outer_code speed (cr_op code mode args) =
     (let (done, total) = hook (cr_op code mode args) code outer_code (default_total code) speed
      in if done then total else total + sum_list (map (rtx_cost hook code speed) args))"

text \<open>
  The tables that \<open>init_expmed\<close> fills for one mode and one setting of \<open>speed\<close>, as far as the search reads
  them; those for multiplications and divisions are left out. They are static, so what the
  loop does not reach is zero.
\<close>

definition init_expmed :: "rtx_costs_hook \<Rightarrow> nat \<Rightarrow> nat \<Rightarrow> nat \<Rightarrow> bool \<Rightarrow> nat \<Rightarrow> mult_params" where
  "init_expmed hook max_bits_per_word bits_per_word mode speed bitsize =
     (let reg = cr_reg mode;
          cost = rtx_cost hook RC_SET speed;
          plus = cr_op RC_PLUS mode [reg, reg];
          neg = cr_op RC_NEG mode [reg];
          shift = (\<lambda>m. cr_op RC_ASHIFT mode [reg, cr_const_int (int m)]);
          shift_mult = (\<lambda>m. cr_op RC_MULT mode [reg, cr_const_int (sint (push_bit m 1 :: hwi))]);
          shift_add = (\<lambda>m. cr_op RC_PLUS mode [shift_mult m, reg]);
          shift_sub = (\<lambda>m. cr_op RC_MINUS mode [shift_mult m, reg]);
          n = min max_bits_per_word bitsize;
          table = (\<lambda>zeroth f m. if m = 0 then zeroth else if m < n then cost (f m) else 0)
      in \<lparr>mp_mode = mode, mp_speed = speed, mp_bitsize = bitsize, mp_bits_per_word = bits_per_word,
          mp_max_bits_per_word = max_bits_per_word, add_cost = cost plus, neg_cost = cost neg,
          zero_cost = rtx_cost hook RC_UNKNOWN speed (cr_const_int 0),
          shift_cost = table 0 shift, shiftadd_cost = table (cost plus) shift_add,
          shiftsub_cost = table (cost plus) shift_sub\<rparr>)"

text \<open>
  Tables built by \<open>init_expmed\<close> from costs that fit are such tables: the zero for a shift by zero and the
  unfilled entries are never looked at.
\<close>

lemma init_expmed_params_ok:
  assumes "bitsize \<le> 64" "bits_per_word \<le> max_bits_per_word" "P = init_expmed hook max_bits_per_word bits_per_word mode speed bitsize"
    and "cost_ok lc (add_cost P)" "cost_ok lc (neg_cost P)" "0 \<le> zero_cost P" "zero_cost P \<le> 16383"
    and "\<And>m. 0 < m \<Longrightarrow> m < min max_bits_per_word bitsize \<Longrightarrow>
      cost_ok lc (shift_cost P m) \<and> cost_ok lc (shiftadd_cost P m) \<and> cost_ok lc (shiftsub_cost P m)"
  shows "params_ok lc P"
proof -
  have size: "mp_bitsize P = bitsize" "maxm P \<le> min max_bits_per_word bitsize"
    using assms(2) by (auto simp: assms(3) init_expmed_def maxm_def Let_def)
  have zeroth: "shiftadd_cost P 0 = add_cost P" "shiftsub_cost P 0 = add_cost P"
    by (simp_all add: assms(3) init_expmed_def Let_def)
  have "(0 < m \<longrightarrow> cost_ok lc (shift_cost P m)) \<and> cost_ok lc (shiftadd_cost P m) \<and> cost_ok lc (shiftsub_cost P m)"
    if "m < maxm P" for m
  proof (cases "m = 0")
    case True
    then show ?thesis using zeroth assms(4) by simp
  next
    case False
    then show ?thesis using assms(8) [of m] that size(2) by simp
  qed
  then show ?thesis using assms(1,4-7) size(1) by (simp add: params_ok_def)
qed

section \<open>Properties\<close>

text \<open>
  The table as the program starts with it, and the costs of a target that does not define the hook
  (\<open>hook_bool_rtx_int_int_intp_bool_false\<close>): 4 for an addition, 8 for a shift, 28 for a shift with an
  addition or subtraction.
\<close>

definition empty_alg_hash :: alg_hash where
  "empty_alg_hash = (\<lambda>i. \<lparr>ah_t = 0, ah_mode = 0, ah_alg = alg_unknown,
     ah_cost = \<lparr>mc_cost = 0, mc_latency = 0\<rparr>, ah_speed = False\<rparr>)"

definition default_rtx_costs :: rtx_costs_hook where
  "default_rtx_costs x code outer_code total' speed = (False, total')"

definition default_params :: mult_params where
  "default_params = init_expmed default_rtx_costs 64 64 6 True 32"

lemma default_params_costs:
  "add_cost default_params = 4" "neg_cost default_params = 4" "zero_cost default_params = 4"
  "mp_bitsize default_params = 32" "mp_max_bits_per_word default_params = 64"
  "0 < m \<Longrightarrow> m < 32 \<Longrightarrow> shift_cost default_params m = 8"
  "0 < m \<Longrightarrow> m < 32 \<Longrightarrow> shiftadd_cost default_params m = 28"
  "0 < m \<Longrightarrow> m < 32 \<Longrightarrow> shiftsub_cost default_params m = 28"
  by (simp_all add: default_params_def init_expmed_def default_rtx_costs_def default_total_def COSTS_N_INSNS_def Let_def)

lemma default_params_ok: "params_ok 4 default_params" "hash_ok empty_alg_hash"
proof -
  show "params_ok 4 default_params"
    by (rule init_expmed_params_ok [OF _ _ default_params_def])
      (simp_all add: default_params_costs cost_ok_def)
  show "hash_ok empty_alg_hash" by (simp add: hash_ok_def empty_alg_hash_def step_recorded_def)
qed

lemma multiply_by_5:
  "map_option (map_sum id fst) (choose_mult_variant default_params 22 empty_alg_hash 5 20) =
     Some (Inr (Some (\<lparr>al_cost = \<lparr>mc_cost = 12, mc_latency = 12\<rparr>,
       al_ops = [(alg_m, 0), (alg_shift, 2), (alg_add_t_m2, 0)]\<rparr>, basic_variant)))"
  by code_simp

text \<open>
  C13: The search for a multiplication always ends, without an assertion failing and without a store
  behind the end of the arrays. Every operation costs at least \<open>lc\<close> and the costs fit a \<open>short\<close>, as with the
  tables of \<open>init_expmed\<close> (\<open>init_expmed_params_ok\<close>); the hash table's entries come from earlier searches; and
  the limit is below \<open>lc * MAX_BITS_PER_WORD\<close>, without which a sequence can outgrow the arrays. Then a depth
  of \<open>cost + 2\<close> is enough for a limit of \<open>cost\<close>; the table stays usable, and the search either reports failure by a
  cost of \<open>cost + 1\<close>, or returns a cost within the limit and a sequence of at most \<open>MAX_BITS_PER_WORD\<close>
  steps that \<open>expand_mult_const\<close> turns into the product of every operand and \<open>t\<close>, with its final
  assertion satisfied.
\<close>

theorem synth_mult_total:
  assumes "params_ok lc P" "hash_ok hash" "- 16384 \<le> mc_cost limit" "mc_cost limit \<le> 16383"
    and "mc_cost limit < lc * int (mp_max_bits_per_word P)" "mc_cost limit + 2 \<le> int fuel" "0 < fuel"
  shows "\<exists>alg hash'. synth_mult P fuel hash limit t = Some (Inr (alg, hash')) \<and> hash_ok hash' \<and>
    (mc_cost (al_cost alg) = mc_cost limit + 1 \<or>
     0 \<le> mc_cost (al_cost alg) \<and> mc_cost (al_cost alg) \<le> mc_cost limit \<and>
     length (al_ops alg) \<le> mp_max_bits_per_word P \<and>
     (\<forall>op0. 0 \<le> op0 \<and> op0 < 2 ^ mp_bitsize P \<longrightarrow>
        expand_mult_const P op0 t alg basic_variant = Inr ((op0 * sint t) mod 2 ^ mp_bitsize P)))"
proof -
  have P: "mp_bitsize P \<le> 64" "1 \<le> lc" using assms(1) by (simp_all add: params_ok_def cost_ok_def)
  obtain alg hash' where s: "synth_mult P fuel hash limit t = Some (Inr (alg, hash'))" "hash_ok hash'"
      "result_ok lc P limit t alg"
    by (rule search_okE [OF synth_mult_ok [OF assms(1,4-7)] assms(2,3) order_refl])
  have "length (al_ops alg) \<le> mp_max_bits_per_word P"
    if "lc * (int (length (al_ops alg)) - 1) \<le> mc_cost (al_cost alg)" "mc_cost (al_cost alg) \<le> mc_cost limit"
  proof -
    have "lc * (int (length (al_ops alg)) - 1) < lc * int (mp_max_bits_per_word P)" using that assms(5) by linarith
    then show ?thesis using P(2) by (simp add: mult_less_cancel_left)
  qed
  moreover have "expand_mult_const P op0 t alg basic_variant = Inr (in_mode P (op0 * sint t))"
    if "multiplies P (al_ops alg) t" "0 \<le> op0" "op0 < 2 ^ mp_bitsize P" for op0
    using that by (intro expand_mult_const_correct P) (simp_all add: in_mode_def)
  ultimately show ?thesis using s by (auto simp: result_ok_def in_mode_def)
qed

theorem synth_mult_total_witness:
  "\<exists>alg hash'. synth_mult default_params 22 empty_alg_hash \<lparr>mc_cost = 20, mc_latency = 20\<rparr> 100 = Some (Inr (alg, hash')) \<and>
    (mc_cost (al_cost alg) = 21 \<or> mc_cost (al_cost alg) \<le> 20 \<and>
     expand_mult_const default_params 7 100 alg basic_variant = Inr 700)"
proof -
  define L where "L = \<lparr>mc_cost = 20, mc_latency = 20\<rparr>"
  have L: "mc_cost L = 20" by (simp add: L_def)
  have hyps: "- 16384 \<le> mc_cost L" "mc_cost L \<le> 16383" "mc_cost L < 4 * int (mp_max_bits_per_word default_params)"
    "mc_cost L + 2 \<le> int 22" "0 < (22 :: nat)"
    by (simp_all add: L default_params_costs)
  obtain alg hash' where *: "synth_mult default_params 22 empty_alg_hash L 100 = Some (Inr (alg, hash'))"
      "mc_cost (al_cost alg) = mc_cost L + 1 \<or> mc_cost (al_cost alg) \<le> mc_cost L \<and>
     (\<forall>op0. 0 \<le> op0 \<and> op0 < 2 ^ mp_bitsize default_params \<longrightarrow>
        expand_mult_const default_params op0 100 alg basic_variant
          = Inr ((op0 * sint (100 :: hwi)) mod 2 ^ mp_bitsize default_params))"
    using synth_mult_total [OF default_params_ok hyps, of 100] by blast
  have "f 7 = Inr 700"
    if "\<forall>op0. 0 \<le> op0 \<and> op0 < 2 ^ mp_bitsize default_params \<longrightarrow>
      f op0 = Inr ((op0 * sint (100 :: hwi)) mod 2 ^ mp_bitsize default_params)" for f :: "int \<Rightarrow> int outcome"
    using that [rule_format, of 7] by (simp add: default_params_costs)
  then have "mc_cost (al_cost alg) = 21 \<or> mc_cost (al_cost alg) \<le> 20 \<and>
      expand_mult_const default_params 7 100 alg basic_variant = Inr 700"
    using *(2) unfolding L by auto
  with *(1) show ?thesis unfolding L_def by blast
qed

text \<open>
  C7: What \<open>choose_mult_variant\<close> accepts, \<open>expand_mult_const\<close> expands: the choice ends, and whatever variant is chosen, the
  instructions leave the product of the operand and the constant in the accumulator, modulo the size
  of the mode, for every operand, and the assertion that the numbers agree holds. The cost limit is the
  given one, or that of \<open>2 * bitsize\<close> additions if it is less; it has to be below \<open>lc * MAX_BITS_PER_WORD\<close>,
  where every operation costs at least \<open>lc\<close>.
\<close>

theorem choose_and_expand:
  assumes "params_ok lc P" "hash_ok hash" "capped_cost P mult_cost \<le> 16383"
    and "capped_cost P mult_cost < lc * int (mp_max_bits_per_word P)" "capped_cost P mult_cost + 2 \<le> int fuel"
  shows "\<exists>r hash'. choose_mult_variant P fuel hash val mult_cost = Some (Inr (r, hash')) \<and> hash_ok hash' \<and>
    (\<forall>alg variant op0. r = Some (alg, variant) \<and> 0 \<le> op0 \<and> op0 < 2 ^ mp_bitsize P \<longrightarrow>
       expand_mult_const P op0 val alg variant = Inr ((op0 * sint val) mod 2 ^ mp_bitsize P))"
proof -
  have P: "mp_bitsize P \<le> 64" using assms(1) by (simp add: params_ok_def)
  have "expand_mult_const P op0 val alg variant = Inr ((op0 * sint val) mod 2 ^ mp_bitsize P)"
    if "multiplies P (al_ops alg) (variant_arg variant val)" "0 \<le> op0" "op0 < 2 ^ mp_bitsize P" for alg variant op0
    using expand_mult_const_correct [OF P that(1), of op0] that(2,3) by (simp add: in_mode_def)
  then show ?thesis using choose_mult_variant_ok [OF assms(1,3-5,2), of val] by meson
qed

text \<open>Multiplication by 5 within the default cost of a multiplication: a shift and an addition.\<close>

theorem choose_and_expand_witness:
  "\<exists>alg hash'. choose_mult_variant default_params 22 empty_alg_hash 5 20 = Some (Inr (Some (alg, basic_variant), hash')) \<and>
    al_ops alg = [(alg_m, 0), (alg_shift, 2), (alg_add_t_m2, 0)] \<and>
    expand_mult_const default_params 7 5 alg basic_variant = Inr 35"
proof -
  have c: "capped_cost default_params 20 = 20" by (simp add: capped_cost_def default_params_costs)
  obtain r hash' where *: "choose_mult_variant default_params 22 empty_alg_hash 5 20 = Some (Inr (r, hash'))"
      "\<forall>alg variant op0. r = Some (alg, variant) \<and> 0 \<le> op0 \<and> op0 < 2 ^ mp_bitsize default_params \<longrightarrow>
       expand_mult_const default_params op0 5 alg variant = Inr ((op0 * sint (5 :: hwi)) mod 2 ^ mp_bitsize default_params)"
    using choose_and_expand [OF default_params_ok, of 20 22 5] by (auto simp: c default_params_costs)
  obtain alg where r: "r = Some (alg, basic_variant)" "al_ops alg = [(alg_m, 0), (alg_shift, 2), (alg_add_t_m2, 0)]"
    using multiply_by_5 by (auto simp: *(1))
  have "expand_mult_const default_params 7 5 alg basic_variant = Inr 35"
    using *(2) [rule_format, of alg basic_variant 7] r(1) by (simp add: default_params_costs)
  with *(1) r show ?thesis by blast
qed

end
