(* ===== verification/Prime_Sizes.thy ===== *)
theory Prime_Sizes
  imports Main
begin

text \<open>
  Primality by certificates (Pratt). The sizes of the hash tables of \<open>src/libiberty/hashtab.c\<close> are meant
  to be primes up to \<open>2^32\<close>, and the double hashing relies on it; the certificates let the kernel
  check them with a few modular powers each.
\<close>

definition is_prime :: "int \<Rightarrow> bool" where
  "is_prime p \<longleftrightarrow> 1 < p \<and> (\<forall>d. 0 < d \<longrightarrow> d dvd p \<longrightarrow> d = 1 \<or> d = p)"

lemma is_prime_coprime:
  assumes "is_prime p" "\<not> p dvd d"
  shows "coprime p d"
proof -
  have "0 < gcd p d" "gcd p d dvd p" using assms(1) by (auto simp: is_prime_def gcd_pos_int)
  then have "gcd p d = 1 \<or> gcd p d = p" using assms(1) by (auto simp: is_prime_def)
  then show ?thesis using assms(2) by (metis coprime_iff_gcd_eq_1 gcd_dvd2)
qed

lemma prime_divisor_of_list:
  assumes "\<forall>q\<in>set qs. is_prime q" "d dvd prod_list qs" "1 < d"
  shows "\<exists>q\<in>set qs. q dvd d"
  using assms
proof (induction qs)
  case (Cons q qs)
  show ?case
  proof (cases "q dvd d")
    case False
    then have "coprime d q" using is_prime_coprime [of q d] Cons.prems(1) by (simp add: coprime_commute)
    then have "d dvd prod_list qs" using Cons.prems(2) by (simp add: coprime_dvd_mult_right_iff)
    then show ?thesis using Cons by auto
  qed simp
qed simp

section \<open>The order of an element\<close>

lemma power_mod_1: "a ^ k mod p = 1 \<Longrightarrow> 1 < p \<Longrightarrow> a ^ (k * s) mod p = (1 :: int)"
  by (simp add: power_mult) (metis mod_pos_pos_trivial power_mod power_one zero_le_one)

text \<open>A smallest exponent: every exponent with value one is a multiple of it.\<close>

lemma order_exists:
  fixes a p :: int
  assumes "1 < p" "0 < n" "a ^ n mod p = 1"
  obtains k where "0 < k" "a ^ k mod p = 1" "\<And>j. 0 < j \<Longrightarrow> j < k \<Longrightarrow> a ^ j mod p \<noteq> 1" "k dvd n"
proof -
  define k where "k = (LEAST k. 0 < k \<and> a ^ k mod p = 1)"
  have k: "0 < k \<and> a ^ k mod p = 1" unfolding k_def using assms by (intro LeastI) simp
  have least: "a ^ j mod p \<noteq> 1" if "0 < j" "j < k" for j
    using not_less_Least [of j "\<lambda>k. 0 < k \<and> a ^ k mod p = 1"] that by (auto simp: k_def)
  have "a ^ n mod p = (a ^ (k * (n div k)) mod p * a ^ (n mod k)) mod p"
    by (simp add: mod_mult_left_eq flip: power_add)
  then have "a ^ (n mod k) mod p = 1" using power_mod_1 k assms by simp
  then have "n mod k = 0" using least [of "n mod k"] k mod_less_divisor [of k n] by blast
  then show ?thesis using that [of k] k least by auto
qed

lemma power_coprime:
  fixes a p :: int
  assumes "1 < p" "0 < n" "a ^ n mod p = 1"
  shows "coprime (a ^ i) p"
proof -
  have "p dvd a ^ n - 1" using assms by (simp add: mod_eq_dvd_iff [symmetric])
  then have "gcd a p dvd a ^ n - 1" "gcd a p dvd a ^ n"
    using assms(2) by (auto intro: dvd_trans [OF gcd_dvd2] dvd_power_le [of _ a 1 n, simplified])
  then have "gcd a p dvd a ^ n - (a ^ n - 1)" by (rule dvd_diff [rotated])
  then have "coprime a p" by (simp add: coprime_iff_gcd_eq_1)
  then show ?thesis by simp
qed

lemma full_order_prime:
  fixes a p :: int
  assumes p: "1 < p" and one: "a ^ nat (p - 1) mod p = 1"
    and order: "\<And>j. 0 < j \<Longrightarrow> j < nat (p - 1) \<Longrightarrow> a ^ j mod p \<noteq> 1"
  shows "is_prime p"
proof -
  define n where "n = nat (p - 1)"
  have n: "0 < n" using p by (simp add: n_def)
  have cop: "coprime (a ^ i) p" for i by (rule power_coprime [OF p n]) (simp add: one n_def)
  have inj: "inj_on (\<lambda>i. a ^ i mod p) {0..<n}"
  proof (rule linorder_inj_onI)
    fix i j assume *: "i < j" "i \<in> {0..<n}" "j \<in> {0..<n}"
    have "a ^ j - a ^ i = a ^ i * (a ^ (j - i) - 1)" using * by (simp add: algebra_simps flip: power_add)
    then have "p dvd a ^ j - a ^ i \<longleftrightarrow> p dvd a ^ (j - i) - 1"
      using cop [of i] by (simp add: coprime_dvd_mult_right_iff coprime_commute)
    also have "\<dots> \<longleftrightarrow> a ^ (j - i) mod p = 1" using p by (simp add: mod_eq_dvd_iff [symmetric])
    finally show "a ^ i mod p \<noteq> a ^ j mod p" using order [of "j - i"] * mod_eq_dvd_iff [of "a ^ j" p "a ^ i"] by (auto simp: n_def)
  qed auto
  have sub: "(\<lambda>i. a ^ i mod p) ` {0..<n} \<subseteq> {1..p - 1}"
  proof
    fix x assume "x \<in> (\<lambda>i. a ^ i mod p) ` {0..<n}"
    then obtain i where x: "x = a ^ i mod p" by blast
    have "x \<noteq> 0" using cop [of i] p by (auto simp: x dvd_eq_mod_eq_0 [symmetric] coprime_absorb_right simp del: coprime_power_left_iff)
    then show "x \<in> {1..p - 1}" using pos_mod_bound [of p "a ^ i"] pos_mod_sign [of p "a ^ i"] p
      unfolding x atLeastAtMost_iff by linarith
  qed
  have all: "(\<lambda>i. a ^ i mod p) ` {0..<n} = {1..p - 1}"
    by (rule card_subset_eq [OF _ sub]) (simp_all add: card_image [OF inj], simp add: n_def)
  have "d = 1 \<or> d = p" if "0 < d" "d dvd p" for d
  proof (cases "d = p")
    case False
    then have "d \<in> {1..p - 1}" using that zdvd_imp_le [of d p] p by simp
    then obtain i where "d = a ^ i mod p" using all by blast
    then have "coprime d p" using cop [of i] p by (simp add: coprime_mod_left_iff del: coprime_power_left_iff)
    then show ?thesis using that by (metis abs_of_pos coprime_absorb_left zdvd1_eq)
  qed simp
  then show ?thesis using p by (simp add: is_prime_def)
qed

section \<open>Certificates\<close>

function power_mod_fast :: "int \<Rightarrow> int \<Rightarrow> int \<Rightarrow> int" where
  "power_mod_fast p a e =
     (if e \<le> 0 then 1 else
        (let r = power_mod_fast p (a * a mod p) (e div 2) in if even e then r else a * r mod p))"
  by pat_completeness auto

termination power_mod_fast
  by (relation "measure (\<lambda>(p, a, e). nat e)") auto

declare power_mod_fast.simps [simp del]

lemma power_mod_fast: "1 < p \<Longrightarrow> power_mod_fast p a e = a ^ nat e mod p"
proof (induction p a e rule: power_mod_fast.induct)
  case (1 p a e)
  show ?case
  proof (cases "e \<le> 0")
    case True
    then show ?thesis using 1 by (simp add: power_mod_fast.simps [of p a e])
  next
    case False
    define h where "h = nat (e div 2)"
    have "power_mod_fast p (a * a mod p) (e div 2) = (a * a) ^ h mod p"
      using "1.IH" False "1.prems" by (simp add: h_def power_mod)
    moreover have "nat e = (if even e then h + h else Suc (h + h))" using False by (auto simp: h_def elim!: evenE oddE)
    ultimately show ?thesis
      using False by (simp add: power_mod_fast.simps [of p a e] power_add power_mult_distrib mod_mult_right_eq)
  qed
qed

text \<open>A certificate: the number, a generator, and the prime factors of the number's predecessor.\<close>

fun check_certs :: "(int \<times> int \<times> int list) list \<Rightarrow> int list \<Rightarrow> bool" where
  "check_certs [] known = True"
| "check_certs ((p, a, qs) # certs) known =
     (1 < p \<and> list_all (\<lambda>q. q \<in> set known) qs \<and> prod_list qs = p - 1 \<and> power_mod_fast p a (p - 1) = 1
      \<and> list_all (\<lambda>q. power_mod_fast p a ((p - 1) div q) \<noteq> 1) (remdups qs) \<and> check_certs certs (p # known))"

lemma cert_prime:
  assumes p: "1 < p" and qs: "\<forall>q\<in>set qs. is_prime q" and prd: "prod_list qs = p - 1"
    and one: "a ^ nat (p - 1) mod p = 1" and ne: "\<forall>q\<in>set qs. a ^ nat ((p - 1) div q) mod p \<noteq> 1"
  shows "is_prime p"
proof -
  define n where "n = nat (p - 1)"
  obtain k where k: "0 < k" "a ^ k mod p = 1" "\<And>j. 0 < j \<Longrightarrow> j < k \<Longrightarrow> a ^ j mod p \<noteq> 1" "k dvd n"
    using order_exists [OF p, of n a] p one by (auto simp: n_def)
  obtain d where d: "n = k * d" using k(4) by blast
  have "d = 1"
  proof (rule ccontr)
    assume "d \<noteq> 1"
    moreover have "0 < n" using p by (simp add: n_def)
    then have "d \<noteq> 0" using d by (cases d) auto
    ultimately have "1 < int d" by simp
    moreover have pd: "p - 1 = int k * int d" using d p by (simp add: n_def flip: of_nat_mult)
    then have "int d dvd prod_list qs" using prd by simp
    ultimately obtain q where q: "q \<in> set qs" "q dvd int d" using prime_divisor_of_list [OF qs] by blast
    then obtain e where e: "int d = q * e" by blast
    have "0 < q" using qs q(1) by (auto simp: is_prime_def)
    then have "(p - 1) div q = int k * e" using pd e by simp
    moreover have "0 \<le> e" using e \<open>0 < q\<close> by (metis of_nat_0_le_iff zero_le_mult_iff linorder_not_less)
    ultimately have "nat ((p - 1) div q) = k * nat e" by (simp add: nat_mult_distrib)
    then show False using bspec [OF ne q(1)] power_mod_1 [OF k(2) p, of "nat e"] by simp
  qed
  then show ?thesis using d k by (intro full_order_prime [OF p one]) (simp add: n_def)
qed

lemma check_certs_prime:
  "check_certs certs known \<Longrightarrow> \<forall>q\<in>set known. is_prime q \<Longrightarrow> c \<in> set certs \<Longrightarrow> is_prime (fst c)"
proof (induction certs known rule: check_certs.induct)
  case (2 p a qs certs known)
  have "is_prime p"
    using "2.prems"(1,2) by (intro cert_prime [where a = a and qs = qs]) (auto simp: power_mod_fast list_all_iff)
  then show ?case using "2.IH" "2.prems" by auto
qed simp

lemma check_certs_append:
  "check_certs (xs @ ys) known \<longleftrightarrow> check_certs xs known \<and> check_certs ys (rev (map fst xs) @ known)"
  by (induction xs known rule: check_certs.induct) auto

section \<open>The sizes\<close>

text \<open>The thirty sizes and the primes their certificates need, from small to large.\<close>

definition certs_a :: "(int \<times> int \<times> int list) list" where
  "certs_a =
    [(2, 1, []), (3, 2, [2]), (5, 2, [2, 2]), (7, 3, [2, 3]), (11, 2, [2, 5]), (13, 2, [2, 2, 3]),
     (17, 3, [2, 2, 2, 2]), (19, 2, [2, 3, 3]), (23, 5, [2, 11]), (29, 2, [2, 2, 7]), (31, 3, [2, 3, 5]),
     (41, 6, [2, 2, 2, 5]), (47, 5, [2, 23]), (53, 2, [2, 2, 13]), (61, 2, [2, 2, 3, 5]),
     (73, 5, [2, 2, 2, 3, 3]), (79, 3, [2, 3, 13]), (89, 3, [2, 2, 2, 11]), (97, 5, [2, 2, 2, 2, 2, 3]),
     (101, 2, [2, 2, 5, 5]), (103, 5, [2, 3, 17]), (127, 3, [2, 3, 3, 7]), (151, 6, [2, 3, 5, 5]),
     (181, 2, [2, 2, 3, 3, 5]), (233, 3, [2, 2, 2, 29]), (239, 7, [2, 7, 17]), (251, 6, [2, 5, 5, 5]),
     (257, 3, [2, 2, 2, 2, 2, 2, 2, 2]), (331, 3, [2, 3, 5, 11]), (467, 2, [2, 233]), (479, 13, [2, 239]),
     (509, 2, [2, 2, 127]), (683, 5, [2, 11, 31]), (1019, 2, [2, 509])]"

definition certs_b :: "(int \<times> int \<times> int list) list" where
  "certs_b =
    [(1021, 10, [2, 2, 3, 5, 17]), (2039, 7, [2, 1019]), (2341, 7, [2, 2, 3, 3, 5, 13]),
     (2371, 2, [2, 3, 5, 79]), (2473, 5, [2, 2, 2, 3, 103]), (2729, 3, [2, 2, 2, 11, 31]),
     (4093, 2, [2, 2, 3, 11, 31]), (6917, 2, [2, 2, 7, 13, 19]), (8191, 17, [2, 3, 3, 5, 7, 13]),
     (15101, 2, [2, 2, 5, 5, 151]), (16381, 2, [2, 2, 3, 3, 5, 7, 13]), (32749, 2, [2, 2, 3, 2729]),
     (65521, 17, [2, 2, 2, 2, 3, 3, 5, 7, 13]), (70051, 7, [2, 3, 5, 5, 467])]"

definition certs_c :: "(int \<times> int \<times> int list) list" where
  "certs_c =
    [(131071, 3, [2, 3, 5, 17, 257]), (262139, 2, [2, 53, 2473]),
     (262657, 5, [2, 2, 2, 2, 2, 2, 2, 2, 2, 3, 3, 3, 19]), (524287, 3, [2, 3, 3, 3, 7, 19, 73]),
     (581029, 6, [2, 2, 3, 7, 6917]), (1048571, 2, [2, 5, 23, 47, 97]),
     (1048573, 2, [2, 2, 3, 3, 3, 7, 19, 73]), (2097143, 5, [2, 1048571])]"

definition certs_d :: "(int \<times> int \<times> int list) list" where
  "certs_d =
    [(4194301, 7, [2, 2, 3, 5, 5, 11, 31, 41]), (8388593, 3, [2, 2, 2, 2, 524287]),
     (16777213, 5, [2, 2, 3, 23, 89, 683]), (22605091, 11, [2, 3, 5, 23, 181, 181])]"

definition certs_e :: "(int \<times> int \<times> int list) list" where
  "certs_e =
    [(33554393, 3, [2, 2, 2, 29, 61, 2371]), (67108859, 2, [2, 479, 70051]),
     (134217689, 3, [2, 2, 2, 11, 101, 15101]), (268435399, 3, [2, 3, 7, 11, 581029])]"

definition certs_f :: "(int \<times> int \<times> int list) list" where
  "certs_f =
    [(536870909, 2, [2, 2, 7, 73, 262657]), (1073741789, 2, [2, 2, 7, 2341, 16381]),
     (2147483647, 7, [2, 3, 3, 7, 11, 31, 151, 331]), (4294967291, 2, [2, 5, 19, 22605091])]"

lemma check_a: "check_certs certs_a []"
  by code_simp

lemma check_b: "check_certs certs_b (rev (map fst (certs_a)))"
  by code_simp

lemma check_c: "check_certs certs_c (rev (map fst (certs_a @ certs_b)))"
  by code_simp

lemma check_d: "check_certs certs_d (rev (map fst (certs_a @ certs_b @ certs_c)))"
  by code_simp

lemma check_e: "check_certs certs_e (rev (map fst (certs_a @ certs_b @ certs_c @ certs_d)))"
  by code_simp

lemma check_f: "check_certs certs_f (rev (map fst (certs_a @ certs_b @ certs_c @ certs_d @ certs_e)))"
  by code_simp

definition size_certs :: "(int \<times> int \<times> int list) list" where
  "size_certs = certs_a @ certs_b @ certs_c @ certs_d @ certs_e @ certs_f"

lemma size_certs_prime: "p \<in> fst ` set size_certs \<Longrightarrow> is_prime p"
proof -
  have "check_certs size_certs []"
    using check_a check_b check_c check_d check_e check_f by (simp add: size_certs_def check_certs_append)
  then show "p \<in> fst ` set size_certs \<Longrightarrow> is_prime p" using check_certs_prime by fastforce
qed

end
