(* ===== verification/Hashtab.thy ===== *)
theory Hashtab
  imports Gcc_Prelude Prime_Sizes
begin

text \<open>
  Expandable hash tables, \<open>src/libiberty/hashtab.c\<close>: open addressing with double hashing over a table
  whose sizes are primes. This theory has the data and every operation on tables but the debugging
  ratio \<open>htab_collisions\<close>, and shows that the remainder computed by multiplication
  is the remainder and what \<open>higher_prime_index\<close> finds. An element is a pointer; the functions on
  elements are fields of the table, as in the code. The allocator's answer is an argument of the
  operations that allocate; it returns zeroed memory, as \<open>calloc\<close> does. The probing loops take fuel:
  \<open>None\<close> is a search that has not ended.
\<close>

section \<open>Data\<close>

type_synonym hashval = uint32
type_synonym ptr = hwi

definition HTAB_EMPTY_ENTRY :: ptr where
  "HTAB_EMPTY_ENTRY = 0"

definition HTAB_DELETED_ENTRY :: ptr where
  "HTAB_DELETED_ENTRY = 1"

record prime_ent =
  pe_prime :: hashval
  pe_inv :: hashval
  pe_inv_m2 :: hashval
  pe_shift :: nat

definition prime_entry :: "hashval \<times> hashval \<times> hashval \<times> nat \<Rightarrow> prime_ent" where
  "prime_entry = (\<lambda>(p, i, i2, s). \<lparr>pe_prime = p, pe_inv = i, pe_inv_m2 = i2, pe_shift = s\<rparr>)"

definition prime_tab :: "prime_ent list" where
  "prime_tab = map prime_entry
    [(7, 0x24924925, 0x9999999b, 2),
     (13, 0x3b13b13c, 0x745d1747, 3),
     (31, 0x08421085, 0x1a7b9612, 4),
     (61, 0x0c9714fc, 0x15b1e5f8, 5),
     (127, 0x02040811, 0x0624dd30, 6),
     (251, 0x05197f7e, 0x073260a5, 7),
     (509, 0x01824366, 0x02864fc8, 8),
     (1021, 0x00c0906d, 0x014191f7, 9),
     (2039, 0x0121456f, 0x0161e69e, 10),
     (4093, 0x00300902, 0x00501908, 11),
     (8191, 0x00080041, 0x00180241, 12),
     (16381, 0x000c0091, 0x00140191, 13),
     (32749, 0x002605a5, 0x002a06e6, 14),
     (65521, 0x000f00e2, 0x00110122, 15),
     (131071, 0x00008001, 0x00018003, 16),
     (262139, 0x00014002, 0x0001c004, 17),
     (524287, 0x00002001, 0x00006001, 18),
     (1048573, 0x00003001, 0x00005001, 19),
     (2097143, 0x00004801, 0x00005801, 20),
     (4194301, 0x00000c01, 0x00001401, 21),
     (8388593, 0x00001e01, 0x00002201, 22),
     (16777213, 0x00000301, 0x00000501, 23),
     (33554393, 0x00001381, 0x00001481, 24),
     (67108859, 0x00000141, 0x000001c1, 25),
     (134217689, 0x000004e1, 0x00000521, 26),
     (268435399, 0x00000391, 0x000003b1, 27),
     (536870909, 0x00000019, 0x00000029, 28),
     (1073741789, 0x0000008d, 0x00000095, 29),
     (2147483647, 0x00000003, 0x00000007, 30),
     (0xfffffffb, 0x00000006, 0x00000008, 31)]"

text \<open>
  The table. Sizes and counts are \<open>size_t\<close>, here natural numbers: they stay below the number of
  slots. \<open>del_f\<close> is whether there is a cleanup function; its calls are the list of elements an
  operation returns.
\<close>

record htab =
  hash_f :: "ptr \<Rightarrow> hashval"
  eq_f :: "ptr \<Rightarrow> ptr \<Rightarrow> bool"
  del_f :: bool
  entries :: "ptr list"
  ht_size :: nat
  n_elements :: nat
  n_deleted :: nat
  searches :: uint32
  collisions :: uint32
  size_prime_index :: nat

datatype insert_option = NO_INSERT | INSERT

section \<open>Sizes and remainders\<close>

text \<open>
  The binary search; \<open>low\<close> never passes \<open>high\<close>, so the loop's condition \<open>low != high\<close> is \<open>low < high\<close>. After
  the loop the element at \<open>low\<close> is read once more: out of bounds when no prime is large enough.
\<close>

function higher_prime_loop :: "nat \<Rightarrow> nat \<Rightarrow> nat \<Rightarrow> nat" where
  "higher_prime_loop n low high =
     (if low < high then
        (let mid = low + (high - low) div 2
         in if n > unat (pe_prime (prime_tab ! mid)) then higher_prime_loop n (mid + 1) high
            else higher_prime_loop n low mid)
      else low)"
  by pat_completeness auto

termination higher_prime_loop
  by (relation "measure (\<lambda>(n, low, high). high - low)") auto

declare higher_prime_loop.simps [simp del]

definition higher_prime_index :: "nat \<Rightarrow> nat outcome" where
  "higher_prime_index n =
     (let low = higher_prime_loop n 0 (length prime_tab)
      in if length prime_tab \<le> low then Inl Undefined
         else if n > unat (pe_prime (prime_tab ! low)) then Inl Ice
         else Inr low)"

definition htab_mod_1 :: "hashval \<Rightarrow> hashval \<Rightarrow> hashval \<Rightarrow> nat \<Rightarrow> hashval" where
  "htab_mod_1 x y iv shift =
     (let t1 = ucast (drop_bit 32 (ucast x * ucast iv :: hwi));
          t2 = x - t1;
          t3 = drop_bit 1 t2;
          t4 = t1 + t3;
          q = drop_bit shift t4
      in x - q * y)"

definition htab_mod :: "hashval \<Rightarrow> htab \<Rightarrow> hashval" where
  "htab_mod hash htab =
     (let p = prime_tab ! size_prime_index htab in htab_mod_1 hash (pe_prime p) (pe_inv p) (pe_shift p))"

definition htab_mod_m2 :: "hashval \<Rightarrow> htab \<Rightarrow> hashval" where
  "htab_mod_m2 hash htab =
     (let p = prime_tab ! size_prime_index htab in 1 + htab_mod_1 hash (pe_prime p - 2) (pe_inv_m2 p) (pe_shift p))"

definition hash_pointer :: "ptr \<Rightarrow> hashval" where
  "hash_pointer p = ucast (signed_drop_bit 3 p)"

definition eq_pointer :: "ptr \<Rightarrow> ptr \<Rightarrow> bool" where
  "eq_pointer p1 p2 \<longleftrightarrow> p1 = p2"

section \<open>Probing\<close>

definition live :: "ptr \<Rightarrow> bool" where
  "live x \<longleftrightarrow> x \<noteq> HTAB_EMPTY_ENTRY \<and> x \<noteq> HTAB_DELETED_ENTRY"

definition htab_elements :: "htab \<Rightarrow> nat" where
  "htab_elements htab = n_elements htab - n_deleted htab"

text \<open>One step of every probing loop; the index is a \<open>hashval_t\<close> and wraps around at 32 bits.\<close>

definition next_index :: "htab \<Rightarrow> hashval \<Rightarrow> hashval \<Rightarrow> hashval" where
  "next_index htab hash2 index =
     (let index = index + hash2
      in if unat index \<ge> ht_size htab then index - of_nat (ht_size htab) else index)"

text \<open>
  The loops return from the first entry that ends the search; reading outside the entries is
  undefined. They have no state but the index, which repeats after \<open>ht_size\<close> steps, so a loop that
  has not ended by then never does.
\<close>

fun empty_slot_loop :: "nat \<Rightarrow> htab \<Rightarrow> hashval \<Rightarrow> hashval \<Rightarrow> nat search" where
  "empty_slot_loop 0 htab hash2 index = None"
| "empty_slot_loop (Suc fuel) htab hash2 index =
     (if length (entries htab) \<le> unat index then Some (Inl Undefined)
      else
        (let x = entries htab ! unat index
         in if x = HTAB_EMPTY_ENTRY then Some (Inr (unat index))
            else if x = HTAB_DELETED_ENTRY then Some (Inl Ice)
            else empty_slot_loop fuel htab hash2 (next_index htab hash2 index)))"

definition find_empty_slot_for_expand :: "htab \<Rightarrow> hashval \<Rightarrow> nat search" where
  "find_empty_slot_for_expand htab hash =
     empty_slot_loop (ht_size htab) htab (htab_mod_m2 hash htab) (htab_mod hash htab)"

fun find_loop :: "nat \<Rightarrow> htab \<Rightarrow> ptr \<Rightarrow> hashval \<Rightarrow> hashval \<Rightarrow> (ptr \<times> htab) search" where
  "find_loop 0 htab element hash2 index = None"
| "find_loop (Suc fuel) htab element hash2 index =
     (if length (entries htab) \<le> unat index then Some (Inl Undefined)
      else
        (let x = entries htab ! unat index
         in if x = HTAB_EMPTY_ENTRY \<or> (x \<noteq> HTAB_DELETED_ENTRY \<and> eq_f htab x element)
            then Some (Inr (x, htab))
            else find_loop fuel (htab\<lparr>collisions := collisions htab + 1\<rparr>) element hash2
                   (next_index htab hash2 index)))"

definition htab_find_with_hash :: "htab \<Rightarrow> ptr \<Rightarrow> hashval \<Rightarrow> (ptr \<times> htab) search" where
  "htab_find_with_hash htab element hash =
     find_loop (ht_size htab) (htab\<lparr>searches := searches htab + 1\<rparr>) element
       (htab_mod_m2 hash htab) (htab_mod hash htab)"

definition htab_find :: "htab \<Rightarrow> ptr \<Rightarrow> (ptr \<times> htab) search" where
  "htab_find htab element = htab_find_with_hash htab element (hash_f htab element)"

text \<open>
  The loop of \<open>htab_find_slot_with_hash\<close>: whether the slot holds an equal element or is empty, its
  index, and the first deleted slot on the way.
\<close>

fun find_slot_loop ::
  "nat \<Rightarrow> htab \<Rightarrow> ptr \<Rightarrow> hashval \<Rightarrow> hashval \<Rightarrow> nat option \<Rightarrow> (bool \<times> nat \<times> nat option \<times> htab) search" where
  "find_slot_loop 0 htab element hash2 index first_deleted_slot = None"
| "find_slot_loop (Suc fuel) htab element hash2 index first_deleted_slot =
     (if length (entries htab) \<le> unat index then Some (Inl Undefined)
      else
        (let x = entries htab ! unat index;
             more = find_slot_loop fuel (htab\<lparr>collisions := collisions htab + 1\<rparr>) element hash2
               (next_index htab hash2 index)
         in if x = HTAB_EMPTY_ENTRY then Some (Inr (False, unat index, first_deleted_slot, htab))
            else if x = HTAB_DELETED_ENTRY then
              more (if first_deleted_slot = None then Some (unat index) else first_deleted_slot)
            else if eq_f htab x element then Some (Inr (True, unat index, first_deleted_slot, htab))
            else more first_deleted_slot))"

section \<open>Resizing\<close>

fun rehash :: "ptr list \<Rightarrow> htab \<Rightarrow> htab search" where
  "rehash [] htab = Some (Inr htab)"
| "rehash (x # xs) htab =
     (if live x then
        and_then (find_empty_slot_for_expand htab (hash_f htab x))
          (\<lambda>q. rehash xs (htab\<lparr>entries := (entries htab)[q := x]\<rparr>))
      else rehash xs htab)"

text \<open>Zeroed memory of a number of entries; none when the allocation fails.\<close>

definition new_entries :: "nat \<Rightarrow> ptr list" where
  "new_entries n = replicate n HTAB_EMPTY_ENTRY"

definition htab_expand :: "bool \<Rightarrow> htab \<Rightarrow> (bool \<times> htab) search" where
  "htab_expand alloc_ok htab =
     (let osize = ht_size htab;
          elts = htab_elements htab
      in and_then (if elts * 2 > osize \<or> elts * 8 < osize \<and> osize > 32 then Some (higher_prime_index (elts * 2))
                   else Some (Inr (size_prime_index htab)))
           (\<lambda>nindex.
              let nsize = (if elts * 2 > osize \<or> elts * 8 < osize \<and> osize > 32
                           then unat (pe_prime (prime_tab ! nindex)) else osize)
              in if \<not> alloc_ok then Some (Inr (False, htab))
                 else and_then (rehash (entries htab)
                        (htab\<lparr>entries := new_entries nsize, ht_size := nsize, size_prime_index := nindex,
                              n_elements := n_elements htab - n_deleted htab, n_deleted := 0\<rparr>))
                      (\<lambda>htab. Some (Inr (True, htab)))))"

text \<open>The search for a slot after the table has been expanded if it must be.\<close>

definition slot_in_table :: "htab \<Rightarrow> ptr \<Rightarrow> hashval \<Rightarrow> insert_option \<Rightarrow> (nat option \<times> htab) search" where
  "slot_in_table htab element hash ins =
     and_then (find_slot_loop (ht_size htab) (htab\<lparr>searches := searches htab + 1\<rparr>) element
                 (htab_mod_m2 hash htab) (htab_mod hash htab) None)
       (\<lambda>(found, index, first_deleted_slot, htab).
          if found then Some (Inr (Some index, htab))
          else if ins = NO_INSERT then Some (Inr (None, htab))
          else case first_deleted_slot of
              Some slot \<Rightarrow> Some (Inr (Some slot, htab\<lparr>n_deleted := n_deleted htab - 1,
                              entries := (entries htab)[slot := HTAB_EMPTY_ENTRY]\<rparr>))
            | None \<Rightarrow> Some (Inr (Some index, htab\<lparr>n_elements := n_elements htab + 1\<rparr>)))"

definition htab_find_slot_with_hash ::
  "bool \<Rightarrow> htab \<Rightarrow> ptr \<Rightarrow> hashval \<Rightarrow> insert_option \<Rightarrow> (nat option \<times> htab) search" where
  "htab_find_slot_with_hash alloc_ok htab element hash ins =
     and_then (if ins = INSERT \<and> ht_size htab * 3 \<le> n_elements htab * 4 then htab_expand alloc_ok htab
               else Some (Inr (True, htab)))
       (\<lambda>(ok, htab). if \<not> ok then Some (Inr (None, htab)) else slot_in_table htab element hash ins)"

definition htab_find_slot :: "bool \<Rightarrow> htab \<Rightarrow> ptr \<Rightarrow> insert_option \<Rightarrow> (nat option \<times> htab) search" where
  "htab_find_slot alloc_ok htab element ins =
     htab_find_slot_with_hash alloc_ok htab element (hash_f htab element) ins"

section \<open>Creation, removal, traversal\<close>

definition htab_create_alloc ::
  "bool \<Rightarrow> nat \<Rightarrow> (ptr \<Rightarrow> hashval) \<Rightarrow> (ptr \<Rightarrow> ptr \<Rightarrow> bool) \<Rightarrow> bool \<Rightarrow> htab option outcome" where
  "htab_create_alloc alloc_ok n hash eq del =
     (case higher_prime_index n of Inl e \<Rightarrow> Inl e
      | Inr i \<Rightarrow>
          (let size = unat (pe_prime (prime_tab ! i))
           in Inr (if alloc_ok
                   then Some \<lparr>hash_f = hash, eq_f = eq, del_f = del, entries = new_entries size, ht_size = size,
                              n_elements = 0, n_deleted = 0, searches = 0, collisions = 0, size_prime_index = i\<rparr>
                   else None)))"

text \<open>The functions can be replaced; those that allocate are not part of the model.\<close>

definition htab_set_functions_ex :: "htab \<Rightarrow> (ptr \<Rightarrow> hashval) \<Rightarrow> (ptr \<Rightarrow> ptr \<Rightarrow> bool) \<Rightarrow> bool \<Rightarrow> htab" where
  "htab_set_functions_ex htab hash eq del = htab\<lparr>hash_f := hash, eq_f := eq, del_f := del\<rparr>"

text \<open>
  The cleanup calls of \<open>htab_delete\<close> and \<open>htab_empty\<close>, from the last slot to the first. The index is an
  \<open>int\<close>: for more than \<open>2^31\<close> slots it starts negative and the loop does nothing.
\<close>

definition cleanup_calls :: "htab \<Rightarrow> ptr list" where
  "cleanup_calls htab =
     (if del_f htab \<and> ht_size htab \<le> 2 ^ 31 then filter live (rev (take (ht_size htab) (entries htab))) else [])"

definition htab_delete :: "htab \<Rightarrow> ptr list" where
  "htab_delete htab = cleanup_calls htab"

definition htab_empty :: "bool \<Rightarrow> htab \<Rightarrow> (ptr list \<times> htab) outcome" where
  "htab_empty alloc_ok htab =
     (let dels = cleanup_calls htab
      in if ht_size htab > 1024 * 1024 div 8 then
           (case higher_prime_index (1024 div 8) of Inl e \<Rightarrow> Inl e
            | Inr nindex \<Rightarrow>
                (let nsize = unat (pe_prime (prime_tab ! nindex))
                 in Inr (dels, htab\<lparr>entries := (if alloc_ok then new_entries nsize else []), ht_size := nsize,
                                     size_prime_index := nindex, n_deleted := 0, n_elements := 0\<rparr>)))
         else Inr (dels, htab\<lparr>entries := new_entries (ht_size htab), n_deleted := 0, n_elements := 0\<rparr>))"

definition delete_slot :: "htab \<Rightarrow> nat \<Rightarrow> ptr list \<times> htab" where
  "delete_slot htab slot =
     ((if del_f htab then [entries htab ! slot] else []),
      htab\<lparr>entries := (entries htab)[slot := HTAB_DELETED_ENTRY], n_deleted := n_deleted htab + 1\<rparr>)"

text \<open>The slot of an element that is not there is the null pointer, which the next line reads.\<close>

definition htab_remove_elt_with_hash :: "htab \<Rightarrow> ptr \<Rightarrow> hashval \<Rightarrow> (ptr list \<times> htab) search" where
  "htab_remove_elt_with_hash htab element hash =
     and_then (htab_find_slot_with_hash True htab element hash NO_INSERT) (\<lambda>(slot, htab).
       case slot of
         None \<Rightarrow> Some (Inl Undefined)
       | Some slot \<Rightarrow> Some (Inr (if entries htab ! slot = HTAB_EMPTY_ENTRY then ([], htab) else delete_slot htab slot)))"

definition htab_remove_elt :: "htab \<Rightarrow> ptr \<Rightarrow> (ptr list \<times> htab) search" where
  "htab_remove_elt htab element = htab_remove_elt_with_hash htab element (hash_f htab element)"

definition htab_clear_slot :: "htab \<Rightarrow> nat \<Rightarrow> (ptr list \<times> htab) outcome" where
  "htab_clear_slot htab slot =
     (if slot \<ge> ht_size htab \<or> entries htab ! slot = HTAB_EMPTY_ENTRY \<or> entries htab ! slot = HTAB_DELETED_ENTRY
      then Inl Ice else Inr (delete_slot htab slot))"

text \<open>
  The callback gets the slot and its own state and may change the slot; it answers whether to go on.
\<close>

type_synonym 'i htab_trav = "nat \<Rightarrow> 'i \<Rightarrow> htab \<Rightarrow> bool \<times> 'i \<times> htab"

fun traverse_loop :: "nat list \<Rightarrow> 'i htab_trav \<Rightarrow> 'i \<Rightarrow> htab \<Rightarrow> 'i \<times> htab" where
  "traverse_loop [] callback info htab = (info, htab)"
| "traverse_loop (slot # slots) callback info htab =
     (if live (entries htab ! slot) then
        (case callback slot info htab of (go_on, info, htab) \<Rightarrow>
           if go_on then traverse_loop slots callback info htab else (info, htab))
      else traverse_loop slots callback info htab)"

definition htab_traverse_noresize :: "htab \<Rightarrow> 'i htab_trav \<Rightarrow> 'i \<Rightarrow> 'i \<times> htab" where
  "htab_traverse_noresize htab callback info = traverse_loop [0..<ht_size htab] callback info htab"

definition htab_traverse :: "bool \<Rightarrow> htab \<Rightarrow> 'i htab_trav \<Rightarrow> 'i \<Rightarrow> ('i \<times> htab) search" where
  "htab_traverse alloc_ok htab callback info =
     and_then (if htab_elements htab * 8 < ht_size htab then htab_expand alloc_ok htab else Some (Inr (True, htab)))
       (\<lambda>(_, htab). Some (Inr (htab_traverse_noresize htab callback info)))"

text \<open>What a client does with the slot it gets: it writes the element.\<close>

definition htab_store :: "bool \<Rightarrow> htab \<Rightarrow> ptr \<Rightarrow> (bool \<times> htab) search" where
  "htab_store alloc_ok htab x =
     and_then (htab_find_slot alloc_ok htab x INSERT) (\<lambda>(slot, htab).
       case slot of
         None \<Rightarrow> Some (Inr (False, htab))
       | Some slot \<Rightarrow> Some (Inr (True, htab\<lparr>entries := (entries htab)[slot := x]\<rparr>)))"

text \<open>The hash of a string.\<close>

fun hash_string_loop :: "uchar list \<Rightarrow> hashval \<Rightarrow> hashval" where
  "hash_string_loop [] r = r"
| "hash_string_loop (c # str) r = hash_string_loop str (r * 67 + ucast c - 113)"

definition htab_hash_string :: "uchar list \<Rightarrow> hashval" where
  "htab_hash_string p = hash_string_loop (takeWhile (\<lambda>c. c \<noteq> 0) p) 0"

section \<open>The remainder by multiplication\<close>

lemma uint32_range: "0 \<le> uint (x :: uint32)" "uint (x :: uint32) < 4294967296"
  using uint_lt2p [of x] by simp_all

lemma uint32_sub: "uint b \<le> uint a \<Longrightarrow> uint (a - b :: uint32) = uint a - uint b"
  by (simp add: uint_sub_if_size word_size)

lemma uint32_add: "uint a + uint b < 4294967296 \<Longrightarrow> uint (a + b :: uint32) = uint a + uint b"
  by (simp add: uint_plus_if_size word_size)

lemma uint32_drop: "uint (drop_bit k (x :: uint32)) = uint x div 2 ^ k"
  unfolding unsigned_drop_bit_eq by (simp add: drop_bit_eq_div take_bit_int_eq_self uint32_range)

lemma high_product:
  "uint (ucast (drop_bit 32 (ucast x * ucast iv :: hwi)) :: uint32) = uint (x :: uint32) * uint (iv :: uint32) div 2 ^ 32"
proof -
  have "uint x * uint iv \<le> 4294967295 * 4294967295"
    using uint32_range [of x] uint32_range [of iv] by (intro mult_mono) simp_all
  moreover have "0 \<le> uint x * uint iv" by simp
  ultimately have product: "uint (ucast x * ucast iv :: hwi) = uint x * uint iv"
    unfolding uint_word_ariths by (simp add: uint_up_ucast is_up)
  have "uint x * uint iv div 2 ^ 32 < 2 ^ 32"
    using \<open>uint x * uint iv \<le> _\<close> by (simp add: div_le_mono zdiv_mono1 order.strict_trans1 [OF zdiv_mono1])
  then show ?thesis
    unfolding unsigned_ucast_eq unsigned_drop_bit_eq product
    by (simp add: drop_bit_eq_div take_bit_int_eq_self pos_imp_zdiv_nonneg_iff uint32_range)
qed

definition mod_entry_ok :: "int \<Rightarrow> int \<Rightarrow> nat \<Rightarrow> bool" where
  "mod_entry_ok y iv shift \<longleftrightarrow> 0 < y \<and> 2 ^ (33 + shift) \<le> (2 ^ 32 + iv) * y \<and> (2 ^ 32 + iv) * y \<le> 2 ^ (33 + shift) + 2 ^ (shift + 1)"

lemma htab_mod_1_correct:
  assumes "mod_entry_ok (uint y) (uint iv) shift"
  shows "htab_mod_1 x y iv shift = x mod y"
proof -
  define X I where "X = uint x" and "I = uint iv"
  have X: "0 \<le> X" "X < 2 ^ 32" and I: "0 \<le> I" "I < 2 ^ 32"
    using uint32_range [of x] uint32_range [of iv] by (simp_all add: X_def I_def)
  define t1 :: uint32 where "t1 = ucast (drop_bit 32 (ucast x * ucast iv :: hwi))"
  have t1: "uint t1 = X * I div 2 ^ 32" unfolding t1_def high_product X_def I_def ..
  have "X * I \<le> X * 2 ^ 32" using X I by (intro mult_left_mono) simp_all
  then have "X * I div 2 ^ 32 \<le> X" using zdiv_mono1 [of "X * I" "X * 2 ^ 32" "2 ^ 32"] by simp
  then have T: "0 \<le> uint t1" "uint t1 \<le> X" unfolding t1 [symmetric] using uint32_range(1) [of t1] by simp_all
  have t3: "uint (drop_bit 1 (x - t1)) = (X - uint t1) div 2"
    using T by (simp add: uint32_drop uint32_sub X_def)
  have "uint t1 + (X - uint t1) div 2 < 4294967296" using T X by simp
  then have "uint (t1 + drop_bit 1 (x - t1)) = uint t1 + (X - uint t1) div 2"
    using t3 uint32_add [of t1 "drop_bit 1 (x - t1)"] by simp
  also have "\<dots> = (X + uint t1) div 2" by linarith
  finally have t4: "uint (t1 + drop_bit 1 (x - t1)) = (X + uint t1) div 2" .
  have m: "X + uint t1 = (2 ^ 32 + I) * X div 2 ^ 32" by (simp add: t1 algebra_simps)
  have "uint (drop_bit shift (t1 + drop_bit 1 (x - t1))) = (X + uint t1) div 2 div 2 ^ shift"
    by (simp only: uint32_drop t4)
  also have "\<dots> = (2 ^ 32 + I) * X div (2 ^ 32 * 2 * 2 ^ shift)"
    unfolding m by (simp only: zdiv_zmult2_eq [of 2] zdiv_zmult2_eq [of "2 ^ shift"] zero_le_power zero_le_numeral)
  also have "(2 :: int) ^ 32 * 2 * 2 ^ shift = 2 ^ (33 + shift)" by (simp add: power_add)
  also have "(2 ^ 32 + I) * X div 2 ^ (33 + shift) = X div uint y"
  proof (rule multiply_shift_divides [where e = "2 ^ (shift + 1)"])
    have "2 ^ (shift + 1) * X < 2 ^ (shift + 1) * 2 ^ 32" using X by (intro mult_strict_left_mono) simp_all
    then show "2 ^ (shift + 1) * X < 2 ^ (33 + shift)" by (simp add: power_add mult.commute)
  qed (use assms X in \<open>simp_all add: mod_entry_ok_def I_def\<close>)
  also have "\<dots> = uint (x div y)" by (simp add: uint_div X_def)
  finally have "drop_bit shift (t1 + drop_bit 1 (x - t1)) = x div y" by (simp only: word_uint_eq_iff)
  then show ?thesis
    by (simp add: htab_mod_1_def Let_def t1_def [symmetric] minus_div_mult_eq_mod)
qed

lemma prime_tab_mod_ok:
  assumes "p \<in> set prime_tab"
  shows "mod_entry_ok (uint (pe_prime p)) (uint (pe_inv p)) (pe_shift p)
    \<and> mod_entry_ok (uint (pe_prime p - 2)) (uint (pe_inv_m2 p)) (pe_shift p)"
proof -
  have "\<forall>p\<in>set prime_tab. mod_entry_ok (uint (pe_prime p)) (uint (pe_inv p)) (pe_shift p)
    \<and> mod_entry_ok (uint (pe_prime p - 2)) (uint (pe_inv_m2 p)) (pe_shift p)"
    unfolding prime_tab_def by (simp add: prime_entry_def mod_entry_ok_def)
  then show ?thesis using assms by blast
qed

section \<open>The next prime size\<close>

definition primes :: "nat list" where
  "primes = map (\<lambda>p. unat (pe_prime p)) prime_tab"

lemma primes_eq:
  "primes = [7, 13, 31, 61, 127, 251, 509, 1021, 2039, 4093, 8191, 16381, 32749, 65521, 131071, 262139, 524287,
     1048573, 2097143, 4194301, 8388593, 16777213, 33554393, 67108859, 134217689, 268435399, 536870909, 1073741789,
     2147483647, 4294967291]"
  by (simp add: primes_def prime_tab_def prime_entry_def)

lemma length_prime_tab [simp]: "length prime_tab = 30"
  by (simp add: prime_tab_def)

lemma nth_primes: "i < 30 \<Longrightarrow> unat (pe_prime (prime_tab ! i)) = primes ! i"
  by (simp add: primes_def)

lemma primes_mono: "i \<le> j \<Longrightarrow> j < 30 \<Longrightarrow> primes ! i \<le> primes ! j"
  using sorted_iff_nth_mono [of primes] by (simp add: primes_eq)

lemma higher_prime_loop_spec:
  assumes "low \<le> high" "high \<le> 30" "\<forall>i<low. primes ! i < n" "\<forall>i<30. high \<le> i \<longrightarrow> n \<le> primes ! i"
  shows "low \<le> higher_prime_loop n low high \<and> higher_prime_loop n low high \<le> high
    \<and> (\<forall>i<higher_prime_loop n low high. primes ! i < n)
    \<and> (\<forall>i<30. higher_prime_loop n low high \<le> i \<longrightarrow> n \<le> primes ! i)"
  using assms
proof (induction n low high rule: higher_prime_loop.induct)
  case (1 n low high)
  define mid where "mid = low + (high - low) div 2"
  show ?case
  proof (cases "low < high")
    case False
    then have "higher_prime_loop n low high = low" by (subst higher_prime_loop.simps) simp
    then show ?thesis using "1.prems" False by simp
  next
    case True
    have mid: "low \<le> mid" "mid < high" "mid < 30" using True "1.prems"(2) by (auto simp: mid_def)
    have eq: "higher_prime_loop n low high =
        (if n > primes ! mid then higher_prime_loop n (mid + 1) high else higher_prime_loop n low mid)"
      using True mid(3) by (subst higher_prime_loop.simps) (simp add: mid_def [symmetric] nth_primes Let_def)
    show ?thesis
    proof (cases "n > primes ! mid")
      case gt: True
      have "\<forall>i<mid + 1. primes ! i < n"
        using gt mid(3) primes_mono [of _ mid] by (metis less_Suc_eq_le Suc_eq_plus1 order.strict_trans1)
      then have "mid + 1 \<le> higher_prime_loop n (mid + 1) high \<and> higher_prime_loop n (mid + 1) high \<le> high
        \<and> (\<forall>i<higher_prime_loop n (mid + 1) high. primes ! i < n)
        \<and> (\<forall>i<30. higher_prime_loop n (mid + 1) high \<le> i \<longrightarrow> n \<le> primes ! i)"
        using gt mid "1.prems" by (intro "1.IH"(1) [OF True mid_def]) (simp_all add: nth_primes)
      then show ?thesis using eq gt mid(1) by simp
    next
      case le: False
      have "\<forall>i<30. mid \<le> i \<longrightarrow> n \<le> primes ! i" using le primes_mono by (meson linorder_not_less order_trans)
      then have "low \<le> higher_prime_loop n low mid \<and> higher_prime_loop n low mid \<le> mid
        \<and> (\<forall>i<higher_prime_loop n low mid. primes ! i < n)
        \<and> (\<forall>i<30. higher_prime_loop n low mid \<le> i \<longrightarrow> n \<le> primes ! i)"
        using le mid "1.prems" by (intro "1.IH"(2) [OF True mid_def]) (simp_all add: nth_primes)
      then show ?thesis using eq le mid(2) by simp
    qed
  qed
qed

lemma higher_prime_index_spec:
  "(n \<le> 4294967291 \<longrightarrow> (\<exists>i<30. higher_prime_index n = Inr i \<and> n \<le> primes ! i \<and> (\<forall>j<i. primes ! j < n)))
   \<and> (4294967291 < n \<longrightarrow> higher_prime_index n = Inl Undefined)"
proof -
  define i where "i = higher_prime_loop n 0 30"
  have i: "i \<le> 30" "\<forall>j<i. primes ! j < n" "\<forall>j<30. i \<le> j \<longrightarrow> n \<le> primes ! j"
    using higher_prime_loop_spec [of 0 30 n] by (simp_all add: i_def)
  have last: "primes ! 29 = 4294967291" by (simp add: primes_eq)
  have eq: "higher_prime_index n = (if 30 \<le> i then Inl Undefined else if n > primes ! i then Inl Ice else Inr i)"
    by (simp add: higher_prime_index_def i_def [symmetric] nth_primes)
  show ?thesis
  proof (cases "n \<le> 4294967291")
    case True
    then have "i < 30" using i(2) [rule_format, of 29] last by linarith
    then show ?thesis using i eq True by auto
  next
    case False
    then have "i = 30" using i(1) i(3) [rule_format, of 29] last by linarith
    then show ?thesis using eq False by simp
  qed
qed

lemma higher_prime_index_of_size:
  assumes "i < 30"
  shows "higher_prime_index (primes ! i) = Inr i"
proof -
  have sorted: "sorted_wrt (<) primes" "length primes = 30" by (simp_all add: primes_eq)
  have "primes ! i \<le> 4294967291" using primes_mono [of i 29] assms by (simp add: primes_eq)
  then obtain k where k: "k < 30" "higher_prime_index (primes ! i) = Inr k" "primes ! i \<le> primes ! k"
      "\<forall>j<k. primes ! j < primes ! i"
    using higher_prime_index_spec [of "primes ! i"] by auto
  have "\<not> i < k" using k(4) by auto
  moreover have "\<not> k < i" using sorted_wrt_nth_less [OF sorted(1), of k i] assms sorted(2) k(3) by auto
  ultimately show ?thesis using k(2) by simp
qed

lemma primes_prime:
  assumes "i < 30"
  shows "is_prime (int (primes ! i))"
proof -
  have "\<forall>p\<in>set (map int primes). p \<in> fst ` set size_certs"
    unfolding primes_eq size_certs_def certs_a_def certs_b_def certs_c_def certs_d_def certs_e_def certs_f_def
    by simp
  moreover have "int (primes ! i) \<in> set (map int primes)"
    using assms nth_mem [of i primes] by (simp add: primes_def)
  ultimately show ?thesis using size_certs_prime by blast
qed

lemma htab_mod_eqs:
  assumes "size_prime_index htab < 30" "p = pe_prime (prime_tab ! size_prime_index htab)"
  shows "htab_mod hash htab = hash mod p \<and> htab_mod_m2 hash htab = 1 + hash mod (p - 2)"
proof -
  have "prime_tab ! size_prime_index htab \<in> set prime_tab" using assms(1) by simp
  from prime_tab_mod_ok [OF this] show ?thesis
    by (simp add: htab_mod_def htab_mod_m2_def Let_def htab_mod_1_correct assms(2))
qed

section \<open>Properties\<close>

text \<open>
  C15: The remainders that place an element are remainders: for every hash value and every size of the
  table, the multiplication by the stored inverse, the shifts and the correction of \<open>htab_mod_1\<close> compute
  \<open>hash mod p\<close> for the first slot and \<open>1 + hash mod (p - 2)\<close> for the step.
\<close>

theorem htab_mod_is_mod:
  assumes "size_prime_index htab < 30" "p = pe_prime (prime_tab ! size_prime_index htab)"
  shows "htab_mod hash htab = hash mod p \<and> htab_mod_m2 hash htab = 1 + hash mod (p - 2)"
  by (rule htab_mod_eqs [OF assms])

theorem htab_mod_is_mod_witness:
  "htab_mod 4000000000 \<lparr>hash_f = hash_pointer, eq_f = eq_pointer, del_f = False, entries = [], ht_size = 13,
     n_elements = 0, n_deleted = 0, searches = 0, collisions = 0, size_prime_index = 1\<rparr> = 4000000000 mod 13"
proof -
  have "pe_prime (prime_tab ! 1) = 13" by (simp add: prime_tab_def prime_entry_def)
  then show ?thesis
    using htab_mod_is_mod [of "\<lparr>hash_f = hash_pointer, eq_f = eq_pointer, del_f = False, entries = [], ht_size = 13,
      n_elements = 0, n_deleted = 0, searches = 0, collisions = 0, size_prime_index = 1\<rparr>" 13 4000000000] by simp
qed

text \<open>
  C30: \<open>higher_prime_index\<close> returns the smallest size of the table that is at least the requested one,
  and that size is a prime; a request that is one of the sizes is answered with that size, where the
  comment in the source promises a greater one. When the request exceeds the largest size, the code reads behind the end
  of the table before it can report the error.
\<close>

theorem higher_prime_index_least:
  "(n \<le> 4294967291 \<longrightarrow>
      (\<exists>i<30. higher_prime_index n = Inr i \<and> n \<le> unat (pe_prime (prime_tab ! i)) \<and>
         is_prime (uint (pe_prime (prime_tab ! i))) \<and> (\<forall>j<i. unat (pe_prime (prime_tab ! j)) < n)))
   \<and> (\<forall>i<30. n = unat (pe_prime (prime_tab ! i)) \<longrightarrow> higher_prime_index n = Inr i)
   \<and> (4294967291 < n \<longrightarrow> higher_prime_index n = Inl Undefined)"
proof -
  have "is_prime (uint (pe_prime (prime_tab ! i)))" if "i < 30" for i
    using primes_prime [OF that] nth_primes [OF that] by (simp add: uint_nat)
  moreover have "(\<forall>j<i. unat (pe_prime (prime_tab ! j)) < n) \<longleftrightarrow> (\<forall>j<i. primes ! j < n)" if "i < 30" for i
    using that nth_primes by simp
  ultimately have "n \<le> 4294967291 \<longrightarrow>
      (\<exists>i<30. higher_prime_index n = Inr i \<and> n \<le> unat (pe_prime (prime_tab ! i)) \<and>
         is_prime (uint (pe_prime (prime_tab ! i))) \<and> (\<forall>j<i. unat (pe_prime (prime_tab ! j)) < n))"
    using higher_prime_index_spec [of n] nth_primes by metis
  moreover have "\<forall>i<30. n = unat (pe_prime (prime_tab ! i)) \<longrightarrow> higher_prime_index n = Inr i"
    using higher_prime_index_of_size by (simp add: nth_primes)
  ultimately show ?thesis using conjunct2 [OF higher_prime_index_spec [of n]] by (intro conjI)
qed

theorem higher_prime_index_least_witness:
  "(\<exists>i<30. higher_prime_index 100 = Inr i) \<and> higher_prime_index 7 = Inr 0 \<and> higher_prime_index 4294967292 = Inl Undefined"
proof -
  have "unat (pe_prime (prime_tab ! 0)) = 7" using nth_primes [of 0] by (simp add: primes_eq)
  then have "higher_prime_index 7 = Inr 0" using higher_prime_index_least [of 7] by (metis zero_less_numeral)
  then show ?thesis using higher_prime_index_least [of 100] higher_prime_index_least [of 4294967292] by auto
qed

end
