(* ===== verification/Hashtab_Sets.thy ===== *)
theory Hashtab_Sets
  imports Hashtab "HOL-Library.Multiset"
begin

text \<open>
  The hash tables of \<open>src/libiberty/hashtab.c\<close> as sets: the probe sequence visits every slot because the
  sizes are primes, so with an empty slot every search ends; the invariant of the table, what lookups,
  insertions with resizing, and removals do to the set of elements, and the failures of the code.
\<close>

section \<open>The probe sequence\<close>

definition table_ok :: "htab \<Rightarrow> bool" where
  "table_ok h \<longleftrightarrow> size_prime_index h < 29 \<and> ht_size h = primes ! size_prime_index h \<and> length (entries h) = ht_size h"

definition probe :: "htab \<Rightarrow> hashval \<Rightarrow> nat \<Rightarrow> nat" where
  "probe h hash k = (unat (htab_mod hash h) + k * unat (htab_mod_m2 hash h)) mod ht_size h"

lemma size_range:
  assumes "table_ok h"
  shows "7 \<le> ht_size h" "ht_size h \<le> 2147483647"
  using assms primes_mono [of 0 "size_prime_index h"] primes_mono [of "size_prime_index h" 28]
  by (simp_all add: table_ok_def primes_eq)

lemma prime_of_size:
  assumes "table_ok h"
  shows "pe_prime (prime_tab ! size_prime_index h) = of_nat (ht_size h)"
  using assms arg_cong [OF nth_primes [of "size_prime_index h"], of "word_of_nat :: nat \<Rightarrow> uint32"]
  by (simp add: table_ok_def)

lemma unat_of_size:
  assumes "table_ok h"
  shows "unat (of_nat (ht_size h) :: uint32) = ht_size h"
  using size_range [OF assms] by (simp add: unat_of_nat)

lemma hash_range:
  assumes "table_ok h"
  shows "unat (htab_mod hash h) < ht_size h" "1 \<le> unat (htab_mod_m2 hash h)" "unat (htab_mod_m2 hash h) < ht_size h"
proof -
  define p :: uint32 where "p = of_nat (ht_size h)"
  have p: "unat p = ht_size h" unfolding p_def by (rule unat_of_size [OF assms])
  have idx: "size_prime_index h < 30" using assms by (simp add: table_ok_def)
  have mods: "htab_mod hash h = hash mod p" "htab_mod_m2 hash h = 1 + hash mod (p - 2)"
    using htab_mod_eqs [OF idx, of p hash] prime_of_size [OF assms] by (simp_all add: p_def)
  show "unat (htab_mod hash h) < ht_size h"
    using size_range(1) [OF assms] p by (simp add: mods unat_mod)
  have "unat (p - 2) = ht_size h - 2" using size_range(1) [OF assms] p by (subst unat_sub) (simp_all add: word_le_nat_alt)
  then have "unat (hash mod (p - 2)) < ht_size h - 2" using size_range(1) [OF assms] by (simp add: unat_mod)
  moreover from this have "unat (1 + hash mod (p - 2)) = 1 + unat (hash mod (p - 2))"
    using size_range(2) [OF assms] by (subst unat_add_lem [THEN iffD1]) simp_all
  ultimately show "1 \<le> unat (htab_mod_m2 hash h)" "unat (htab_mod_m2 hash h) < ht_size h" by (simp_all add: mods)
qed

lemma next_index_mod:
  assumes "table_ok h" "unat index < ht_size h" "unat hash2 < ht_size h"
  shows "unat (next_index h hash2 index) = (unat index + unat hash2) mod ht_size h"
proof -
  have sum: "unat (index + hash2) = unat index + unat hash2"
    using assms(2,3) size_range(2) [OF assms(1)] by (subst unat_add_lem [THEN iffD1]) simp_all
  have "unat (index + hash2 - of_nat (ht_size h)) = unat index + unat hash2 - ht_size h"
    if "ht_size h \<le> unat index + unat hash2"
    using that sum unat_of_size [OF assms(1)] by (subst unat_sub) (simp_all add: word_le_nat_alt)
  moreover have "(unat index + unat hash2) mod ht_size h = unat index + unat hash2 - ht_size h"
    if "ht_size h \<le> unat index + unat hash2"
    using that assms(2,3) by (simp add: le_mod_geq)
  ultimately show ?thesis using sum by (auto simp: next_index_def Let_def)
qed

lemma probe_less: "table_ok h \<Longrightarrow> probe h hash k < ht_size h"
  using size_range(1) [of h] by (simp add: probe_def)

lemma probe_0: "table_ok h \<Longrightarrow> unat (htab_mod hash h) = probe h hash 0"
  using hash_range(1) by (simp add: probe_def)

lemma probe_Suc:
  assumes "table_ok h" "unat index = probe h hash k"
  shows "unat (next_index h (htab_mod_m2 hash h) index) = probe h hash (Suc k)"
proof -
  have "unat index < ht_size h" using assms probe_less by simp
  then show ?thesis
    using next_index_mod [OF assms(1) _ hash_range(3) [OF assms(1)]] assms(2)
    by (simp add: probe_def mod_add_left_eq mod_add_right_eq ac_simps)
qed

text \<open>Every slot is visited: the step is not a multiple of the prime size.\<close>

lemma probe_onto:
  assumes h: "table_ok h" and "i < ht_size h"
  shows "\<exists>k<ht_size h. probe h hash k = i"
proof -
  define p s where "p = ht_size h" and "s = unat (htab_mod_m2 hash h)"
  have s: "0 < s" "s < p" using hash_range(2,3) [OF h, of hash] by (simp_all add: s_def p_def)
  have prime: "is_prime (int p)" using primes_prime [of "size_prime_index h"] h by (simp add: table_ok_def p_def)
  have "\<not> int p dvd int s" using s by (auto dest: dvd_imp_le)
  then have cop: "coprime (int p) (int s)" by (rule is_prime_coprime [OF prime])
  have "inj_on (probe h hash) {0..<p}"
  proof (rule linorder_inj_onI)
    fix j k assume *: "j < k" "j \<in> {0..<p}" "k \<in> {0..<p}"
    show "probe h hash j \<noteq> probe h hash k"
    proof
      assume "probe h hash j = probe h hash k"
      then have "int (unat (htab_mod hash h) + k * s) mod int p = int (unat (htab_mod hash h) + j * s) mod int p"
        unfolding probe_def p_def [symmetric] s_def [symmetric] by (metis zmod_int)
      then have "int p dvd int (unat (htab_mod hash h) + k * s) - int (unat (htab_mod hash h) + j * s)"
        by (simp add: mod_eq_dvd_iff)
      also have "\<dots> = int (k - j) * int s" using * by (simp add: algebra_simps of_nat_diff)
      finally have "int p dvd int (k - j)" using cop by (simp add: coprime_dvd_mult_left_iff)
      then have "p dvd k - j" by (simp only: int_dvd_int_iff)
      then show False using * by (auto dest: dvd_imp_le)
    qed
  qed auto
  then have "probe h hash ` {0..<p} = {0..<p}"
    using probe_less [OF h] by (intro card_subset_eq) (auto simp: card_image p_def)
  moreover have "i \<in> {0..<p}" using assms(2) by (simp add: p_def)
  ultimately have "i \<in> probe h hash ` {0..<p}" by blast
  then show ?thesis by (auto simp: p_def)
qed

section \<open>Searches end\<close>

text \<open>
  A probe ends at the first step that finds an empty slot or an entry accepted by a test; one exists
  within \<open>ht_size\<close> steps when there is an empty slot.
\<close>

definition stops :: "htab \<Rightarrow> (ptr \<Rightarrow> bool) \<Rightarrow> hashval \<Rightarrow> nat \<Rightarrow> bool" where
  "stops h ok hash k \<longleftrightarrow> (let x = entries h ! probe h hash k in x = HTAB_EMPTY_ENTRY \<or> live x \<and> ok x)"

lemma first_stop:
  assumes "table_ok h" "HTAB_EMPTY_ENTRY \<in> set (entries h)"
  obtains k where "k < ht_size h" "stops h ok hash k" "\<And>j. j < k \<Longrightarrow> \<not> stops h ok hash j"
proof -
  obtain i where "i < ht_size h" "entries h ! i = HTAB_EMPTY_ENTRY"
    using assms by (auto simp: table_ok_def in_set_conv_nth)
  then obtain k where k: "k < ht_size h" "stops h ok hash k"
    using probe_onto [OF assms(1)] by (metis stops_def)
  then have "stops h ok hash (LEAST k. stops h ok hash k)" by (intro LeastI)
  moreover have "(LEAST k. stops h ok hash k) < ht_size h" using k Least_le [of "stops h ok hash" k] by simp
  ultimately show ?thesis using that not_less_Least by blast
qed

text \<open>The loops depend on the debugging counters only to return them.\<close>

lemma probe_counters [simp]:
  "table_ok (h\<lparr>searches := a\<rparr>) = table_ok h" "table_ok (h\<lparr>collisions := b\<rparr>) = table_ok h"
  "htab_mod hash (h\<lparr>searches := a\<rparr>) = htab_mod hash h" "htab_mod hash (h\<lparr>collisions := b\<rparr>) = htab_mod hash h"
  "htab_mod_m2 hash (h\<lparr>searches := a\<rparr>) = htab_mod_m2 hash h" "htab_mod_m2 hash (h\<lparr>collisions := b\<rparr>) = htab_mod_m2 hash h"
  "probe (h\<lparr>searches := a\<rparr>) hash k = probe h hash k" "probe (h\<lparr>collisions := b\<rparr>) hash k = probe h hash k"
  "stops (h\<lparr>searches := a\<rparr>) ok hash k = stops h ok hash k" "stops (h\<lparr>collisions := b\<rparr>) ok hash k = stops h ok hash k"
  by (simp_all add: table_ok_def htab_mod_def htab_mod_m2_def probe_def stops_def)

lemma find_loop_ends:
  assumes "table_ok h" "stops h (\<lambda>x. eq_f h x e) hash K" "\<And>j. k \<le> j \<Longrightarrow> j < K \<Longrightarrow> \<not> stops h (\<lambda>x. eq_f h x e) hash j"
    and "k \<le> K" "K < k + fuel" "unat index = probe h hash k"
  shows "\<exists>c. find_loop fuel h e (htab_mod_m2 hash h) index
    = Some (Inr (entries h ! probe h hash K, h\<lparr>collisions := c\<rparr>))"
  using assms
proof (induction fuel arbitrary: h k index)
  case (Suc fuel)
  have bound: "\<not> length (entries h) \<le> unat index"
    using Suc.prems(1,6) probe_less [of h hash k] by (simp add: table_ok_def)
  show ?case
  proof (cases "k = K")
    case True
    then have "find_loop (Suc fuel) h e (htab_mod_m2 hash h) index = Some (Inr (entries h ! probe h hash K, h))"
      using Suc.prems(2,6) bound by (auto simp: stops_def live_def Let_def)
    moreover have "h = h\<lparr>collisions := collisions h\<rparr>" by simp
    ultimately show ?thesis by metis
  next
    case False
    define h' where "h' = h\<lparr>collisions := collisions h + 1\<rparr>"
    have "\<not> stops h (\<lambda>x. eq_f h x e) hash k" using Suc.prems(3,4) False by simp
    then have "find_loop (Suc fuel) h e (htab_mod_m2 hash h) index
        = find_loop fuel h' e (htab_mod_m2 hash h) (next_index h (htab_mod_m2 hash h) index)"
      using Suc.prems(6) bound by (auto simp: stops_def live_def Let_def h'_def)
    moreover have "\<exists>c. find_loop fuel h' e (htab_mod_m2 hash h') (next_index h (htab_mod_m2 hash h) index)
        = Some (Inr (entries h' ! probe h' hash K, h'\<lparr>collisions := c\<rparr>))"
      using Suc.prems False probe_Suc [OF Suc.prems(1,6)]
      by (intro Suc.IH [where k = "Suc k"]) (simp_all add: h'_def)
    ultimately show ?thesis by (auto simp: h'_def)
  qed
qed simp

lemma empty_slot_loop_ends:
  assumes "table_ok h" "HTAB_DELETED_ENTRY \<notin> set (entries h)" "stops h (\<lambda>x. False) hash K"
    "\<And>j. k \<le> j \<Longrightarrow> j < K \<Longrightarrow> \<not> stops h (\<lambda>x. False) hash j"
    and "k \<le> K" "K < k + fuel" "unat index = probe h hash k"
  shows "empty_slot_loop fuel h (htab_mod_m2 hash h) index = Some (Inr (probe h hash K))"
  using assms
proof (induction fuel arbitrary: k index)
  case (Suc fuel)
  have bound: "unat index < length (entries h)"
    using Suc.prems(1,7) probe_less [of h hash k] by (simp add: table_ok_def)
  then have "entries h ! unat index \<noteq> HTAB_DELETED_ENTRY" using Suc.prems(2) by (auto simp: in_set_conv_nth)
  show ?case
  proof (cases "k = K")
    case True
    then show ?thesis using Suc.prems(3,7) bound by (simp add: stops_def Let_def)
  next
    case False
    then have "\<not> stops h (\<lambda>x. False) hash k" using Suc.prems(4,5) by simp
    moreover have "empty_slot_loop fuel h (htab_mod_m2 hash h) (next_index h (htab_mod_m2 hash h) index)
        = Some (Inr (probe h hash K))"
      using Suc.prems False probe_Suc [OF Suc.prems(1,7)] by (intro Suc.IH [where k = "Suc k"]) simp_all
    ultimately show ?thesis using Suc.prems(7) bound \<open>entries h ! unat index \<noteq> _\<close> by (simp add: stops_def Let_def)
  qed
qed simp

definition deleted_before :: "htab \<Rightarrow> hashval \<Rightarrow> nat \<Rightarrow> nat option \<Rightarrow> bool" where
  "deleted_before h hash k fd \<longleftrightarrow>
     (\<forall>d. fd = Some d \<longrightarrow> (\<exists>j<k. d = probe h hash j \<and> entries h ! d = HTAB_DELETED_ENTRY))"

lemma deleted_before_Suc:
  "deleted_before h hash k fd \<Longrightarrow> deleted_before h hash (Suc k) fd"
  by (fastforce simp: deleted_before_def less_Suc_eq)

lemma find_slot_loop_ends:
  assumes "table_ok h" "stops h (\<lambda>x. eq_f h x e) hash K" "\<And>j. k \<le> j \<Longrightarrow> j < K \<Longrightarrow> \<not> stops h (\<lambda>x. eq_f h x e) hash j"
    and "k \<le> K" "K < k + fuel" "unat index = probe h hash k" "deleted_before h hash k fd"
  shows "\<exists>c fd'. find_slot_loop fuel h e (htab_mod_m2 hash h) index fd
    = Some (Inr (live (entries h ! probe h hash K), probe h hash K, fd', h\<lparr>collisions := c\<rparr>)) \<and> deleted_before h hash K fd'"
  using assms
proof (induction fuel arbitrary: h k index fd)
  case (Suc fuel)
  have bound: "\<not> length (entries h) \<le> unat index"
    using Suc.prems(1,6) probe_less [of h hash k] by (simp add: table_ok_def)
  show ?case
  proof (cases "k = K")
    case True
    then have "find_slot_loop (Suc fuel) h e (htab_mod_m2 hash h) index fd
        = Some (Inr (live (entries h ! probe h hash K), probe h hash K, fd, h))"
      using Suc.prems(2,6) bound by (auto simp: stops_def live_def Let_def)
    moreover have "h = h\<lparr>collisions := collisions h\<rparr>" by simp
    ultimately show ?thesis using Suc.prems(7) True by metis
  next
    case False
    define h' where "h' = h\<lparr>collisions := collisions h + 1\<rparr>"
    define fd' where "fd' = (if entries h ! unat index = HTAB_DELETED_ENTRY \<and> fd = None then Some (unat index) else fd)"
    have "\<not> stops h (\<lambda>x. eq_f h x e) hash k" using Suc.prems(3,4) False by simp
    then have step: "find_slot_loop (Suc fuel) h e (htab_mod_m2 hash h) index fd
        = find_slot_loop fuel h' e (htab_mod_m2 hash h) (next_index h (htab_mod_m2 hash h) index) fd'"
      using Suc.prems(6) bound by (auto simp: stops_def live_def Let_def h'_def fd'_def)
    have "deleted_before h hash (Suc k) fd'"
      using deleted_before_Suc [OF Suc.prems(7)] Suc.prems(6) by (auto simp: fd'_def deleted_before_def)
    then have "\<exists>c fd''. find_slot_loop fuel h' e (htab_mod_m2 hash h') (next_index h (htab_mod_m2 hash h) index) fd'
        = Some (Inr (live (entries h' ! probe h' hash K), probe h' hash K, fd'', h'\<lparr>collisions := c\<rparr>))
          \<and> deleted_before h' hash K fd''"
      using Suc.prems False probe_Suc [OF Suc.prems(1,6)]
      by (intro Suc.IH [where k = "Suc k"]) (simp_all add: h'_def deleted_before_def)
    then show ?thesis unfolding step by (auto simp: h'_def deleted_before_def)
  qed
qed simp

section \<open>The invariant\<close>

definition elements_of :: "htab \<Rightarrow> ptr set" where
  "elements_of h = {x \<in> set (entries h). live x}"

definition reachable :: "htab \<Rightarrow> ptr \<Rightarrow> nat \<Rightarrow> bool" where
  "reachable h x i \<longleftrightarrow>
     (\<exists>k. i = probe h (hash_f h x) k \<and> (\<forall>j<k. entries h ! probe h (hash_f h x) j \<noteq> HTAB_EMPTY_ENTRY))"

definition placed :: "htab \<Rightarrow> bool" where
  "placed h \<longleftrightarrow> (\<forall>i<ht_size h. live (entries h ! i) \<longrightarrow> reachable h (entries h ! i) i)"

definition used :: "htab \<Rightarrow> nat" where
  "used h = length (filter (\<lambda>x. x \<noteq> HTAB_EMPTY_ENTRY) (entries h))"

definition unique_entries :: "htab \<Rightarrow> bool" where
  "unique_entries h \<longleftrightarrow> distinct (filter live (entries h))
     \<and> (\<forall>x\<in>elements_of h. \<forall>y\<in>elements_of h. eq_f h x y \<longrightarrow> x = y)"

definition htab_ok :: "htab \<Rightarrow> bool" where
  "htab_ok h \<longleftrightarrow> table_ok h \<and> placed h \<and> unique_entries h
     \<and> n_elements h = used h \<and> n_deleted h = count_list (entries h) HTAB_DELETED_ENTRY \<and> used h < ht_size h"

lemma has_empty:
  assumes "used h < length (entries h)"
  shows "HTAB_EMPTY_ENTRY \<in> set (entries h)"
proof (rule ccontr)
  assume "HTAB_EMPTY_ENTRY \<notin> set (entries h)"
  then have "filter (\<lambda>x. x \<noteq> HTAB_EMPTY_ENTRY) (entries h) = entries h" by (auto simp: filter_id_conv)
  then show False using assms by (simp add: used_def)
qed

lemma used_split: "used h = length (filter live (entries h)) + count_list (entries h) HTAB_DELETED_ENTRY"
proof -
  have "length (filter (\<lambda>x. x \<noteq> HTAB_EMPTY_ENTRY) xs) = length (filter live xs) + count_list xs HTAB_DELETED_ENTRY" for xs
    by (induction xs) (auto simp: live_def HTAB_EMPTY_ENTRY_def HTAB_DELETED_ENTRY_def)
  then show ?thesis by (simp add: used_def)
qed

lemma htab_elements_card:
  assumes "htab_ok h"
  shows "htab_elements h = card (elements_of h)"
proof -
  have "card (elements_of h) = length (filter live (entries h))"
    using assms distinct_card [of "filter live (entries h)"] by (simp add: htab_ok_def unique_entries_def elements_of_def)
  then show ?thesis using assms used_split [of h] by (simp add: htab_elements_def htab_ok_def)
qed

section \<open>Writing a slot\<close>

lemma filter_update:
  assumes "i < length xs"
  obtains a b where "filter P xs = a @ (if P (xs ! i) then [xs ! i] else []) @ b"
    "filter P (xs[i := x]) = a @ (if P x then [x] else []) @ b"
proof
  have "filter P xs = filter P (take i xs @ xs ! i # drop (Suc i) xs)"
    by (rule arg_cong [OF id_take_nth_drop [OF assms]])
  then show "filter P xs = filter P (take i xs) @ (if P (xs ! i) then [xs ! i] else []) @ filter P (drop (Suc i) xs)"
    by simp
  show "filter P (xs[i := x]) = filter P (take i xs) @ (if P x then [x] else []) @ filter P (drop (Suc i) xs)"
    by (simp add: upd_conv_take_nth_drop [OF assms])
qed

lemma length_filter_update:
  assumes "i < length xs"
  shows "length (filter P (xs[i := x])) + of_bool (P (xs ! i)) = length (filter P xs) + of_bool (P x)"
  by (rule filter_update [OF assms, of P x]) simp

lemma count_list_update:
  assumes "i < length xs"
  shows "count_list (xs[i := x]) y + of_bool (y = xs ! i) = count_list xs y + of_bool (y = x)"
  using length_filter_update [OF assms, of "(=) y" x] by (simp only: count_list_eq_length_filter)

text \<open>
  A table with the same functions and size in which no slot has become empty and every new entry is
  on its probe path.
\<close>

lemma placed_step:
  assumes "placed h" "hash_f h' = hash_f h" "ht_size h' = ht_size h" "size_prime_index h' = size_prime_index h"
    and "table_ok h"
    and keep: "\<And>j. j < ht_size h \<Longrightarrow> entries h ! j \<noteq> HTAB_EMPTY_ENTRY \<Longrightarrow> entries h' ! j \<noteq> HTAB_EMPTY_ENTRY"
    and new: "\<And>j. j < ht_size h \<Longrightarrow> live (entries h' ! j) \<Longrightarrow> entries h' ! j = entries h ! j \<or> reachable h (entries h' ! j) j"
  shows "placed h'"
  unfolding placed_def
proof (intro allI impI)
  fix i assume i: "i < ht_size h'" "live (entries h' ! i)"
  have p: "probe h' hash k = probe h hash k" for hash k
    using assms(3,4) by (simp add: probe_def htab_mod_def htab_mod_m2_def)
  have "reachable h (entries h' ! i) i"
    using new [of i] i assms(1,3) by (metis placed_def)
  then show "reachable h' (entries h' ! i) i"
    unfolding reachable_def p assms(2) using keep probe_less [OF assms(5)] by blast
qed

text \<open>The table after an element has been written to a slot of its probe path.\<close>

lemma store_slot_ok:
  assumes h: "table_ok h" "placed h" and x: "live x" and i: "i < ht_size h" "reachable h x i"
  shows "placed (h\<lparr>entries := (entries h)[i := x]\<rparr>)"
proof (rule placed_step [OF h(2)])
  fix j assume "j < ht_size h"
  have "i < length (entries h)" using h(1) i(1) by (simp add: table_ok_def)
  then show "entries h ! j \<noteq> HTAB_EMPTY_ENTRY \<Longrightarrow> entries (h\<lparr>entries := (entries h)[i := x]\<rparr>) ! j \<noteq> HTAB_EMPTY_ENTRY"
    "entries (h\<lparr>entries := (entries h)[i := x]\<rparr>) ! j = entries h ! j
      \<or> reachable h (entries (h\<lparr>entries := (entries h)[i := x]\<rparr>) ! j) j"
    using x i(2) by (auto simp: nth_list_update [OF \<open>i < length (entries h)\<close>] live_def)
qed (use h in simp_all)

lemma placed_cong:
  assumes "entries h' = entries h" "hash_f h' = hash_f h" "ht_size h' = ht_size h"
    "size_prime_index h' = size_prime_index h"
  shows "placed h' = placed h" "table_ok h' = table_ok h" "used h' = used h" "elements_of h' = elements_of h"
    "reachable h' x i = reachable h x i"
  using assms by (simp_all add: placed_def table_ok_def used_def elements_of_def reachable_def probe_def htab_mod_def htab_mod_m2_def)

lemma elements_update:
  assumes "i < length (entries h)" "distinct (filter live (entries h))"
  shows "elements_of (h\<lparr>entries := (entries h)[i := x]\<rparr>) =
      (elements_of h - (if live (entries h ! i) then {entries h ! i} else {})) \<union> (if live x then {x} else {})"
    and "x \<notin> elements_of h - {entries h ! i} \<Longrightarrow> distinct (filter live ((entries h)[i := x]))"
proof -
  obtain a b where ab: "filter live (entries h) = a @ (if live (entries h ! i) then [entries h ! i] else []) @ b"
    "filter live ((entries h)[i := x]) = a @ (if live x then [x] else []) @ b"
    using filter_update [OF assms(1), of live x] by blast
  have d: "distinct (a @ (if live (entries h ! i) then [entries h ! i] else []) @ b)"
    using assms(2) unfolding ab(1) .
  have el: "elements_of h = set (filter live (entries h))"
    "elements_of (h\<lparr>entries := (entries h)[i := x]\<rparr>) = set (filter live ((entries h)[i := x]))"
    by (auto simp: elements_of_def)
  show "elements_of (h\<lparr>entries := (entries h)[i := x]\<rparr>) =
      (elements_of h - (if live (entries h ! i) then {entries h ! i} else {})) \<union> (if live x then {x} else {})"
    using d by (cases "live (entries h ! i)"; cases "live x") (auto simp: el ab)
  show "distinct (filter live ((entries h)[i := x]))" if "x \<notin> elements_of h - {entries h ! i}"
    using d that by (cases "live (entries h ! i)"; cases "live x") (auto simp: el ab)
qed

section \<open>Resizing\<close>

lemma markers_not_live [simp]: "\<not> live HTAB_EMPTY_ENTRY" "\<not> live HTAB_DELETED_ENTRY"
  by (simp_all add: live_def)

lemma not_deleted_used:
  assumes "HTAB_DELETED_ENTRY \<notin> set (entries h)"
  shows "used h = length (filter live (entries h))"
  using assms used_split [of h] by (simp add: count_list_0_iff)

lemma find_empty_slot_ok:
  assumes h: "table_ok h" "HTAB_DELETED_ENTRY \<notin> set (entries h)" "used h < ht_size h"
  obtains q where "find_empty_slot_for_expand h (hash_f h x) = Some (Inr q)" "q < ht_size h"
    "entries h ! q = HTAB_EMPTY_ENTRY" "reachable h x q"
proof -
  have "HTAB_EMPTY_ENTRY \<in> set (entries h)" using h(1,3) by (intro has_empty) (simp add: table_ok_def)
  then obtain K where K: "K < ht_size h" "stops h (\<lambda>x. False) (hash_f h x) K"
      "\<And>j. j < K \<Longrightarrow> \<not> stops h (\<lambda>x. False) (hash_f h x) j"
    using first_stop [OF h(1)] by metis
  have "find_empty_slot_for_expand h (hash_f h x) = Some (Inr (probe h (hash_f h x) K))"
    unfolding find_empty_slot_for_expand_def
    using K by (intro empty_slot_loop_ends [OF h(1,2) K(2), of 0]) (simp_all add: probe_0 [OF h(1)])
  moreover have "entries h ! probe h (hash_f h x) K = HTAB_EMPTY_ENTRY" using K(2) by (simp add: stops_def)
  moreover have "reachable h x (probe h (hash_f h x) K)"
    using K(3) unfolding reachable_def stops_def by (metis)
  ultimately show ?thesis using that probe_less [OF h(1)] by blast
qed

lemma rehash_ok:
  assumes "table_ok h" "placed h" "HTAB_DELETED_ENTRY \<notin> set (entries h)"
    and "used h + length (filter live xs) < ht_size h"
  shows "\<exists>es. rehash xs h = Some (Inr (h\<lparr>entries := es\<rparr>)) \<and> placed (h\<lparr>entries := es\<rparr>) \<and> length es = length (entries h)
    \<and> HTAB_DELETED_ENTRY \<notin> set es \<and> mset (filter live es) = mset (filter live (entries h)) + mset (filter live xs)"
  using assms
proof (induction xs arbitrary: h)
  case Nil
  have "h\<lparr>entries := entries h\<rparr> = h" by simp
  then show ?case using Nil by (intro exI [of _ "entries h"]) simp
next
  case (Cons x xs)
  show ?case
  proof (cases "live x")
    case False
    then show ?thesis using Cons by simp
  next
    case True
    have "used h < ht_size h" using Cons.prems(4) by simp
    then obtain q where q: "find_empty_slot_for_expand h (hash_f h x) = Some (Inr q)" "q < ht_size h"
        "entries h ! q = HTAB_EMPTY_ENTRY" "reachable h x q"
      using find_empty_slot_ok [OF Cons.prems(1,3)] by blast
    define h' where "h' = h\<lparr>entries := (entries h)[q := x]\<rparr>"
    have len: "q < length (entries h)" using q(2) Cons.prems(1) by (simp add: table_ok_def)
    obtain a b where "filter live (entries h) = a @ (if live (entries h ! q) then [entries h ! q] else []) @ b"
        "filter live ((entries h)[q := x]) = a @ (if live x then [x] else []) @ b"
      using filter_update [OF len, of live x] by blast
    then have ab: "filter live (entries h) = a @ b" "filter live ((entries h)[q := x]) = a @ [x] @ b"
      using q(3) True by simp_all
    have "HTAB_DELETED_ENTRY \<notin> set (entries h')"
      using Cons.prems(3) True set_update_subset_insert [of "entries h" q x] by (auto simp: h'_def live_def)
    moreover from this have "used h' = Suc (used h)"
      using ab not_deleted_used [of h'] not_deleted_used [OF Cons.prems(3)] by (simp add: h'_def)
    moreover have "table_ok h'" using Cons.prems(1) by (simp add: table_ok_def h'_def)
    moreover have "placed h'" unfolding h'_def by (rule store_slot_ok [OF Cons.prems(1,2) True q(2,4)])
    ultimately obtain es where "rehash xs h' = Some (Inr (h'\<lparr>entries := es\<rparr>))" "placed (h'\<lparr>entries := es\<rparr>)"
        "length es = length (entries h')" "HTAB_DELETED_ENTRY \<notin> set es"
        "mset (filter live es) = mset (filter live (entries h')) + mset (filter live xs)"
      using Cons.IH [of h'] Cons.prems(4) True by (auto simp: h'_def)
    then show ?thesis using q(1) True ab by (intro exI [of _ es]) (simp add: h'_def)
  qed
qed

lemma unique_entries_mset:
  assumes "unique_entries h" "mset (filter live (entries h')) = mset (filter live (entries h))" "eq_f h' = eq_f h"
  shows "unique_entries h'" "elements_of h' = elements_of h"
proof -
  show el: "elements_of h' = elements_of h"
    using arg_cong [OF assms(2), of set_mset] by (auto simp: elements_of_def)
  have "distinct (filter live (entries h'))"
    using assms(1,2) by (metis unique_entries_def distinct_count_atmost_1 mset_eq_setD)
  then show "unique_entries h'" using assms(1,3) el by (simp add: unique_entries_def)
qed

text \<open>A table may grow to the largest size below \<open>2^31\<close>; the expansion leaves room for one more element.\<close>

abbreviation max_elements :: nat where
  "max_elements \<equiv> 1073741823"

definition same_functions :: "htab \<Rightarrow> htab \<Rightarrow> bool" where
  "same_functions h h' \<longleftrightarrow> hash_f h' = hash_f h \<and> eq_f h' = eq_f h \<and> del_f h' = del_f h"

lemma new_index:
  assumes "n \<le> max_elements"
  obtains i where "higher_prime_index (n * 2) = Inr i" "i < 29" "n * 2 \<le> primes ! i"
proof -
  obtain i where i: "i < 30" "higher_prime_index (n * 2) = Inr i" "n * 2 \<le> primes ! i" "\<forall>j<i. primes ! j < n * 2"
    using higher_prime_index_spec [of "n * 2"] assms by auto
  have "primes ! 28 = 2147483647" by (simp add: primes_eq)
  then have "i < 29" using i(4) [rule_format, of 28] assms by linarith
  then show ?thesis using that i by blast
qed

lemma fresh_table:
  assumes "table_ok h" "entries h = new_entries (ht_size h)"
  shows "placed h" "used h = 0" "HTAB_DELETED_ENTRY \<notin> set (entries h)" "filter live (entries h) = []"
  using assms by (auto simp: placed_def used_def new_entries_def filter_empty_conv HTAB_EMPTY_ENTRY_def HTAB_DELETED_ENTRY_def
      live_def)

lemma htab_expand_ok:
  assumes h: "htab_ok h" and n: "card (elements_of h) \<le> max_elements"
  shows "htab_expand False h = Some (Inr (False, h))"
    and "\<exists>h'. htab_expand True h = Some (Inr (True, h')) \<and> htab_ok h' \<and> elements_of h' = elements_of h
      \<and> same_functions h h' \<and> n_elements h' + 1 < ht_size h'"
proof -
  define elts where "elts = htab_elements h"
  have elts: "elts = card (elements_of h)" by (simp add: elts_def htab_elements_card [OF h])
  have tab: "table_ok h" "unique_entries h" using h by (simp_all add: htab_ok_def)
  define change where "change \<longleftrightarrow> elts * 2 > ht_size h \<or> elts * 8 < ht_size h \<and> ht_size h > 32"
  obtain i where i: "(if change then Some (higher_prime_index (elts * 2)) else Some (Inr (size_prime_index h))) = Some (Inr i)"
      "i < 29" "elts * 2 \<le> primes ! i" "\<not> change \<Longrightarrow> primes ! i = ht_size h"
  proof (cases change)
    case True
    then show ?thesis using new_index [OF n] that by (metis elts)
  next
    case False
    then have "elts * 2 \<le> ht_size h" by (simp add: change_def)
    with False show ?thesis using that [of "size_prime_index h"] tab(1) by (simp add: table_ok_def)
  qed
  define nsize where "nsize = primes ! i"
  have size_eq: "(if change then unat (pe_prime (prime_tab ! i)) else ht_size h) = nsize"
    using i(2,4) nth_primes [of i] by (simp add: nsize_def)
  define h0 where "h0 = h\<lparr>entries := new_entries nsize, ht_size := nsize, size_prime_index := i,
    n_elements := n_elements h - n_deleted h, n_deleted := 0\<rparr>"
  have expand: "htab_expand ok h =
      (if \<not> ok then Some (Inr (False, h)) else and_then (rehash (entries h) h0) (\<lambda>htab. Some (Inr (True, htab))))" for ok
    unfolding htab_expand_def Let_def elts_def [symmetric] change_def [symmetric] i(1)
    by (simp add: size_eq h0_def elts_def htab_elements_def)
  show "htab_expand False h = Some (Inr (False, h))" by (simp add: expand)
  have t0: "table_ok h0" using i(2) by (simp add: table_ok_def h0_def nsize_def new_entries_def)
  have fresh: "placed h0" "used h0 = 0" "HTAB_DELETED_ENTRY \<notin> set (entries h0)" "filter live (entries h0) = []"
    using fresh_table [OF t0] by (simp_all add: h0_def)
  have len: "length (filter live (entries h)) = elts"
    using used_split [of h] h by (simp add: elts_def htab_elements_def htab_ok_def)
  have room: "elts + 1 < nsize" using i(3) size_range(1) [OF t0] by (simp add: h0_def nsize_def)
  have "ht_size h0 = nsize" by (simp add: h0_def)
  then have pre: "used h0 + length (filter live (entries h)) < ht_size h0" using fresh(2) len room by linarith
  obtain es where es: "rehash (entries h) h0 = Some (Inr (h0\<lparr>entries := es\<rparr>))" "placed (h0\<lparr>entries := es\<rparr>)"
      "length es = length (entries h0)" "HTAB_DELETED_ENTRY \<notin> set es" "mset (filter live es) = mset (filter live (entries h))"
    using rehash_ok [OF t0 fresh(1,3) pre] unfolding fresh(4) by auto
  define h' where "h' = h0\<lparr>entries := es\<rparr>"
  have "unique_entries h'" "elements_of h' = elements_of h"
    using unique_entries_mset [OF tab(2), of h'] es(5) by (simp_all add: h'_def h0_def)
  moreover have "used h' = elts"
    using not_deleted_used [of h'] es(4) mset_eq_length [OF es(5)] len by (simp add: h'_def)
  moreover have "n_elements h' = elts" "n_deleted h' = 0" "ht_size h' = nsize"
    by (simp_all add: h'_def h0_def elts_def htab_elements_def)
  moreover have "table_ok h'" using t0 es(3) by (simp add: h'_def table_ok_def)
  moreover have "count_list (entries h') HTAB_DELETED_ENTRY = 0" using es(4) by (simp add: h'_def count_list_0_iff)
  ultimately have "htab_ok h' \<and> elements_of h' = elements_of h \<and> same_functions h h' \<and> n_elements h' + 1 < ht_size h'"
    using es(2) room by (simp add: htab_ok_def same_functions_def h'_def h0_def)
  then show "\<exists>h'. htab_expand True h = Some (Inr (True, h')) \<and> htab_ok h' \<and> elements_of h' = elements_of h
      \<and> same_functions h h' \<and> n_elements h' + 1 < ht_size h'"
    using es(1) by (intro exI [of _ h']) (simp add: expand h'_def)
qed

section \<open>The contract of hash and equality\<close>

text \<open>
  What the table asks of the functions its client gives: equality is an equivalence and equal
  elements have equal hashes.
\<close>

locale hash_contract =
  fixes hash :: "ptr \<Rightarrow> hashval" and eq :: "ptr \<Rightarrow> ptr \<Rightarrow> bool"
  assumes eq_refl: "eq x x"
    and eq_sym: "eq x y \<Longrightarrow> eq y x"
    and eq_trans: "eq x y \<Longrightarrow> eq y z \<Longrightarrow> eq x z"
    and hash_eq: "eq x y \<Longrightarrow> hash x = hash y"
begin

definition serves :: "htab \<Rightarrow> bool" where
  "serves h \<longleftrightarrow> htab_ok h \<and> hash_f h = hash \<and> eq_f h = eq"

lemma stop_decides:
  assumes h: "serves h" and K: "stops h (\<lambda>x. eq x e) (hash e) K" "\<And>j. j < K \<Longrightarrow> \<not> stops h (\<lambda>x. eq x e) (hash e) j"
    and y: "y \<in> elements_of h" "eq y e"
  shows "entries h ! probe h (hash e) K = y"
proof -
  have ok: "table_ok h" "placed h" "unique_entries h" "hash_f h = hash" "eq_f h = eq"
    using h by (simp_all add: serves_def htab_ok_def)
  obtain i where i: "i < ht_size h" "entries h ! i = y" "live y"
    using y(1) ok(1) by (auto simp: elements_of_def in_set_conv_nth table_ok_def)
  have "reachable h y i" using ok(2) i by (auto simp: placed_def)
  then obtain k where k: "i = probe h (hash e) k" "\<forall>j<k. entries h ! probe h (hash e) j \<noteq> HTAB_EMPTY_ENTRY"
    using hash_eq [OF y(2)] ok(4) by (auto simp: reachable_def)
  have "stops h (\<lambda>x. eq x e) (hash e) k" using i k(1) y(2) by (simp add: stops_def)
  then have "K \<le> k" using K(2) [of k] by (meson not_less)
  define x where "x = entries h ! probe h (hash e) K"
  have "x \<noteq> HTAB_EMPTY_ENTRY" using k \<open>K \<le> k\<close> i by (cases "K = k") (auto simp: x_def live_def)
  then have x: "live x" "eq x e" using K(1) by (auto simp: stops_def x_def Let_def)
  then have "x \<in> elements_of h" using probe_less [OF ok(1)] ok(1) by (simp add: elements_of_def x_def table_ok_def)
  moreover have "eq x y" using x(2) y(2) eq_sym eq_trans by blast
  ultimately show ?thesis using ok(3,5) y(1) by (auto simp: unique_entries_def x_def)
qed

lemma stop_none:
  assumes h: "serves h" and K: "stops h (\<lambda>x. eq x e) (hash e) K" and none: "\<forall>y\<in>elements_of h. \<not> eq y e"
  shows "entries h ! probe h (hash e) K = HTAB_EMPTY_ENTRY"
proof -
  have "table_ok h" using h by (simp add: serves_def htab_ok_def)
  then have "entries h ! probe h (hash e) K \<in> set (entries h)" using probe_less by (simp add: table_ok_def)
  then show ?thesis using K none by (auto simp: stops_def elements_of_def Let_def)
qed

lemma first_stop_exists:
  assumes "serves h"
  obtains K where "K < ht_size h" "stops h (\<lambda>x. eq x e) (hash e) K" "\<And>j. j < K \<Longrightarrow> \<not> stops h (\<lambda>x. eq x e) (hash e) j"
proof -
  have "table_ok h" "HTAB_EMPTY_ENTRY \<in> set (entries h)"
    using assms by (auto simp: serves_def htab_ok_def table_ok_def intro!: has_empty)
  then show ?thesis using first_stop that by blast
qed

end

lemma counters_irrelevant [simp]:
  "htab_ok (h\<lparr>searches := a\<rparr>) = htab_ok h" "htab_ok (h\<lparr>collisions := b\<rparr>) = htab_ok h"
  "elements_of (h\<lparr>searches := a\<rparr>) = elements_of h" "elements_of (h\<lparr>collisions := b\<rparr>) = elements_of h"
  by (simp_all add: htab_ok_def unique_entries_def elements_of_def used_def
      placed_cong(1) [of "h\<lparr>searches := a\<rparr>" h] placed_cong(1) [of "h\<lparr>collisions := b\<rparr>" h])

lemma elements_live: "y \<in> elements_of h \<Longrightarrow> live y"
  by (simp add: elements_of_def)

context hash_contract
begin

lemma find_spec:
  assumes h: "serves h"
  shows "\<exists>r c. htab_find h e = Some (Inr (r, h\<lparr>searches := searches h + 1, collisions := c\<rparr>))
    \<and> (\<forall>y\<in>elements_of h. eq y e \<longrightarrow> r = y) \<and> ((\<forall>y\<in>elements_of h. \<not> eq y e) \<longrightarrow> r = HTAB_EMPTY_ENTRY)"
proof -
  define h1 where "h1 = h\<lparr>searches := searches h + 1\<rparr>"
  have ok: "table_ok h" "hash_f h = hash" "eq_f h = eq" using h by (simp_all add: serves_def htab_ok_def)
  obtain K where K: "K < ht_size h" "stops h (\<lambda>x. eq x e) (hash e) K"
      "\<And>j. j < K \<Longrightarrow> \<not> stops h (\<lambda>x. eq x e) (hash e) j"
    using first_stop_exists [OF h] by blast
  have "\<exists>c. find_loop (ht_size h) h1 e (htab_mod_m2 (hash e) h1) (htab_mod (hash e) h1)
      = Some (Inr (entries h1 ! probe h1 (hash e) K, h1\<lparr>collisions := c\<rparr>))"
    using K ok probe_0 [OF ok(1)] by (intro find_loop_ends [where k = 0]) (simp_all add: h1_def)
  then obtain c where "htab_find h e = Some (Inr (entries h ! probe h (hash e) K, h\<lparr>searches := searches h + 1, collisions := c\<rparr>))"
    using ok(2) by (auto simp: htab_find_def htab_find_with_hash_def h1_def)
  then show ?thesis using stop_decides [OF h K(2,3)] stop_none [OF h K(2)] by blast
qed

lemma store_write:
  assumes h: "serves h" and x: "live x" and i: "i < ht_size h" "reachable h x i"
    and slot: "\<And>y. y \<in> elements_of h \<Longrightarrow> eq y x \<Longrightarrow> y = entries h ! i" "live (entries h ! i) \<Longrightarrow> eq (entries h ! i) x"
    and room: "used h + of_bool (entries h ! i = HTAB_EMPTY_ENTRY) < ht_size h"
  defines "h' \<equiv> h\<lparr>entries := (entries h)[i := x], n_elements := n_elements h + of_bool (entries h ! i = HTAB_EMPTY_ENTRY),
    n_deleted := n_deleted h - of_bool (entries h ! i = HTAB_DELETED_ENTRY)\<rparr>"
  shows "serves h' \<and> elements_of h' = insert x {y \<in> elements_of h. \<not> eq y x}"
proof -
  have ok: "table_ok h" "placed h" "unique_entries h" "n_elements h = used h"
    "n_deleted h = count_list (entries h) HTAB_DELETED_ENTRY" "hash_f h = hash" "eq_f h = eq"
    using h by (simp_all add: serves_def htab_ok_def)
  have len: "i < length (entries h)" using ok(1) i(1) by (simp add: table_ok_def)
  have d: "distinct (filter live (entries h))" using ok(3) by (simp add: unique_entries_def)
  have els: "elements_of h' = elements_of (h\<lparr>entries := (entries h)[i := x]\<rparr>)" by (simp add: elements_of_def h'_def)
  have "entries h ! i \<in> elements_of h" if "live (entries h ! i)" using that len by (simp add: elements_of_def)
  then have el: "elements_of h' = insert x {y \<in> elements_of h. \<not> eq y x}"
    unfolding els elements_update(1) [OF len d] using x slot by (auto dest: elements_live)
  have x_other: "x \<notin> elements_of h - {entries h ! i}" using slot(1) [of x] eq_refl by blast
  have "distinct (filter live (entries h'))" unfolding h'_def using elements_update(2) [OF len d x_other] by simp
  moreover have "y = z" if "y \<in> elements_of h'" "z \<in> elements_of h'" "eq y z" for y z
    using that eq_sym [OF that(3)] ok(3,7) by (auto simp: el unique_entries_def)
  moreover have "eq_f h' = eq" by (simp add: h'_def ok(7))
  ultimately have "unique_entries h'" unfolding unique_entries_def by blast
  moreover have "placed h'"
    using store_slot_ok [OF ok(1,2) x i] by (subst placed_cong(1) [of h' "h\<lparr>entries := (entries h)[i := x]\<rparr>"]) (simp_all add: h'_def)
  moreover have "used h' = used h + of_bool (entries h ! i = HTAB_EMPTY_ENTRY)"
    using length_filter_update [OF len, of "\<lambda>x. x \<noteq> HTAB_EMPTY_ENTRY" x] x
    by (cases "entries h ! i = HTAB_EMPTY_ENTRY") (simp_all add: used_def h'_def live_def)
  moreover have "count_list (entries h') HTAB_DELETED_ENTRY = n_deleted h - of_bool (entries h ! i = HTAB_DELETED_ENTRY)"
    using count_list_update [OF len, of x HTAB_DELETED_ENTRY] x ok(5)
    by (cases "entries h ! i = HTAB_DELETED_ENTRY") (auto simp: h'_def live_def)
  ultimately have "htab_ok h'" using ok room by (simp add: htab_ok_def table_ok_def h'_def)
  then show ?thesis using el ok(6,7) by (simp add: serves_def h'_def)
qed

lemma find_slot_spec:
  assumes h: "serves h"
  obtains K fd c where "K < ht_size h" "stops h (\<lambda>x. eq x e) (hash e) K"
    "\<And>j. j < K \<Longrightarrow> \<not> stops h (\<lambda>x. eq x e) (hash e) j" "deleted_before h (hash e) K fd"
    "find_slot_loop (ht_size h) (h\<lparr>searches := searches h + 1\<rparr>) e (htab_mod_m2 (hash e) h) (htab_mod (hash e) h) None
      = Some (Inr (live (entries h ! probe h (hash e) K), probe h (hash e) K, fd,
                   h\<lparr>searches := searches h + 1, collisions := c\<rparr>))"
proof -
  define h1 where "h1 = h\<lparr>searches := searches h + 1\<rparr>"
  have ok: "table_ok h" "eq_f h = eq" using h by (simp_all add: serves_def htab_ok_def)
  obtain K where K: "K < ht_size h" "stops h (\<lambda>x. eq x e) (hash e) K"
      "\<And>j. j < K \<Longrightarrow> \<not> stops h (\<lambda>x. eq x e) (hash e) j"
    using first_stop_exists [OF h] by blast
  have "\<exists>c fd. find_slot_loop (ht_size h) h1 e (htab_mod_m2 (hash e) h1) (htab_mod (hash e) h1) None
      = Some (Inr (live (entries h1 ! probe h1 (hash e) K), probe h1 (hash e) K, fd, h1\<lparr>collisions := c\<rparr>))
        \<and> deleted_before h1 (hash e) K fd"
    using K ok probe_0 [OF ok(1)] by (intro find_slot_loop_ends [where k = 0]) (simp_all add: h1_def deleted_before_def)
  then show ?thesis using that K by (auto simp: h1_def deleted_before_def)
qed

lemma path_to_stop:
  assumes "serves h" "\<And>j. j < K \<Longrightarrow> \<not> stops h (\<lambda>x. eq x e) (hash e) j" "j \<le> K"
  shows "reachable h e (probe h (hash e) j)"
proof -
  have "entries h ! probe h (hash e) i \<noteq> HTAB_EMPTY_ENTRY" if "i < j" for i
    using assms(2) [of i] that assms(3) by (auto simp: stops_def)
  then show ?thesis using assms(1) by (auto simp: reachable_def serves_def)
qed


end

context hash_contract
begin

lemma slot_in_table_insert:
  assumes h: "serves h" and x: "live x" and room: "n_elements h + 1 < ht_size h"
  shows "\<exists>i h'. slot_in_table h x (hash x) INSERT = Some (Inr (Some i, h'))
    \<and> serves (h'\<lparr>entries := (entries h')[i := x]\<rparr>)
    \<and> elements_of (h'\<lparr>entries := (entries h')[i := x]\<rparr>) = insert x {y \<in> elements_of h. \<not> eq y x}
    \<and> del_f h' = del_f h"
proof -
  obtain K fd c where K: "K < ht_size h" "stops h (\<lambda>y. eq y x) (hash x) K"
    "\<And>j. j < K \<Longrightarrow> \<not> stops h (\<lambda>y. eq y x) (hash x) j" "deleted_before h (hash x) K fd"
    "find_slot_loop (ht_size h) (h\<lparr>searches := searches h + 1\<rparr>) x (htab_mod_m2 (hash x) h) (htab_mod (hash x) h) None
      = Some (Inr (live (entries h ! probe h (hash x) K), probe h (hash x) K, fd,
                   h\<lparr>searches := searches h + 1, collisions := c\<rparr>))"
    using find_slot_spec [OF h, of x] by blast
  have ok: "table_ok h" "n_elements h = used h" using h by (simp_all add: serves_def htab_ok_def)
  define k where "k = probe h (hash x) K"
  define h1 where "h1 = h\<lparr>searches := searches h + 1, collisions := c\<rparr>"
  define i where "i = (if live (entries h ! k) then k else case fd of None \<Rightarrow> k | Some d \<Rightarrow> d)"
  define w where "w = h\<lparr>entries := (entries h)[i := x], n_elements := n_elements h + of_bool (entries h ! i = HTAB_EMPTY_ENTRY),
    n_deleted := n_deleted h - of_bool (entries h ! i = HTAB_DELETED_ENTRY)\<rparr>"
  have present: "y = entries h ! k" if "y \<in> elements_of h" "eq y x" for y
    using stop_decides [OF h K(2,3) that] by (simp add: k_def)
  have k: "entries h ! k = HTAB_EMPTY_ENTRY \<or> live (entries h ! k) \<and> eq (entries h ! k) x"
    using K(2) by (simp add: stops_def k_def Let_def)
  have i: "i < ht_size h \<and> reachable h x i \<and> (i = k \<or> entries h ! i = HTAB_DELETED_ENTRY \<and> \<not> live (entries h ! k))"
    using path_to_stop [OF h K(3)] probe_less [OF ok(1)] K(4)
    by (auto simp: i_def k_def deleted_before_def split: option.splits)
  have "serves w \<and> elements_of w = insert x {y \<in> elements_of h. \<not> eq y x}"
    unfolding w_def
  proof (rule store_write [OF h x])
    show "y = entries h ! i" if "y \<in> elements_of h" "eq y x" for y
      using present [OF that] i elements_live [OF that(1)] by auto
    show "eq (entries h ! i) x" if "live (entries h ! i)" using that i k by auto
    show "used h + of_bool (entries h ! i = HTAB_EMPTY_ENTRY) < ht_size h" using room ok(2) by simp
  qed (use i in simp_all)
  moreover have "\<exists>h'. slot_in_table h x (hash x) INSERT = Some (Inr (Some i, h')) \<and> del_f h' = del_f h
    \<and> h'\<lparr>entries := (entries h')[i := x]\<rparr> = w\<lparr>searches := searches h + 1, collisions := c\<rparr>"
    using K(4,5) k unfolding slot_in_table_def
    by (auto simp: i_def k_def [symmetric] w_def deleted_before_def live_def HTAB_EMPTY_ENTRY_def HTAB_DELETED_ENTRY_def split: option.splits)
  ultimately show ?thesis by (fastforce simp: serves_def)
qed

lemma store_spec:
  assumes h: "serves h" and x: "live x" and n: "card (elements_of h) \<le> max_elements"
  shows "\<exists>done h'. htab_store alloc_ok h x = Some (Inr (done, h')) \<and> serves h' \<and> del_f h' = del_f h \<and> (alloc_ok \<longrightarrow> done)
    \<and> elements_of h' = (if done then insert x {y \<in> elements_of h. \<not> eq y x} else elements_of h)"
proof (cases "ht_size h * 3 \<le> n_elements h * 4")
  case False
  have ok: "table_ok h" "hash_f h = hash" using h by (simp_all add: serves_def htab_ok_def)
  have "n_elements h + 1 < ht_size h" using False size_range(1) [OF ok(1)] by linarith
  from slot_in_table_insert [OF h x this] show ?thesis
    using False ok(2) by (auto simp: htab_store_def htab_find_slot_def htab_find_slot_with_hash_def)
next
  case True
  have ok: "htab_ok h" "hash_f h = hash" "eq_f h = eq" using h by (simp_all add: serves_def)
  note expand = htab_expand_ok [OF ok(1) n]
  show ?thesis
  proof (cases alloc_ok)
    case False
    then show ?thesis using True expand(1) h
      by (auto simp: htab_store_def htab_find_slot_def htab_find_slot_with_hash_def)
  next
    case alloc: True
    obtain h1 where h1: "htab_expand True h = Some (Inr (True, h1))" "htab_ok h1" "elements_of h1 = elements_of h"
        "same_functions h h1" "n_elements h1 + 1 < ht_size h1"
      using expand(2) by blast
    have "serves h1" using h1(2,4) ok by (simp add: serves_def same_functions_def)
    from slot_in_table_insert [OF this x h1(5)] show ?thesis
      using True alloc h1(1,3,4) ok(2)
      by (auto simp: htab_store_def htab_find_slot_def htab_find_slot_with_hash_def same_functions_def)
  qed
qed

lemma delete_slot_ok:
  assumes h: "serves h" and i: "i < ht_size h" "live (entries h ! i)"
  shows "serves (snd (delete_slot h i)) \<and> elements_of (snd (delete_slot h i)) = elements_of h - {entries h ! i}"
proof -
  define h' where "h' = snd (delete_slot h i)"
  have h': "h' = h\<lparr>entries := (entries h)[i := HTAB_DELETED_ENTRY], n_deleted := n_deleted h + 1\<rparr>"
    by (simp add: h'_def delete_slot_def)
  have ok: "table_ok h" "placed h" "unique_entries h" "n_elements h = used h" "used h < ht_size h"
    "n_deleted h = count_list (entries h) HTAB_DELETED_ENTRY" "hash_f h = hash" "eq_f h = eq"
    using h by (simp_all add: serves_def htab_ok_def)
  have len: "i < length (entries h)" using ok(1) i(1) by (simp add: table_ok_def)
  have d: "distinct (filter live (entries h))" using ok(3) by (simp add: unique_entries_def)
  have "elements_of h' = elements_of (h\<lparr>entries := (entries h)[i := HTAB_DELETED_ENTRY]\<rparr>)"
    by (simp add: elements_of_def h')
  then have el: "elements_of h' = elements_of h - {entries h ! i}" using elements_update(1) [OF len d] i(2) by simp
  have "HTAB_DELETED_ENTRY \<notin> elements_of h - {entries h ! i}" by (auto dest: elements_live)
  from elements_update(2) [OF len d this] have "distinct (filter live (entries h'))" by (simp add: h')
  moreover have "y = z" if "y \<in> elements_of h'" "z \<in> elements_of h'" "eq_f h' y z" for y z
    using that(1,2) [unfolded el] that(3) ok(3) by (simp add: unique_entries_def h')
  ultimately have "unique_entries h'" unfolding unique_entries_def by blast
  moreover have "placed h'"
  proof (rule placed_step [OF ok(2)])
    fix j
    show "entries h ! j \<noteq> HTAB_EMPTY_ENTRY \<Longrightarrow> entries h' ! j \<noteq> HTAB_EMPTY_ENTRY"
      "live (entries h' ! j) \<Longrightarrow> entries h' ! j = entries h ! j \<or> reachable h (entries h' ! j) j"
      by (cases "j = i"; simp add: h' len HTAB_EMPTY_ENTRY_def HTAB_DELETED_ENTRY_def live_def)+
  qed (use ok(1) in \<open>simp_all add: h'\<close>)
  moreover have "used h' = used h"
    using length_filter_update [OF len, of "\<lambda>x. x \<noteq> HTAB_EMPTY_ENTRY" HTAB_DELETED_ENTRY] i(2)
    by (simp add: used_def h' live_def HTAB_EMPTY_ENTRY_def HTAB_DELETED_ENTRY_def)
  moreover have "count_list (entries h') HTAB_DELETED_ENTRY = n_deleted h + 1"
    using count_list_update [OF len, of HTAB_DELETED_ENTRY HTAB_DELETED_ENTRY] i(2) ok(6)
    by (auto simp: h' live_def)
  ultimately have "htab_ok h'" using ok by (simp add: htab_ok_def table_ok_def h')
  then have "serves h'" using ok(7,8) by (simp add: serves_def h')
  with el show ?thesis by (simp add: h'_def)
qed

lemma remove_spec:
  assumes h: "serves h"
  shows "(\<forall>y\<in>elements_of h. eq y e \<longrightarrow>
      (\<exists>h'. htab_remove_elt h e = Some (Inr (if del_f h then [y] else [], h')) \<and> serves h'
        \<and> elements_of h' = elements_of h - {y} \<and> del_f h' = del_f h))
    \<and> ((\<forall>y\<in>elements_of h. \<not> eq y e) \<longrightarrow> htab_remove_elt h e = Some (Inl Undefined))"
proof -
  obtain K fd c where K: "K < ht_size h" "stops h (\<lambda>y. eq y e) (hash e) K"
    "\<And>j. j < K \<Longrightarrow> \<not> stops h (\<lambda>y. eq y e) (hash e) j"
    "find_slot_loop (ht_size h) (h\<lparr>searches := searches h + 1\<rparr>) e (htab_mod_m2 (hash e) h) (htab_mod (hash e) h) None
      = Some (Inr (live (entries h ! probe h (hash e) K), probe h (hash e) K, fd,
                   h\<lparr>searches := searches h + 1, collisions := c\<rparr>))"
    using find_slot_spec [OF h, of e] by metis
  define k where "k = probe h (hash e) K"
  define h1 where "h1 = h\<lparr>searches := searches h + 1, collisions := c\<rparr>"
  have ok: "table_ok h" "hash_f h = hash" using h by (simp_all add: serves_def htab_ok_def)
  have slot: "htab_find_slot_with_hash True h e (hash e) NO_INSERT
      = Some (Inr (if live (entries h ! k) then Some k else None, h1))"
    using K(4) by (simp add: htab_find_slot_with_hash_def slot_in_table_def k_def h1_def)
  have "\<exists>h'. htab_remove_elt h e = Some (Inr (if del_f h then [y] else [], h')) \<and> serves h'
        \<and> elements_of h' = elements_of h - {y} \<and> del_f h' = del_f h" if "y \<in> elements_of h" "eq y e" for y
  proof -
    have y: "entries h ! k = y" "live y" using stop_decides [OF h K(2,3) that] elements_live [OF that(1)] by (simp_all add: k_def)
    have "serves h1" using h by (simp add: serves_def h1_def)
    moreover have "k < ht_size h1" using probe_less [OF ok(1)] by (simp add: k_def h1_def)
    ultimately have "serves (snd (delete_slot h1 k)) \<and> elements_of (snd (delete_slot h1 k)) = elements_of h - {y}"
      using delete_slot_ok [of h1 k] y by (simp add: h1_def)
    moreover have "htab_remove_elt h e = Some (Inr (if del_f h then [y] else [], snd (delete_slot h1 k)))"
      using slot y ok(2) by (simp add: htab_remove_elt_def htab_remove_elt_with_hash_def delete_slot_def h1_def live_def)
    moreover have "del_f (snd (delete_slot h1 k)) = del_f h" by (simp add: delete_slot_def h1_def)
    ultimately show ?thesis by blast
  qed
  moreover have "htab_remove_elt h e = Some (Inl Undefined)" if "\<forall>y\<in>elements_of h. \<not> eq y e"
    using slot stop_none [OF h K(2) that] ok(2)
    by (simp add: htab_remove_elt_def htab_remove_elt_with_hash_def k_def live_def)
  ultimately show ?thesis by blast
qed

lemma create_spec:
  assumes "n \<le> 2147483647"
  shows "\<exists>h. htab_create_alloc True n hash eq del = Inr (Some h) \<and> serves h \<and> elements_of h = {} \<and> del_f h = del"
proof -
  obtain i where i: "i < 30" "higher_prime_index n = Inr i" "\<forall>j<i. primes ! j < n"
    using higher_prime_index_spec [of n] assms by auto
  have "primes ! 28 = 2147483647" by (simp add: primes_eq)
  then have "i < 29" using i(3) [rule_format, of 28] assms by linarith
  define h where "h = \<lparr>hash_f = hash, eq_f = eq, del_f = del, entries = new_entries (primes ! i), ht_size = primes ! i,
    n_elements = 0, n_deleted = 0, searches = 0, collisions = 0, size_prime_index = i\<rparr>"
  have t: "table_ok h" using \<open>i < 29\<close> by (simp add: table_ok_def h_def new_entries_def)
  have f: "placed h" "used h = 0" "HTAB_DELETED_ENTRY \<notin> set (entries h)" "filter live (entries h) = []"
    using fresh_table [OF t] by (simp_all add: h_def)
  then have "elements_of h = {}" by (auto simp: elements_of_def filter_empty_conv)
  then have "htab_ok h" using t f size_range(1) [OF t] by (simp add: htab_ok_def unique_entries_def count_list_0_iff) (simp add: h_def)
  then have "serves h" by (simp add: serves_def h_def)
  moreover have "htab_create_alloc True n hash eq del = Inr (Some h)"
    using i nth_primes [of i] by (simp add: htab_create_alloc_def h_def Let_def)
  ultimately show ?thesis using \<open>elements_of h = {}\<close> by (auto simp: h_def)
qed

end

text \<open>Emptying a table, also a large one, which is made smaller.\<close>

lemma fresh_htab_ok:
  assumes "table_ok h" "entries h = new_entries (ht_size h)" "n_elements h = 0" "n_deleted h = 0"
  shows "htab_ok h" "elements_of h = {}"
proof -
  note f = fresh_table [OF assms(1,2)]
  then show "elements_of h = {}" by (auto simp: elements_of_def filter_empty_conv)
  then show "htab_ok h" using f assms(1,3,4) size_range(1) [OF assms(1)]
    by (simp add: htab_ok_def unique_entries_def count_list_0_iff)
qed

lemma htab_empty_ok:
  assumes "htab_ok h"
  shows "\<exists>h'. htab_empty True h = Inr (cleanup_calls h, h') \<and> htab_ok h' \<and> elements_of h' = {} \<and> same_functions h h'"
proof -
  obtain i where i: "i < 30" "higher_prime_index 128 = Inr i" "\<forall>j<i. primes ! j < 128"
    using higher_prime_index_spec [of 128] by auto
  have "i < 29" using i(3) [rule_format, of 28] by (cases "i < 29") (simp_all add: primes_eq)
  define n where "n = (if ht_size h > 131072 then primes ! i else ht_size h)"
  define h' where "h' = h\<lparr>entries := new_entries n, ht_size := n,
    size_prime_index := (if ht_size h > 131072 then i else size_prime_index h), n_deleted := 0, n_elements := 0\<rparr>"
  have "table_ok h'" using assms \<open>i < 29\<close> by (auto simp: h'_def n_def htab_ok_def table_ok_def new_entries_def)
  then have "htab_ok h'" "elements_of h' = {}" using fresh_htab_ok [of h'] by (simp_all add: h'_def)
  moreover have "htab_empty True h = Inr (cleanup_calls h, h')"
    using i nth_primes [of i] by (simp add: htab_empty_def Let_def h'_def n_def)
  ultimately show ?thesis by (auto simp: same_functions_def h'_def)
qed

section \<open>Sequences of operations\<close>

datatype htab_op = Store ptr | Remove ptr

fun run_op :: "htab_op \<Rightarrow> htab \<Rightarrow> htab search" where
  "run_op (Store x) h = and_then (htab_store True h x) (\<lambda>(_, h). Some (Inr h))"
| "run_op (Remove e) h = and_then (htab_remove_elt h e) (\<lambda>(_, h). Some (Inr h))"

fun run_ops :: "htab_op list \<Rightarrow> htab \<Rightarrow> htab search" where
  "run_ops [] h = Some (Inr h)"
| "run_ops (opn # ops) h = and_then (run_op opn h) (run_ops ops)"

text \<open>The same on a set of elements of which no two are equal.\<close>

fun spec_op :: "(ptr \<Rightarrow> ptr \<Rightarrow> bool) \<Rightarrow> htab_op \<Rightarrow> ptr set \<Rightarrow> ptr set" where
  "spec_op eq (Store x) S = insert x {y \<in> S. \<not> eq y x}"
| "spec_op eq (Remove e) S = {y \<in> S. \<not> eq y e}"

text \<open>Stored pointers are not the two markers, and only elements that are there are removed.\<close>

fun ops_allowed :: "(ptr \<Rightarrow> ptr \<Rightarrow> bool) \<Rightarrow> htab_op list \<Rightarrow> ptr set \<Rightarrow> bool" where
  "ops_allowed eq [] S = True"
| "ops_allowed eq (Store x # ops) S = (live x \<and> ops_allowed eq ops (spec_op eq (Store x) S))"
| "ops_allowed eq (Remove e # ops) S = ((\<exists>y\<in>S. eq y e) \<and> ops_allowed eq ops (spec_op eq (Remove e) S))"

lemma finite_elements: "finite (elements_of h)"
  by (simp add: elements_of_def)

context hash_contract
begin

lemma removed_element:
  assumes "serves h" "y \<in> elements_of h" "eq y e"
  shows "elements_of h - {y} = {z \<in> elements_of h. \<not> eq z e}"
proof -
  have "z = y" if "z \<in> elements_of h" "eq z e" for z
  proof -
    have "eq_f h z y" using assms(1) eq_trans [OF that(2) eq_sym [OF assms(3)]] by (simp add: serves_def)
    then show ?thesis using assms(1,2) that(1) unfolding serves_def htab_ok_def unique_entries_def by blast
  qed
  then show ?thesis using assms(2,3) by blast
qed

lemma run_ops_spec:
  assumes "serves h" "ops_allowed eq ops (elements_of h)" "card (elements_of h) + length ops \<le> Suc max_elements"
  shows "\<exists>h'. run_ops ops h = Some (Inr h') \<and> serves h' \<and> elements_of h' = fold (spec_op eq) ops (elements_of h)"
  using assms
proof (induction ops arbitrary: h)
  case (Cons opn ops)
  have step: "\<exists>h'. run_op opn h = Some (Inr h') \<and> serves h' \<and> elements_of h' = spec_op eq opn (elements_of h)"
  proof (cases opn)
    case (Store x)
    then show ?thesis using store_spec [OF Cons.prems(1), of x True] Cons.prems(2,3) by auto
  next
    case (Remove e)
    then obtain y where y: "y \<in> elements_of h" "eq y e" using Cons.prems(2) by auto
    obtain h' where "htab_remove_elt h e = Some (Inr (if del_f h then [y] else [], h'))" "serves h'"
        "elements_of h' = elements_of h - {y}"
      using remove_spec [OF Cons.prems(1), of e] y by blast
    then show ?thesis using removed_element [OF Cons.prems(1) y] Remove by simp
  qed
  then obtain h' where h': "run_op opn h = Some (Inr h')" "serves h'" "elements_of h' = spec_op eq opn (elements_of h)"
    by blast
  have sub: "{y \<in> elements_of h. P y} \<subseteq> elements_of h" for P by blast
  have "card (spec_op eq opn (elements_of h)) \<le> Suc (card (elements_of h))"
    using card_mono [OF finite_elements sub] by (cases opn) (auto simp: card_insert_if finite_elements le_SucI)
  then have "\<exists>h''. run_ops ops h' = Some (Inr h'') \<and> serves h'' \<and> elements_of h'' = fold (spec_op eq) ops (elements_of h')"
    using Cons.prems(2,3) h'(2,3) by (intro Cons.IH) (cases opn; simp)+
  then show ?case using h' by simp
qed simp

end

section \<open>Two contracts\<close>

text \<open>The pointer functions of \<open>hashtab.c\<close>, and strings in a memory hashed with \<open>htab_hash_string\<close>.\<close>

interpretation pointer_hash: hash_contract hash_pointer eq_pointer
  by unfold_locales (simp_all add: eq_pointer_def)

interpretation string_hash: hash_contract "\<lambda>p. htab_hash_string (mem p)"
  "\<lambda>p q. takeWhile (\<lambda>c. c \<noteq> 0) (mem p) = takeWhile (\<lambda>c. c \<noteq> 0) (mem q)" for mem
  by unfold_locales (simp_all add: htab_hash_string_def)

section \<open>Properties\<close>

text \<open>
  C8: A hash table is a set. For a hash and an equality that fit together, any sequence of insertions
  (through \<open>htab_find_slot\<close>, with every expansion it needs) and removals of present elements on a new
  table ends, no assertion fails and no access is out of bounds; the elements of the table are those
  of the abstract set, \<open>htab_elements\<close> is their number, and \<open>htab_find\<close> ends and returns the element equal
  to its argument, or the empty entry when there is none.
\<close>

theorem htab_refines_set:
  assumes "hash_contract hash eq" "n \<le> 2147483647" "ops_allowed eq ops {}" "length ops \<le> 1073741823"
  shows "\<exists>h0 h. htab_create_alloc True n hash eq del = Inr (Some h0) \<and> run_ops ops h0 = Some (Inr h)
    \<and> elements_of h = fold (spec_op eq) ops {} \<and> htab_elements h = card (elements_of h)
    \<and> (\<forall>e. \<exists>r h'. htab_find h e = Some (Inr (r, h')) \<and> entries h' = entries h
         \<and> (if \<exists>y\<in>elements_of h. eq y e then r \<in> elements_of h \<and> eq r e else r = HTAB_EMPTY_ENTRY))"
proof -
  note hc = assms(1)
  obtain h0 where h0: "htab_create_alloc True n hash eq del = Inr (Some h0)" "hash_contract.serves hash eq h0" "elements_of h0 = {}"
    using hash_contract.create_spec [OF hc assms(2)] by blast
  obtain h where h: "run_ops ops h0 = Some (Inr h)" "hash_contract.serves hash eq h" "elements_of h = fold (spec_op eq) ops {}"
    using hash_contract.run_ops_spec [OF hc h0(2), of ops] assms(3,4) h0(3) by auto
  have "htab_ok h" using h(2) hash_contract.serves_def [OF hc] by simp
  moreover have "\<exists>r h'. htab_find h e = Some (Inr (r, h')) \<and> entries h' = entries h
         \<and> (if \<exists>y\<in>elements_of h. eq y e then r \<in> elements_of h \<and> eq r e else r = HTAB_EMPTY_ENTRY)" for e
  proof -
    obtain r c where "htab_find h e = Some (Inr (r, h\<lparr>searches := searches h + 1, collisions := c\<rparr>))"
        "\<forall>y\<in>elements_of h. eq y e \<longrightarrow> r = y" "(\<forall>y\<in>elements_of h. \<not> eq y e) \<longrightarrow> r = HTAB_EMPTY_ENTRY"
      using hash_contract.find_spec [OF hc h(2)] by blast
    then show ?thesis by (cases "\<exists>y\<in>elements_of h. eq y e") auto
  qed
  ultimately show ?thesis using h0(1) h htab_elements_card by blast
qed

theorem htab_refines_set_witness:
  "\<exists>h0 h. htab_create_alloc True 10 hash_pointer eq_pointer False = Inr (Some h0)
     \<and> run_ops [Store 64, Store 72, Remove 64, Store 168] h0 = Some (Inr h) \<and> elements_of h = {72, 168}"
proof -
  have "ops_allowed eq_pointer [Store 64, Store 72, Remove 64, Store 168] {}"
    by (simp add: eq_pointer_def live_def HTAB_EMPTY_ENTRY_def HTAB_DELETED_ENTRY_def)
  moreover have "fold (spec_op eq_pointer) [Store 64, Store 72, Remove 64, Store 168] {} = {72, 168}"
    by (auto simp: eq_pointer_def)
  ultimately show ?thesis
    using htab_refines_set [OF pointer_hash.hash_contract_axioms, of 10 "[Store 64, Store 72, Remove 64, Store 168]" False]
    by auto
qed

text \<open>
  C31: Removing an element that is not in the table, which the code documents to do nothing, reads
  through a null pointer; a removal that finds its element calls the cleanup function on it once and
  leaves the others.
\<close>

theorem htab_remove_elt_cases:
  assumes "hash_contract hash eq" "htab_ok h" "hash_f h = hash" "eq_f h = eq"
  shows "((\<forall>y\<in>elements_of h. \<not> eq y e) \<longrightarrow> htab_remove_elt h e = Some (Inl Undefined)) \<and>
    (\<forall>y\<in>elements_of h. eq y e \<longrightarrow>
       (\<exists>h'. htab_remove_elt h e = Some (Inr (if del_f h then [y] else [], h')) \<and> htab_ok h'
          \<and> elements_of h' = elements_of h - {y}))"
proof -
  have "hash_contract.serves hash eq h" using assms hash_contract.serves_def [OF assms(1)] by simp
  from hash_contract.remove_spec [OF assms(1) this, of e] show ?thesis
    using hash_contract.serves_def [OF assms(1)] by blast
qed

lemma empty_pointer_table:
  "\<exists>h. htab_ok h \<and> hash_f h = hash_pointer \<and> eq_f h = eq_pointer \<and> elements_of h = {}"
  using pointer_hash.create_spec [of 10 False] by (auto simp: pointer_hash.serves_def)

theorem htab_remove_elt_cases_witness:
  "\<exists>h. htab_ok h \<and> elements_of h = {} \<and> htab_remove_elt h 64 = Some (Inl Undefined)"
  using empty_pointer_table htab_remove_elt_cases [OF pointer_hash.hash_contract_axioms, where e = 64] by auto

text \<open>
  A callback that collects the elements, clears the slots of some of them and asks to stop at others;
  \<open>visited\<close> is what such a callback sees of a list.
\<close>

definition collect_and_clear :: "(ptr \<Rightarrow> bool) \<Rightarrow> (ptr \<Rightarrow> bool) \<Rightarrow> ptr list htab_trav" where
  "collect_and_clear Q S = (\<lambda>slot acc h.
     (\<not> S (entries h ! slot), entries h ! slot # acc,
      if Q (entries h ! slot) then snd (delete_slot h slot) else h))"

fun visited :: "('a \<Rightarrow> bool) \<Rightarrow> 'a list \<Rightarrow> 'a list" where
  "visited S [] = []"
| "visited S (x # xs) = x # (if S x then [] else visited S xs)"

lemma visited_subset: "set (visited S xs) \<subseteq> set xs"
  by (induction xs) auto

lemma visited_distinct: "distinct xs \<Longrightarrow> distinct (visited S xs)"
  by (induction xs) (use visited_subset in fastforce)+

lemma visited_all_or_stop: "set (visited S xs) = set xs \<or> visited S xs \<noteq> [] \<and> S (last (visited S xs))"
  by (induction xs) auto

lemma visited_before_stop: "x \<in> set (butlast (visited S xs)) \<Longrightarrow> \<not> S x"
  by (induction xs) (auto split: if_splits)

context hash_contract
begin

lemma traverse_loop_clears:
  assumes "serves h" "distinct slots" "set slots \<subseteq> {..<ht_size h}"
  shows "\<exists>h'. traverse_loop slots (collect_and_clear Q S) acc h
      = (rev (visited S (filter live (map ((!) (entries h)) slots))) @ acc, h') \<and> serves h'
    \<and> elements_of h' = elements_of h - {x \<in> set (visited S (filter live (map ((!) (entries h)) slots))). Q x}"
  using assms
proof (induction slots arbitrary: h acc)
  case (Cons i slots)
  define x where "x = entries h ! i"
  define h1 where "h1 = (if live x \<and> Q x then snd (delete_slot h i) else h)"
  have i: "i < ht_size h" "i \<notin> set slots" using Cons.prems by auto
  have h1: "serves h1" "elements_of h1 = elements_of h - (if live x \<and> Q x then {x} else {})" "ht_size h1 = ht_size h"
    using delete_slot_ok [OF Cons.prems(1) i(1)] Cons.prems(1) by (auto simp: h1_def x_def delete_slot_def)
  have rest: "map ((!) (entries h1)) slots = map ((!) (entries h)) slots"
  proof (intro map_cong refl)
    fix j assume "j \<in> set slots"
    then have "i \<noteq> j" using i(2) by blast
    then show "entries h1 ! j = entries h ! j" by (simp add: h1_def delete_slot_def)
  qed
  define V where "V = visited S (filter live (map ((!) (entries h)) slots))"
  have "traverse_loop (i # slots) (collect_and_clear Q S) acc h =
      (if live x \<and> S x then (x # acc, h1)
       else traverse_loop slots (collect_and_clear Q S) (if live x then x # acc else acc) h1)"
    by (simp add: collect_and_clear_def x_def h1_def)
  moreover obtain h' where "traverse_loop slots (collect_and_clear Q S) (if live x then x # acc else acc) h1
      = (rev V @ (if live x then x # acc else acc), h')" "serves h'"
      "elements_of h' = elements_of h1 - {x \<in> set V. Q x}"
    using Cons.IH [OF h1(1), of "if live x then x # acc else acc"] Cons.prems(2,3) h1(3) unfolding rest V_def by auto
  moreover have "visited S (filter live (map ((!) (entries h)) (i # slots)))
      = (if live x then x # (if S x then [] else V) else V)"
    by (simp add: x_def V_def)
  ultimately show ?case using h1(1,2) by (cases "live x"; cases "S x"; cases "Q x") auto
qed simp

lemma traverse_noresize_spec:
  assumes h: "serves h"
  shows "\<exists>xs h'. htab_traverse_noresize h (collect_and_clear Q S) [] = (xs, h') \<and> serves h' \<and> distinct xs
    \<and> set xs \<subseteq> elements_of h \<and> (set xs = elements_of h \<or> xs \<noteq> [] \<and> S (hd xs)) \<and> (\<forall>x\<in>set (tl xs). \<not> S x)
    \<and> elements_of h' = elements_of h - {x \<in> set xs. Q x}"
proof -
  have len: "length (entries h) = ht_size h" and d: "distinct (filter live (entries h))"
    using h by (simp_all add: serves_def htab_ok_def table_ok_def unique_entries_def)
  have m: "map ((!) (entries h)) [0..<ht_size h] = entries h" unfolding len [symmetric] by (rule map_nth)
  define ys where "ys = filter live (entries h)"
  define v where "v = visited S ys"
  obtain h' where h': "htab_traverse_noresize h (collect_and_clear Q S) [] = (rev v, h')"
      "serves h'" "elements_of h' = elements_of h - {x \<in> set (rev v). Q x}"
    using traverse_loop_clears [OF h distinct_upt, of 0 "ht_size h" Q S "[]"] unfolding m
    by (auto simp: lessThan_atLeast0 htab_traverse_noresize_def v_def ys_def)
  have e: "elements_of h = set ys" by (auto simp: elements_of_def ys_def)
  have "distinct (rev v)" "set (rev v) \<subseteq> elements_of h" "set (rev v) = elements_of h \<or> rev v \<noteq> [] \<and> S (hd (rev v))"
    using visited_distinct [OF d, of S] visited_subset [of S ys] visited_all_or_stop [of S ys] unfolding v_def e
    by (simp_all add: hd_rev ys_def [symmetric])
  moreover have "\<forall>x\<in>set (tl (rev v)). \<not> S x"
    using butlast_rev [of "rev v"] visited_before_stop [of _ S ys] unfolding v_def by (metis rev_rev_ident set_rev)
  ultimately show ?thesis using h' by blast
qed

end

text \<open>
  C32: \<open>htab_traverse\<close> calls its callback on every element exactly once, whether or not it resizes the
  table first and whether or not the allocation succeeds; a callback may clear the slot it is given,
  and then exactly those elements are gone afterwards. It ends early only if the callback asks for it,
  and then no further element is seen: the list has the elements seen, the latest first.
  \<open>htab_delete\<close> calls the cleanup function on every element exactly once.
\<close>

theorem htab_traverse_once:
  assumes "hash_contract hash eq" "htab_ok h" "hash_f h = hash" "eq_f h = eq" "card (elements_of h) \<le> 1073741823"
  shows "(\<exists>xs h'. htab_traverse alloc_ok h (collect_and_clear Q S) [] = Some (Inr (xs, h')) \<and> htab_ok h' \<and> distinct xs
      \<and> set xs \<subseteq> elements_of h \<and> (set xs = elements_of h \<or> xs \<noteq> [] \<and> S (hd xs)) \<and> (\<forall>x\<in>set (tl xs). \<not> S x)
      \<and> elements_of h' = elements_of h - {x \<in> set xs. Q x})
    \<and> (del_f h \<longrightarrow> distinct (htab_delete h) \<and> set (htab_delete h) = elements_of h)"
proof -
  note hc = assms(1)
  note sd = hash_contract.serves_def [OF hc]
  have h: "hash_contract.serves hash eq h" using assms sd by simp
  have "\<exists>ok h1. (if htab_elements h * 8 < ht_size h then htab_expand alloc_ok h else Some (Inr (True, h))) = Some (Inr (ok, h1))
      \<and> hash_contract.serves hash eq h1 \<and> elements_of h1 = elements_of h"
    using h htab_expand_ok [OF assms(2,5)] assms(3,4)
    by (cases alloc_ok) (auto simp: sd same_functions_def)
  then obtain ok h1 where h1: "(if htab_elements h * 8 < ht_size h then htab_expand alloc_ok h else Some (Inr (True, h)))
      = Some (Inr (ok, h1))" "hash_contract.serves hash eq h1" "elements_of h1 = elements_of h"
    by blast
  obtain xs h' where t: "htab_traverse_noresize h1 (collect_and_clear Q S) [] = (xs, h')" "hash_contract.serves hash eq h'"
      "distinct xs" "set xs \<subseteq> elements_of h" "set xs = elements_of h \<or> xs \<noteq> [] \<and> S (hd xs)" "\<forall>x\<in>set (tl xs). \<not> S x"
      "elements_of h' = elements_of h - {x \<in> set xs. Q x}"
    using hash_contract.traverse_noresize_spec [OF hc h1(2), of Q S] unfolding h1(3) by blast
  have "htab_traverse alloc_ok h (collect_and_clear Q S) [] = Some (Inr (xs, h'))"
    unfolding htab_traverse_def h1(1) by (simp add: t(1))
  moreover have "distinct (htab_delete h) \<and> set (htab_delete h) = elements_of h" if "del_f h"
  proof -
    have "length (entries h) = ht_size h" "ht_size h \<le> 2147483647" "distinct (filter live (entries h))"
      using assms(2) size_range(2) [of h] by (simp_all add: htab_ok_def table_ok_def unique_entries_def)
    then show ?thesis using that by (auto simp: htab_delete_def cleanup_calls_def rev_filter [symmetric] elements_of_def)
  qed
  ultimately show ?thesis using t(2-7) sd by blast
qed

lemma pointer_table_with_two:
  "\<exists>h. htab_ok h \<and> hash_f h = hash_pointer \<and> eq_f h = eq_pointer \<and> elements_of h = {72, 168}"
proof -
  obtain h0 where h0: "pointer_hash.serves h0" "elements_of h0 = {}"
    using pointer_hash.create_spec [of 10 False] by auto
  have "ops_allowed eq_pointer [Store 72, Store 168] {}"
    by (simp add: eq_pointer_def live_def HTAB_EMPTY_ENTRY_def HTAB_DELETED_ENTRY_def)
  moreover have "fold (spec_op eq_pointer) [Store 72, Store 168] {} = {72, 168}" by (auto simp: eq_pointer_def)
  ultimately obtain h where "pointer_hash.serves h" "elements_of h = {72, 168}"
    using pointer_hash.run_ops_spec [OF h0(1), of "[Store 72, Store 168]"] h0(2) by auto
  then show ?thesis by (auto simp: pointer_hash.serves_def)
qed

theorem htab_traverse_once_witness:
  "\<exists>h xs h'. htab_ok h \<and> elements_of h = {72, 168} \<and>
    htab_traverse True h (collect_and_clear (\<lambda>x. x = 72) (\<lambda>x. False)) [] = Some (Inr (xs, h')) \<and>
    distinct xs \<and> set xs = {72, 168} \<and> elements_of h' = {168}"
proof -
  obtain h where h: "htab_ok h" "hash_f h = hash_pointer" "eq_f h = eq_pointer" "elements_of h = {72, 168}"
    using pointer_table_with_two by blast
  obtain xs h' where "htab_traverse True h (collect_and_clear (\<lambda>x. x = 72) (\<lambda>x. False)) [] = Some (Inr (xs, h'))"
      "distinct xs" "set xs = {72, 168}" "elements_of h' = {72, 168} - {x \<in> set xs. x = 72}"
    using htab_traverse_once [OF pointer_hash.hash_contract_axioms h(1-3), of True "\<lambda>x. x = 72" "\<lambda>x. False"]
    by (auto simp: h(4))
  moreover from this have "elements_of h' = {168}" by auto
  ultimately show ?thesis using h(1,4) by blast
qed

end
