(* ===== verification/Partition.thy ===== *)
theory Partition
  imports Gcc_Prelude
begin

text \<open>
  Disjoint sets, \<open>src/libiberty/partition.c\<close>: every element names the canonical element of its class,
  and the elements of a class form a circular list through \<open>next\<close>, a pointer into the array of
  elements that is an index here. The theory shows that \<open>partition_union\<close> ends and merges exactly the two
  classes, what \<open>partition_print\<close> prints, and that the list it relabels need not be the shorter one.
\<close>

section \<open>Data and operations\<close>

record partition_elem =
  class_element :: nat
  next_elem :: nat
  class_count :: nat

record partition =
  num_elements :: nat
  elements :: "partition_elem list"

definition partition_new :: "nat \<Rightarrow> partition" where
  "partition_new n =
     \<lparr>num_elements = n,
      elements = map (\<lambda>e. \<lparr>class_element = e, next_elem = e, class_count = 1\<rparr>) [0..<n]\<rparr>"

definition partition_find :: "partition \<Rightarrow> nat \<Rightarrow> nat" where
  "partition_find part e = class_element (elements part ! e)"

definition set_class :: "partition_elem list \<Rightarrow> nat \<Rightarrow> nat \<Rightarrow> partition_elem list" where
  "set_class els p c = els[p := (els ! p)\<lparr>class_element := c\<rparr>]"

text \<open>The loop over the circular list of \<open>e2\<close>, from its successor until it is back.\<close>

fun relabel :: "nat \<Rightarrow> partition_elem list \<Rightarrow> nat \<Rightarrow> nat \<Rightarrow> nat \<Rightarrow> partition_elem list search" where
  "relabel 0 els e2 c p = None"
| "relabel (Suc fuel) els e2 c p =
     (if p = e2 then Some (Inr els)
      else if length els \<le> p then Some (Inl Undefined)
      else relabel fuel (set_class els p c) e2 c (next_elem (els ! p)))"

text \<open>
  The union. A list of \<open>num_elements\<close> elements has no longer cycle than that, so this is the fuel.
\<close>

definition splice :: "partition_elem list \<Rightarrow> nat \<Rightarrow> nat \<Rightarrow> partition_elem list" where
  "splice els e1 e2 =
     (let old_next = next_elem (els ! e1);
          els = els[e1 := (els ! e1)\<lparr>next_elem := next_elem (els ! e2)\<rparr>]
      in els[e2 := (els ! e2)\<lparr>next_elem := old_next\<rparr>])"

definition unite_classes :: "partition \<Rightarrow> nat \<Rightarrow> nat \<Rightarrow> (nat \<times> partition) search" where
  "unite_classes part e1 e2 =
     (let els = elements part;
          c = class_element (els ! e1);
          els = els[c := (els ! c)\<lparr>class_count := class_count (els ! c) + class_count (els ! class_element (els ! e2))\<rparr>];
          els = set_class els e2 c
      in and_then (relabel (num_elements part) els e2 c (next_elem (els ! e2)))
           (\<lambda>els. Some (Inr (c, part\<lparr>elements := splice els e1 e2\<rparr>))))"

definition partition_union :: "partition \<Rightarrow> nat \<Rightarrow> nat \<Rightarrow> (nat \<times> partition) search" where
  "partition_union part elem1 elem2 =
     (let els = elements part
      in if num_elements part \<le> elem1 \<or> num_elements part \<le> elem2 then Some (Inl Undefined)
         else if class_element (els ! elem1) = class_element (els ! elem2)
         then Some (Inr (class_element (els ! elem1), part))
         else if class_count (els ! elem1) < class_count (els ! elem2) then unite_classes part elem2 elem1
         else unite_classes part elem1 elem2)"

text \<open>The printer: the sorted classes in the order of their first elements, and the text.\<close>

fun collect_class :: "partition_elem list \<Rightarrow> nat \<Rightarrow> nat \<Rightarrow> nat list" where
  "collect_class els c 0 = []"
| "collect_class els c (Suc i) = c # collect_class els (next_elem (els ! c)) i"

fun printed_classes :: "partition_elem list \<Rightarrow> nat list \<Rightarrow> nat set \<Rightarrow> nat list list" where
  "printed_classes els [] seen = []"
| "printed_classes els (e # es) seen =
     (if e \<in> seen then printed_classes els es seen
      else
        (let cls = collect_class els e (class_count (els ! class_element (els ! e)))
         in sort cls # printed_classes els es (seen \<union> set cls)))"

fun spaced :: "string list \<Rightarrow> string" where
  "spaced [] = []"
| "spaced [x] = x"
| "spaced (x # y # xs) = x @ '' '' @ spaced (y # xs)"

definition partition_print :: "partition \<Rightarrow> string" where
  "partition_print part =
     ''['' @ concat (map (\<lambda>cls. ''('' @ spaced (map dec_string cls) @ '')'')
                     (printed_classes (elements part) [0..<num_elements part] {})) @ '']''"

section \<open>Circular lists\<close>

primrec path :: "(nat \<Rightarrow> nat) \<Rightarrow> nat \<Rightarrow> nat list \<Rightarrow> nat \<Rightarrow> bool" where
  "path nx x [] y \<longleftrightarrow> x = y"
| "path nx x (a # as) y \<longleftrightarrow> x = a \<and> path nx (nx a) as y"

lemma path_append [simp]: "path nx x (as @ bs) z \<longleftrightarrow> (\<exists>y. path nx x as y \<and> path nx y bs z)"
  by (induction as arbitrary: x) auto

lemma path_cong: "(\<And>a. a \<in> set as \<Longrightarrow> nx a = nx' a) \<Longrightarrow> path nx x as y = path nx' x as y"
  by (induction as arbitrary: x) auto

lemma path_upd [simp]: "u \<notin> set as \<Longrightarrow> path (nx(u := v)) x as y = path nx x as y"
  by (rule path_cong) auto

definition cycle :: "(nat \<Rightarrow> nat) \<Rightarrow> nat \<Rightarrow> nat list \<Rightarrow> bool" where
  "cycle nx e es \<longleftrightarrow> path nx e (e # es) e \<and> distinct (e # es)"

text \<open>A cycle can be entered at each of its elements.\<close>

lemma cycle_rotate:
  assumes "cycle nx e es" "f \<in> insert e (set es)"
  shows "\<exists>fs. cycle nx f fs \<and> insert f (set fs) = insert e (set es) \<and> length fs = length es"
proof (cases "f = e")
  case False
  then obtain as bs where "es = as @ f # bs" using assms(2) split_list [of f es] by auto
  then have "cycle nx f (bs @ e # as)" using assms(1) by (auto simp: cycle_def)
  then show ?thesis using \<open>es = _\<close> by (intro exI [of _ "bs @ e # as"]) auto
qed (use assms(1) in blast)

text \<open>Exchanging the successors of two elements joins their cycles.\<close>

lemma cycle_splice:
  assumes "cycle nx e1 es1" "cycle nx e2 es2" "insert e1 (set es1) \<inter> insert e2 (set es2) = {}"
  shows "cycle (nx(e1 := nx e2, e2 := nx e1)) e1 (es2 @ e2 # es1)"
  using assms by (auto simp: cycle_def fun_upd_twist)

section \<open>The invariant\<close>

abbreviation nxt :: "partition \<Rightarrow> nat \<Rightarrow> nat" where
  "nxt P i \<equiv> next_elem (elements P ! i)"

definition class_of :: "partition \<Rightarrow> nat \<Rightarrow> nat set" where
  "class_of P c = {j. j < num_elements P \<and> partition_find P j = c}"

definition partition_ok :: "partition \<Rightarrow> bool" where
  "partition_ok P \<longleftrightarrow> length (elements P) = num_elements P \<and>
     (\<forall>i<num_elements P. partition_find P i < num_elements P \<and> partition_find P (partition_find P i) = partition_find P i
        \<and> (\<exists>es. cycle (nxt P) i es \<and> insert i (set es) = class_of P (partition_find P i)
             \<and> class_count (elements P ! partition_find P i) = Suc (length es)))"

lemma partition_okD:
  assumes "partition_ok P" "i < num_elements P"
  obtains es where "cycle (nxt P) i es" "insert i (set es) = class_of P (partition_find P i)"
    "class_count (elements P ! partition_find P i) = Suc (length es)"
  using assms by (auto simp: partition_ok_def)

lemma length_cycle:
  assumes "cycle nx e es" "insert e (set es) \<subseteq> {..<n}"
  shows "length es < n"
proof -
  have "Suc (length es) = card (insert e (set es))" using assms(1) distinct_card [of "e # es"] by (simp add: cycle_def)
  also have "\<dots> \<le> card {..<n}" by (rule card_mono [OF _ assms(2)]) simp
  finally show ?thesis by simp
qed

text \<open>The relabelling loop walks a path and changes the class of its elements.\<close>

lemma relabel_path:
  assumes "path (\<lambda>i. next_elem (els ! i)) p es e2" "distinct es" "e2 \<notin> set es" "\<forall>i\<in>set es. i < length els"
    "length es < fuel"
  shows "relabel fuel els e2 c p = Some (Inr (fold (\<lambda>i els. set_class els i c) es els))"
  using assms
proof (induction es arbitrary: p els fuel)
  case Nil
  then show ?case by (cases fuel) auto
next
  case (Cons a es)
  obtain fuel' where fuel: "fuel = Suc fuel'" using Cons.prems(5) by (cases fuel) auto
  have "(\<lambda>i. next_elem (set_class els a c ! i)) = (\<lambda>i. next_elem (els ! i))"
    using Cons.prems(4) by (auto simp: set_class_def nth_list_update)
  then have "path (\<lambda>i. next_elem (set_class els a c ! i)) (next_elem (els ! a)) es e2" using Cons.prems(1) by simp
  then have "relabel fuel' (set_class els a c) e2 c (next_elem (els ! a))
      = Some (Inr (fold (\<lambda>i els. set_class els i c) es (set_class els a c)))"
    using Cons.prems fuel by (intro Cons.IH) (auto simp: set_class_def)
  then show ?case using Cons.prems fuel by auto
qed

lemma fold_set_class:
  assumes "\<forall>i\<in>set es. i < length els" "j < length els"
  shows "fold (\<lambda>i els. set_class els i c) es els ! j
      = (if j \<in> set es then (els ! j)\<lparr>class_element := c\<rparr> else els ! j)"
    and "length (fold (\<lambda>i els. set_class els i c) es els) = length els"
  using assms by (induction es arbitrary: els) (auto simp: set_class_def nth_list_update)

section \<open>The union\<close>

text \<open>The elements after a union, field by field.\<close>

lemma unite_elements:
  assumes P: "partition_ok P" and e: "e1 < num_elements P" "e2 < num_elements P" "partition_find P e1 \<noteq> partition_find P e2"
  defines "c \<equiv> partition_find P e1" and "d \<equiv> partition_find P e2"
  shows "\<exists>P'. unite_classes P e1 e2 = Some (Inr (c, P')) \<and> num_elements P' = num_elements P
    \<and> length (elements P') = num_elements P'
    \<and> (\<forall>j<num_elements P. partition_find P' j = (if partition_find P j = d then c else partition_find P j)
         \<and> nxt P' j = ((nxt P)(e1 := nxt P e2, e2 := nxt P e1)) j
         \<and> class_count (elements P' ! j) = (if j = c then class_count (elements P ! c) + class_count (elements P ! d)
                                             else class_count (elements P ! j)))"
proof -
  have len: "length (elements P) = num_elements P" and c: "c < num_elements P"
    using P e(1) by (auto simp: partition_ok_def c_def)
  obtain es where es: "cycle (nxt P) e2 es" "insert e2 (set es) = class_of P d"
    using partition_okD [OF P e(2)] unfolding d_def by metis
  have sub: "insert e2 (set es) \<subseteq> {..<num_elements P}" using es(2) by (auto simp: class_of_def)
  define els1 where "els1 = (elements P)[c := (elements P ! c)\<lparr>class_count := class_count (elements P ! c) + class_count (elements P ! d)\<rparr>]"
  define els2 where "els2 = set_class els1 e2 c"
  define els3 where "els3 = fold (\<lambda>i els. set_class els i c) es els2"
  have len2: "length els2 = num_elements P" by (simp add: els2_def els1_def set_class_def len)
  have in2: "\<forall>i\<in>set es. i < length els2" using sub len2 by auto
  have els2: "els2 ! j = (elements P ! j)\<lparr>class_element := (if j = e2 then c else partition_find P j),
      class_count := (if j = c then class_count (elements P ! c) + class_count (elements P ! d) else class_count (elements P ! j))\<rparr>"
    if "j < num_elements P" for j
    using that c e(2) by (simp add: els2_def els1_def set_class_def len nth_list_update partition_find_def)
  have next2: "next_elem (els2 ! j) = nxt P j" if "j < num_elements P" for j using els2 [OF that] by simp
  have "path (nxt P) (nxt P e2) es e2" "distinct es" "e2 \<notin> set es" using es(1) by (auto simp: cycle_def)
  then have "path (\<lambda>i. next_elem (els2 ! i)) (next_elem (els2 ! e2)) es e2"
    using next2 sub e(2) by (subst path_cong [where nx' = "nxt P"]) auto
  then have relabelled: "relabel (num_elements P) els2 e2 c (next_elem (els2 ! e2)) = Some (Inr els3)"
    unfolding els3_def using \<open>distinct es\<close> \<open>e2 \<notin> set es\<close> in2 length_cycle [OF es(1) sub] by (intro relabel_path) auto
  have len3: "length els3 = num_elements P" and els3: "\<And>j. j < num_elements P \<Longrightarrow>
      els3 ! j = (if j \<in> set es then (els2 ! j)\<lparr>class_element := c\<rparr> else els2 ! j)"
    using fold_set_class [OF in2, of _ c] len2 c by (simp_all add: els3_def)
  define P' where "P' = P\<lparr>elements := splice els3 e1 e2\<rparr>"
  have "unite_classes P e1 e2 = Some (Inr (c, P'))"
    using relabelled unfolding unite_classes_def Let_def els1_def els2_def c_def d_def P'_def
    by (simp add: partition_find_def)
  moreover have "e1 \<noteq> e2" using e(3) by auto
  have "partition_find P' j = (if partition_find P j = d then c else partition_find P j)
         \<and> nxt P' j = ((nxt P)(e1 := nxt P e2, e2 := nxt P e1)) j
         \<and> class_count (elements P' ! j) = (if j = c then class_count (elements P ! c) + class_count (elements P ! d)
                                             else class_count (elements P ! j))" if j: "j < num_elements P" for j
  proof -
    have "j \<in> insert e2 (set es) \<longleftrightarrow> partition_find P j = d" using es(2) j by (auto simp: class_of_def)
    then show ?thesis
      using j e(1,2) \<open>e1 \<noteq> e2\<close> els3 els2
      by (auto simp: P'_def splice_def Let_def nth_list_update len3 partition_find_def)
  qed
  ultimately show ?thesis using len3 by (intro exI [of _ P']) (simp add: P'_def splice_def Let_def)
qed

lemma unite_classes_ok:
  assumes P: "partition_ok P" and e: "e1 < num_elements P" "e2 < num_elements P" "partition_find P e1 \<noteq> partition_find P e2"
  shows "\<exists>P'. unite_classes P e1 e2 = Some (Inr (partition_find P e1, P')) \<and> partition_ok P' \<and> num_elements P' = num_elements P
    \<and> (\<forall>j<num_elements P. partition_find P' j
         = (if partition_find P j = partition_find P e2 then partition_find P e1 else partition_find P j))"
proof -
  define c d n where "c = partition_find P e1" and "d = partition_find P e2" and "n = num_elements P"
  have cd: "c \<noteq> d" "c < n" "d < n" "partition_find P c = c" "partition_find P d = d"
    using P e by (auto simp: partition_ok_def c_def d_def n_def)
  obtain P' where u: "unite_classes P e1 e2 = Some (Inr (c, P'))" "num_elements P' = n" "length (elements P') = n"
    and find: "\<And>j. j < n \<Longrightarrow> partition_find P' j = (if partition_find P j = d then c else partition_find P j)"
    and nx: "\<And>j. j < n \<Longrightarrow> nxt P' j = ((nxt P)(e1 := nxt P e2, e2 := nxt P e1)) j"
    and cnt: "\<And>j. j < n \<Longrightarrow> class_count (elements P' ! j)
      = (if j = c then class_count (elements P ! c) + class_count (elements P ! d) else class_count (elements P ! j))"
    using unite_elements [OF P e] unfolding c_def [symmetric] d_def [symmetric] n_def [symmetric] by auto
  have cls: "class_of P' k = (if k = c then class_of P c \<union> class_of P d else if k = d then {} else class_of P k)" for k
    using find cd u(2) by (auto simp: class_of_def n_def [symmetric])
  obtain es1 where es1: "cycle (nxt P) e1 es1" "insert e1 (set es1) = class_of P c" "class_count (elements P ! c) = Suc (length es1)"
    using partition_okD [OF P e(1)] unfolding c_def by metis
  obtain es2 where es2: "cycle (nxt P) e2 es2" "insert e2 (set es2) = class_of P d" "class_count (elements P ! d) = Suc (length es2)"
    using partition_okD [OF P e(2)] unfolding d_def by metis
  have "insert e1 (set es1) \<inter> insert e2 (set es2) = {}" using es1(2) es2(2) cd(1) by (auto simp: class_of_def)
  from cycle_splice [OF es1(1) es2(1) this]
  have joined: "cycle ((nxt P)(e1 := nxt P e2, e2 := nxt P e1)) e1 (es2 @ e2 # es1)" .
  have cycle_cong: "cycle (nxt P') i fs = cycle ((nxt P)(e1 := nxt P e2, e2 := nxt P e1)) i fs"
    if "insert i (set fs) \<subseteq> {..<n}" for i fs
  proof -
    have "path (nxt P') i (i # fs) i = path ((nxt P)(e1 := nxt P e2, e2 := nxt P e1)) i (i # fs) i"
      by (rule path_cong, rule nx) (use that in auto)
    then show ?thesis by (simp only: cycle_def)
  qed
  have inside: "class_of P k \<subseteq> {..<n}" for k by (auto simp: class_of_def n_def)
  have "\<exists>fs. cycle (nxt P') i fs \<and> insert i (set fs) = class_of P' (partition_find P' i)
      \<and> class_count (elements P' ! partition_find P' i) = Suc (length fs)" if i: "i < n" for i
  proof (cases "partition_find P i \<in> {c, d}")
    case True
    then have fi: "partition_find P' i = c" using find [OF i] cd by auto
    have mem: "insert e1 (set (es2 @ e2 # es1)) = class_of P c \<union> class_of P d" using es1(2) es2(2) by auto
    moreover have "i \<in> class_of P c \<union> class_of P d" using True i by (auto simp: class_of_def n_def)
    ultimately obtain fs where "cycle ((nxt P)(e1 := nxt P e2, e2 := nxt P e1)) i fs"
        "insert i (set fs) = class_of P c \<union> class_of P d" "length fs = length (es2 @ e2 # es1)"
      using cycle_rotate [OF joined, of i] by auto
    then show ?thesis using cycle_cong [of i fs] inside [of c] inside [of d] cnt [OF cd(2)] es1(3) es2(3)
      by (intro exI [of _ fs]) (simp add: fi cls)
  next
    case False
    obtain fs where fs: "cycle (nxt P) i fs" "insert i (set fs) = class_of P (partition_find P i)"
        "class_count (elements P ! partition_find P i) = Suc (length fs)"
      using partition_okD [OF P] i unfolding n_def by metis
    have "e1 \<notin> insert i (set fs)" "e2 \<notin> insert i (set fs)" unfolding fs(2) using False by (auto simp: class_of_def c_def d_def)
    then have "cycle ((nxt P)(e1 := nxt P e2, e2 := nxt P e1)) i fs" using fs(1) by (auto simp: cycle_def)
    moreover have "partition_find P i < n" using P i by (auto simp: partition_ok_def n_def)
    ultimately show ?thesis
      using cycle_cong [of i fs] inside fs(2,3) False find [OF i] cnt by (intro exI [of _ fs]) (simp add: cls)
  qed
  moreover have "partition_find P' i < n \<and> partition_find P' (partition_find P' i) = partition_find P' i" if i: "i < n" for i
  proof -
    have "partition_find P i < n" "partition_find P (partition_find P i) = partition_find P i"
      using P i by (auto simp: partition_ok_def n_def)
    then show ?thesis using find i cd by auto
  qed
  ultimately have "partition_ok P'" using u(2,3) by (simp add: partition_ok_def)
  then show ?thesis using u find by (auto simp: c_def d_def n_def)
qed

lemma partition_new_ok: "partition_ok (partition_new n)"
proof -
  have els: "elements (partition_new n) ! i = \<lparr>class_element = i, next_elem = i, class_count = 1\<rparr>" if "i < n" for i
    using that by (simp add: partition_new_def)
  have "class_of (partition_new n) i = {i}" if "i < n" for i
    using that by (auto simp: class_of_def partition_find_def els partition_new_def)
  then have "\<exists>es. cycle (nxt (partition_new n)) i es \<and> insert i (set es) = class_of (partition_new n) i \<and> Suc 0 = Suc (length es)"
    if "i < n" for i using that els by (intro exI [of _ "[]"]) (simp add: cycle_def)
  then show ?thesis by (simp add: partition_ok_def partition_find_def els) (simp add: partition_new_def)
qed

lemma partition_union_ok:
  assumes P: "partition_ok P" and e: "a < num_elements P" "b < num_elements P"
  shows "\<exists>r P'. partition_union P a b = Some (Inr (r, P')) \<and> partition_ok P' \<and> num_elements P' = num_elements P
    \<and> r \<in> {partition_find P a, partition_find P b}
    \<and> (\<forall>j<num_elements P. partition_find P' j
         = (if partition_find P j \<in> {partition_find P a, partition_find P b} then r else partition_find P j))"
proof (cases "partition_find P a = partition_find P b")
  case True
  then show ?thesis using P e by (auto simp: partition_union_def partition_find_def)
next
  case False
  have "partition_union P a b = (if class_count (elements P ! a) < class_count (elements P ! b)
      then unite_classes P b a else unite_classes P a b)"
    using False e by (simp add: partition_union_def partition_find_def)
  then show ?thesis
    using unite_classes_ok [OF P e False] unite_classes_ok [OF P e(2,1) False [symmetric]] by auto
qed

section \<open>Reachable partitions\<close>

text \<open>The partitions a program can build, with the pairs it has united.\<close>

inductive partition_reachable :: "nat \<Rightarrow> partition \<Rightarrow> (nat \<times> nat) list \<Rightarrow> bool" for n where
  new: "partition_reachable n (partition_new n) []"
| union: "partition_reachable n P ps \<Longrightarrow> partition_union P a b = Some (Inr (r, P')) \<Longrightarrow>
    partition_reachable n P' (ps @ [(a, b)])"

definition connected :: "(nat \<times> nat) list \<Rightarrow> nat \<Rightarrow> nat \<Rightarrow> bool" where
  "connected ps i j \<longleftrightarrow> (i, j) \<in> (set ps \<union> (set ps)\<inverse>)\<^sup>*"

lemma connected_refl: "connected ps i i"
  by (simp add: connected_def)

lemma connected_sym: "connected ps i j \<Longrightarrow> connected ps j i"
proof -
  have "sym (set ps \<union> (set ps)\<inverse>)" by (simp add: sym_Un_converse)
  then show "connected ps i j \<Longrightarrow> connected ps j i" unfolding connected_def by (blast dest: sym_rtrancl symD)
qed

lemma connected_trans: "connected ps i j \<Longrightarrow> connected ps j k \<Longrightarrow> connected ps i k"
  by (simp add: connected_def)

lemma connected_snoc: "connected ps i j \<Longrightarrow> connected (ps @ [(a, b)]) i j" "connected (ps @ [(a, b)]) a b"
  by (auto simp: connected_def intro: rtrancl_mono [THEN subsetD, rotated])

text \<open>Connected elements have the same value of every function that united pairs agree on.\<close>

lemma connected_invariant:
  assumes "connected ps i j" "\<forall>(a, b)\<in>set ps. f a = f b"
  shows "f i = f j"
  using assms(1) unfolding connected_def
  by (induction rule: rtrancl_induct) (use assms(2) in auto)

lemma partition_reachable_spec:
  assumes "partition_reachable n P ps"
  shows "partition_ok P \<and> num_elements P = n \<and> (\<forall>(a, b)\<in>set ps. a < n \<and> b < n)
    \<and> (\<forall>i<n. \<forall>j<n. partition_find P i = partition_find P j \<longleftrightarrow> connected ps i j)"
  using assms
proof (induction rule: partition_reachable.induct)
  case new
  have "connected [] i j \<longleftrightarrow> i = j" for i j by (simp add: connected_def)
  moreover have "partition_find (partition_new n) i = i" if "i < n" for i
    using that by (simp add: partition_find_def partition_new_def)
  ultimately show ?case using partition_new_ok by (simp add: partition_new_def)
next
  case (union P ps a b r P')
  have P: "partition_ok P" "num_elements P = n" and ps: "\<forall>(a, b)\<in>set ps. a < n \<and> b < n"
    and IH: "\<And>i j. i < n \<Longrightarrow> j < n \<Longrightarrow> partition_find P i = partition_find P j \<longleftrightarrow> connected ps i j"
    using union.IH by auto
  have ab: "a < n" "b < n" using union.hyps(2) P(2) by (auto simp: partition_union_def Let_def split: if_splits)
  have P': "partition_ok P'" "num_elements P' = n" and r: "r \<in> {partition_find P a, partition_find P b}"
    and find: "\<And>j. j < n \<Longrightarrow> partition_find P' j
      = (if partition_find P j \<in> {partition_find P a, partition_find P b} then r else partition_find P j)"
    using partition_union_ok [OF P(1), of a b] ab P(2) union.hyps(2) by auto
  have "partition_find P' i = partition_find P' j \<longleftrightarrow> connected (ps @ [(a, b)]) i j" if ij: "i < n" "j < n" for i j
  proof
    define near where "near k \<longleftrightarrow> partition_find P k \<in> {partition_find P a, partition_find P b}" for k
    have to_a: "connected (ps @ [(a, b)]) k a" if "k < n" "near k" for k
      using that IH [OF that(1) ab(1)] IH [OF that(1) ab(2)] connected_snoc connected_sym connected_trans
      unfolding near_def by (metis insertE singletonD)
    assume eq: "partition_find P' i = partition_find P' j"
    show "connected (ps @ [(a, b)]) i j"
    proof (cases "near i \<and> near j")
      case True
      then show ?thesis using to_a ij connected_sym connected_trans by blast
    next
      case False
      then have "partition_find P i = partition_find P j"
        using eq find [OF ij(1)] find [OF ij(2)] r unfolding near_def by (auto split: if_splits)
      then show ?thesis using IH [OF ij] connected_snoc(1) by blast
    qed
  next
    assume "connected (ps @ [(a, b)]) i j"
    moreover have "partition_find P' x = partition_find P' y" if "(x, y) \<in> set (ps @ [(a, b)])" for x y
    proof (cases "(x, y) \<in> set ps")
      case True
      then have "x < n" "y < n" "partition_find P x = partition_find P y"
        using ps IH [of x y] by (auto simp: connected_def)
      then show ?thesis using find by simp
    qed (use that find [OF ab(1)] find [OF ab(2)] in auto)
    ultimately show "partition_find P' i = partition_find P' j"
      using connected_invariant [of "ps @ [(a, b)]" i j "partition_find P'"] by auto
  qed
  then show ?case using P' ab ps by auto
qed

section \<open>The printer\<close>

lemma collect_path: "path (\<lambda>i. next_elem (els ! i)) x as y \<Longrightarrow> collect_class els x (length as) = as"
  by (induction as arbitrary: x) auto

lemma collect_class_sorted:
  assumes "partition_ok P" "e < num_elements P"
  shows "set (collect_class (elements P) e (class_count (elements P ! partition_find P e))) = class_of P (partition_find P e)"
    and "sort (collect_class (elements P) e (class_count (elements P ! partition_find P e)))
      = sorted_list_of_set (class_of P (partition_find P e))"
proof -
  obtain es where es: "cycle (nxt P) e es" "insert e (set es) = class_of P (partition_find P e)"
      "class_count (elements P ! partition_find P e) = Suc (length es)"
    using partition_okD [OF assms] .
  have c: "collect_class (elements P) e (class_count (elements P ! partition_find P e)) = e # es"
    using collect_path [of "elements P" e "e # es" e] es(1,3) by (simp add: cycle_def)
  show "set (collect_class (elements P) e (class_count (elements P ! partition_find P e))) = class_of P (partition_find P e)"
    unfolding c using es(2) by simp
  have "distinct (e # es)" using es(1) by (simp add: cycle_def)
  then have "sort (e # es) = sorted_list_of_set (set (e # es))"
    by (simp only: sorted_list_of_set_sort_remdups distinct_remdups_id)
  then show "sort (collect_class (elements P) e (class_count (elements P ! partition_find P e)))
      = sorted_list_of_set (class_of P (partition_find P e))"
    unfolding c using es(2) by simp
qed

lemma printed_classes_spec:
  assumes P: "partition_ok P"
  shows "k \<le> num_elements P \<Longrightarrow>
    printed_classes (elements P) [k..<num_elements P] {j. j < num_elements P \<and> (\<exists>i<k. partition_find P i = partition_find P j)}
    = map (\<lambda>e. sorted_list_of_set (class_of P (partition_find P e)))
        (filter (\<lambda>e. \<forall>i<e. partition_find P i \<noteq> partition_find P e) [k..<num_elements P])"
proof (induction "num_elements P - k" arbitrary: k)
  case (Suc m)
  define seen where "seen k = {j. j < num_elements P \<and> (\<exists>i<k. partition_find P i = partition_find P j)}" for k
  have k: "k < num_elements P" using Suc.hyps(2) by simp
  have upt: "[k..<num_elements P] = k # [Suc k..<num_elements P]" using k by (simp add: upt_conv_Cons)
  have rest: "printed_classes (elements P) [Suc k..<num_elements P] (seen (Suc k))
    = map (\<lambda>e. sorted_list_of_set (class_of P (partition_find P e)))
        (filter (\<lambda>e. \<forall>i<e. partition_find P i \<noteq> partition_find P e) [Suc k..<num_elements P])"
    unfolding seen_def using Suc.hyps(2) k by (intro Suc.hyps(1)) auto
  have step: "seen (Suc k) = seen k \<union> class_of P (partition_find P k)"
    by (auto simp: seen_def class_of_def less_Suc_eq)
  have fresh: "k \<in> seen k \<longleftrightarrow> \<not> (\<forall>i<k. partition_find P i \<noteq> partition_find P k)" using k by (auto simp: seen_def)
  have same: "seen (Suc k) = seen k" if "k \<in> seen k" using that unfolding step by (auto simp: seen_def class_of_def)
  show ?case
  proof (cases "k \<in> seen k")
    case True
    then show ?thesis unfolding seen_def [symmetric] upt using rest fresh same [OF True] by auto
  next
    case False
    then have "printed_classes (elements P) (k # [Suc k..<num_elements P]) (seen k)
        = sorted_list_of_set (class_of P (partition_find P k)) # printed_classes (elements P) [Suc k..<num_elements P] (seen (Suc k))"
      using collect_class_sorted [OF P k] step by (simp add: partition_find_def [symmetric] Let_def)
    moreover have "filter (\<lambda>e. \<forall>i<e. partition_find P i \<noteq> partition_find P e) (k # [Suc k..<num_elements P])
        = k # filter (\<lambda>e. \<forall>i<e. partition_find P i \<noteq> partition_find P e) [Suc k..<num_elements P]"
      using fresh False by simp
    ultimately show ?thesis unfolding seen_def [symmetric] upt by (simp only: rest list.map)
  qed
qed simp

section \<open>Properties\<close>

text \<open>
  C17: Partitions compute connectivity. In every partition that unions can build from a new one, two
  elements have the same canonical element exactly when a chain of united pairs connects them; and
  from there every union of two elements ends, walks no pointer out of the array, and returns the
  canonical element of both.
\<close>

theorem partition_computes_connectivity:
  assumes "partition_reachable n P ps"
  shows "(\<forall>i<n. \<forall>j<n. partition_find P i = partition_find P j \<longleftrightarrow> connected ps i j) \<and>
    (\<forall>a<n. \<forall>b<n. \<exists>r P'. partition_union P a b = Some (Inr (r, P')) \<and> partition_reachable n P' (ps @ [(a, b)])
       \<and> r = partition_find P' a \<and> r = partition_find P' b)"
proof -
  have P: "partition_ok P" "num_elements P = n" using partition_reachable_spec [OF assms] by auto
  have "\<exists>r P'. partition_union P a b = Some (Inr (r, P')) \<and> partition_reachable n P' (ps @ [(a, b)])
       \<and> r = partition_find P' a \<and> r = partition_find P' b" if ab: "a < n" "b < n" for a b
  proof -
    obtain r P' where "partition_union P a b = Some (Inr (r, P'))" "\<forall>j<n. partition_find P' j
         = (if partition_find P j \<in> {partition_find P a, partition_find P b} then r else partition_find P j)"
      using partition_union_ok [OF P(1), of a b] ab P(2) by auto
    then show ?thesis using partition_reachable.union [OF assms] ab by auto
  qed
  then show ?thesis using partition_reachable_spec [OF assms] by blast
qed

theorem partition_computes_connectivity_witness:
  "\<exists>r P'. partition_union (partition_new 3) 0 2 = Some (Inr (r, P')) \<and> partition_find P' 0 = partition_find P' 2"
  using partition_computes_connectivity [OF partition_reachable.new, of 3, THEN conjunct2, rule_format, of 0 2] by auto

text \<open>
  \<open>partition_print\<close> prints, in the order of their smallest elements, every class once, as its
  elements in increasing order.
\<close>

theorem partition_print_classes:
  assumes "partition_reachable n P ps"
  shows "partition_print P =
    ''['' @ concat (map (\<lambda>e. ''('' @ spaced (map dec_string (sorted_list_of_set {j. j < n \<and> connected ps e j})) @ '')'')
                    (filter (\<lambda>e. \<forall>i<e. \<not> connected ps i e) [0..<n])) @ '']''"
proof -
  have P: "partition_ok P" "num_elements P = n"
    and con: "\<And>i j. i < n \<Longrightarrow> j < n \<Longrightarrow> partition_find P i = partition_find P j \<longleftrightarrow> connected ps i j"
    using partition_reachable_spec [OF assms] by auto
  have cls: "class_of P (partition_find P e) = {j. j < n \<and> connected ps e j}" if "e < n" for e
    using that con [of _ e] connected_sym P(2) by (auto simp: class_of_def)
  have first: "filter (\<lambda>e. \<forall>i<e. partition_find P i \<noteq> partition_find P e) [0..<n]
      = filter (\<lambda>e. \<forall>i<e. \<not> connected ps i e) [0..<n]"
    using con by (auto intro!: filter_cong)
  have "printed_classes (elements P) [0..<n] {}
      = map (\<lambda>e. sorted_list_of_set {j. j < n \<and> connected ps e j}) (filter (\<lambda>e. \<forall>i<e. \<not> connected ps i e) [0..<n])"
    using printed_classes_spec [OF P(1), of 0] cls unfolding P(2) first by (simp cong: map_cong)
  then show ?thesis by (simp add: partition_print_def P(2) comp_def)
qed

theorem partition_print_classes_witness:
  "partition_print (partition_new 2) =
    ''['' @ concat (map (\<lambda>e. ''('' @ spaced (map dec_string (sorted_list_of_set {j. j < 2 \<and> connected [] e j})) @ '')'')
                    (filter (\<lambda>e. \<forall>i<e. \<not> connected [] i e) [0..<2])) @ '']''"
  by (rule partition_print_classes [OF partition_reachable.new])

text \<open>
  The comment in \<open>partition_union\<close> says that the shorter list is scanned. The counts compared are those
  of the elements, which are only kept up for canonical ones: here the class of three is relabelled
  to the canonical element of a class of two.
\<close>

lemma partition_union_scans_longer:
  "(case run of Some (Inr (r, P)) \<Rightarrow> r = 3 \<and> map (partition_find P) [0..<5] = [3, 3, 3, 3, 3] | _ \<Rightarrow> False)"
  if "run = and_then (partition_union (partition_new 5) 0 1) (\<lambda>(_, P). and_then (partition_union P 0 2)
     (\<lambda>(_, P). and_then (partition_union P 3 4) (\<lambda>(_, P). partition_union P 1 3)))"
  unfolding that by code_simp

end
