(* ===== verification/Cpp_Num.thy ===== *)
theory Cpp_Num
  imports Double_Word
begin

text \<open>
  The numbers of \<open>#if\<close>, \<open>src/libcpp/expr.c\<close>: a \<open>cpp_num\<close> is a pair of words with a signedness and an overflow
  flag, computed with in a precision of at most 128 bits. This theory has the operations and shows
  what they compute: the exact result in the integers, wrapped around to the precision, with an
  overflow flag for the results that do not fit. Multiplication and division follow in their own
  theory.
\<close>

section \<open>Data\<close>

record cpp_num =
  cn_high :: hwi
  cn_low :: hwi
  unsignedp :: bool
  overflow :: bool

datatype cpp_op =
  CPP_EQ | CPP_NOT | CPP_GREATER | CPP_LESS | CPP_PLUS | CPP_MINUS | CPP_MULT | CPP_DIV | CPP_MOD
| CPP_AND | CPP_OR | CPP_XOR | CPP_RSHIFT | CPP_LSHIFT | CPP_COMPL | CPP_AND_AND | CPP_OR_OR
| CPP_QUERY | CPP_COLON | CPP_COMMA | CPP_OPEN_PAREN | CPP_CLOSE_PAREN | CPP_EOF | CPP_EQ_EQ
| CPP_NOT_EQ | CPP_GREATER_EQ | CPP_LESS_EQ | CPP_UPLUS | CPP_UMINUS

text \<open>
  What the expression code uses of \<open>cpp_reader\<close>: its options, the state of the evaluation, and
  the calls of \<open>cpp_error\<close>, each with its level and its format, in order.
\<close>

datatype cpp_level = CPP_DL_WARNING | CPP_DL_PEDWARN | CPP_DL_ERROR | CPP_DL_ICE

record cpp_reader =
  cpp_precision :: nat
  pedantic :: bool
  c99 :: bool
  warn_traditional :: bool
  warn_num_sign_change :: bool
  skip_eval :: uint32
  diagnostics :: "(cpp_level \<times> string) list"

definition cpp_error :: "cpp_reader \<Rightarrow> cpp_level \<Rightarrow> string \<Rightarrow> cpp_reader" where
  "cpp_error pfile level msgid = pfile\<lparr>diagnostics := diagnostics pfile @ [(level, msgid)]\<rparr>"

abbreviation PART_PRECISION :: nat where
  "PART_PRECISION \<equiv> 64"

definition num_zerop :: "cpp_num \<Rightarrow> bool" where
  "num_zerop num \<longleftrightarrow> cn_low num OR cn_high num = 0"

definition num_eq :: "cpp_num \<Rightarrow> cpp_num \<Rightarrow> bool" where
  "num_eq num1 num2 \<longleftrightarrow> cn_low num1 = cn_low num2 \<and> cn_high num1 = cn_high num2"

definition LOW_PART :: "hwi \<Rightarrow> hwi" where
  "LOW_PART x = x AND drop_bit 32 (NOT 0)"

definition HIGH_PART :: "hwi \<Rightarrow> hwi" where
  "HIGH_PART x = drop_bit 32 x"

section \<open>Sign and precision\<close>

definition num_trim :: "cpp_num \<Rightarrow> nat \<Rightarrow> cpp_num" where
  "num_trim num precision =
     (if precision > PART_PRECISION then
        (let precision = precision - PART_PRECISION
         in if precision < PART_PRECISION
            then num\<lparr>cn_high := cn_high num AND (push_bit precision 1 - 1)\<rparr> else num)
      else
        (let num = (if precision < PART_PRECISION
                    then num\<lparr>cn_low := cn_low num AND (push_bit precision 1 - 1)\<rparr> else num)
         in num\<lparr>cn_high := 0\<rparr>))"

definition num_positive :: "cpp_num \<Rightarrow> nat \<Rightarrow> bool" where
  "num_positive num precision \<longleftrightarrow>
     (if precision > PART_PRECISION
      then cn_high num AND push_bit (precision - PART_PRECISION - 1) 1 = 0
      else cn_low num AND push_bit (precision - 1) 1 = 0)"

definition cpp_num_sign_extend :: "cpp_num \<Rightarrow> nat \<Rightarrow> cpp_num" where
  "cpp_num_sign_extend num precision =
     (if \<not> unsignedp num then
        (if precision > PART_PRECISION then
           (let precision = precision - PART_PRECISION
            in if precision < PART_PRECISION \<and> cn_high num AND push_bit (precision - 1) 1 \<noteq> 0
               then num\<lparr>cn_high := cn_high num OR NOT (drop_bit (PART_PRECISION - precision) (NOT 0))\<rparr> else num)
         else if cn_low num AND push_bit (precision - 1) 1 \<noteq> 0 then
           (let num = (if precision < PART_PRECISION
                       then num\<lparr>cn_low := cn_low num OR NOT (drop_bit (PART_PRECISION - precision) (NOT 0))\<rparr> else num)
            in num\<lparr>cn_high := NOT 0\<rparr>)
         else num)
      else num)"

definition num_negate :: "cpp_num \<Rightarrow> nat \<Rightarrow> cpp_num" where
  "num_negate num precision =
     (let copy = num;
          num = num\<lparr>cn_high := NOT (cn_high num), cn_low := NOT (cn_low num)\<rparr>;
          num = num\<lparr>cn_low := cn_low num + 1\<rparr>;
          num = (if cn_low num = 0 then num\<lparr>cn_high := cn_high num + 1\<rparr> else num);
          num = num_trim num precision
      in num\<lparr>overflow := \<not> unsignedp num \<and> num_eq num copy \<and> \<not> num_zerop num\<rparr>)"

section \<open>Comparisons and bitwise operations\<close>

definition num_greater_eq :: "cpp_num \<Rightarrow> cpp_num \<Rightarrow> nat \<Rightarrow> bool" where
  "num_greater_eq pa pb precision \<longleftrightarrow>
     (if \<not> (unsignedp pa \<or> unsignedp pb) \<and> num_positive pa precision \<noteq> num_positive pb precision
      then num_positive pa precision
      else cn_high pa > cn_high pb \<or> cn_high pa = cn_high pb \<and> cn_low pa \<ge> cn_low pb)"

definition num_bitwise_op :: "cpp_num \<Rightarrow> cpp_num \<Rightarrow> cpp_op \<Rightarrow> cpp_num" where
  "num_bitwise_op lhs rhs opn =
     (let lhs = lhs\<lparr>overflow := False, unsignedp := unsignedp lhs \<or> unsignedp rhs\<rparr>
      in if opn = CPP_AND
         then lhs\<lparr>cn_low := cn_low lhs AND cn_low rhs, cn_high := cn_high lhs AND cn_high rhs\<rparr>
         else if opn = CPP_OR
         then lhs\<lparr>cn_low := cn_low lhs OR cn_low rhs, cn_high := cn_high lhs OR cn_high rhs\<rparr>
         else lhs\<lparr>cn_low := cn_low lhs XOR cn_low rhs, cn_high := cn_high lhs XOR cn_high rhs\<rparr>)"

definition truth :: "bool \<Rightarrow> cpp_num" where
  "truth b = \<lparr>cn_high = 0, cn_low = of_bool b, unsignedp = False, overflow = False\<rparr>"

definition num_inequality_op :: "cpp_num \<Rightarrow> cpp_num \<Rightarrow> nat \<Rightarrow> cpp_op \<Rightarrow> cpp_num" where
  "num_inequality_op lhs rhs precision opn =
     (let gte = num_greater_eq lhs rhs precision
      in truth (if opn = CPP_GREATER_EQ then gte
                else if opn = CPP_LESS then \<not> gte
                else if opn = CPP_GREATER then gte \<and> \<not> num_eq lhs rhs
                else \<not> gte \<or> num_eq lhs rhs))"

definition num_equality_op :: "cpp_num \<Rightarrow> cpp_num \<Rightarrow> cpp_op \<Rightarrow> cpp_num" where
  "num_equality_op lhs rhs opn =
     (let eq = num_eq lhs rhs; eq = (if opn = CPP_NOT_EQ then \<not> eq else eq) in truth eq)"

section \<open>Shifts\<close>

definition num_rshift :: "cpp_num \<Rightarrow> nat \<Rightarrow> nat \<Rightarrow> cpp_num" where
  "num_rshift num precision n =
     (let x = num_positive num precision;
          sign_mask = (if unsignedp num \<or> x then 0 else NOT 0);
          num =
            (if n \<ge> precision then num\<lparr>cn_high := sign_mask, cn_low := sign_mask\<rparr>
             else
               (let num = (if precision < PART_PRECISION
                           then num\<lparr>cn_high := sign_mask, cn_low := cn_low num OR push_bit precision sign_mask\<rparr>
                           else if precision < 2 * PART_PRECISION
                           then num\<lparr>cn_high := cn_high num OR push_bit (precision - PART_PRECISION) sign_mask\<rparr>
                           else num);
                    (num, n) = (if n \<ge> PART_PRECISION
                                then (num\<lparr>cn_low := cn_high num, cn_high := sign_mask\<rparr>, n - PART_PRECISION)
                                else (num, n))
                in if n \<noteq> 0
                   then num\<lparr>cn_low := drop_bit n (cn_low num) OR push_bit (PART_PRECISION - n) (cn_high num),
                            cn_high := drop_bit n (cn_high num) OR push_bit (PART_PRECISION - n) sign_mask\<rparr>
                   else num))
      in (num_trim num precision)\<lparr>overflow := False\<rparr>)"

definition num_lshift :: "cpp_num \<Rightarrow> nat \<Rightarrow> nat \<Rightarrow> cpp_num" where
  "num_lshift num precision n =
     (if n \<ge> precision
      then num\<lparr>overflow := \<not> unsignedp num \<and> \<not> num_zerop num, cn_high := 0, cn_low := 0\<rparr>
      else
        (let orig = num;
             (num, m) = (if n \<ge> PART_PRECISION
                         then (num\<lparr>cn_high := cn_low num, cn_low := 0\<rparr>, n - PART_PRECISION) else (num, n));
             num = (if m \<noteq> 0
                    then num\<lparr>cn_high := push_bit m (cn_high num) OR drop_bit (PART_PRECISION - m) (cn_low num),
                             cn_low := push_bit m (cn_low num)\<rparr>
                    else num);
             num = num_trim num precision
         in if unsignedp num then num\<lparr>overflow := False\<rparr>
            else num\<lparr>overflow := \<not> num_eq orig (num_rshift num precision n)\<rparr>))"

section \<open>Arithmetic\<close>

definition num_unary_op :: "cpp_reader \<Rightarrow> cpp_num \<Rightarrow> cpp_op \<Rightarrow> cpp_num \<times> cpp_reader" where
  "num_unary_op pfile num opn =
     (case opn of
        CPP_UPLUS \<Rightarrow>
          (num\<lparr>overflow := False\<rparr>,
           if warn_traditional pfile \<and> skip_eval pfile = 0
           then cpp_error pfile CPP_DL_WARNING ''traditional C rejects the unary plus operator'' else pfile)
      | CPP_UMINUS \<Rightarrow> (num_negate num (cpp_precision pfile), pfile)
      | CPP_COMPL \<Rightarrow>
          ((num_trim (num\<lparr>cn_high := NOT (cn_high num), cn_low := NOT (cn_low num)\<rparr>) (cpp_precision pfile))\<lparr>overflow := False\<rparr>,
           pfile)
      | _ \<Rightarrow> (truth (num_zerop num), pfile))"

definition num_add :: "cpp_num \<Rightarrow> cpp_num \<Rightarrow> nat \<Rightarrow> cpp_num" where
  "num_add lhs rhs precision =
     (let low = cn_low lhs + cn_low rhs;
          high = cn_high lhs + cn_high rhs;
          high = (if low < cn_low lhs then high + 1 else high);
          result = num_trim \<lparr>cn_high = high, cn_low = low, unsignedp = unsignedp lhs \<or> unsignedp rhs, overflow = False\<rparr> precision
      in if \<not> unsignedp result then
           (let lhsp = num_positive lhs precision
            in result\<lparr>overflow := lhsp = num_positive rhs precision \<and> lhsp \<noteq> num_positive result precision\<rparr>)
         else result)"

text \<open>The shift count \<open>~0\<close> is the largest \<open>size_t\<close>.\<close>

definition num_shift_op :: "cpp_num \<Rightarrow> cpp_num \<Rightarrow> nat \<Rightarrow> cpp_op \<Rightarrow> cpp_num" where
  "num_shift_op lhs rhs precision opn =
     (let (opn, rhs) = (if \<not> unsignedp rhs \<and> \<not> num_positive rhs precision
                        then (if opn = CPP_LSHIFT then CPP_RSHIFT else CPP_LSHIFT, num_negate rhs precision)
                        else (opn, rhs));
          n = (if cn_high rhs \<noteq> 0 then 2 ^ 64 - 1 else unat (cn_low rhs))
      in if opn = CPP_LSHIFT then num_lshift lhs precision n else num_rshift lhs precision n)"

definition num_binary_op :: "cpp_reader \<Rightarrow> cpp_num \<Rightarrow> cpp_num \<Rightarrow> cpp_op \<Rightarrow> cpp_num \<times> cpp_reader" where
  "num_binary_op pfile lhs rhs opn =
     (if opn = CPP_LSHIFT \<or> opn = CPP_RSHIFT then (num_shift_op lhs rhs (cpp_precision pfile) opn, pfile)
      else if opn = CPP_MINUS then (num_add lhs (num_negate rhs (cpp_precision pfile)) (cpp_precision pfile), pfile)
      else if opn = CPP_PLUS then (num_add lhs rhs (cpp_precision pfile), pfile)
      else
        (rhs,
         if pedantic pfile \<and> (\<not> c99 pfile \<or> skip_eval pfile = 0)
         then cpp_error pfile CPP_DL_PEDWARN ''comma operator in operand of #if'' else pfile))"

definition num_part_mul :: "hwi \<Rightarrow> hwi \<Rightarrow> cpp_num" where
  "num_part_mul lhs rhs =
     (let low = LOW_PART lhs * LOW_PART rhs;
          high = HIGH_PART lhs * HIGH_PART rhs;
          middle0 = LOW_PART lhs * HIGH_PART rhs;
          middle1 = HIGH_PART lhs * LOW_PART rhs;
          temp = low;
          low = low + push_bit 32 (LOW_PART middle0);
          high = (if low < temp then high + 1 else high);
          temp = low;
          low = low + push_bit 32 (LOW_PART middle1);
          high = (if low < temp then high + 1 else high);
          high = high + HIGH_PART middle0;
          high = high + HIGH_PART middle1
      in \<lparr>cn_high = high, cn_low = low, unsignedp = True, overflow = False\<rparr>)"

definition num_magnitude :: "cpp_num \<Rightarrow> nat \<Rightarrow> bool \<Rightarrow> bool \<times> cpp_num" where
  "num_magnitude num precision negate =
     (if \<not> num_positive num precision then (\<not> negate, num_negate num precision) else (negate, num))"

definition num_mul :: "cpp_num \<Rightarrow> cpp_num \<Rightarrow> nat \<Rightarrow> cpp_num" where
  "num_mul lhs rhs precision =
     (let unsigned_op = unsignedp lhs \<or> unsignedp rhs;
          (negate, lhs) = (if \<not> unsigned_op then num_magnitude lhs precision False else (False, lhs));
          (negate, rhs) = (if \<not> unsigned_op then num_magnitude rhs precision negate else (negate, rhs));
          ovf = (cn_high lhs \<noteq> 0 \<and> cn_high rhs \<noteq> 0);
          result = num_part_mul (cn_low lhs) (cn_low rhs);
          temp = num_part_mul (cn_high lhs) (cn_low rhs);
          result = result\<lparr>cn_high := cn_high result + cn_low temp\<rparr>;
          ovf = (ovf \<or> cn_high temp \<noteq> 0);
          temp = num_part_mul (cn_low lhs) (cn_high rhs);
          result = result\<lparr>cn_high := cn_high result + cn_low temp\<rparr>;
          ovf = (ovf \<or> cn_high temp \<noteq> 0);
          temp = result;
          result = num_trim result precision;
          ovf = (ovf \<or> \<not> num_eq result temp);
          result = (if negate then num_negate result precision else result);
          result = (if unsigned_op then result\<lparr>overflow := False\<rparr>
                    else result\<lparr>overflow := ovf \<or> (num_positive result precision \<noteq> (\<not> negate) \<and> \<not> num_zerop result)\<rparr>)
      in result\<lparr>unsignedp := unsigned_op\<rparr>)"

section \<open>Division\<close>

text \<open>
  The loops that find the highest set bit have no bound: \<open>None\<close> is the loop that never ends. The
  index only passes 0 when the mask is empty, and then no bit is found any more.
\<close>

partial_function (option) find_high_bit :: "hwi \<Rightarrow> nat \<Rightarrow> hwi \<Rightarrow> nat option" where
  "find_high_bit part i msk =
     (if part AND msk \<noteq> 0 then Some i else find_high_bit part (i - 1) (drop_bit 1 msk))"

definition halve :: "cpp_num \<Rightarrow> cpp_num" where
  "halve sub = sub\<lparr>cn_low := drop_bit 1 (cn_low sub) OR push_bit (PART_PRECISION - 1) (cn_high sub),
                  cn_high := drop_bit 1 (cn_high sub)\<rparr>"

definition set_quotient_bit :: "cpp_num \<Rightarrow> nat \<Rightarrow> cpp_num" where
  "set_quotient_bit result i =
     (if i \<ge> PART_PRECISION
      then result\<lparr>cn_high := cn_high result OR push_bit (i - PART_PRECISION) 1\<rparr>
      else result\<lparr>cn_low := cn_low result OR push_bit i 1\<rparr>)"

fun div_loop :: "cpp_reader \<Rightarrow> nat \<Rightarrow> cpp_num \<Rightarrow> cpp_num \<Rightarrow> cpp_num \<Rightarrow> cpp_num \<times> cpp_num" where
  "div_loop pfile i lhs sub result =
     (let (lhs, result) = (if num_greater_eq lhs sub (cpp_precision pfile)
                           then (fst (num_binary_op pfile lhs sub CPP_MINUS), set_quotient_bit result i)
                           else (lhs, result))
      in case i of 0 \<Rightarrow> (lhs, result) | Suc j \<Rightarrow> div_loop pfile j lhs (halve sub) result)"

text \<open>The highest bit of the divisor; a precision of one word has no bits in the high word.\<close>

definition divisor_bit :: "cpp_num \<Rightarrow> nat \<Rightarrow> nat search" where
  "divisor_bit rhs precision =
     (if cn_high rhs \<noteq> 0 then
        (if precision \<le> PART_PRECISION then Some (Inl Undefined)
         else map_option Inr (find_high_bit (cn_high rhs) (precision - 1) (push_bit (precision - 1 - PART_PRECISION) 1)))
      else
        (let i = (if precision > PART_PRECISION then precision - PART_PRECISION - 1 else precision - 1)
         in map_option Inr (find_high_bit (cn_low rhs) i (push_bit i 1))))"

definition num_div_op :: "cpp_reader \<Rightarrow> cpp_num \<Rightarrow> cpp_num \<Rightarrow> cpp_op \<Rightarrow> (cpp_num \<times> cpp_reader) search" where
  "num_div_op pfile lhs rhs opn =
     (let unsigned_op = unsignedp lhs \<or> unsignedp rhs;
          (lhs_neg, lhs) = (if \<not> unsigned_op then num_magnitude lhs (cpp_precision pfile) False else (False, lhs));
          (negate, rhs) = (if \<not> unsigned_op then num_magnitude rhs (cpp_precision pfile) lhs_neg else (lhs_neg, rhs))
      in if num_zerop rhs
         then Some (Inr (lhs, if skip_eval pfile = 0
                              then cpp_error pfile CPP_DL_ERROR ''division by zero in #if'' else pfile))
         else and_then (divisor_bit rhs (cpp_precision pfile)) (\<lambda>i.
           (let rhs = rhs\<lparr>unsignedp := True\<rparr>;
                lhs = lhs\<lparr>unsignedp := True\<rparr>;
                i = cpp_precision pfile - i - 1;
                sub = num_lshift rhs (cpp_precision pfile) i;
                (lhs, result) = div_loop pfile i lhs sub \<lparr>cn_high = 0, cn_low = 0, unsignedp = False, overflow = False\<rparr>
            in if opn = CPP_DIV then
                 (let result = result\<lparr>unsignedp := unsigned_op, overflow := False\<rparr>
                  in if unsigned_op then Some (Inr (result, pfile))
                     else
                       (let result = (if negate then num_negate result (cpp_precision pfile) else result)
                        in Some (Inr (result\<lparr>overflow := num_positive result (cpp_precision pfile) \<noteq> (\<not> negate) \<and> \<not> num_zerop result\<rparr>,
                                      pfile))))
               else
                 (let lhs = lhs\<lparr>unsignedp := unsigned_op, overflow := False\<rparr>
                  in Some (Inr (if lhs_neg then num_negate lhs (cpp_precision pfile) else lhs, pfile))))))"

declare div_loop.simps [simp del]

section \<open>The value of a number\<close>

text \<open>The bits of a number, and its value when read as unsigned or as signed.\<close>

definition ubits :: "cpp_num \<Rightarrow> int" where
  "ubits n = udval (cn_low n) (cn_high n)"

definition cread :: "nat \<Rightarrow> bool \<Rightarrow> cpp_num \<Rightarrow> int" where
  "cread p u n = (if u then ubits n else signed_take_bit (p - 1) (ubits n))"

definition cpp_val :: "nat \<Rightarrow> cpp_num \<Rightarrow> int" where
  "cpp_val p n = cread p (unsignedp n) n"

text \<open>The unused high bits are clear.\<close>

definition trimmed :: "nat \<Rightarrow> cpp_num \<Rightarrow> bool" where
  "trimmed p n \<longleftrightarrow> take_bit p (ubits n) = ubits n"

definition wrap :: "nat \<Rightarrow> bool \<Rightarrow> int \<Rightarrow> int" where
  "wrap p u x = (if u then take_bit p x else signed_take_bit (p - 1) x)"

definition fits :: "nat \<Rightarrow> bool \<Rightarrow> int \<Rightarrow> bool" where
  "fits p u x \<longleftrightarrow> (if u then 0 \<le> x \<and> x < 2 ^ p else - (2 ^ (p - 1)) \<le> x \<and> x < 2 ^ (p - 1))"

definition valid_precision :: "nat \<Rightarrow> bool" where
  "valid_precision p \<longleftrightarrow> 0 < p \<and> p \<le> 128"

lemma bit_ubits: "bit (ubits n) k \<longleftrightarrow> (if k < 64 then bit (cn_low n) k else bit (cn_high n) (k - 64))"
  by (simp add: ubits_def bit_udval)

lemma bit_ubits_less: "bit (ubits n) k \<Longrightarrow> k < 128"
  by (auto simp: bit_ubits split: if_splits dest: bit_imp_le_length)

lemma ubits_range: "0 \<le> ubits n" "ubits n < 2 ^ 128"
  unfolding ubits_def by (rule udval_range)+

lemma ubits_update [simp]:
  "ubits (n\<lparr>unsignedp := u\<rparr>) = ubits n" "ubits (n\<lparr>overflow := v\<rparr>) = ubits n"
  by (simp_all add: ubits_def)

lemma trimmed_update [simp]:
  "trimmed p (n\<lparr>unsignedp := u\<rparr>) = trimmed p n" "trimmed p (n\<lparr>overflow := v\<rparr>) = trimmed p n"
  by (simp_all add: trimmed_def)

lemma cread_update [simp]:
  "cread p u (n\<lparr>unsignedp := w\<rparr>) = cread p u n" "cread p u (n\<lparr>overflow := v\<rparr>) = cread p u n"
  by (simp_all add: cread_def)

lemma num_zerop_ubits: "num_zerop n \<longleftrightarrow> ubits n = 0"
  using udval_inj [of "cn_low n" "cn_high n" 0 0]
  by (auto simp: num_zerop_def or_eq_0_iff_word ubits_def udval_def)

lemma num_eq_ubits: "num_eq a b \<longleftrightarrow> ubits a = ubits b"
  by (auto simp: num_eq_def ubits_def udval_inj)

lemma mask_bits: "bit (2 ^ n - 1 :: hwi) k \<longleftrightarrow> k < 64 \<and> k < n"
proof -
  have "2 ^ n - 1 = (mask n :: hwi)" by (simp add: mask_eq_exp_minus_1)
  then show ?thesis by (auto simp: bit_simps)
qed

lemma num_trim_ubits:
  assumes "valid_precision p"
  shows "ubits (num_trim n p) = take_bit p (ubits n)"
proof (rule bit_eqI)
  fix k
  show "bit (ubits (num_trim n p)) k \<longleftrightarrow> bit (take_bit p (ubits n)) k"
    using assms bit_imp_le_length [of "cn_low n" k] bit_imp_le_length [of "cn_high n" "k - 64"]
    by (auto simp: bit_ubits num_trim_def valid_precision_def mask_bits Let_def bit_simps split: if_splits)
qed

lemma num_trim_unsignedp [simp]: "unsignedp (num_trim n p) = unsignedp n"
  by (simp add: num_trim_def Let_def)

lemma and_exp_iff: "w AND 2 ^ n = 0 \<longleftrightarrow> \<not> bit (w :: hwi) n"
proof
  assume "w AND 2 ^ n = 0"
  then have "\<not> bit (w AND 2 ^ n) n" by simp
  then show "\<not> bit w n" using bit_imp_le_length [of w n] by (auto simp: bit_simps)
next
  assume "\<not> bit w n"
  then show "w AND 2 ^ n = 0" by (intro bit_word_eqI) (auto simp: bit_simps)
qed

lemma num_positive_bit:
  assumes "valid_precision p"
  shows "num_positive n p \<longleftrightarrow> \<not> bit (ubits n) (p - 1)"
  using assms by (auto simp: num_positive_def bit_ubits and_exp_iff valid_precision_def diff_diff_left diff_diff_add add.commute)


section \<open>Wrap-around and range\<close>

lemma valid_precision_Suc: "valid_precision p \<Longrightarrow> Suc (p - Suc 0) = p"
  by (simp add: valid_precision_def)

lemma exp_precision: "valid_precision p \<Longrightarrow> (2 :: int) ^ p = 2 * 2 ^ (p - Suc 0)"
  using valid_precision_Suc [of p] by (metis power_Suc)

lemma take_bit_mod_128: "valid_precision p \<Longrightarrow> take_bit p (x mod 2 ^ 128) = take_bit p (x :: int)"
  unfolding take_bit_eq_mod [symmetric] by (simp add: valid_precision_def min_def)

lemma ubits_make [simp]: "ubits \<lparr>cn_high = h, cn_low = l, unsignedp = u, overflow = v\<rparr> = udval l h"
  by (simp add: ubits_def)

lemma ubits_set [simp]: "ubits (n\<lparr>cn_high := h, cn_low := l\<rparr>) = udval l h"
  by (simp add: ubits_def)

lemma take_bit_cread: "valid_precision p \<Longrightarrow> take_bit p (cread p u n) = take_bit p (ubits n)"
  by (simp add: cread_def take_bit_signed_take_bit valid_precision_Suc)

lemma wrap_eqI: "valid_precision p \<Longrightarrow> take_bit p x = take_bit p y \<Longrightarrow> wrap p u x = wrap p u y"
  using signed_take_bit_eq_iff_take_bit_eq [of "p - 1" x y] by (simp add: wrap_def valid_precision_Suc)

lemma cread_eq_wrap: "valid_precision p \<Longrightarrow> ubits r = take_bit p x \<Longrightarrow> cread p u r = wrap p u x"
  by (auto simp: cread_def wrap_def valid_precision_def signed_take_bit_take_bit)

lemma trimmedI: "ubits r = take_bit p x \<Longrightarrow> trimmed p r"
  by (simp add: trimmed_def)

lemma trimmed_range: "trimmed p n \<Longrightarrow> 0 \<le> ubits n" "trimmed p n \<Longrightarrow> ubits n < 2 ^ p"
  unfolding trimmed_def by (metis take_bit_nonnegative, metis take_bit_int_less_exp)

lemma fits_iff_wrap: "valid_precision p \<Longrightarrow> fits p u x \<longleftrightarrow> wrap p u x = x"
  using signed_take_bit_int_eq_self_iff [of "p - 1" x]
  by (auto simp: fits_def wrap_def take_bit_int_eq_self_iff)

lemma wrap_fits: "valid_precision p \<Longrightarrow> fits p u (wrap p u x)"
  unfolding fits_iff_wrap by (auto simp: wrap_def)

lemma cread_fits: "valid_precision p \<Longrightarrow> trimmed p n \<Longrightarrow> fits p u (cread p u n)"
  using wrap_fits [of p u "ubits n"] cread_eq_wrap [of p n "ubits n" u] by (simp add: trimmed_def)

lemma num_positive_cread: "valid_precision p \<Longrightarrow> num_positive n p \<longleftrightarrow> 0 \<le> cread p False n"
  by (simp add: num_positive_bit cread_def)

lemma wrap_cases:
  assumes "valid_precision p" "- (2 ^ p) \<le> x" "x < 2 ^ p"
  shows "wrap p False x = (if x < - (2 ^ (p - 1)) then x + 2 ^ p else if x < 2 ^ (p - 1) then x else x - 2 ^ p)"
    (is "_ = ?y")
proof -
  have "take_bit p x = take_bit p ?y"
    by (auto simp: take_bit_eq_mod)
  then have "wrap p False x = wrap p False ?y" using assms(1) by (rule wrap_eqI [rotated])
  also have "\<dots> = ?y"
  proof -
    have "(2 :: int) ^ p = 2 * 2 ^ (p - 1)" using exp_precision [OF assms(1)] by simp
    then have "fits p False ?y" using assms by (auto simp: fits_def)
    then show ?thesis using assms(1) by (simp add: fits_iff_wrap)
  qed
  finally show ?thesis .
qed

lemma cread_cases:
  assumes "valid_precision p" "trimmed p n"
  shows "cread p False n = (if ubits n < 2 ^ (p - 1) then ubits n else ubits n - 2 ^ p)"
proof -
  have "\<not> ubits n < - (2 ^ (p - 1))" using trimmed_range [OF assms(2)] by (smt (verit) zero_less_power)
  moreover have "cread p False n = wrap p False (ubits n)"
    using assms(2) by (intro cread_eq_wrap [OF assms(1)]) (simp add: trimmed_def)
  moreover have "- (2 ^ p) \<le> ubits n" using trimmed_range(1) [OF assms(2)] by (smt (verit) zero_less_power)
  ultimately show ?thesis using wrap_cases [OF assms(1), of "ubits n"] trimmed_range [OF assms(2)] by simp
qed

lemma sum_sign_overflow:
  assumes "valid_precision p" "fits p False a" "fits p False b"
  shows "(0 \<le> a) = (0 \<le> b) \<and> (0 \<le> a) \<noteq> (0 \<le> wrap p False (a + b)) \<longleftrightarrow> \<not> fits p False (a + b)"
proof -
  define H :: int where "H = 2 ^ (p - 1)"
  have e: "2 ^ p = 2 * H" and H: "0 < H" using exp_precision [OF assms(1)] by (simp_all add: H_def)
  have ab: "- H \<le> a" "a < H" "- H \<le> b" "b < H" using assms(2,3) by (simp_all add: fits_def H_def)
  have "wrap p False (a + b) = (if a + b < - H then a + b + 2 * H else if a + b < H then a + b else a + b - 2 * H)"
    using wrap_cases [OF assms(1), of "a + b"] ab by (simp add: e flip: H_def One_nat_def)
  moreover have "fits p False (a + b) \<longleftrightarrow> - H \<le> a + b \<and> a + b < H" by (simp add: fits_def H_def)
  ultimately show ?thesis using ab H by (simp split: if_split) linarith
qed

section \<open>Addition, subtraction and the unary operators\<close>

lemma num_negate_ubits:
  assumes "valid_precision p"
  shows "ubits (num_negate n p) = take_bit p (- ubits n)"
proof -
  let ?l = "NOT (cn_low n) + 1" and ?h = "if NOT (cn_low n) + 1 = 0 then NOT (cn_high n) + 1 else NOT (cn_high n)"
  have not1: "NOT w + 1 = - w" for w :: hwi by (simp add: not_eq_complement)
  have "neg_double (cn_low n) (cn_high n) = (fst (neg_double (cn_low n) (cn_high n)), ?l, ?h)"
    unfolding not1 by (simp add: neg_double_def Let_def)
  from neg_double_udval [OF this] have "udval ?l ?h = (- ubits n) mod 2 ^ 128" unfolding ubits_def .
  moreover have "ubits (num_negate n p) = take_bit p (udval ?l ?h)"
  proof -
    have "ubits (num_negate n p) = ubits (num_trim (n\<lparr>cn_high := ?h, cn_low := ?l\<rparr>) p)"
      by (auto simp: num_negate_def Let_def intro!: arg_cong [of _ _ "\<lambda>n. ubits (num_trim n p)"])
    then show ?thesis by (simp only: num_trim_ubits [OF assms] ubits_set)
  qed
  ultimately show ?thesis by (simp only: take_bit_mod_128 [OF assms])
qed

lemma num_negate_unsignedp [simp]: "unsignedp (num_negate n p) = unsignedp n"
  by (simp add: num_negate_def Let_def)

lemma num_negate_trimmed: "valid_precision p \<Longrightarrow> trimmed p (num_negate n p)"
  using num_negate_ubits by (rule trimmedI)

lemma num_negate_cread:
  assumes "valid_precision p"
  shows "cread p u (num_negate n p) = wrap p u (- cread p u n)"
proof -
  have "take_bit p (- ubits n) = take_bit p (- cread p u n)"
    using take_bit_cread [OF assms, of u n] by (metis take_bit_minus)
  then show ?thesis using assms num_negate_ubits [OF assms] cread_eq_wrap wrap_eqI by metis
qed

lemma num_negate_overflow:
  assumes p: "valid_precision p" and n: "trimmed p n"
  shows "overflow (num_negate n p) \<longleftrightarrow> \<not> unsignedp n \<and> \<not> fits p False (- cread p False n)"
proof -
  have e: "(2 :: int) ^ p = 2 * 2 ^ (p - 1)" using exp_precision [OF p] by simp
  have "overflow (num_negate n p) \<longleftrightarrow> \<not> unsignedp n \<and> take_bit p (- ubits n) = ubits n \<and> ubits n \<noteq> 0"
  proof -
    have "overflow (num_negate n p) \<longleftrightarrow>
        \<not> unsignedp n \<and> num_eq (num_negate n p) n \<and> \<not> num_zerop (num_negate n p)"
      by (simp add: num_negate_def Let_def num_eq_def num_zerop_def)
    then show ?thesis by (auto simp: num_eq_ubits num_zerop_ubits num_negate_ubits [OF p])
  qed
  moreover have "take_bit p (- ubits n) = ubits n \<and> ubits n \<noteq> 0 \<longleftrightarrow> ubits n = 2 ^ (p - 1)"
  proof -
    have "take_bit p (- ubits n) = (if ubits n = 0 then 0 else 2 ^ p - ubits n)"
      using trimmed_range [OF n] by (auto simp: take_bit_eq_mod zmod_zminus1_eq_if)
    then show ?thesis using e by auto
  qed
  moreover have "\<not> fits p False (- cread p False n) \<longleftrightarrow> ubits n = 2 ^ (p - 1)"
    using trimmed_range [OF n] e by (auto simp: cread_cases [OF p n] fits_def)
  ultimately show ?thesis by simp
qed

lemma num_add_ubits:
  assumes "valid_precision p"
  shows "ubits (num_add a b p) = take_bit p (ubits a + ubits b)"
proof -
  obtain ov l h where s: "add_double_with_sign (cn_low a) (cn_high a) (cn_low b) (cn_high b) False = (ov, l, h)"
    by (metis prod.collapse)
  have "ubits (num_add a b p) =
      ubits (num_trim \<lparr>cn_high = h, cn_low = l, unsignedp = unsignedp a \<or> unsignedp b, overflow = False\<rparr> p)"
    using s by (auto simp: num_add_def Let_def add_double_with_sign_def)
  then have "ubits (num_add a b p) = take_bit p (udval l h)" by (simp add: num_trim_ubits [OF assms])
  then show ?thesis unfolding add_double_udval [OF s] ubits_def by (simp only: take_bit_mod_128 [OF assms])
qed

lemma num_add_unsignedp [simp]: "unsignedp (num_add a b p) \<longleftrightarrow> unsignedp a \<or> unsignedp b"
  by (simp add: num_add_def Let_def)

lemma num_add_cread:
  assumes "valid_precision p"
  shows "cread p u (num_add a b p) = wrap p u (cread p u a + cread p u b)"
proof -
  have "take_bit p (ubits a + ubits b) = take_bit p (cread p u a + cread p u b)"
    using take_bit_cread [OF assms, of u] by (metis take_bit_add)
  then show ?thesis using assms num_add_ubits [OF assms] cread_eq_wrap wrap_eqI by metis
qed

lemma num_add_overflow:
  assumes p: "valid_precision p" and "trimmed p a" "trimmed p b"
  shows "overflow (num_add a b p) \<longleftrightarrow>
    \<not> unsignedp a \<and> \<not> unsignedp b \<and> \<not> fits p False (cread p False a + cread p False b)"
proof -
  let ?r = "num_add a b p"
  have "overflow ?r \<longleftrightarrow> \<not> unsignedp a \<and> \<not> unsignedp b \<and>
      num_positive a p = num_positive b p \<and> num_positive a p \<noteq> num_positive ?r p"
    by (auto simp: num_add_def Let_def num_positive_def num_trim_def)
  then show ?thesis
    using sum_sign_overflow [OF p cread_fits [OF p assms(2)] cread_fits [OF p assms(3)]]
    by (simp add: num_positive_cread [OF p] num_add_cread [OF p])
qed


section \<open>Comparison and bitwise operators\<close>

lemma udval_le_iff: "udval l h \<le> udval l' h' \<longleftrightarrow> h < h' \<or> h = h' \<and> l \<le> l'"
proof -
  have "udval l h \<le> udval l' h' \<longleftrightarrow> uint h < uint h' \<or> uint h = uint h' \<and> uint l \<le> uint l'"
    unfolding udval_def using uint64_range [of l] uint64_range [of l'] by (simp, linarith)
  then show ?thesis by (simp add: word_less_def word_le_def word_uint_eq_iff)
qed

lemma num_greater_eq_cread:
  assumes p: "valid_precision p" and a: "trimmed p a" and b: "trimmed p b" and u: "u = (unsignedp a \<or> unsignedp b)"
  shows "num_greater_eq a b p \<longleftrightarrow> cread p u b \<le> cread p u a"
proof -
  have le: "cn_high b < cn_high a \<or> cn_high a = cn_high b \<and> cn_low b \<le> cn_low a \<longleftrightarrow> ubits b \<le> ubits a"
    by (auto simp: ubits_def udval_le_iff)
  show ?thesis
  proof (cases u)
    case True
    then show ?thesis using u by (auto simp: num_greater_eq_def le cread_def)
  next
    case False
    have "ubits b \<le> ubits a \<longleftrightarrow> cread p False b \<le> cread p False a"
      if "(0 \<le> cread p False a) = (0 \<le> cread p False b)"
      using that trimmed_range [OF a] trimmed_range [OF b] exp_precision [OF p]
      by (simp add: cread_cases [OF p a] cread_cases [OF p b] split: if_splits)
    moreover have "num_greater_eq a b p \<longleftrightarrow>
        (if (0 \<le> cread p False a) \<noteq> (0 \<le> cread p False b) then 0 \<le> cread p False a else ubits b \<le> ubits a)"
      using False u by (auto simp: num_greater_eq_def le num_positive_cread [OF p])
    ultimately show ?thesis using False by auto
  qed
qed

lemma cread_inj:
  assumes "valid_precision p" "trimmed p a" "trimmed p b"
  shows "ubits a = ubits b \<longleftrightarrow> cread p u a = cread p u b"
  using take_bit_cread [OF assms(1), of u] assms(2,3) unfolding trimmed_def by (metis cread_def)

lemma truth_ubits [simp]: "ubits (truth b) = of_bool b" "unsignedp (truth b) = False" "overflow (truth b) = False"
  by (simp_all add: truth_def udval_def)

lemma num_bitwise_op_ubits:
  "ubits (num_bitwise_op a b opn) =
     (if opn = CPP_AND then ubits a AND ubits b else if opn = CPP_OR then ubits a OR ubits b else ubits a XOR ubits b)"
  by (rule bit_eqI) (simp add: bit_ubits num_bitwise_op_def Let_def bit_simps)

lemma num_bitwise_op_fields [simp]:
  "unsignedp (num_bitwise_op a b opn) \<longleftrightarrow> unsignedp a \<or> unsignedp b" "overflow (num_bitwise_op a b opn) = False"
  by (simp_all add: num_bitwise_op_def Let_def)

section \<open>Shifts\<close>

text \<open>Two words and a sign mask hold an integer.\<close>

definition holds_int :: "bool \<Rightarrow> hwi \<Rightarrow> hwi \<Rightarrow> int \<Rightarrow> bool" where
  "holds_int neg l h s \<longleftrightarrow> (\<forall>k. bit s k = (if k < 128 then bit (udval l h) k else neg))"

definition smask :: "bool \<Rightarrow> hwi" where
  "smask neg = (if neg then NOT 0 else 0)"

lemma bit_smask: "bit (smask neg) k \<longleftrightarrow> neg \<and> k < 64"
  by (auto simp: smask_def bit_simps)

lemma holds_int_word: "holds_int neg l h s \<Longrightarrow> holds_int neg h (smask neg) (drop_bit 64 s)"
  by (auto simp: holds_int_def bit_simps bit_udval bit_smask)

lemma holds_int_bits:
  assumes "holds_int neg l h s" "0 < n" "n < 64"
  shows "holds_int neg (drop_bit n l OR push_bit (64 - n) h) (drop_bit n h OR push_bit (64 - n) (smask neg)) (drop_bit n s)"
  unfolding holds_int_def
proof
  fix k
  have s: "bit (drop_bit n s) k = (if n + k < 128 then bit (udval l h) (n + k) else neg)"
    using assms(1) by (simp add: holds_int_def bit_simps)
  consider "n + k < 64" | "k < 64" "64 \<le> n + k" | "64 \<le> k" "n + k < 128" | "k < 128" "128 \<le> n + k" | "128 \<le> k"
    by linarith
  then show "bit (drop_bit n s) k =
    (if k < 128 then bit (udval (drop_bit n l OR push_bit (64 - n) h) (drop_bit n h OR push_bit (64 - n) (smask neg))) k
     else neg)"
  proof cases
    case 2
    moreover from 2 have "n + k - 64 = k - (64 - n)" using assms by linarith
    ultimately show ?thesis using assms bit_imp_le_length [of l "n + k"] unfolding s by (auto simp: bit_udval bit_simps)
  next
    case 4
    then have "\<not> bit h (n + (k - 64))" "64 - n \<le> k - 64" "64 \<le> k"
      using bit_imp_le_length [of h "n + (k - 64)"] assms by auto
    with 4 show ?thesis using assms unfolding s by (auto simp: bit_udval bit_simps bit_smask)
  qed (use assms in \<open>unfold s, auto simp: bit_udval bit_simps bit_smask\<close>)
qed

lemma bit_cread:
  assumes "valid_precision p" "trimmed p n"
  shows "bit (cread p u n) k \<longleftrightarrow> (if k < p then bit (ubits n) k else \<not> u \<and> bit (ubits n) (p - 1))"
proof -
  have "bit (ubits n) k \<Longrightarrow> k < p" using assms(2) unfolding trimmed_def by (metis bit_take_bit_iff)
  moreover have "min k (p - 1) = (if k < p then k else p - 1)" using assms(1) by (auto simp: valid_precision_def)
  ultimately show ?thesis by (auto simp: cread_def bit_signed_take_bit_iff)
qed


text \<open>The sign extension of \<open>num_rshift\<close>, and the shift of the extended words.\<close>

definition extend_words :: "cpp_num \<Rightarrow> nat \<Rightarrow> hwi \<Rightarrow> hwi \<times> hwi" where
  "extend_words num p m =
     (if p < 64 then (cn_low num OR push_bit p m, m)
      else if p < 128 then (cn_low num, cn_high num OR push_bit (p - 64) m) else (cn_low num, cn_high num))"

definition shift_words :: "nat \<Rightarrow> hwi \<Rightarrow> hwi \<times> hwi \<Rightarrow> hwi \<times> hwi" where
  "shift_words n m w =
     (let (l, h) = (if n \<ge> 64 then (snd w, m) else w); k = (if n \<ge> 64 then n - 64 else n)
      in if k \<noteq> 0 then (drop_bit k l OR push_bit (64 - k) h, drop_bit k h OR push_bit (64 - k) m) else (l, h))"

lemma ubits_set_part:
  "ubits (n\<lparr>cn_low := l, cn_high := h\<rparr>) = udval l h"
  "ubits (n\<lparr>cn_low := l\<rparr>) = udval l (cn_high n)" "ubits (n\<lparr>cn_high := h\<rparr>) = udval (cn_low n) h"
  by (simp_all add: ubits_def)

lemma num_rshift_words:
  assumes "valid_precision p"
  shows "ubits (num_rshift num p n) = take_bit p
    (let m = smask (\<not> unsignedp num \<and> bit (ubits num) (p - 1));
         w = (if n \<ge> p then (m, m) else shift_words n m (extend_words num p m))
     in udval (fst w) (snd w))"
proof -
  define m :: hwi where "m = (if unsignedp num \<or> num_positive num p then 0 else NOT 0)"
  have "m = smask (\<not> unsignedp num \<and> bit (ubits num) (p - 1))"
    by (auto simp: m_def smask_def num_positive_bit [OF assms])
  moreover have "ubits (num_rshift num p n) = take_bit p
     (let w = (if n \<ge> p then (m, m) else shift_words n m (extend_words num p m)) in udval (fst w) (snd w))"
    unfolding num_rshift_def Let_def m_def [symmetric] shift_words_def extend_words_def
    by (simp add: num_trim_ubits [OF assms] ubits_set_part flip: ubits_def)
  ultimately show ?thesis by (simp add: Let_def)
qed

lemma extend_words_holds:
  assumes p: "valid_precision p" and n: "trimmed p num" and neg: "neg = (\<not> unsignedp num \<and> bit (ubits num) (p - 1))"
  shows "holds_int neg (fst (extend_words num p (smask neg))) (snd (extend_words num p (smask neg))) (cread p (unsignedp num) num)"
  unfolding holds_int_def
proof
  fix k
  have k: "bit (ubits num) k \<Longrightarrow> k < p" using n unfolding trimmed_def by (metis bit_take_bit_iff)
  have "k < 128 \<Longrightarrow> bit (udval (fst (extend_words num p (smask neg))) (snd (extend_words num p (smask neg)))) k \<longleftrightarrow>
      bit (ubits num) k \<or> neg \<and> p \<le> k"
  proof -
    assume "k < 128"
    consider "p < 64" | "64 \<le> p" "p < 128" | "p = 128"
      using p unfolding valid_precision_def by linarith
    then show ?thesis
      using k \<open>k < 128\<close> by cases (auto simp: extend_words_def bit_udval bit_ubits bit_simps bit_smask)
  qed
  then show "bit (cread p (unsignedp num) num) k =
    (if k < 128 then bit (udval (fst (extend_words num p (smask neg))) (snd (extend_words num p (smask neg)))) k else neg)"
    using p k neg by (auto simp: bit_cread [OF p n] valid_precision_def)
qed

lemma shift_words_holds:
  assumes "holds_int neg l h s" "n < 128"
  shows "holds_int neg (fst (shift_words n (smask neg) (l, h))) (snd (shift_words n (smask neg) (l, h))) (drop_bit n s)"
proof (cases "64 \<le> n")
  case True
  have w: "holds_int neg h (smask neg) (drop_bit 64 s)" by (rule holds_int_word) fact
  show ?thesis
  proof (cases "n = 64")
    case True
    with w show ?thesis by (simp add: shift_words_def)
  next
    case False
    with \<open>64 \<le> n\<close> assms(2) have "0 < n - 64" "n - 64 < 64" "n - 64 + 64 = n" by simp_all
    with holds_int_bits [OF w this(1,2)] \<open>64 \<le> n\<close> False show ?thesis
      by (simp add: shift_words_def Let_def)
  qed
next
  case False
  with assms holds_int_bits [OF assms(1), of n] show ?thesis by (auto simp: shift_words_def Let_def)
qed

lemma holds_int_take_bit: "holds_int neg l h s \<Longrightarrow> p \<le> 128 \<Longrightarrow> take_bit p (udval l h) = take_bit p s"
  by (rule bit_eqI) (auto simp: holds_int_def bit_simps)

lemma num_rshift_ubits:
  assumes p: "valid_precision p" and n: "trimmed p num"
  shows "ubits (num_rshift num p n) = take_bit p (drop_bit n (cread p (unsignedp num) num))"
proof -
  define neg where "neg = (\<not> unsignedp num \<and> bit (ubits num) (p - 1))"
  obtain w where w: "w = (if n \<ge> p then (smask neg, smask neg) else shift_words n (smask neg) (extend_words num p (smask neg)))"
    by simp
  have "ubits (num_rshift num p n) = take_bit p (udval (fst w) (snd w))"
    unfolding num_rshift_words [OF p] w neg_def Let_def ..
  also have "\<dots> = take_bit p (drop_bit n (cread p (unsignedp num) num))"
  proof (cases "n \<ge> p")
    case True
    then show ?thesis using p
      by (intro bit_eqI) (auto simp: w bit_simps bit_udval bit_smask bit_cread [OF p n] neg_def valid_precision_def)
  next
    case False
    then have "holds_int neg (fst w) (snd w) (drop_bit n (cread p (unsignedp num) num))"
      using shift_words_holds [OF extend_words_holds [OF p n neg_def]] p by (simp add: w valid_precision_def)
    then show ?thesis using p by (intro holds_int_take_bit) (simp_all add: valid_precision_def)
  qed
  finally show ?thesis .
qed

lemma num_rshift_fields [simp]: "unsignedp (num_rshift num p n) = unsignedp num" "overflow (num_rshift num p n) = False"
  by (simp_all add: num_rshift_def Let_def split: prod.split)

lemma num_rshift_cread:
  assumes p: "valid_precision p" and n: "trimmed p num"
  shows "cread p (unsignedp num) (num_rshift num p n) = cread p (unsignedp num) num div 2 ^ n"
proof -
  let ?x = "cread p (unsignedp num) num" and ?H = "2 ^ (p - 1) :: int"
  have f: "fits p (unsignedp num) ?x" by (rule cread_fits [OF p n])
  have "fits p (unsignedp num) (?x div 2 ^ n)"
  proof -
    have "- H \<le> x div 2 ^ n \<and> x div 2 ^ n < H" if "- H \<le> x" "x < H" "0 < H" for x H :: int
    proof -
      have "x div 2 ^ n \<le> x" if "0 \<le> x" using that zdiv_mono2 [of x 1 "2 ^ n"] by simp
      moreover have "x \<le> x div 2 ^ n" if "x < 0" using that zdiv_mono2_neg [of x 1 "2 ^ n"] by simp
      moreover have "0 \<le> x \<longleftrightarrow> 0 \<le> x div 2 ^ n" by (simp add: pos_imp_zdiv_nonneg_iff)
      ultimately show ?thesis using that by linarith
    qed
    then show ?thesis using f by (auto simp: fits_def pos_imp_zdiv_nonneg_iff)
  qed
  then show ?thesis
    using cread_eq_wrap [OF p num_rshift_ubits [OF p n]] by (simp add: fits_iff_wrap [OF p] drop_bit_eq_div)
qed


definition lshift_words :: "nat \<Rightarrow> hwi \<times> hwi \<Rightarrow> hwi \<times> hwi" where
  "lshift_words n w =
     (let (l, h) = (if n \<ge> 64 then (0, fst w) else w); m = (if n \<ge> 64 then n - 64 else n)
      in if m \<noteq> 0 then (push_bit m l, push_bit m h OR drop_bit (64 - m) l) else (l, h))"

lemma lshift_words_ubits:
  assumes "n < 128"
  shows "udval (fst (lshift_words n (l, h))) (snd (lshift_words n (l, h))) = take_bit 128 (push_bit n (udval l h))"
proof (rule bit_eqI)
  fix k
  have "bit (udval (fst (lshift_words n (l, h))) (snd (lshift_words n (l, h)))) k \<longleftrightarrow>
      n \<le> k \<and> k < 128 \<and> bit (udval l h) (k - n)"
  proof (cases "64 \<le> n")
    case True
    then show ?thesis using assms bit_imp_le_length [of h "k - 64"] bit_imp_le_length [of l "k - n"]
      by (auto simp: lshift_words_def Let_def bit_udval bit_simps)
  next
    case False
    consider "k < 64" | "64 \<le> k" "k < 64 + n" | "64 + n \<le> k" by linarith
    then show ?thesis
    proof cases
      case 2
      then have "64 - n + (k - 64) = k - n" "\<not> n \<le> k - 64" using False by linarith+
      with 2 False bit_imp_le_length [of l "k - n"] show ?thesis
        by (auto simp: lshift_words_def Let_def bit_udval bit_simps)
    next
      case 3
      then have "64 \<le> 64 - n + (k - 64)" "k - 64 - n = k - n - 64" using False by linarith+
      with 3 False bit_imp_le_length [of h "k - n - 64"] bit_imp_le_length [of l "64 - n + (k - 64)"]
      show ?thesis by (auto simp: lshift_words_def Let_def bit_udval bit_simps)
    qed (use False in \<open>auto simp: lshift_words_def Let_def bit_udval bit_simps\<close>)
  qed
  then show "bit (udval (fst (lshift_words n (l, h))) (snd (lshift_words n (l, h)))) k \<longleftrightarrow>
      bit (take_bit 128 (push_bit n (udval l h))) k"
    by (auto simp: bit_simps)
qed

lemma num_lshift_ubits:
  assumes p: "valid_precision p"
  shows "ubits (num_lshift num p n) = take_bit p (push_bit n (ubits num))"
proof (cases "p \<le> n")
  case True
  then have "take_bit p (push_bit n (ubits num)) = 0" by (intro bit_eqI) (simp add: bit_simps)
  with True show ?thesis by (simp add: num_lshift_def ubits_def udval_def)
next
  case False
  let ?w = "lshift_words n (cn_low num, cn_high num)"
  have "ubits (num_lshift num p n) = take_bit p (udval (fst ?w) (snd ?w))"
    using False unfolding num_lshift_def Let_def lshift_words_def
    by (simp add: num_trim_ubits [OF p] ubits_set_part flip: ubits_def)
  then show ?thesis using False p by (simp add: lshift_words_ubits valid_precision_def min_def flip: ubits_def)
qed

lemma num_lshift_unsignedp [simp]: "unsignedp (num_lshift num p n) = unsignedp num"
  by (simp add: num_lshift_def Let_def)

lemma num_lshift_cread:
  assumes p: "valid_precision p"
  shows "cread p u (num_lshift num p n) = wrap p u (cread p u num * 2 ^ n)"
proof -
  have "take_bit p (push_bit n (ubits num)) = take_bit p (cread p u num * 2 ^ n)"
    unfolding push_bit_eq_mult using take_bit_cread [OF p, of u num] by (metis take_bit_mult)
  then show ?thesis using p num_lshift_ubits [OF p] cread_eq_wrap wrap_eqI by metis
qed

lemma wrap_dvd:
  assumes "valid_precision p" "n \<le> p" "2 ^ n dvd x"
  shows "2 ^ n dvd wrap p u x"
proof -
  have "take_bit n (wrap p u x) = take_bit n (take_bit p (wrap p u x))" using assms(2) by (simp add: min_def)
  also have "take_bit p (wrap p u x) = take_bit p x"
    using assms(1) by (simp add: wrap_def take_bit_signed_take_bit valid_precision_Suc)
  also have "take_bit n (take_bit p x) = 0" using assms(2,3) by (simp add: min_def) (simp add: take_bit_eq_mod)
  finally show ?thesis by (simp add: take_bit_eq_mod dvd_eq_mod_eq_0)
qed

lemma num_rshift_ignores_overflow:
  "valid_precision p \<Longrightarrow> num_eq a (num_rshift (r\<lparr>overflow := v\<rparr>) p n) = num_eq a (num_rshift r p n)"
  by (simp add: num_eq_ubits num_rshift_words extend_words_def Let_def)

lemma num_lshift_overflow:
  assumes p: "valid_precision p" and n: "trimmed p num"
  shows "overflow (num_lshift num p n) \<longleftrightarrow> \<not> unsignedp num \<and> \<not> fits p False (cread p False num * 2 ^ n)"
proof (cases "p \<le> n")
  case True
  have "\<not> fits p False (x * 2 ^ n) \<longleftrightarrow> x \<noteq> 0" for x :: int
  proof -
    define H N :: int where "H = 2 ^ (p - 1)" and "N = 2 ^ n"
    have "H < N" unfolding H_def N_def
      using True p by (intro power_strict_increasing) (auto simp: valid_precision_def)
    moreover have "x \<le> 0 \<or> N \<le> x * N" by (auto simp: N_def)
    moreover have "0 \<le> x \<or> x * N \<le> - N" using mult_right_mono [of x "- 1" N] by (cases "0 \<le> x") (auto simp: N_def)
    moreover have "0 < H" by (simp add: H_def)
    ultimately have "\<not> (- H \<le> x * N \<and> x * N < H) \<longleftrightarrow> x \<noteq> 0"
      by (cases "x = 0") (simp, linarith)
    then show ?thesis by (simp add: fits_def H_def N_def)
  qed
  moreover have "ubits num = 0 \<longleftrightarrow> cread p False num = 0"
    using n trimmed_range [OF n] by (auto simp: cread_cases [OF p n])
  ultimately show ?thesis using True by (auto simp: num_lshift_def num_zerop_ubits)
next
  case False
  let ?r = "num_lshift num p n" and ?x = "cread p False num"
  have t: "trimmed p ?r" by (rule trimmedI [OF num_lshift_ubits [OF p]])
  show ?thesis
  proof (cases "unsignedp num")
    case True
    then show ?thesis using False by (auto simp: num_lshift_def Let_def)
  next
    case u: False
    have "overflow ?r \<longleftrightarrow> \<not> num_eq num (num_rshift ?r p n)"
      using False u by (simp add: num_lshift_def Let_def num_rshift_ignores_overflow [OF p])
    also have "\<dots> \<longleftrightarrow> ?x \<noteq> cread p False (num_rshift ?r p n)"
      unfolding num_eq_ubits using cread_inj [OF p n trimmedI [OF num_rshift_ubits [OF p t]]] by simp
    also have "cread p False (num_rshift ?r p n) = wrap p False (?x * 2 ^ n) div 2 ^ n"
      using num_rshift_cread [OF p t, of n] u by (simp add: num_lshift_cread [OF p])
    also have "?x \<noteq> wrap p False (?x * 2 ^ n) div 2 ^ n \<longleftrightarrow> ?x * 2 ^ n \<noteq> wrap p False (?x * 2 ^ n)"
    proof -
      have "2 ^ n dvd wrap p False (?x * 2 ^ n)" using False by (intro wrap_dvd [OF p]) simp_all
      then show ?thesis by (metis dvd_div_mult_self nonzero_mult_div_cancel_right power_not_zero zero_neq_numeral)
    qed
    finally show ?thesis using u by (auto simp: fits_iff_wrap [OF p])
  qed
qed


lemma shift_saturates:
  assumes "p \<le> n" "p \<le> k"
  shows "num_lshift num p n = num_lshift num p k" "num_rshift num p n = num_rshift num p k"
  using assms by (simp_all add: num_lshift_def num_rshift_def Let_def)

lemma shift_count:
  fixes r :: cpp_num
  assumes "valid_precision p"
  defines "n \<equiv> if cn_high r \<noteq> 0 then 2 ^ 64 - 1 else unat (cn_low r)"
  shows "num_lshift num p n = num_lshift num p (nat (ubits r))" "num_rshift num p n = num_rshift num p (nat (ubits r))"
proof -
  have "p \<le> n \<and> p \<le> nat (ubits r)" if "cn_high r \<noteq> 0"
  proof -
    have "1 \<le> uint (cn_high r)" using that uint64_range [of "cn_high r"] by (simp add: int_one_le_iff_zero_less order_less_le uint_0_iff)
    then have "2 ^ 64 \<le> ubits r" using uint64_range(1) [of "cn_low r"] unfolding ubits_def udval_def by (simp del: uint_ge_0) (use uint64_range(1) [of "cn_low r"] in linarith)
    then show ?thesis using that assms(1) by (simp add: n_def valid_precision_def le_nat_iff)
  qed
  moreover have "n = nat (ubits r)" if "cn_high r = 0"
    using that by (simp add: n_def ubits_def udval_def)
  ultimately show "num_lshift num p n = num_lshift num p (nat (ubits r))" "num_rshift num p n = num_rshift num p (nat (ubits r))"
    using shift_saturates by (metis (no_types))+
qed

text \<open>A shift by a negative count is a shift the other way: one signed count serves both operators.\<close>

lemma num_shift_op_count:
  assumes p: "valid_precision p" and "trimmed p b" and opn: "opn = CPP_LSHIFT \<or> opn = CPP_RSHIFT"
  defines "k \<equiv> (if opn = CPP_LSHIFT then cpp_val p b else - cpp_val p b)"
  shows "num_shift_op a b p opn =
    (if 0 < k \<or> k = 0 \<and> opn = CPP_LSHIFT then num_lshift a p (nat k) else num_rshift a p (nat (- k)))"
proof (cases "\<not> unsignedp b \<and> \<not> num_positive b p")
  case True
  have v: "cpp_val p b = ubits b - 2 ^ p" "cpp_val p b < 0" "ubits b \<noteq> 0"
    using True assms(2) num_positive_cread [OF p, of b] trimmed_range [OF assms(2)]
    by (auto simp: cpp_val_def cread_cases [OF p assms(2)])
  have "ubits (num_negate b p) = - cpp_val p b"
    using v trimmed_range [OF assms(2)] by (simp add: num_negate_ubits [OF p] take_bit_eq_mod zmod_zminus1_eq_if)
  then show ?thesis using True v opn by (auto simp: num_shift_op_def shift_count [OF p] k_def)
next
  case False
  then have "cpp_val p b = ubits b"
    using num_positive_cread [OF p, of b] trimmed_range [OF assms(2)] cread_cases [OF p assms(2)]
    by (cases "unsignedp b") (auto simp: cpp_val_def cread_def [of p True] split: if_splits)
  moreover have "0 \<le> ubits b" by (rule trimmed_range(1)) fact
  ultimately show ?thesis using False opn by (auto simp: num_shift_op_def shift_count [OF p] k_def)
qed

section \<open>What the operators compute\<close>

text \<open>
  The exact results in the integers. \<open>+\<close> and \<open>-\<close> have a common type: unsigned when one operand
  is.
\<close>

definition unary_value :: "cpp_op \<Rightarrow> int \<Rightarrow> int" where
  "unary_value opn x =
     (case opn of CPP_UPLUS \<Rightarrow> x | CPP_UMINUS \<Rightarrow> - x | CPP_COMPL \<Rightarrow> NOT x | _ \<Rightarrow> of_bool (x = 0))"

definition shifted_value :: "int \<Rightarrow> int \<Rightarrow> int" where
  "shifted_value x k = (if 0 \<le> k then x * 2 ^ nat k else x div 2 ^ nat (- k))"

lemma truth_trimmed: "valid_precision p \<Longrightarrow> trimmed p (truth b)"
  by (cases b) (simp_all add: trimmed_def valid_precision_def)

lemma truth_cread: "cread p False (truth b) = wrap p False (of_bool b)"
  by (simp add: cread_def wrap_def)

lemma cread_zero_iff:
  assumes "valid_precision p" "trimmed p n"
  shows "cread p u n = 0 \<longleftrightarrow> ubits n = 0"
proof -
  have "cread p u (truth False) = 0" by (simp add: cread_def)
  then show ?thesis using cread_inj [OF assms truth_trimmed [OF assms(1), of False], of u] by simp
qed

lemma cread_wrap: "valid_precision p \<Longrightarrow> trimmed p n \<Longrightarrow> wrap p u (cread p u n) = cread p u n"
  using cread_fits [of p n u] by (simp add: fits_iff_wrap)

lemma compl_ubits:
  assumes "valid_precision p"
  shows "ubits (num_trim (n\<lparr>cn_high := NOT (cn_high n), cn_low := NOT (cn_low n)\<rparr>) p) = take_bit p (NOT (ubits n))"
proof (rule bit_eqI)
  fix k
  have "k < p \<Longrightarrow> bit (udval (NOT (cn_low n)) (NOT (cn_high n))) k \<longleftrightarrow> \<not> bit (ubits n) k"
    using assms by (auto simp: bit_udval bit_ubits bit_not_iff valid_precision_def)
  then show "bit (ubits (num_trim (n\<lparr>cn_high := NOT (cn_high n), cn_low := NOT (cn_low n)\<rparr>) p)) k \<longleftrightarrow>
      bit (take_bit p (NOT (ubits n))) k"
    unfolding num_trim_ubits [OF assms] by (auto simp: bit_take_bit_iff bit_not_iff)
qed

lemma compl_cread:
  assumes "valid_precision p"
  shows "cread p u (num_trim (n\<lparr>cn_high := NOT (cn_high n), cn_low := NOT (cn_low n)\<rparr>) p) = wrap p u (NOT (cread p u n))"
proof -
  have "take_bit p (NOT (ubits n)) = take_bit p (NOT (cread p u n))"
    using take_bit_cread [OF assms, of u n] by (metis take_bit_not_take_bit)
  then show ?thesis using assms compl_ubits [OF assms] cread_eq_wrap wrap_eqI by metis
qed

text \<open>
  C33: The unary operators of \<open>#if\<close>. For a precision of 1 to 128 bits and an operand whose unused
  high bits are clear, \<open>+\<close>, \<open>-\<close>, \<open>~\<close> keep the signedness and give the exact result wrapped around to
  the precision; \<open>!\<close> gives a signed truth value; the unused bits stay clear; overflow is flagged
  exactly when a signed negation leaves the range.
\<close>

theorem num_unary_op_value:
  assumes "valid_precision (cpp_precision pfile)" "trimmed (cpp_precision pfile) n"
    "opn \<in> {CPP_UPLUS, CPP_UMINUS, CPP_COMPL, CPP_NOT}" "num_unary_op pfile n opn = (r, pfile')"
  shows "trimmed (cpp_precision pfile) r \<and> unsignedp r = (opn \<noteq> CPP_NOT \<and> unsignedp n) \<and>
    cpp_val (cpp_precision pfile) r =
      wrap (cpp_precision pfile) (unsignedp r) (unary_value opn (cpp_val (cpp_precision pfile) n)) \<and>
    overflow r = (opn = CPP_UMINUS \<and> \<not> unsignedp n \<and>
      \<not> fits (cpp_precision pfile) False (- cpp_val (cpp_precision pfile) n))"
  using assms
  by (intro conjI) (auto simp: num_unary_op_def unary_value_def cread_wrap truth_cread truth_trimmed num_negate_trimmed num_zerop_ubits
      num_negate_overflow cread_zero_iff num_negate_cread compl_cread cpp_val_def trimmedI [OF compl_ubits]
      simp del: of_bool_eq)


text \<open>A reader and single-word numbers for concrete runs.\<close>

definition example_reader :: cpp_reader where
  "example_reader = \<lparr>cpp_precision = 64, pedantic = True, c99 = True, warn_traditional = False,
     warn_num_sign_change = True, skip_eval = 0, diagnostics = []\<rparr>"

abbreviation cnum :: "hwi \<Rightarrow> cpp_num" where
  "cnum w \<equiv> \<lparr>cn_high = 0, cn_low = w, unsignedp = False, overflow = False\<rparr>"

lemma cnum_trimmed: "trimmed 64 (cnum w)"
  using uint64_range [of w] by (simp add: trimmed_def udval_def take_bit_int_eq_self)

lemma cnum_cread: "cread 64 False (cnum w) = sint w"
  using uint64_range [of w] cread_cases [OF _ cnum_trimmed [of w]]
  by (simp add: valid_precision_def sint64_uint udval_def)

lemma num_unary_op_value_witness:
  "overflow (fst (num_unary_op example_reader (cnum (2 ^ 63)) CPP_UMINUS))"
proof -
  have "\<not> fits 64 False (- cpp_val 64 (cnum (2 ^ 63)))" by code_simp
  moreover have "valid_precision (cpp_precision example_reader)" "cpp_precision example_reader = 64"
    by (simp_all add: example_reader_def valid_precision_def)
  ultimately show ?thesis
    using num_unary_op_value [of example_reader "cnum (2 ^ 63)" CPP_UMINUS, OF _ _ _ surjective_pairing] cnum_trimmed
    by simp
qed

lemma num_add_trimmed: "valid_precision p \<Longrightarrow> trimmed p (num_add a b p)"
  using num_add_ubits by (rule trimmedI)

lemma wrap_add_neg:
  assumes "valid_precision p"
  shows "wrap p u (x + wrap p u (- y)) = wrap p u (x - y)"
proof (rule wrap_eqI [OF assms])
  have "take_bit p (wrap p u (- y)) = take_bit p (- y)"
    using assms by (simp add: wrap_def take_bit_signed_take_bit valid_precision_Suc)
  then have "take_bit p (x + wrap p u (- y)) = take_bit p (x + - y)" by (metis take_bit_add)
  then show "take_bit p (x + wrap p u (- y)) = take_bit p (x - y)" by simp
qed

text \<open>The fall-through from \<open>CPP_MINUS\<close> into \<open>CPP_PLUS\<close>.\<close>

definition num_sub :: "cpp_num \<Rightarrow> cpp_num \<Rightarrow> nat \<Rightarrow> cpp_num" where
  "num_sub a b p = num_add a (num_negate b p) p"

lemma num_sub_trimmed: "valid_precision p \<Longrightarrow> trimmed p (num_sub a b p)"
  by (simp add: num_sub_def num_add_trimmed)

lemma num_sub_unsignedp [simp]: "unsignedp (num_sub a b p) \<longleftrightarrow> unsignedp a \<or> unsignedp b"
  by (simp add: num_sub_def)

lemma num_sub_cread:
  assumes "valid_precision p"
  shows "cread p u (num_sub a b p) = wrap p u (cread p u a - cread p u b)"
  using assms by (simp add: num_sub_def num_add_cread num_negate_cread wrap_add_neg)

lemma num_sub_overflow:
  assumes p: "valid_precision p" and a: "trimmed p a" and b: "trimmed p b"
  shows "overflow (num_sub a b p) \<longleftrightarrow> \<not> unsignedp a \<and> \<not> unsignedp b \<and>
    (fits p False (cread p False a - cread p False b) \<longleftrightarrow> cread p False b = - (2 ^ (p - 1)))"
proof -
  let ?a = "cread p False a" and ?b = "cread p False b"
  define H :: int where "H = 2 ^ (p - 1)"
  have H: "2 ^ p = 2 * H" "0 < H" using exp_precision [OF p] by (simp_all add: H_def)
  have f: "- H \<le> ?a" "?a < H" "- H \<le> ?b" "?b < H"
    using cread_fits [OF p a, of False] cread_fits [OF p b, of False] by (simp_all add: fits_def H_def)
  have "cread p False (num_negate b p) = (if ?b = - H then - H else - ?b)"
    using f H wrap_cases [OF p, of "- ?b"] by (auto simp: num_negate_cread [OF p] H_def [symmetric] simp del: One_nat_def)
  then have "fits p False (?a + cread p False (num_negate b p)) \<longleftrightarrow> fits p False (?a - ?b) \<noteq> (?b = - H)"
    using f by (auto simp: fits_def H_def [symmetric] simp del: One_nat_def)
  then show ?thesis
    using num_add_overflow [OF p a num_negate_trimmed [OF p, of b]] by (auto simp: H_def num_sub_def)
qed

text \<open>
  C19: Addition and subtraction in \<open>#if\<close>. The result is unsigned when an operand is, its value is the
  exact sum or difference of the operands, read in that signedness, wrapped around to the
  precision, and its unused bits are clear. The overflow flag of a signed addition is exact. The flag
  of a signed subtraction is exact except for the most negative subtrahend, where it is inverted:
  \<open>-1 - MIN\<close> is flagged although it fits, \<open>0 - MIN\<close> is not although it does not fit.
\<close>

theorem num_plus_minus_value:
  assumes "valid_precision (cpp_precision pfile)" "trimmed (cpp_precision pfile) a" "trimmed (cpp_precision pfile) b"
    "opn = CPP_PLUS \<or> opn = CPP_MINUS" "num_binary_op pfile a b opn = (r, pfile')"
    "p = cpp_precision pfile" "u = (unsignedp a \<or> unsignedp b)"
  shows "trimmed p r \<and> unsignedp r = u \<and> pfile' = pfile \<and>
    cpp_val p r = wrap p u (if opn = CPP_PLUS then cread p u a + cread p u b else cread p u a - cread p u b) \<and>
    overflow r = (\<not> u \<and>
      (if opn = CPP_PLUS then \<not> fits p u (cread p u a + cread p u b)
       else fits p u (cread p u a - cread p u b) = (cread p u b = - (2 ^ (p - 1)))))"
  using assms
  by (intro conjI) (auto simp: num_binary_op_def num_add_trimmed num_sub_trimmed num_add_cread num_sub_cread num_add_overflow
      num_sub_overflow cpp_val_def simp flip: num_sub_def simp del: One_nat_def)

lemma num_plus_minus_value_witness:
  "overflow (fst (num_binary_op example_reader (cnum (- 1)) (cnum (2 ^ 63)) CPP_MINUS))"
proof -
  have c: "fits 64 False (cread 64 False (cnum (- 1)) - cread 64 False (cnum (2 ^ 63)))"
    "cread 64 False (cnum (2 ^ 63)) = - (2 ^ (64 - 1))"
    by (simp_all add: cnum_cread fits_def)
  have p: "valid_precision (cpp_precision example_reader)" "64 = cpp_precision example_reader"
    by (simp_all add: example_reader_def valid_precision_def)
  have t: "trimmed (cpp_precision example_reader) (cnum w)" for w unfolding p(2) [symmetric] by (rule cnum_trimmed)
  have "CPP_MINUS = CPP_PLUS \<or> CPP_MINUS = CPP_MINUS" "False = (unsignedp (cnum (- 1)) \<or> unsignedp (cnum (2 ^ 63)))"
    by simp_all
  from num_plus_minus_value [OF p(1) t t this(1) surjective_pairing p(2) this(2)] c
  show ?thesis by (simp only: cpp_op.distinct if_False) simp
qed


lemma shifted_value_right:
  assumes "valid_precision p" "trimmed p a" "k \<le> 0"
  shows "shifted_value (cread p (unsignedp a) a) k = cread p (unsignedp a) (num_rshift a p (nat (- k)))"
    and "fits p (unsignedp a) (shifted_value (cread p (unsignedp a) a) k)"
proof -
  show e: "shifted_value (cread p (unsignedp a) a) k = cread p (unsignedp a) (num_rshift a p (nat (- k)))"
    using assms by (simp add: num_rshift_cread shifted_value_def)
  show "fits p (unsignedp a) (shifted_value (cread p (unsignedp a) a) k)"
    unfolding e by (intro cread_fits trimmedI [OF num_rshift_ubits]) fact+
qed

text \<open>
  C18: Shifts in \<open>#if\<close>, by any count. A negative signed count shifts the other way. The result has the
  signedness of the left operand; a left shift multiplies by the power of two and wraps around,
  a right shift divides, rounding down; a signed left shift flags overflow exactly when the product
  does not fit, and a right shift never does.
\<close>

theorem num_shift_value:
  assumes "valid_precision (cpp_precision pfile)" "trimmed (cpp_precision pfile) a" "trimmed (cpp_precision pfile) b"
    "opn = CPP_LSHIFT \<or> opn = CPP_RSHIFT" "num_binary_op pfile a b opn = (r, pfile')"
    "p = cpp_precision pfile" "k = (if opn = CPP_LSHIFT then cpp_val p b else - cpp_val p b)"
  shows "trimmed p r \<and> unsignedp r = unsignedp a \<and> pfile' = pfile \<and>
    cpp_val p r = wrap p (unsignedp a) (shifted_value (cpp_val p a) k) \<and>
    overflow r = (\<not> unsignedp a \<and> \<not> fits p False (shifted_value (cpp_val p a) k))"
proof -
  note p = assms(1)[folded assms(6)] and a = assms(2)[folded assms(6)] and b = assms(3)[folded assms(6)]
  have r: "r = num_shift_op a b p opn" "pfile' = pfile" using assms(4-6) by (auto simp: num_binary_op_def)
  have r_cases: "r = (if 0 < k \<or> k = 0 \<and> opn = CPP_LSHIFT then num_lshift a p (nat k) else num_rshift a p (nat (- k)))"
    unfolding r(1) assms(7) by (rule num_shift_op_count [OF p b assms(4)])
  show ?thesis
  proof (cases "0 < k \<or> k = 0 \<and> opn = CPP_LSHIFT")
    case True
    then have "r = num_lshift a p (nat k)" unfolding r_cases by (rule if_P)
    moreover from True have "shifted_value x k = x * 2 ^ nat k" for x by (auto simp: shifted_value_def)
    ultimately show ?thesis
      using r(2) num_lshift_cread [OF p] num_lshift_overflow [OF p a] trimmedI [OF num_lshift_ubits [OF p]]
      by (auto simp: cpp_val_def)
  next
    case False
    then have "r = num_rshift a p (nat (- k))" unfolding r_cases by (rule if_not_P)
    with False show ?thesis
      using r(2) shifted_value_right [OF p a, of k] trimmedI [OF num_rshift_ubits [OF p a]]
      by (cases "unsignedp a") (auto simp: cpp_val_def fits_iff_wrap [OF p])
  qed
qed

lemma num_shift_value_witness:
  "cpp_val 64 (fst (num_binary_op example_reader (cnum (- 7)) (cnum 1) CPP_RSHIFT)) = - 4"
proof -
  have p: "valid_precision (cpp_precision example_reader)" "64 = cpp_precision example_reader"
    by (simp_all add: example_reader_def valid_precision_def)
  have t: "trimmed (cpp_precision example_reader) (cnum w)" for w unfolding p(2) [symmetric] by (rule cnum_trimmed)
  have k: "- 1 = (if CPP_RSHIFT = CPP_LSHIFT then cpp_val 64 (cnum 1) else - cpp_val 64 (cnum 1))"
    "wrap 64 False (shifted_value (cpp_val 64 (cnum (- 7))) (- 1)) = - 4"
    by (simp_all add: cpp_val_def cnum_cread shifted_value_def wrap_def)
  have "CPP_RSHIFT = CPP_LSHIFT \<or> CPP_RSHIFT = CPP_RSHIFT" by simp
  from num_shift_value [OF p(1) t t this surjective_pairing p(2) k(1)] k(2) show ?thesis by simp
qed

text \<open>The comparison operators and the bitwise ones on integers.\<close>

definition compare_value :: "cpp_op \<Rightarrow> int \<Rightarrow> int \<Rightarrow> bool" where
  "compare_value opn x y =
     (case opn of CPP_GREATER_EQ \<Rightarrow> x \<ge> y | CPP_LESS \<Rightarrow> x < y | CPP_GREATER \<Rightarrow> x > y | CPP_LESS_EQ \<Rightarrow> x \<le> y
      | CPP_EQ_EQ \<Rightarrow> x = y | _ \<Rightarrow> x \<noteq> y)"

definition bitwise_value :: "cpp_op \<Rightarrow> int \<Rightarrow> int \<Rightarrow> int" where
  "bitwise_value opn x y = (case opn of CPP_AND \<Rightarrow> x AND y | CPP_OR \<Rightarrow> x OR y | _ \<Rightarrow> x XOR y)"

lemma num_bitwise_op_trimmed: "trimmed p a \<Longrightarrow> trimmed p b \<Longrightarrow> trimmed p (num_bitwise_op a b opn)"
  unfolding trimmed_def by (simp add: num_bitwise_op_ubits)

lemma num_bitwise_op_cread:
  "opn \<in> {CPP_AND, CPP_OR, CPP_XOR} \<Longrightarrow>
     cread p u (num_bitwise_op a b opn) = bitwise_value opn (cread p u a) (cread p u b)"
  by (rule bit_eqI) (auto simp: cread_def num_bitwise_op_ubits bitwise_value_def bit_simps)

text \<open>
  C34: Comparisons and bitwise operators in \<open>#if\<close>. Operands are read as unsigned when one of them is.
  A comparison gives the signed truth value of comparing the values; a bitwise operator gives the
  value of the operator on two's complement integers; neither overflows.
\<close>

theorem num_compare_bitwise_value:
  assumes "valid_precision p" "trimmed p a" "trimmed p b" "u = (unsignedp a \<or> unsignedp b)"
  shows "(opn \<in> {CPP_GREATER_EQ, CPP_LESS, CPP_GREATER, CPP_LESS_EQ} \<longrightarrow>
      num_inequality_op a b p opn = truth (compare_value opn (cread p u a) (cread p u b))) \<and>
    (opn \<in> {CPP_EQ_EQ, CPP_NOT_EQ} \<longrightarrow>
      num_equality_op a b opn = truth (compare_value opn (cread p u a) (cread p u b))) \<and>
    (opn \<in> {CPP_AND, CPP_OR, CPP_XOR} \<longrightarrow>
      (let r = num_bitwise_op a b opn
       in trimmed p r \<and> unsignedp r = u \<and> \<not> overflow r \<and>
          cpp_val p r = bitwise_value opn (cread p u a) (cread p u b)))"
  using assms num_greater_eq_cread [OF assms] cread_inj [OF assms(1-3), of u]
  by (intro conjI impI)
    (auto simp: num_inequality_op_def num_equality_op_def num_eq_ubits compare_value_def Let_def
      num_bitwise_op_trimmed num_bitwise_op_cread cpp_val_def)

lemma num_compare_bitwise_value_witness:
  "num_inequality_op (cnum (- 1)) ((cnum 1)\<lparr>unsignedp := True\<rparr>) 64 CPP_GREATER = truth True"
proof -
  have "valid_precision 64" "trimmed 64 ((cnum 1)\<lparr>unsignedp := True\<rparr>)"
    "True = (unsignedp (cnum (- 1)) \<or> unsignedp ((cnum 1)\<lparr>unsignedp := True\<rparr>))"
    using cnum_trimmed [of 1] unfolding trimmed_update by (simp_all add: valid_precision_def)
  from num_compare_bitwise_value [OF this(1) cnum_trimmed this(2,3), where opn = CPP_GREATER]
  have "num_inequality_op (cnum (- 1)) ((cnum 1)\<lparr>unsignedp := True\<rparr>) 64 CPP_GREATER =
      truth (compare_value CPP_GREATER (cread 64 True (cnum (- 1))) (cread 64 True ((cnum 1)\<lparr>unsignedp := True\<rparr>)))"
    by blast
  moreover have "cread 64 True (cnum (- 1)) = 2 ^ 64 - 1" "cread 64 True ((cnum 1)\<lparr>unsignedp := True\<rparr>) = 1"
    by (simp_all add: cread_def udval_def unsigned_minus_1_eq_mask mask_eq_exp_minus_1)
  ultimately show ?thesis by (simp add: compare_value_def)
qed

end
