(* ===== verification/Cpp_Muldiv.thy ===== *)
theory Cpp_Muldiv
  imports Cpp_Num
begin

text \<open>
  Multiplication and division of the numbers of \<open>#if\<close>: \<open>num_part_mul\<close>, \<open>num_mul\<close> and \<open>num_div_op\<close> of
  \<open>src/libcpp/expr.c\<close> compute the exact product, quotient and remainder, wrapped around to the
  precision.
\<close>

section \<open>Multiplication\<close>

lemma LOW_PART_LOWPART: "LOW_PART x = LOWPART x" "HIGH_PART x = HIGHPART x"
proof -
  have "drop_bit 32 (NOT 0) = (push_bit 32 1 - 1 :: hwi)" by code_simp
  then show "LOW_PART x = LOWPART x" by (simp add: LOW_PART_def LOWPART_def)
  show "HIGH_PART x = HIGHPART x" by (simp add: HIGH_PART_def HIGHPART_def)
qed

text \<open>Adding to the low word with carry, and to the high word, modulo \<open>2 ^ 128\<close>.\<close>

lemma udval_add_low: "udval (l + x) (if l + x < l then h + 1 else h) = (udval l h + uint x) mod 2 ^ 128"
proof -
  have "add_double_with_sign l h x 0 True = (fst (add_double_with_sign l h x 0 True), l + x, if l + x < l then h + 1 else h)"
    by (simp add: add_double_with_sign_def Let_def)
  from add_double_udval [OF this] show ?thesis by (simp add: udval_def)
qed

lemma udval_add_high: "udval l (h + y) = (udval l h + 2 ^ 64 * uint y) mod 2 ^ 128"
proof -
  have "add_double_with_sign l h 0 y True = (fst (add_double_with_sign l h 0 y True), l, h + y)"
    by (simp add: add_double_with_sign_def Let_def)
  from add_double_udval [OF this] show ?thesis by (simp add: udval_def mult.commute)
qed

lemma uint_mult_halves:
  assumes "uint a < 2 ^ 32" "uint b < 2 ^ 32"
  shows "uint (a * b :: hwi) = uint a * uint b"
proof -
  have "uint a * uint b < 2 ^ 32 * 2 ^ 32" using assms by (intro mult_strict_mono) simp_all
  then show ?thesis by (simp add: uint_word_ariths mod_pos_pos_trivial)
qed

lemma uint_push_LOWPART: "uint (push_bit 32 (LOWPART x)) = 2 ^ 32 * (uint x mod 2 ^ 32)"
proof -
  have "uint (LOWPART x) < 2 ^ 32" by (simp add: uint_LOWPART)
  then have "uint (LOWPART x) * 2 ^ 32 mod 2 ^ 64 = uint (LOWPART x) * 2 ^ 32" by (intro mod_pos_pos_trivial) simp_all
  then show ?thesis by (simp add: push_bit_eq_mult uint_word_ariths uint_LOWPART)
qed

lemma num_part_mul_ubits: "ubits (num_part_mul a b) = uint a * uint b"
proof -
  define a0 a1 b0 b1 where "a0 = LOWPART a" and "a1 = HIGHPART a" and "b0 = LOWPART b" and "b1 = HIGHPART b"
  have r: "uint a0 < 2 ^ 32" "uint a1 < 2 ^ 32" "uint b0 < 2 ^ 32" "uint b1 < 2 ^ 32"
    by (simp_all add: a0_def a1_def b0_def b1_def uint_LOWPART uint_HIGHPART_less [simplified])
  define l1 h1 l2 h2 where "l1 = a0 * b0 + push_bit 32 (LOWPART (a0 * b1))"
    and "h1 = (if l1 < a0 * b0 then a1 * b1 + 1 else a1 * b1)"
    and "l2 = l1 + push_bit 32 (LOWPART (a1 * b0))"
    and "h2 = (if l2 < l1 then h1 + 1 else h1)"
  have "ubits (num_part_mul a b) = udval l2 (h2 + HIGHPART (a0 * b1) + HIGHPART (a1 * b0))"
    unfolding num_part_mul_def LOW_PART_LOWPART Let_def
    by (simp add: l1_def l2_def h1_def h2_def a0_def a1_def b0_def b1_def)
  also have "\<dots> = (udval l2 h2 + 2 ^ 64 * uint (HIGHPART (a0 * b1)) + 2 ^ 64 * uint (HIGHPART (a1 * b0))) mod 2 ^ 128"
    unfolding udval_add_high by (simp only: mod_add_left_eq)
  also have "\<dots> = (udval (a0 * b0) (a1 * b1) + uint (push_bit 32 (LOWPART (a0 * b1))) + uint (push_bit 32 (LOWPART (a1 * b0)))
      + 2 ^ 64 * uint (HIGHPART (a0 * b1)) + 2 ^ 64 * uint (HIGHPART (a1 * b0))) mod 2 ^ 128"
  proof -
    have "udval l2 h2 = (udval (a0 * b0) (a1 * b1) + uint (push_bit 32 (LOWPART (a0 * b1))) + uint (push_bit 32 (LOWPART (a1 * b0)))) mod 2 ^ 128"
      unfolding l2_def h2_def udval_add_low by (simp only: l1_def h1_def udval_add_low mod_add_left_eq)
    then show ?thesis by (simp only: mod_add_left_eq add.assoc)
  qed
  also have "\<dots> = (uint a * uint b) mod 2 ^ 128"
  proof (rule arg_cong [of _ _ "\<lambda>x. x mod 2 ^ 128"])
    have m: "uint (push_bit 32 (LOWPART x)) + 2 ^ 64 * uint (HIGHPART x) = 2 ^ 32 * uint x" for x
    proof -
      have "2 ^ 32 * m + 2 ^ 64 * d = 2 ^ 32 * (m + 2 ^ 32 * d)" for m d :: int by simp
      then show ?thesis unfolding uint_push_LOWPART uint_HIGHPART by (simp only: mod_mult_div_eq)
    qed
    have "udval (a0 * b0) (a1 * b1) + uint (push_bit 32 (LOWPART (a0 * b1))) + uint (push_bit 32 (LOWPART (a1 * b0)))
      + 2 ^ 64 * uint (HIGHPART (a0 * b1)) + 2 ^ 64 * uint (HIGHPART (a1 * b0)) =
      udval (a0 * b0) (a1 * b1) + 2 ^ 32 * uint (a0 * b1) + 2 ^ 32 * uint (a1 * b0)"
      using m [of "a0 * b1"] m [of "a1 * b0"] by linarith
    also have "\<dots> = (uint a0 + 2 ^ 32 * uint a1) * (uint b0 + 2 ^ 32 * uint b1)"
      using r by (simp add: udval_def uint_mult_halves algebra_simps)
    finally show "udval (a0 * b0) (a1 * b1) + uint (push_bit 32 (LOWPART (a0 * b1))) + uint (push_bit 32 (LOWPART (a1 * b0)))
      + 2 ^ 64 * uint (HIGHPART (a0 * b1)) + 2 ^ 64 * uint (HIGHPART (a1 * b0)) = uint a * uint b"
      by (simp only: a0_def a1_def b0_def b1_def low_high)
  qed
  also have "\<dots> = uint a * uint b"
  proof (rule mod_pos_pos_trivial)
    have "uint a * uint b < 2 ^ 64 * 2 ^ 64" using uint64_range [of a] uint64_range [of b] by (intro mult_strict_mono) simp_all
    then show "uint a * uint b < 2 ^ 128" by simp
  qed simp
  finally show ?thesis .
qed


lemma udval_high_low: "udval l h mod 2 ^ 64 = uint l" "udval l h div 2 ^ 64 = uint h"
  using uint64_range [of l] by (simp_all add: udval_def)

text \<open>The product of two double words, without the part that leaves the 128 bits.\<close>

definition double_product :: "cpp_num \<Rightarrow> cpp_num \<Rightarrow> cpp_num" where
  "double_product a b =
     (let r = num_part_mul (cn_low a) (cn_low b)
      in r\<lparr>cn_high := cn_high r + cn_low (num_part_mul (cn_high a) (cn_low b)) + cn_low (num_part_mul (cn_low a) (cn_high b))\<rparr>)"

lemma double_product_ubits: "ubits (double_product a b) = (ubits a * ubits b) mod 2 ^ 128"
proof -
  let ?la = "uint (cn_low a)" and ?ha = "uint (cn_high a)" and ?lb = "uint (cn_low b)" and ?hb = "uint (cn_high b)"
  have low: "uint (cn_low (num_part_mul x y)) = (uint x * uint y) mod 2 ^ 64" for x y
    using num_part_mul_ubits [of x y] unfolding ubits_def by (metis udval_high_low(1))
  have m: "2 ^ 64 * (x mod 2 ^ 64) = (2 ^ 64 * x) mod (2 ^ 128 :: int)" for x :: int
    using mult_mod_right [of "2 ^ 64" x "2 ^ 64"] by simp
  have "ubits (double_product a b) = (?la * ?lb + 2 ^ 64 * ((?ha * ?lb) mod 2 ^ 64) + 2 ^ 64 * ((?la * ?hb) mod 2 ^ 64)) mod 2 ^ 128"
    using num_part_mul_ubits [of "cn_low a" "cn_low b"]
    unfolding double_product_def Let_def ubits_set_part udval_add_high mod_add_left_eq low by (simp only: ubits_def)
  also have "\<dots> = (?la * ?lb + 2 ^ 64 * (?ha * ?lb) + 2 ^ 64 * (?la * ?hb)) mod 2 ^ 128"
    unfolding m by (metis (no_types) mod_add_right_eq mod_add_left_eq)
  also have "\<dots> = (?la * ?lb + 2 ^ 64 * (?ha * ?lb) + 2 ^ 64 * (?la * ?hb) + 2 ^ 128 * (?ha * ?hb)) mod 2 ^ 128"
    by (simp only: mod_mult_self2)
  also have "?la * ?lb + 2 ^ 64 * (?ha * ?lb) + 2 ^ 64 * (?la * ?hb) + 2 ^ 128 * (?ha * ?hb) = ubits a * ubits b"
    by (simp add: ubits_def udval_def algebra_simps)
  finally show ?thesis .
qed

lemma num_magnitude_spec:
  assumes p: "valid_precision p" and n: "trimmed p n" and "num_magnitude n p negate = (negate', m)"
  shows "negate' = (negate \<noteq> (cread p False n < 0))" and "ubits m = \<bar>cread p False n\<bar>" and "trimmed p m"
    and "unsignedp m = unsignedp n"
proof -
  let ?x = "cread p False n"
  have pos: "num_positive n p \<longleftrightarrow> 0 \<le> ?x" by (rule num_positive_cread [OF p])
  have neg: "ubits (num_negate n p) = - ?x" if "?x < 0"
    using that trimmed_range [OF n] cread_cases [OF p n] exp_precision [OF p]
    by (auto simp: num_negate_ubits [OF p] take_bit_eq_mod zmod_zminus1_eq_if split: if_splits)
  have nonneg: "ubits n = ?x" if "0 \<le> ?x"
    using that trimmed_range [OF n] cread_cases [OF p n] by (auto split: if_splits)
  show "negate' = (negate \<noteq> (?x < 0))" "unsignedp m = unsignedp n"
    using assms(3) by (auto simp: num_magnitude_def pos split: if_splits)
  show "ubits m = \<bar>?x\<bar>" using assms(3) neg nonneg by (auto simp: num_magnitude_def pos split: if_splits)
  show "trimmed p m" using assms(3) n num_negate_trimmed [OF p] by (auto simp: num_magnitude_def split: if_splits)
qed


text \<open>The flag of the partial products.\<close>

definition parts_overflow :: "cpp_num \<Rightarrow> cpp_num \<Rightarrow> bool" where
  "parts_overflow a b \<longleftrightarrow> cn_high a \<noteq> 0 \<and> cn_high b \<noteq> 0 \<or>
     cn_high (num_part_mul (cn_high a) (cn_low b)) \<noteq> 0 \<or> cn_high (num_part_mul (cn_low a) (cn_high b)) \<noteq> 0"

lemma high_zero_iff: "cn_high n = 0 \<longleftrightarrow> ubits n < 2 ^ 64"
proof -
  have "cn_high n = 0 \<longleftrightarrow> ubits n div 2 ^ 64 = 0" unfolding ubits_def udval_high_low(2) by (simp add: uint_0_iff)
  then show ?thesis using ubits_range(1) [of n] by (auto simp: zdiv_eq_0_iff)
qed

lemma part_high_zero_iff: "cn_high (num_part_mul x y) = 0 \<longleftrightarrow> uint x * uint y < 2 ^ 64"
  unfolding high_zero_iff num_part_mul_ubits ..

lemma parts_overflow_product:
  assumes "parts_overflow a b"
  shows "2 ^ 128 \<le> ubits a * ubits b"
proof -
  have hi: "2 ^ 64 * uint (cn_high n) \<le> ubits n" and lo: "uint (cn_low n) \<le> ubits n" for n
    by (simp_all add: ubits_def udval_def)
  have B: "2 ^ 128 \<le> ubits a * ubits b"
    if "2 ^ 64 * x \<le> ubits a" "y \<le> ubits b" "2 ^ 64 \<le> x * y" "0 \<le> x" "0 \<le> y" for x y
  proof -
    have "(2 :: int) ^ 128 = 2 ^ 64 * 2 ^ 64" by simp
    also have "\<dots> \<le> 2 ^ 64 * (x * y)" using that(3) by (intro mult_left_mono) simp_all
    also have "\<dots> = (2 ^ 64 * x) * y" by simp
    also have "\<dots> \<le> ubits a * ubits b" using that ubits_range(1) [of a] by (intro mult_mono) simp_all
    finally show ?thesis .
  qed
  have C: "2 ^ 128 \<le> ubits a * ubits b"
    if "x \<le> ubits a" "2 ^ 64 * y \<le> ubits b" "2 ^ 64 \<le> x * y" "0 \<le> x" "0 \<le> y" for x y
  proof -
    have "(2 :: int) ^ 128 = 2 ^ 64 * 2 ^ 64" by simp
    also have "\<dots> \<le> 2 ^ 64 * (x * y)" using that(3) by (intro mult_left_mono) simp_all
    also have "\<dots> = x * (2 ^ 64 * y)" by simp
    also have "\<dots> \<le> ubits a * ubits b" using that ubits_range(1) [of a] by (intro mult_mono) simp_all
    finally show ?thesis .
  qed
  consider "2 ^ 64 \<le> ubits a" "2 ^ 64 \<le> ubits b" | "2 ^ 64 \<le> uint (cn_high a) * uint (cn_low b)"
    | "2 ^ 64 \<le> uint (cn_low a) * uint (cn_high b)"
    using assms unfolding parts_overflow_def high_zero_iff num_part_mul_ubits by linarith
  then show ?thesis
  proof cases
    case 1
    then have "(2 :: int) ^ 64 * 2 ^ 64 \<le> ubits a * ubits b" by (intro mult_mono) simp_all
    then show ?thesis by simp
  next
    case 2
    then show ?thesis by (intro B [OF hi lo]) simp_all
  next
    case 3
    then show ?thesis by (intro C [OF lo hi]) simp_all
  qed
qed

lemma no_parts_overflow:
  assumes "ubits a < 2 ^ 64" "ubits b < 2 ^ 64"
  shows "\<not> parts_overflow a b"
proof -
  have "cn_high a = 0" "cn_high b = 0" using assms high_zero_iff by blast+
  then show ?thesis by (simp add: parts_overflow_def part_high_zero_iff)
qed

text \<open>The final sign check, when the magnitude has not left the precision.\<close>

lemma sign_check:
  assumes p: "valid_precision p" and r: "ubits r = take_bit p x" and x: "x = (if neg then - R else R)"
    and R: "0 \<le> R" "R < 2 ^ p"
  shows "num_positive r p \<noteq> (\<not> neg) \<and> \<not> num_zerop r \<longleftrightarrow> \<not> fits p False x"
proof -
  define H :: int where "H = 2 ^ (p - 1)"
  have H: "2 ^ p = 2 * H" "0 < H" using exp_precision [OF p] by (simp_all add: H_def)
  have c: "cread p False r = wrap p False x" by (rule cread_eq_wrap [OF p r])
  have w: "wrap p False x = (if x < - H then x + 2 * H else if x < H then x else x - 2 * H)"
    using wrap_cases [OF p, of x] R x by (auto simp: H(1) H_def [symmetric] simp del: One_nat_def)
  have z: "num_zerop r \<longleftrightarrow> cread p False r = 0"
    unfolding num_zerop_ubits using cread_zero_iff [OF p trimmedI [OF r]] by simp
  have f: "fits p False x \<longleftrightarrow> - H \<le> x \<and> x < H" by (simp add: fits_def H_def)
  show ?thesis
    unfolding z num_positive_cread [OF p] c w f using R H x by (auto simp: H(1))
qed

lemma num_mul_unsigned:
  assumes p: "valid_precision p" and "unsignedp a \<or> unsignedp b"
  shows "ubits (num_mul a b p) = take_bit p (ubits a * ubits b) \<and> unsignedp (num_mul a b p) \<and> \<not> overflow (num_mul a b p)"
proof -
  have "ubits (num_mul a b p) = ubits (num_trim (double_product a b) p)" "unsignedp (num_mul a b p)" "\<not> overflow (num_mul a b p)"
    using assms(2) by (auto simp: num_mul_def double_product_def Let_def)
  then show ?thesis by (simp only: num_trim_ubits [OF p] double_product_ubits take_bit_mod_128 [OF p]) simp
qed

text \<open>The signed product: its magnitude, sign and flag.\<close>

lemma num_mul_signed:
  assumes p: "valid_precision p" and "\<not> (unsignedp a \<or> unsignedp b)"
    and a: "num_magnitude a p False = (na, a')" and b: "num_magnitude b p na = (neg, b')"
  shows "\<exists>r. ubits r = take_bit p (if neg then - (ubits a' * ubits b') else ubits a' * ubits b') \<and>
    num_mul a b p = r\<lparr>overflow := parts_overflow a' b' \<or> take_bit p (ubits (double_product a' b')) \<noteq> ubits (double_product a' b')
      \<or> num_positive r p \<noteq> (\<not> neg) \<and> \<not> num_zerop r, unsignedp := False\<rparr>"
proof -
  define d where "d = double_product a' b'"
  define r where "r = (if neg then num_negate (num_trim d p) p else num_trim d p)"
  have R: "num_mul a b p = r\<lparr>overflow := (parts_overflow a' b' \<or> \<not> num_eq (num_trim d p) d) \<or>
      num_positive r p \<noteq> (\<not> neg) \<and> \<not> num_zerop r, unsignedp := False\<rparr>"
    using assms(2) unfolding num_mul_def Let_def r_def d_def double_product_def parts_overflow_def
    by (simp add: a b)
  have "ubits d = (ubits a' * ubits b') mod 2 ^ 128" unfolding d_def by (rule double_product_ubits)
  then have t: "ubits (num_trim d p) = take_bit p (ubits a' * ubits b')"
    by (simp only: num_trim_ubits [OF p] take_bit_mod_128 [OF p])
  have "ubits r = take_bit p (if neg then - (ubits a' * ubits b') else ubits a' * ubits b')"
    by (simp add: r_def num_negate_ubits [OF p] t take_bit_minus)
  with R show ?thesis unfolding num_eq_ubits num_trim_ubits [OF p] d_def by (intro exI [of _ r]) simp
qed


lemma fits_magnitude: "valid_precision p \<Longrightarrow> fits p False x \<Longrightarrow> \<bar>x\<bar> < 2 ^ p"
proof -
  assume p: "valid_precision p" and "fits p False x"
  moreover have "(0 :: int) < 2 ^ (p - 1)" by simp
  moreover have "(2 :: int) ^ p = 2 * 2 ^ (p - 1)" using exp_precision [OF p] by simp
  ultimately show ?thesis unfolding fits_def if_False by linarith
qed

text \<open>The magnitude check: it reports only products beyond the precision, and all of those of single words.\<close>

definition product_flag :: "nat \<Rightarrow> cpp_num \<Rightarrow> cpp_num \<Rightarrow> bool" where
  "product_flag p a b \<longleftrightarrow> parts_overflow a b \<or> take_bit p (ubits (double_product a b)) \<noteq> ubits (double_product a b)"

lemma product_flag_sound:
  assumes p: "valid_precision p" and "product_flag p a b"
  shows "2 ^ p \<le> ubits a * ubits b"
proof (rule ccontr)
  let ?R = "ubits a * ubits b"
  have p128: "(2 :: int) ^ p \<le> 2 ^ 128" using p by (intro power_increasing) (simp_all add: valid_precision_def)
  assume "\<not> 2 ^ p \<le> ?R"
  moreover have "0 \<le> ?R" using ubits_range(1) by simp
  ultimately have R: "?R < 2 ^ p" "?R mod 2 ^ 128 = ?R" "take_bit p ?R = ?R"
    using p128 by (simp_all add: take_bit_int_eq_self mod_pos_pos_trivial)
  then have "parts_overflow a b" using assms(2) unfolding product_flag_def double_product_ubits by metis
  then have "2 ^ 128 \<le> ?R" by (rule parts_overflow_product)
  with R(1) p128 show False by linarith
qed

lemma product_flag_complete:
  assumes "ubits a < 2 ^ 64" "ubits b < 2 ^ 64" "2 ^ p \<le> ubits a * ubits b"
  shows "product_flag p a b"
proof -
  let ?R = "ubits a * ubits b"
  have "?R < 2 ^ 64 * 2 ^ 64" using assms(1,2) ubits_range(1) by (intro mult_strict_mono) simp_all
  then have "?R mod 2 ^ 128 = ?R" using ubits_range(1) by (intro mod_pos_pos_trivial) simp_all
  moreover have "take_bit p ?R \<noteq> ?R" using assms(3) take_bit_int_less_exp [of p ?R] by linarith
  ultimately show ?thesis unfolding product_flag_def double_product_ubits by metis
qed

lemma num_mul_signed_value:
  assumes p: "valid_precision p" and t: "trimmed p a" "trimmed p b" and u: "\<not> (unsignedp a \<or> unsignedp b)"
    and xy: "x = cread p False a" "y = cread p False b"
  shows "\<exists>a' b'. ubits a' = \<bar>x\<bar> \<and> ubits b' = \<bar>y\<bar> \<and>
    ubits (num_mul a b p) = take_bit p (x * y) \<and> \<not> unsignedp (num_mul a b p) \<and>
    (product_flag p a' b' \<longrightarrow> overflow (num_mul a b p)) \<and>
    (\<not> product_flag p a' b' \<and> \<bar>x * y\<bar> < 2 ^ p \<longrightarrow> overflow (num_mul a b p) = (\<not> fits p False (x * y)))"
proof -
  obtain na a' neg b' where m: "num_magnitude a p False = (na, a')" "num_magnitude b p na = (neg, b')"
    by (metis surj_pair)
  note sa = num_magnitude_spec [OF p t(1) m(1)] and sb = num_magnitude_spec [OF p t(2) m(2)]
  define R where "R = ubits a' * ubits b'"
  define z where "z = (if neg then - R else R)"
  have R: "R = \<bar>x * y\<bar>" "0 \<le> R" by (simp_all add: R_def sa(2) sb(2) xy abs_mult)
  have neg: "neg = ((x < 0) \<noteq> (y < 0))" using sa(1) sb(1) by (auto simp: xy)
  have z: "z = x * y"
    unfolding z_def R(1) neg
    by (cases "x < 0"; cases "y < 0") (auto simp: abs_if mult_less_0_iff zero_less_mult_iff not_less)
  from num_mul_signed [OF p u m] obtain s where s: "ubits s = take_bit p z"
    and r: "num_mul a b p = s\<lparr>overflow := product_flag p a' b' \<or> num_positive s p \<noteq> (\<not> neg) \<and> \<not> num_zerop s, unsignedp := False\<rparr>"
    unfolding z_def R_def product_flag_def disj_assoc by blast
  have "R < 2 ^ p \<Longrightarrow> num_positive s p \<noteq> (\<not> neg) \<and> \<not> num_zerop s \<longleftrightarrow> \<not> fits p False (x * y)"
    using sign_check [OF p s z_def R(2)] unfolding z by blast
  with s show ?thesis unfolding R(1) z
    by (intro exI [of _ a'] exI [of _ b']) (simp add: r sa(2) sb(2) xy)
qed

text \<open>
  C11: Multiplication in \<open>#if\<close>: the result is unsigned when an operand is, its value is the exact product
  wrapped around to the precision, its unused bits are clear. An unsigned product never flags overflow;
  a signed product that is flagged does not fit, and the flag is exact when the precision is at most
  one word or both magnitudes are below \<open>2 ^ 64\<close>.
\<close>

theorem num_mul_value:
  assumes "valid_precision p" "trimmed p a" "trimmed p b" "u = (unsignedp a \<or> unsignedp b)"
    and "x = cread p u a" "y = cread p u b" "r = num_mul a b p"
  shows "trimmed p r \<and> unsignedp r = u \<and> cpp_val p r = wrap p u (x * y) \<and>
    (overflow r \<longrightarrow> \<not> u \<and> \<not> fits p u (x * y)) \<and>
    (p \<le> 64 \<or> \<bar>x\<bar> < 2 ^ 64 \<and> \<bar>y\<bar> < 2 ^ 64 \<longrightarrow> overflow r = (\<not> u \<and> \<not> fits p u (x * y)))"
proof (cases u)
  case True
  note q = num_mul_unsigned [OF assms(1), of a b, folded assms(4) assms(7)]
  have "x = ubits a" "y = ubits b" using True assms(5,6) by (simp_all add: cread_def)
  with q True show ?thesis using cread_eq_wrap [OF assms(1)] trimmedI by (auto simp: cpp_val_def)
next
  case False
  note p = assms(1)
  have u: "\<not> (unsignedp a \<or> unsignedp b)" and xy: "x = cread p False a" "y = cread p False b"
    using False assms(4-6) by simp_all
  from num_mul_signed_value [OF p assms(2,3) u xy] obtain a' b' where m: "ubits a' = \<bar>x\<bar>" "ubits b' = \<bar>y\<bar>"
    and r: "ubits r = take_bit p (x * y)" "\<not> unsignedp r"
    and ov: "product_flag p a' b' \<Longrightarrow> overflow r"
      "\<not> product_flag p a' b' \<Longrightarrow> \<bar>x * y\<bar> < 2 ^ p \<Longrightarrow> overflow r = (\<not> fits p False (x * y))"
    unfolding assms(7) by blast
  have range: "2 ^ p \<le> \<bar>x * y\<bar> \<Longrightarrow> \<not> fits p False (x * y)" using fits_magnitude [OF p, of "x * y"] by linarith
  have sound: "product_flag p a' b' \<Longrightarrow> 2 ^ p \<le> \<bar>x * y\<bar>"
    using product_flag_sound [OF p, of a' b'] by (simp add: m abs_mult)
  have "\<bar>x\<bar> < 2 ^ p" "\<bar>y\<bar> < 2 ^ p" unfolding xy by (intro fits_magnitude cread_fits p assms(2,3))+
  moreover have "p \<le> 64 \<Longrightarrow> (2 :: int) ^ p \<le> 2 ^ 64" by (rule power_increasing) simp_all
  ultimately have "product_flag p a' b'" if "p \<le> 64 \<or> \<bar>x\<bar> < 2 ^ 64 \<and> \<bar>y\<bar> < 2 ^ 64" "2 ^ p \<le> \<bar>x * y\<bar>"
    using that by (intro product_flag_complete) (auto simp: m abs_mult)
  then have "p \<le> 64 \<or> \<bar>x\<bar> < 2 ^ 64 \<and> \<bar>y\<bar> < 2 ^ 64 \<longrightarrow> overflow r = (\<not> fits p False (x * y))"
    using ov range sound by (meson not_le)
  moreover have "overflow r \<Longrightarrow> \<not> fits p False (x * y)" using ov(2) range sound by (meson not_le)
  moreover have "trimmed p r" "cpp_val p r = wrap p False (x * y)"
    using r trimmedI [OF r(1)] cread_eq_wrap [OF p r(1)] by (simp_all add: cpp_val_def)
  ultimately show ?thesis using False r(2) by simp
qed

lemma num_mul_value_witness:
  "overflow (num_mul (cnum (2 ^ 32)) (cnum (2 ^ 31)) 64)"
proof -
  have "\<not> fits 64 False (cread 64 False (cnum (2 ^ 32)) * cread 64 False (cnum (2 ^ 31)))"
    by (simp add: cnum_cread fits_def)
  moreover have "valid_precision 64" "False = (unsignedp (cnum (2 ^ 32)) \<or> unsignedp (cnum (2 ^ 31)))"
    by (simp_all add: valid_precision_def)
  ultimately show ?thesis using num_mul_value [OF _ cnum_trimmed cnum_trimmed _ refl refl refl] by blast
qed

text \<open>
  Beyond one word the carries out of the high word are lost: the product below is
  \<open>2 ^ 128 + 2 ^ 65 - 3\<close>, which leaves every precision, and is not flagged.
\<close>

lemma num_mul_missed_overflow:
  "\<not> overflow (num_mul \<lparr>cn_high = 0x5555555555555555, cn_low = - 1, unsignedp = False, overflow = False\<rparr> (cnum 3) 128)"
  by code_simp


section \<open>Division\<close>

text \<open>The search from a high enough bit ends at the highest set bit.\<close>

lemma drop_exp: "i < 63 \<Longrightarrow> drop_bit (Suc 0) (2 ^ Suc i :: hwi) = 2 ^ i"
  by (rule bit_word_eqI) (auto simp: bit_simps simp del: power_Suc)

lemma find_high_bit_found:
  assumes "part \<noteq> 0" "take_bit (Suc i) part = part" "i < 64"
  shows "\<exists>k \<le> i. find_high_bit part (i + off) (push_bit i 1) = Some (k + off) \<and> bit part k \<and> (\<forall>j > k. \<not> bit part j)"
  using assms
proof (induction i)
  case 0
  then have "bit part 0" by (metis bit_eqI bit_take_bit_iff less_Suc0 take_bit_0 take_bit_of_0 bit_0_eq bot_apply bot_bool_def)
  moreover have "\<not> bit part j" if "0 < j" for j using 0(2) that by (metis bit_take_bit_iff less_one not_less_zero less_Suc0 not_gr_zero)
  ultimately show ?case by (subst find_high_bit.simps) (auto simp: and_exp_iff bit_0 and_one_eq)
next
  case (Suc i)
  have above: "\<not> bit part j" if "Suc i < j" for j
    using Suc.prems(2) that by (metis bit_take_bit_iff less_antisym not_less_iff_gr_or_eq)
  show ?case
  proof (cases "bit part (Suc i)")
    case True
    then show ?thesis using above
      by (intro exI [of _ "Suc i"]) (subst find_high_bit.simps, simp add: and_exp_iff del: push_bit_Suc power_Suc)
  next
    case False
    have "take_bit (Suc i) part = part"
      using False above by (intro bit_word_eqI) (metis Suc_lessI bit_take_bit_iff linorder_neqE_nat not_less_eq)
    from Suc.IH [OF Suc.prems(1) this] Suc.prems(3) obtain k where k: "k \<le> i"
      "find_high_bit part (i + off) (push_bit i 1) = Some (k + off)" "bit part k" "\<forall>j > k. \<not> bit part j" by auto
    have "find_high_bit part (Suc i + off) (push_bit (Suc i) 1) = find_high_bit part (i + off) (push_bit i 1)"
      using False Suc.prems(3)
      by (subst find_high_bit.simps) (simp add: and_exp_iff drop_exp del: push_bit_Suc power_Suc)
    with k show ?thesis by (intro exI [of _ k]) auto
  qed
qed

lemma high_bit_bounds:
  assumes "0 \<le> (x :: int)" "bit x k" "\<forall>j > k. \<not> bit x j"
  shows "2 ^ k \<le> x" "x < 2 ^ Suc k"
proof -
  have "odd (x div 2 ^ k)" using assms(2) by (simp add: bit_iff_odd)
  then have "x div 2 ^ k \<noteq> 0" by (metis even_zero)
  then show "2 ^ k \<le> x" using assms(1) by (metis div_pos_pos_trivial not_le)
  have "take_bit (Suc k) x = x"
    using assms(3) by (intro bit_eqI) (metis Suc_leI bit_take_bit_iff less_Suc_eq not_less_eq linorder_neqE_nat)
  then show "x < 2 ^ Suc k" by (metis take_bit_int_less_exp)
qed

lemma divisor_bit_found:
  assumes p: "valid_precision p" and n: "trimmed p n" "ubits n \<noteq> 0" and "p \<le> 64 \<or> p = 128 \<or> 2 ^ 64 \<le> ubits n"
  shows "\<exists>k < p. divisor_bit n p = Some (Inr k) \<and> 2 ^ k \<le> ubits n \<and> ubits n < 2 ^ Suc k"
proof -
  have above: "\<not> bit (ubits n) j" if "p \<le> j" for j
    using n(1) that unfolding trimmed_def by (metis bit_take_bit_iff not_le)
  have hi: "j + 64 < p" if "bit (cn_high n) j" for j
    by (rule ccontr) (use that above [of "j + 64"] in \<open>simp add: bit_ubits\<close>)
  have lo: "j < p \<and> j < 64" if "bit (cn_low n) j" for j
    by (rule ccontr) (use that above [of j] bit_imp_le_length [OF that] in \<open>auto simp: bit_ubits\<close>)
  have "\<exists>k < p. divisor_bit n p = Some (Inr k) \<and> bit (ubits n) k \<and> (\<forall>j > k. \<not> bit (ubits n) j)"
  proof (cases "cn_high n = 0")
    case False
    then obtain j where "bit (cn_high n) j" by (metis bit_eqI bit_0_eq bot_apply bot_bool_def)
    then have p64: "64 < p" using hi by fastforce
    have "take_bit (Suc (p - 65)) (cn_high n) = cn_high n"
      using hi by (intro bit_word_eqI) (fastforce simp: bit_take_bit_iff)
    moreover have "p - 65 < 64" "p - 65 + 64 = p - 1" "p - 1 - 64 = p - 65"
      using p p64 by (simp_all add: valid_precision_def)
    ultimately obtain k where k: "k \<le> p - 65" "find_high_bit (cn_high n) (p - 1) (push_bit (p - 1 - 64) 1) = Some (k + 64)"
        "bit (cn_high n) k" "\<forall>j > k. \<not> bit (cn_high n) j"
      using find_high_bit_found [of "cn_high n" "p - 65" 64] False by (metis (no_types))
    then show ?thesis using False p64
      by (intro exI [of _ "k + 64"]) (auto simp: divisor_bit_def bit_ubits simp del: push_bit_of_1)
  next
    case True
    define i where "i = (if 64 < p then p - 64 - 1 else p - 1)"
    have i: "i < 64" "i < p" using p by (auto simp: i_def valid_precision_def)
    have "cn_low n \<noteq> 0" using n(2) True by (auto simp: ubits_def udval_def)
    moreover have "take_bit (Suc i) (cn_low n) = cn_low n"
    proof -
      have "ubits n < 2 ^ 64" using True high_zero_iff by blast
      then have "p \<le> 64 \<or> p = 128" using assms(4) by linarith
      then show ?thesis using lo by (intro bit_word_eqI) (fastforce simp: bit_take_bit_iff i_def)
    qed
    ultimately obtain k where k: "k \<le> i" "find_high_bit (cn_low n) i (push_bit i 1) = Some k"
        "bit (cn_low n) k" "\<forall>j > k. \<not> bit (cn_low n) j"
      using find_high_bit_found [of "cn_low n" i 0] i by auto
    then show ?thesis using True i
      by (intro exI [of _ k]) (auto simp: divisor_bit_def bit_ubits i_def [symmetric] simp del: push_bit_of_1)
  qed
  then show ?thesis using high_bit_bounds ubits_range(1) [of n] by metis
qed


lemma halve_ubits: "ubits (halve n) = ubits n div 2"
proof -
  have "holds_int False (cn_low n) (cn_high n) (ubits n)"
    by (auto simp: holds_int_def ubits_def dest: bit_ubits_less [of n, unfolded ubits_def])
  from holds_int_bits [OF this, of 1] have "holds_int False (cn_low (halve n)) (cn_high (halve n)) (drop_bit 1 (ubits n))"
    by (simp add: halve_def smask_def)
  from holds_int_take_bit [OF this, of 128] have "take_bit 128 (ubits (halve n)) = take_bit 128 (drop_bit 1 (ubits n))"
    by (simp add: ubits_def)
  moreover have "take_bit 128 (ubits (halve n)) = ubits (halve n)"
    using ubits_range [of "halve n"] by (intro take_bit_int_eq_self)
  moreover have "take_bit 128 (drop_bit 1 (ubits n)) = ubits n div 2"
    using ubits_range [of n] by (simp add: drop_bit_eq_div take_bit_int_eq_self)
  ultimately show ?thesis by simp
qed

lemma halve_fields [simp]: "unsignedp (halve n) = unsignedp n"
  by (simp add: halve_def)

lemma set_quotient_bit_ubits:
  assumes "i < 128" "ubits r = q * 2 ^ Suc i"
  shows "ubits (set_quotient_bit r i) = (2 * q + 1) * 2 ^ i"
proof -
  have "ubits (set_quotient_bit r i) = ubits r OR 2 ^ i"
    using assms(1) by (intro bit_eqI) (auto simp: set_quotient_bit_def bit_ubits bit_simps)
  also have "\<dots> = ubits r + 2 ^ i"
  proof (rule disjunctive_add [symmetric])
    fix j
    have "q * 2 ^ Suc i = q * 2 * 2 ^ i" by simp
    then have "\<not> bit (q * 2 ^ Suc i) i" by (simp only: bit_iff_odd nonzero_mult_div_cancel_right) simp
    then show "\<not> bit (ubits r) j \<or> \<not> bit (2 ^ i :: int) j" unfolding assms(2) by (auto simp: bit_exp_iff)
  qed
  finally show ?thesis by (simp add: assms(2) algebra_simps)
qed

lemma division_step:
  fixes pfile :: cpp_reader and R q :: int
  defines "p \<equiv> cpp_precision pfile"
  assumes p: "valid_precision p" and t: "trimmed p lhs" "trimmed p sub" and u: "unsignedp lhs" and i: "i < 128"
    and sub: "ubits sub = R * 2 ^ i" "ubits lhs < R * 2 ^ Suc i" and r: "ubits r = q * 2 ^ Suc i"
  shows "\<exists>l r2 b. (if num_greater_eq lhs sub p
        then (fst (num_binary_op pfile lhs sub CPP_MINUS), set_quotient_bit r i) else (lhs, r)) = (l, r2) \<and>
      trimmed p l \<and> unsignedp l \<and> ubits l = ubits lhs - of_bool b * (R * 2 ^ i) \<and> 0 \<le> ubits l \<and> ubits l < R * 2 ^ i \<and>
      ubits r2 = (2 * q + of_bool b) * 2 ^ i"
proof (cases "num_greater_eq lhs sub p")
  case True
  have ge: "ubits sub \<le> ubits lhs"
    using True num_greater_eq_cread [OF p t, of True] u by (simp add: cread_def)
  have eq: "fst (num_binary_op pfile lhs sub CPP_MINUS) = num_sub lhs sub p"
    by (simp add: num_binary_op_def num_sub_def p_def)
  have "ubits (num_sub lhs sub p) = take_bit p (ubits lhs - ubits sub)"
    using num_sub_cread [OF p, of True lhs sub] by (simp add: cread_def wrap_def)
  also have "\<dots> = ubits lhs - ubits sub"
    using ge trimmed_range [OF t(1)] trimmed_range(1) [OF t(2)] by (intro take_bit_int_eq_self) linarith+
  finally show ?thesis
    using True sub u ge num_sub_trimmed [OF p] set_quotient_bit_ubits [OF i r]
    by (intro exI [of _ "num_sub lhs sub p"] exI [of _ "set_quotient_bit r i"] exI [of _ True]) (simp add: eq)
next
  case False
  then have "ubits lhs < ubits sub"
    using num_greater_eq_cread [OF p t, of True] u by (simp add: cread_def)
  then show ?thesis using False assms trimmed_range(1) [OF t(1)]
    by (intro exI [of _ lhs] exI [of _ r] exI [of _ False]) simp
qed

text \<open>
  The long division: with \<open>sub = R * 2 ^ i\<close>, a dividend below \<open>2 * sub\<close> and a quotient whose bits up to
  \<open>i\<close> are clear, the loop leaves the remainder and adds the quotient.
\<close>

lemma div_loop_correct:
  assumes p: "valid_precision (cpp_precision pfile)" and R: "0 < R"
    and "trimmed (cpp_precision pfile) lhs" "trimmed (cpp_precision pfile) sub" "unsignedp lhs" "i < 128"
    and "ubits sub = R * 2 ^ i" "ubits lhs < R * 2 ^ Suc i" "ubits r = q * 2 ^ Suc i"
    and "div_loop pfile i lhs sub r = (lhs', r')"
  shows "ubits lhs' = ubits lhs mod R \<and> ubits r' = q * 2 ^ Suc i + ubits lhs div R \<and>
    trimmed (cpp_precision pfile) lhs'"
  using assms(3-)
proof (induction i arbitrary: lhs sub r q)
  let ?p = "cpp_precision pfile"
  {
    case 0
    from division_step [OF p 0(1-7)] obtain l r2 b where s: "(if num_greater_eq lhs sub ?p
        then (fst (num_binary_op pfile lhs sub CPP_MINUS), set_quotient_bit r 0) else (lhs, r)) = (l, r2)"
      and l: "trimmed ?p l" "ubits l = ubits lhs - of_bool b * R" "0 \<le> ubits l" "ubits l < R" "ubits r2 = 2 * q + of_bool b"
      by auto
    have "lhs' = l" "r' = r2" using 0(8) s by (simp_all add: div_loop.simps [of _ 0])
    moreover have "ubits lhs div R = of_bool b" "ubits lhs mod R = ubits l"
      using l by (auto intro!: int_div_pos_eq [where r = "ubits l"] int_mod_pos_eq [where q = "of_bool b"])
    ultimately show ?case using l by simp
  next
    case (Suc i)
    from division_step [OF p Suc.prems(1-7)] obtain l r2 b where s: "(if num_greater_eq lhs sub ?p
        then (fst (num_binary_op pfile lhs sub CPP_MINUS), set_quotient_bit r (Suc i)) else (lhs, r)) = (l, r2)"
      and l: "trimmed ?p l" "unsignedp l" "ubits l = ubits lhs - of_bool b * (R * 2 ^ Suc i)" "0 \<le> ubits l"
        "ubits l < R * 2 ^ Suc i" "ubits r2 = (2 * q + of_bool b) * 2 ^ Suc i"
      by blast
    have h: "ubits (halve sub) = R * 2 ^ i" "trimmed ?p (halve sub)"
    proof -
      show h: "ubits (halve sub) = R * 2 ^ i" using Suc.prems(5) by (simp add: halve_ubits)
      have "R * 2 ^ i \<le> ubits sub" using R Suc.prems(5) by simp
      then show "trimmed ?p (halve sub)"
        using R trimmed_range [OF Suc.prems(2)] unfolding trimmed_def h by (intro take_bit_int_eq_self) simp_all
    qed
    have "div_loop pfile i l (halve sub) r2 = (lhs', r')" using Suc.prems(8) s by (simp add: div_loop.simps [of _ "Suc i"])
    from Suc.IH [OF l(1) h(2) l(2) _ h(1) l(5,6) this] Suc.prems(4)
    have "ubits lhs' = ubits l mod R" "ubits r' = (2 * q + of_bool b) * 2 ^ Suc i + ubits l div R" "trimmed ?p lhs'" by auto
    moreover have "ubits lhs = ubits l + of_bool b * 2 ^ Suc i * R" using l(3) by simp
    then have "ubits lhs mod R = ubits l mod R" "ubits lhs div R = ubits l div R + of_bool b * 2 ^ Suc i"
      using R by (simp_all only: mod_mult_self1 div_mult_self1)
    ultimately show ?case by (simp add: algebra_simps)
  }
qed

lemma div_core:
  fixes pfile :: cpp_reader
  defines "p \<equiv> cpp_precision pfile"
  assumes p: "valid_precision p" and t: "trimmed p lhs" "trimmed p rhs" and R: "ubits rhs \<noteq> 0"
    and "p \<le> 64 \<or> p = 128 \<or> 2 ^ 64 \<le> ubits rhs" and z: "ubits zero = 0"
  shows "\<exists>k l q. divisor_bit rhs p = Some (Inr k) \<and>
    div_loop pfile (p - k - 1) (lhs\<lparr>unsignedp := True\<rparr>) (num_lshift (rhs\<lparr>unsignedp := True\<rparr>) p (p - k - 1)) zero = (l, q) \<and>
    ubits l = ubits lhs mod ubits rhs \<and> ubits q = ubits lhs div ubits rhs \<and> trimmed p l"
proof -
  from divisor_bit_found [OF p t(2) R assms(6)] obtain k where k: "k < p" "divisor_bit rhs p = Some (Inr k)"
    "2 ^ k \<le> ubits rhs" "ubits rhs < 2 ^ Suc k" by blast
  let ?i = "p - k - 1" and ?sub = "num_lshift (rhs\<lparr>unsignedp := True\<rparr>) p (p - k - 1)"
  have e: "Suc k + ?i = p" "k + Suc ?i = p" using k(1) by simp_all
  have pos: "0 < ubits rhs" using R ubits_range(1) [of rhs] by linarith
  have "ubits rhs * 2 ^ ?i < 2 ^ Suc k * 2 ^ ?i" using k(4) by (intro mult_strict_right_mono) simp_all
  then have "ubits rhs * 2 ^ ?i < 2 ^ p" by (simp only: power_add [symmetric] e)
  then have sub: "ubits ?sub = ubits rhs * 2 ^ ?i" "trimmed p ?sub"
    using pos trimmedI [OF num_lshift_ubits [OF p]]
    by (simp_all add: num_lshift_ubits [OF p] push_bit_eq_mult take_bit_int_eq_self)
  have "2 ^ p \<le> ubits rhs * 2 ^ Suc ?i"
  proof -
    have "2 ^ p = 2 ^ k * (2 :: int) ^ Suc ?i" by (simp only: power_add [symmetric] e)
    also have "\<dots> \<le> ubits rhs * 2 ^ Suc ?i" using k(3) by (intro mult_right_mono) simp_all
    finally show ?thesis .
  qed
  then have lt: "ubits (lhs\<lparr>unsignedp := True\<rparr>) < ubits rhs * 2 ^ Suc ?i" using trimmed_range(2) [OF t(1)] by simp
  have z0: "ubits zero = 0 * 2 ^ Suc ?i" using z by simp
  have i: "?i < 128" using p k(1) by (auto simp: valid_precision_def)
  have l: "trimmed p (lhs\<lparr>unsignedp := True\<rparr>)" "unsignedp (lhs\<lparr>unsignedp := True\<rparr>)" using t(1) by simp_all
  obtain l' q' where d: "div_loop pfile ?i (lhs\<lparr>unsignedp := True\<rparr>) ?sub zero = (l', q')" by (metis surj_pair)
  from div_loop_correct [OF p [unfolded p_def] pos l(1) [unfolded p_def] sub(2) [unfolded p_def] l(2) i [unfolded p_def]
      sub(1) [unfolded p_def] lt [unfolded p_def] z0 [unfolded p_def] d [unfolded p_def]]
  have "ubits l' = ubits lhs mod ubits rhs \<and> ubits q' = ubits lhs div ubits rhs \<and> trimmed p l'"
    unfolding p_def by simp
  then show ?thesis using k(2) d by blast
qed

text \<open>Division that truncates towards zero.\<close>

definition c_quot :: "int \<Rightarrow> int \<Rightarrow> int" where
  "c_quot x y = sgn x * sgn y * (\<bar>x\<bar> div \<bar>y\<bar>)"

lemma c_quot_nonneg: "0 \<le> x \<Longrightarrow> 0 < y \<Longrightarrow> c_quot x y = x div y \<and> c_rem x y = x mod y"
  by (auto simp: c_quot_def c_rem_def sgn_if)

lemma c_quot_sign: "c_quot x y = (if (x < 0) \<noteq> (y < 0) then - (\<bar>x\<bar> div \<bar>y\<bar>) else \<bar>x\<bar> div \<bar>y\<bar>)" if "y \<noteq> 0"
  using that by (auto simp: c_quot_def sgn_if)

lemma num_div_op_unsigned:
  fixes pfile :: cpp_reader
  defines "p \<equiv> cpp_precision pfile"
  assumes p: "valid_precision p" and t: "trimmed p a" "trimmed p b" and u: "unsignedp a \<or> unsignedp b"
    and b: "ubits b \<noteq> 0" "p \<le> 64 \<or> p = 128 \<or> 2 ^ 64 \<le> ubits b"
  shows "\<exists>r. num_div_op pfile a b opn = Some (Inr (r, pfile)) \<and> unsignedp r \<and> \<not> overflow r \<and>
    ubits r = (if opn = CPP_DIV then ubits a div ubits b else ubits a mod ubits b)"
proof -
  have "ubits \<lparr>cn_high = 0, cn_low = 0, unsignedp = False, overflow = False\<rparr> = 0" by (simp add: udval_def)
  from div_core [OF p [unfolded p_def] t [unfolded p_def] b [unfolded p_def] this]
  obtain k l q where "divisor_bit b p = Some (Inr k)" "div_loop pfile (p - k - 1) (a\<lparr>unsignedp := True\<rparr>)
      (num_lshift (b\<lparr>unsignedp := True\<rparr>) p (p - k - 1)) \<lparr>cn_high = 0, cn_low = 0, unsignedp = False, overflow = False\<rparr> = (l, q)"
    "ubits l = ubits a mod ubits b" "ubits q = ubits a div ubits b"
    unfolding p_def by blast
  then show ?thesis
    using u b(1) by (simp add: num_div_op_def num_zerop_ubits p_def [symmetric])
qed

text \<open>The sign of the quotient and the remainder.\<close>

lemma signed_quotient:
  fixes neg :: bool
  assumes p: "valid_precision p" and q: "ubits q = Q" "0 \<le> Q" "Q < 2 ^ p"
  defines "r \<equiv> if neg then num_negate q p else q"
  shows "ubits r = take_bit p (if neg then - Q else Q)"
    and "num_positive r p \<noteq> (\<not> neg) \<and> \<not> num_zerop r \<longleftrightarrow> \<not> fits p False (if neg then - Q else Q)"
proof -
  show r: "ubits r = take_bit p (if neg then - Q else Q)"
    using q by (simp add: r_def num_negate_ubits [OF p] take_bit_int_eq_self)
  show "num_positive r p \<noteq> (\<not> neg) \<and> \<not> num_zerop r \<longleftrightarrow> \<not> fits p False (if neg then - Q else Q)"
    by (rule sign_check [OF p r refl q(2,3)])
qed

lemma signed_remainder:
  fixes neg :: bool
  assumes p: "valid_precision p" and l: "trimmed p l" "\<not> unsignedp l" "\<not> overflow l" "ubits l < 2 ^ (p - 1)"
  defines "r \<equiv> if neg then num_negate l p else l"
  shows "ubits r = take_bit p (if neg then - ubits l else ubits l)" and "\<not> overflow r"
proof -
  show "ubits r = take_bit p (if neg then - ubits l else ubits l)"
    using l(1) by (simp add: r_def num_negate_ubits [OF p] trimmed_def)
  have "fits p False (- cread p False l)"
    using l trimmed_range(1) [OF l(1)] by (simp add: fits_def cread_cases [OF p l(1)] le_less_trans [of _ 0])
  then show "\<not> overflow r" using l(2,3) by (simp add: r_def num_negate_overflow [OF p l(1)])
qed

lemma num_div_op_signed:
  fixes pfile :: cpp_reader
  defines "p \<equiv> cpp_precision pfile"
  assumes p: "valid_precision p" and t: "trimmed p a" "trimmed p b" and u: "\<not> (unsignedp a \<or> unsignedp b)"
    and xy: "x = cread p False a" "y = cread p False b" and y: "y \<noteq> 0" "p \<le> 64 \<or> p = 128 \<or> 2 ^ 64 \<le> \<bar>y\<bar>"
  shows "\<exists>r. num_div_op pfile a b opn = Some (Inr (r, pfile)) \<and> \<not> unsignedp r \<and>
    ubits r = take_bit p (if opn = CPP_DIV then c_quot x y else c_rem x y) \<and>
    overflow r = (opn = CPP_DIV \<and> \<not> fits p False (c_quot x y))"
proof -
  obtain na a' neg b' where m: "num_magnitude a p False = (na, a')" "num_magnitude b p na = (neg, b')"
    by (metis surj_pair)
  note sa = num_magnitude_spec [OF p t(1) m(1), folded xy] and sb = num_magnitude_spec [OF p t(2) m(2), folded xy]
  have z: "ubits \<lparr>cn_high = 0, cn_low = 0, unsignedp = False, overflow = False\<rparr> = 0" by (simp add: udval_def)
  have b': "ubits b' \<noteq> 0" "p \<le> 64 \<or> p = 128 \<or> 2 ^ 64 \<le> ubits b'" using y sb(2) by simp_all
  from div_core [OF p [unfolded p_def] sa(3) [unfolded p_def] sb(3) [unfolded p_def] b' [unfolded p_def] z]
  obtain k l q where d: "divisor_bit b' p = Some (Inr k)" "div_loop pfile (p - k - 1) (a'\<lparr>unsignedp := True\<rparr>)
      (num_lshift (b'\<lparr>unsignedp := True\<rparr>) p (p - k - 1)) \<lparr>cn_high = 0, cn_low = 0, unsignedp = False, overflow = False\<rparr> = (l, q)"
    "ubits l = \<bar>x\<bar> mod \<bar>y\<bar>" "ubits q = \<bar>x\<bar> div \<bar>y\<bar>" "trimmed p l"
    unfolding p_def sa(2) sb(2) by blast
  have neg: "na = (x < 0)" "neg = ((x < 0) \<noteq> (y < 0))" using sa(1) sb(1) by auto
  have f: "\<bar>x\<bar> < 2 ^ p" "\<bar>y\<bar> \<le> 2 ^ (p - 1)"
    using cread_fits [OF p t(1), of False] cread_fits [OF p t(2), of False] fits_magnitude [OF p]
    unfolding xy by (auto simp: fits_def)
  have "1 \<le> \<bar>y\<bar>" using y(1) by simp
  from zdiv_mono2 [OF _ _ this, of "\<bar>x\<bar>"] have Q: "0 \<le> \<bar>x\<bar> div \<bar>y\<bar>" "\<bar>x\<bar> div \<bar>y\<bar> < 2 ^ p"
    using y(1) f(1) by (simp_all add: pos_imp_zdiv_nonneg_iff)
  have R: "\<bar>x\<bar> mod \<bar>y\<bar> < 2 ^ (p - 1)" using y(1) f(2) pos_mod_bound [of "\<bar>y\<bar>" "\<bar>x\<bar>"] by linarith
  let ?q = "q\<lparr>unsignedp := False, overflow := False\<rparr>" and ?l = "l\<lparr>unsignedp := False, overflow := False\<rparr>"
  have nz: "\<not> num_zerop b'" using b'(1) by (simp add: num_zerop_ubits)
  show ?thesis
  proof (cases "opn = CPP_DIV")
    case True
    let ?r = "if neg then num_negate ?q p else ?q"
    have "num_div_op pfile a b opn = Some (Inr (?r\<lparr>overflow := num_positive ?r p \<noteq> (\<not> neg) \<and> \<not> num_zerop ?r\<rparr>, pfile))"
      using u True nz d(1,2) m by (simp add: num_div_op_def Let_def p_def [symmetric])
    moreover have "c_quot x y = (if neg then - (\<bar>x\<bar> div \<bar>y\<bar>) else \<bar>x\<bar> div \<bar>y\<bar>)"
      unfolding neg(2) by (rule c_quot_sign) fact
    ultimately show ?thesis using True signed_quotient [OF p _ Q, of ?q neg] d(4) by simp
  next
    case False
    let ?r = "if na then num_negate ?l p else ?l"
    have "num_div_op pfile a b opn = Some (Inr (?r, pfile))"
      using u False nz d(1,2) m by (simp add: num_div_op_def p_def [symmetric])
    moreover have "c_rem x y = (if na then - (\<bar>x\<bar> mod \<bar>y\<bar>) else \<bar>x\<bar> mod \<bar>y\<bar>)" by (auto simp: c_rem_def sgn_if neg(1))
    ultimately show ?thesis
      using False signed_remainder [OF p, of ?l na] d(3,5) R by simp
  qed
qed

lemma num_div_op_nonzero:
  fixes pfile :: cpp_reader
  assumes "p = cpp_precision pfile" "valid_precision p" "trimmed p a" "trimmed p b"
    and "u = (unsignedp a \<or> unsignedp b)" "x = cread p u a" "y = cread p u b"
    and y: "y \<noteq> 0" "p \<le> 64 \<or> p = 128 \<or> 2 ^ 64 \<le> \<bar>y\<bar>"
  shows "\<exists>r. num_div_op pfile a b opn = Some (Inr (r, pfile)) \<and> unsignedp r = u \<and>
      ubits r = take_bit p (if opn = CPP_DIV then c_quot x y else c_rem x y) \<and>
      overflow r = (opn = CPP_DIV \<and> \<not> fits p u (c_quot x y))"
proof (cases u)
  case True
  then have xy: "x = ubits a" "y = ubits b" using assms(6,7) by (simp_all add: cread_def)
  have r: "0 \<le> x" "x < 2 ^ p" "0 < y" "y < 2 ^ p" using y(1) trimmed_range assms(3,4) unfolding xy by fastforce+
  moreover have "x mod y < y" "x div y \<le> x" using r zdiv_mono2 [of x 1 y] by simp_all
  ultimately have "0 \<le> x div y" "x div y < 2 ^ p" "0 \<le> x mod y" "x mod y < 2 ^ p"
    by (simp_all add: pos_imp_zdiv_nonneg_iff del: pos_mod_bound)
  then show ?thesis
    using True r num_div_op_unsigned [of pfile a b opn] assms(1-5) y
    by (auto simp: xy [symmetric] c_quot_nonneg take_bit_int_eq_self fits_def)
next
  case False
  then show ?thesis using num_div_op_signed [of pfile a b x y opn] assms by simp
qed

lemma num_div_op_zero:
  fixes pfile :: cpp_reader
  assumes "p = cpp_precision pfile" and p: "valid_precision p" and t: "trimmed p a" "trimmed p b"
    and u: "u = (unsignedp a \<or> unsignedp b)" "x = cread p u a" "cread p u b = 0"
  shows "\<exists>r. num_div_op pfile a b opn = Some (Inr (r, if skip_eval pfile = 0
      then cpp_error pfile CPP_DL_ERROR ''division by zero in #if'' else pfile)) \<and> ubits r = \<bar>x\<bar>"
proof (cases u)
  case True
  then show ?thesis using assms(1) u ubits_range(1) [of a] by (simp add: num_div_op_def num_zerop_ubits cread_def)
next
  case False
  obtain na a' neg b' where m: "num_magnitude a p False = (na, a')" "num_magnitude b p na = (neg, b')"
    by (metis surj_pair)
  show ?thesis
    using False num_magnitude_spec(2) [OF p t(1) m(1)] num_magnitude_spec(2) [OF p t(2) m(2)] m assms(1) u
    by (simp add: num_div_op_def num_zerop_ubits)
qed

text \<open>
  C9: Division and remainder in \<open>#if\<close>. For a precision of at most one word, or of two full words, or a
  divisor of two words, and a divisor that is not zero, the code returns, without a diagnostic: the quotient
  is the exact quotient, truncated towards zero and wrapped around, with overflow flagged exactly when
  it does not fit (the most negative number divided by \<open>-1\<close>); the remainder is exact and has the sign of the
  dividend. Both operands are read as unsigned when one is. Division by zero is an error, unless
  the operand is not evaluated, and gives the magnitude of the dividend.
\<close>

theorem num_div_op_value:
  fixes pfile :: cpp_reader
  assumes "p = cpp_precision pfile" "valid_precision p" "trimmed p a" "trimmed p b"
    and "u = (unsignedp a \<or> unsignedp b)" "x = cread p u a" "y = cread p u b" "opn = CPP_DIV \<or> opn = CPP_MOD"
  shows "(y \<noteq> 0 \<and> (p \<le> 64 \<or> p = 128 \<or> 2 ^ 64 \<le> \<bar>y\<bar>) \<longrightarrow>
      (\<exists>r. num_div_op pfile a b opn = Some (Inr (r, pfile)) \<and> trimmed p r \<and> unsignedp r = u \<and>
         cpp_val p r = wrap p u (if opn = CPP_DIV then c_quot x y else c_rem x y) \<and>
         overflow r = (opn = CPP_DIV \<and> \<not> fits p u (c_quot x y)))) \<and>
    (y = 0 \<longrightarrow>
      (\<exists>r. num_div_op pfile a b opn = Some (Inr (r, if skip_eval pfile = 0
           then cpp_error pfile CPP_DL_ERROR ''division by zero in #if'' else pfile)) \<and> ubits r = \<bar>x\<bar>))"
proof (intro conjI impI)
  assume "y \<noteq> 0 \<and> (p \<le> 64 \<or> p = 128 \<or> 2 ^ 64 \<le> \<bar>y\<bar>)"
  with num_div_op_nonzero [OF assms(1-7)] obtain r where r: "num_div_op pfile a b opn = Some (Inr (r, pfile))" "unsignedp r = u"
    "ubits r = take_bit p (if opn = CPP_DIV then c_quot x y else c_rem x y)"
    "overflow r = (opn = CPP_DIV \<and> \<not> fits p u (c_quot x y))"
    by blast
  from cread_eq_wrap [OF assms(2) r(3), of u] trimmedI [OF r(3)] r(1,2,4)
  show "\<exists>r. num_div_op pfile a b opn = Some (Inr (r, pfile)) \<and> trimmed p r \<and> unsignedp r = u \<and>
         cpp_val p r = wrap p u (if opn = CPP_DIV then c_quot x y else c_rem x y) \<and>
         overflow r = (opn = CPP_DIV \<and> \<not> fits p u (c_quot x y))"
    by (intro exI [of _ r]) (simp add: cpp_val_def)
qed (use num_div_op_zero [OF assms(1-6)] assms(7) in simp)

lemma num_div_op_value_witness:
  "\<exists>r. num_div_op example_reader (cnum (- 7)) (cnum 2) CPP_MOD = Some (Inr (r, example_reader)) \<and> cpp_val 64 r = - 1"
proof -
  have p: "64 = cpp_precision example_reader" "valid_precision 64"
    by (simp_all add: example_reader_def valid_precision_def)
  have u: "False = (unsignedp (cnum (- 7)) \<or> unsignedp (cnum 2))" "CPP_MOD = CPP_DIV \<or> CPP_MOD = CPP_MOD" by simp_all
  have "cread 64 False (cnum 2) \<noteq> 0"
    "wrap 64 False (if CPP_MOD = CPP_DIV then c_quot (cread 64 False (cnum (- 7))) (cread 64 False (cnum 2))
       else c_rem (cread 64 False (cnum (- 7))) (cread 64 False (cnum 2))) = - 1"
    by (simp_all add: cnum_cread c_rem_def wrap_def)
  then show ?thesis
    using num_div_op_value [OF p cnum_trimmed cnum_trimmed u(1) refl refl u(2)] by force
qed

text \<open>
  For a precision strictly between one and two words and a divisor of one word, the search starts at
  the wrong bit of the low word: with 65 bits, dividing by 2 never ends.
\<close>

lemma find_high_bit_mask: "find_high_bit part i msk = Some k \<Longrightarrow> msk \<noteq> 0"
proof (induction rule: find_high_bit.raw_induct [rotated, consumes 1, case_names step])
  case (step f part i msk k)
  show ?case
  proof (cases "part AND msk = 0")
    case True
    then have "drop_bit 1 msk \<noteq> 0" using step by simp
    then show ?thesis by auto
  qed auto
qed

lemma num_div_op_hangs:
  "num_div_op (example_reader\<lparr>cpp_precision := 65\<rparr>) (cnum 6) (cnum 2) CPP_DIV = None"
proof -
  have "find_high_bit 2 0 0 = None" using find_high_bit_mask by (metis not_None_eq)
  then have "find_high_bit 2 0 1 = None" by (subst find_high_bit.simps) simp
  then have "divisor_bit (cnum 2) 65 = None" by (simp add: divisor_bit_def)
  moreover have "num_magnitude (cnum 2) 65 False = (False, cnum 2)" "num_magnitude (cnum 6) 65 False = (False, cnum 6)"
    by (simp_all add: num_magnitude_def num_positive_def)
  ultimately show ?thesis by (simp add: num_div_op_def num_zerop_def)
qed

end
