(* ===== verification/Spec2Isabelle.thy ===== *)
theory Spec2Isabelle
  imports Gcc_Prelude Double_Word Tree_Code Double_Div Double_Int Comparison_Codes Int_Const
    Bit_Set_Interface Sbitmap Sbitmap_Sets Bitmap Bitmap_Sets Splay_Tree Expmed_Div Expand_Divmod Synth_Mult
    Prime_Sizes Hashtab Hashtab_Sets Partition Cpp_Num Cpp_Muldiv
begin

text \<open>
  A verification library for the arithmetic and the containers of GCC 4.4, the C sources under \<open>src/\<close>.

  \<^bold>\<open>The program.\<close> GCC reads a source file (front ends and \<open>libcpp\<close>), turns it into trees and RTL,
  optimizes them in passes, and prints assembler (the back ends under \<open>gcc/config\<close>). All of it rests on a
  core that this library models: the two-word integers in which every constant is computed, the
  folding of constant expressions and comparisons, the numbers of \<open>#if\<close>, the instruction sequences that replace divisions
  and multiplications by constants, and the containers of the passes: simple and sparse bit sets,
  splay trees, hash tables and partitions. Folding uses the two-word arithmetic and the division;
  the expansion of divisions uses the division for its multipliers and the logarithms; the passes
  use the containers through the operations modelled here.

  \<^bold>\<open>Conventions\<close> (\<open>Gcc_Prelude\<close>). The host is the usual one: a \<open>HOST_WIDE_INT\<close> has 64 bits, an
  \<open>int\<close> 32; both are words, with wrap-around. A failed assertion or \<open>abort\<close> is \<open>Inl Ice\<close>, an operation that C leaves
  undefined (a shift out of range, an access out of bounds or through a null or freed pointer) is
  \<open>Inl Undefined\<close>, so that a result \<open>Inr\<close> also says that neither happens. Loops are structural or
  have a measure; where the code may not end they take fuel, or are partial functions, and \<open>None\<close> is a run
  that needs more or does not end.
  Memory that is allocated, printed text and cleanup calls are values returned by the operations.

  \<^bold>\<open>Arithmetic.\<close>
  \<^item> \<open>Double_Word\<close>: \<open>gcc/fold-const.c\<close>, \<open>encode\<close> to \<open>rrotate_double\<close>. The value of a pair of words and what
    addition, negation, multiplication, shifts and rotations do to it, with exact overflow flags.
  \<^item> \<open>Double_Div\<close>: \<open>div_and_round_double\<close>, Knuth's division on half words, for all roundings of \<open>Tree_Code\<close>
    (\<open>gcc/tree.def\<close>): quotient, remainder, overflow, and where rounding to nearest errs.
  \<^item> \<open>Double_Int\<close>: \<open>gcc/double-int.c\<close> and \<open>.h\<close>: modular arithmetic, extension, comparison, decimal output
    and the conversions to GMP, which is a parameter.
  \<^item> \<open>Int_Const\<close>: \<open>int_const_binop\<close>, \<open>fit_double_type\<close>, \<open>fold_relational_const\<close> and the unary folds: folded
    constants are exact modulo the type, and their overflow flags too.
  \<^item> \<open>Comparison_Codes\<close>: \<open>invert_tree_comparison\<close>, \<open>swap_tree_comparison\<close>, \<open>combine_comparisons\<close>: values and
    traps of folded comparisons, with unordered operands.
  \<^item> \<open>Expmed_Div\<close>, \<open>Expand_Divmod\<close>: \<open>gcc/expmed.c\<close> and the logarithms of \<open>gcc/toplev.c\<close>. The sequences emitted for
    constant divisors are expressions with a value for every operand, and that value is the quotient in the
    modes of 3 to 64 bits; a wider mode where it is not.
  \<^item> \<open>Synth_Mult\<close>: \<open>synth_mult\<close>, \<open>choose_mult_variant\<close>, \<open>expand_mult_const\<close>. The search with its hash table and
    its costs in a \<open>short\<close>, and the cost tables as \<open>init_expmed\<close> fills them. When every operation costs at least
    \<open>lc\<close> (one or more) and at most 16383, and the cost limit is below \<open>lc * MAX_BITS_PER_WORD\<close>, fuel of the cost
    limit plus two is enough, because every step costs at least one; no sequence outgrows its arrays,
    and what is emitted multiplies by the constant.
  \<^item> \<open>Cpp_Num\<close>, \<open>Cpp_Muldiv\<close>: \<open>libcpp/expr.c\<close>, \<open>num_trim\<close> to \<open>num_div_op\<close>: the numbers of \<open>#if\<close> in 1 to 128 bits, on the sums
    and negations of \<open>Double_Word\<close>. Every operator gives the exact result wrapped around to the precision; where
    its overflow flag is exact, and the operands for which it is not; division ends for the precisions of one
    word or of two full words, and a case where it does not.

  \<^bold>\<open>Containers.\<close>
  \<^item> \<open>Bit_Set_Interface\<close>: the contracts of bit sets, as locales, with the facts their clients use.
  \<^item> \<open>Sbitmap\<close>, \<open>Sbitmap_Sets\<close>: \<open>gcc/sbitmap.c\<close> and \<open>.h\<close>: arrays of words, with population counts; invariants, set
    semantics, exact change flags, iteration, the meets over the edges of a flow graph.
  \<^item> \<open>Bitmap\<close>, \<open>Bitmap_Sets\<close>: \<open>gcc/bitmap.c\<close>: linked lists of elements with a search cache. Bit updates,
    union, intersection, difference and symmetric difference refine sets; a case in which the cache
    is left on a freed element.
  \<^item> \<open>Splay_Tree\<close>: \<open>libiberty/splay-tree.c\<close>: top-down splaying, insertion, removal, neighbours, deletion, for
    every comparison that satisfies the locale \<open>comparator\<close>.
  \<^item> \<open>Hashtab\<close>, \<open>Hashtab_Sets\<close>: \<open>libiberty/hashtab.c\<close>: open addressing. \<open>Prime_Sizes\<close> certifies that the sizes are
    primes, so that a probe visits every slot and \<open>ht_size\<close> steps are enough fuel; remainders by
    multiplication are exact; tables below \<open>2^31\<close> slots refine sets for every hash and equality that
    satisfy the locale \<open>hash_contract\<close>.
  \<^item> \<open>Partition\<close>: \<open>libiberty/partition.c\<close>: disjoint sets on circular lists. The partitions that unions can build are an
    inductive relation; in each of them classes are connected components and unions end.

  \<^bold>\<open>How the properties are proved.\<close> Each component has its data, one definition per operation, a
  well-formedness invariant with a preservation lemma per operation, and an abstraction function (an
  integer, a set, a finite map); a property composes these lemmas. Interfaces between components are
  locales, interpreted on the operations of the model. A property with hypotheses is followed by a
  witness that instantiates it.

  \<^bold>\<open>Not modelled.\<close> The front ends, the preprocessor except for the arithmetic of \<open>#if\<close>, the tree and RTL passes and the back ends: they
  work on trees and RTL whose semantics is not given in the sources as code, or are tables for a
  target. Of \<open>fold-const.c\<close> the simplifications of non-constant trees; of \<open>expmed.c\<close> bit fields, shifts, store
  flags and the choice of modes; software floating point (\<open>real.c\<close>, \<open>libdecnumber\<close>); of \<open>libiberty\<close> the system
  interfaces, the demangler and the regular expressions. The component list of the manifest names
  them one by one.
\<close>

end
